(* ===== verification/Rust_Str.thy ===== *)
theory Rust_Str
  imports Main "HOL-Library.Sublist" "HOL-Library.Char_ord" "HOL-Library.List_Lexorder"
begin

text \<open>
  The prelude: the part of the Rust standard library that the modelled crates use on
  \<^verbatim>\<open>&str\<close>, integers and \<^verbatim>\<open>Result\<close>, with the generic lemmas the component theories share.

  A \<^verbatim>\<open>&str\<close> is its UTF-8 byte sequence, a list of the 256 values of \<^typ>\<open>char\<close>. Every
  delimiter the modelled code splits at is ASCII, and an ASCII byte never occurs inside a
  multi-byte UTF-8 sequence, so splitting bytes is splitting characters. An offset into a
  string is a byte offset, as in Rust.
\<close>

section \<open>Collections of facts\<close>

named_theorems str_simps \<open>equations of the string primitives on concrete or constructed strings\<close>
named_theorems result_elims \<open>inversions of the Result combinators\<close>

section \<open>Results\<close>

type_synonym str = string

text \<open>\<^verbatim>\<open>Result<T, E>\<close> is \<open>'e + 'a\<close>, \<open>Inl\<close> the error; \<open>and_then\<close> is the \<open>?\<close> operator.\<close>

definition and_then :: "'e + 'a \<Rightarrow> ('a \<Rightarrow> 'e + 'b) \<Rightarrow> 'e + 'b" where
  "and_then r f = (case r of Inl e \<Rightarrow> Inl e | Inr a \<Rightarrow> f a)"

definition ok_or :: "'a option \<Rightarrow> 'e \<Rightarrow> 'e + 'a" where
  "ok_or x e = (case x of None \<Rightarrow> Inl e | Some a \<Rightarrow> Inr a)"

lemma and_then_simps [simp]:
  "and_then (Inl e) f = Inl e"
  "and_then (Inr a) f = f a"
  by (simp_all add: and_then_def)

lemma ok_or_simps [simp]:
  "ok_or None e = Inl e"
  "ok_or (Some a) e = Inr a"
  by (simp_all add: ok_or_def)

lemma and_then_Inr [result_elims]: "and_then r f = Inr b \<longleftrightarrow> (\<exists>a. r = Inr a \<and> f a = Inr b)"
  by (cases r) auto

lemma ok_or_Inr [result_elims]: "ok_or x e = Inr a \<longleftrightarrow> x = Some a"
  by (cases x) auto

text \<open>The continuation only runs on the value of the first step.\<close>

lemma and_then_cong [fundef_cong]:
  "r = r' \<Longrightarrow> (\<And>a. r' = Inr a \<Longrightarrow> f a = g a) \<Longrightarrow> and_then r f = and_then r' g"
  by (cases r') auto

section \<open>Bytes\<close>

definition byte :: "char \<Rightarrow> nat" where
  "byte c = of_char c"

definition ascii_lower :: "char \<Rightarrow> bool" where
  "ascii_lower c \<longleftrightarrow> 97 \<le> byte c \<and> byte c \<le> 122"

definition ascii_digit :: "char \<Rightarrow> bool" where
  "ascii_digit c \<longleftrightarrow> 48 \<le> byte c \<and> byte c \<le> 57"

lemma byte_less_256: "byte c < 256"
  by (simp add: byte_def)

lemma char_of_byte [simp]: "char_of (byte c) = c"
  by (simp add: byte_def)

lemma byte_char_of [simp]: "n < 256 \<Longrightarrow> byte (char_of n) = n"
  by (simp add: byte_def)

lemma byte_inject [simp]: "byte c = byte d \<longleftrightarrow> c = d"
  by (metis char_of_byte)

section \<open>Splitting at a byte\<close>

text \<open>\<^verbatim>\<open>s.split_once(c)\<close>: the parts around the first occurrence.\<close>

fun split_once :: "char \<Rightarrow> str \<Rightarrow> (str \<times> str) option" where
  "split_once c [] = None"
| "split_once c (x # xs) =
     (if x = c then Some ([], xs)
      else map_option (\<lambda>(l, r). (x # l, r)) (split_once c xs))"

text \<open>\<^verbatim>\<open>s.split(c)\<close>: all parts, at least one.\<close>

fun split_chr :: "char \<Rightarrow> str \<Rightarrow> str list" where
  "split_chr c [] = [[]]"
| "split_chr c (x # xs) =
     (if x = c then [] # split_chr c xs
      else (case split_chr c xs of [] \<Rightarrow> [[x]] | p # ps \<Rightarrow> (x # p) # ps))"

text \<open>\<^verbatim>\<open>s.split(c).next()\<close> is always \<open>Some\<close>.\<close>

definition split_first :: "char \<Rightarrow> str \<Rightarrow> str" where
  "split_first c s = hd (split_chr c s)"

definition split_head :: "str \<Rightarrow> char \<Rightarrow> str" where
  "split_head s c = (case split_once c s of None \<Rightarrow> s | Some (l, _) \<Rightarrow> l)"

text \<open>\<^verbatim>\<open>s.rsplit_once(c)\<close>: the parts around the last occurrence.\<close>

definition rsplit_once :: "char \<Rightarrow> str \<Rightarrow> (str \<times> str) option" where
  "rsplit_once c s = map_option (\<lambda>(l, r). (rev r, rev l)) (split_once c (rev s))"

text \<open>\<^verbatim>\<open>s.find(c)\<close>: the offset of the first occurrence.\<close>

fun find_chr :: "char \<Rightarrow> str \<Rightarrow> nat option" where
  "find_chr c [] = None"
| "find_chr c (x # xs) = (if x = c then Some 0 else map_option Suc (find_chr c xs))"

text \<open>\<^verbatim>\<open>parts.join(sep)\<close>.\<close>

fun join :: "str \<Rightarrow> str list \<Rightarrow> str" where
  "join sep [] = []"
| "join sep [p] = p"
| "join sep (p # q # ps) = p @ sep @ join sep (q # ps)"

lemma split_once_None: "split_once c s = None \<longleftrightarrow> c \<notin> set s"
  by (induction s) auto

lemma split_once_Some: "split_once c s = Some (l, r) \<longleftrightarrow> s = l @ c # r \<and> c \<notin> set l"
proof (induction s arbitrary: l)
  case Nil
  then show ?case by simp
next
  case (Cons x xs)
  show ?case
    by (cases "x = c"; cases l) (auto simp: Cons.IH)
qed

lemma split_once_append [str_simps]: "c \<notin> set l \<Longrightarrow> split_once c (l @ c # r) = Some (l, r)"
  by (simp add: split_once_Some)

lemma split_chr_not_Nil [simp]: "split_chr c s \<noteq> []"
  by (induction s) (auto split: list.splits)

lemma split_chr_none: "c \<notin> set s \<Longrightarrow> split_chr c s = [s]"
  by (induction s) auto

lemma split_chr_append [str_simps]:
  "c \<notin> set l \<Longrightarrow> split_chr c (l @ c # r) = l # split_chr c r"
  by (induction l) auto

lemma split_first_takeWhile: "split_first c s = takeWhile (\<lambda>x. x \<noteq> c) s"
  by (induction s) (auto simp: split_first_def split: list.splits)

lemma split_head_takeWhile: "split_head s c = takeWhile (\<lambda>x. x \<noteq> c) s"
proof (cases "split_once c s")
  case None
  then have "c \<notin> set s" by (simp add: split_once_None)
  then have "takeWhile (\<lambda>x. x \<noteq> c) s = s" by (metis (mono_tags, lifting) takeWhile_eq_all_conv)
  then show ?thesis by (simp only: split_head_def None option.case)
next
  case (Some p)
  then obtain l r where p: "p = (l, r)" "s = l @ c # r" "c \<notin> set l"
    by (cases p) (auto simp: split_once_Some)
  then have "takeWhile (\<lambda>x. x \<noteq> c) s = l" by (auto simp: takeWhile_append)
  with Some p show ?thesis by (simp add: split_head_def)
qed

lemma split_chr_parts: "p \<in> set (split_chr c s) \<Longrightarrow> c \<notin> set p"
  by (induction s arbitrary: p) (auto split: list.splits if_splits)

lemma join_Cons: "ps \<noteq> [] \<Longrightarrow> join sep (p # ps) = p @ sep @ join sep ps"
  by (cases ps) auto

lemma join_split_chr: "join [c] (split_chr c s) = s"
proof (induction s)
  case (Cons x xs)
  obtain p ps where "split_chr c xs = p # ps" by (cases "split_chr c xs") auto
  with Cons show ?case by (cases ps) auto
qed simp

lemma split_chr_join:
  "ps \<noteq> [] \<Longrightarrow> \<forall>p \<in> set ps. c \<notin> set p \<Longrightarrow> split_chr c (join [c] ps) = ps"
proof (induction ps)
  case (Cons p ps)
  then show ?case
    by (cases ps) (auto simp: split_chr_none split_chr_append)
qed simp

lemma find_chr_split_once: "find_chr c s = map_option (\<lambda>(l, r). length l) (split_once c s)"
  by (induction s) (auto simp: option.map_comp comp_def split_def)

lemma rsplit_once_None: "rsplit_once c s = None \<longleftrightarrow> c \<notin> set s"
  by (simp add: rsplit_once_def split_once_None)

lemma rsplit_once_Some: "rsplit_once c s = Some (l, r) \<longleftrightarrow> s = l @ c # r \<and> c \<notin> set r"
proof -
  have "rsplit_once c s = Some (l, r) \<longleftrightarrow> split_once c (rev s) = Some (rev r, rev l)"
    by (auto simp: rsplit_once_def)
  also have "\<dots> \<longleftrightarrow> rev s = rev r @ c # rev l \<and> c \<notin> set r"
    by (simp add: split_once_Some)
  also have "rev s = rev r @ c # rev l \<longleftrightarrow> s = l @ c # r"
    by (metis append.assoc append_Cons append_Nil rev.simps(2) rev_append rev_rev_ident)
  finally show ?thesis .
qed

section \<open>Prefixes and suffixes\<close>

fun strip_prefix :: "str \<Rightarrow> str \<Rightarrow> str option" where
  "strip_prefix [] s = Some s"
| "strip_prefix (p # ps) [] = None"
| "strip_prefix (p # ps) (x # xs) = (if p = x then strip_prefix ps xs else None)"

definition strip_suffix :: "str \<Rightarrow> str \<Rightarrow> str option" where
  "strip_suffix p s = map_option rev (strip_prefix (rev p) (rev s))"

definition starts_with :: "str \<Rightarrow> str \<Rightarrow> bool" where
  "starts_with p s \<longleftrightarrow> strip_prefix p s \<noteq> None"

lemma strip_prefix_Some: "strip_prefix p s = Some r \<longleftrightarrow> s = p @ r"
  by (induction p s rule: strip_prefix.induct) auto

lemma strip_prefix_append [simp]: "strip_prefix p (p @ r) = Some r"
  by (simp add: strip_prefix_Some)

lemma strip_prefix_self [simp]: "strip_prefix p p = Some []"
  using strip_prefix_append [of p "[]"] by simp

lemma strip_prefix_None: "strip_prefix p s = None \<longleftrightarrow> \<not> prefix p s"
  using strip_prefix_Some [of p s] by (metis not_Some_eq prefix_def)

lemma strip_suffix_Some: "strip_suffix p s = Some r \<longleftrightarrow> s = r @ p"
proof -
  have "strip_suffix p s = Some r \<longleftrightarrow> rev s = rev p @ rev r"
    by (auto simp: strip_suffix_def strip_prefix_Some)
  also have "\<dots> \<longleftrightarrow> s = r @ p"
    by (metis rev_append rev_rev_ident)
  finally show ?thesis .
qed

lemma strip_suffix_append [simp]: "strip_suffix p (r @ p) = Some r"
  by (simp add: strip_suffix_Some)

lemma starts_with_prefix: "starts_with p s \<longleftrightarrow> prefix p s"
  by (simp add: starts_with_def strip_prefix_None)

section \<open>Lines\<close>

text \<open>
  \<^verbatim>\<open>s.lines()\<close>: cut after every newline, drop the newline and one carriage return before it;
  a final piece without a newline is a line as it stands, an empty one is no line.
\<close>

fun strip_cr :: "str \<Rightarrow> str" where
  "strip_cr s = (case rev s of [] \<Rightarrow> s | c # cs \<Rightarrow> if c = CHR 0x0D then rev cs else s)"

definition lines :: "str \<Rightarrow> str list" where
  "lines s = (let ps = split_chr CHR 0x0A s in
     map strip_cr (butlast ps) @ (if last ps = [] then [] else [last ps]))"

definition no_trailing_cr :: "str \<Rightarrow> bool" where
  "no_trailing_cr s \<longleftrightarrow> (s = [] \<or> last s \<noteq> CHR 0x0D)"

lemma strip_cr_id: "no_trailing_cr s \<Longrightarrow> strip_cr s = s"
  by (cases s rule: rev_cases) (auto simp: no_trailing_cr_def)

lemma set_strip_cr: "c \<in> set (strip_cr s) \<Longrightarrow> c \<in> set s"
  by (cases s rule: rev_cases) (auto split: if_splits)

lemma lines_join:
  assumes "ls \<noteq> []" and "\<forall>l \<in> set ls. CHR 0x0A \<notin> set l"
    and "\<forall>l \<in> set (butlast ls). no_trailing_cr l" and "last ls \<noteq> []"
  shows "lines (join [CHR 0x0A] ls) = ls"
proof -
  have "map strip_cr (butlast ls) = butlast ls"
    using assms(3) by (intro map_idI strip_cr_id) auto
  moreover have "split_chr CHR 0x0A (join [CHR 0x0A] ls) = ls"
    using assms(1,2) by (rule split_chr_join)
  ultimately show ?thesis
    using assms(1,4) by (simp add: lines_def append_butlast_last_id)
qed

lemma lines_no_newline: "l \<in> set (lines s) \<Longrightarrow> CHR 0x0A \<notin> set l"
proof -
  assume l: "l \<in> set (lines s)"
  have parts: "CHR 0x0A \<notin> set p" if "p \<in> set (split_chr CHR 0x0A s)" for p
    using that by (rule split_chr_parts)
  have "l \<in> strip_cr ` set (butlast (split_chr CHR 0x0A s)) \<or> l = last (split_chr CHR 0x0A s)"
    using l by (simp add: lines_def Let_def split: if_splits del: strip_cr.simps)
  then show ?thesis
    using parts by (auto simp del: strip_cr.simps dest!: in_set_butlastD set_strip_cr)
qed

text \<open>What a run of \<^verbatim>\<open>writeln!\<close> leaves: each line with its newline.\<close>

definition terminated :: "str list \<Rightarrow> str" where
  "terminated ls = concat (map (\<lambda>l. l @ [CHR 0x0A]) ls)"

lemma terminated_simps [simp]:
  "terminated [] = []" "terminated (l # ls) = l @ [CHR 0x0A] @ terminated ls"
  "terminated (ls @ ms) = terminated ls @ terminated ms"
  by (simp_all add: terminated_def)

lemma join_terminated: "join [CHR 0x0A] (ls @ [m]) = terminated ls @ m"
  by (induction ls) (auto simp: join_Cons)

lemma lines_terminated:
  assumes "\<forall>l \<in> set ls. CHR 0x0A \<notin> set l \<and> no_trailing_cr l"
  shows "lines (terminated ls) = ls"
proof -
  have "split_chr CHR 0x0A (terminated ls) = ls @ [[]]"
    using assms by (induction ls) (auto simp: split_chr_append)
  moreover have "map strip_cr ls = ls"
    using assms by (intro map_idI strip_cr_id) auto
  ultimately show ?thesis by (simp add: lines_def del: strip_cr.simps)
qed

section \<open>Whitespace\<close>

text \<open>
  The \<^verbatim>\<open>White_Space\<close> characters, in UTF-8: what \<^verbatim>\<open>trim\<close> and \<^verbatim>\<open>split_whitespace\<close> remove. UTF-8 is
  self-synchronising, so on well-formed text a byte suffix of this list is a character.
\<close>

definition ws_chars :: "str list" where
  "ws_chars =
     [[CHR 0x09], [CHR 0x0A], [CHR 0x0B], [CHR 0x0C], [CHR 0x0D], [CHR 0x20],
      [CHR 0xC2, CHR 0x85], [CHR 0xC2, CHR 0xA0], [CHR 0xE1, CHR 0x9A, CHR 0x80],
      [CHR 0xE2, CHR 0x80, CHR 0x80], [CHR 0xE2, CHR 0x80, CHR 0x81],
      [CHR 0xE2, CHR 0x80, CHR 0x82], [CHR 0xE2, CHR 0x80, CHR 0x83],
      [CHR 0xE2, CHR 0x80, CHR 0x84], [CHR 0xE2, CHR 0x80, CHR 0x85],
      [CHR 0xE2, CHR 0x80, CHR 0x86], [CHR 0xE2, CHR 0x80, CHR 0x87],
      [CHR 0xE2, CHR 0x80, CHR 0x88], [CHR 0xE2, CHR 0x80, CHR 0x89],
      [CHR 0xE2, CHR 0x80, CHR 0x8A], [CHR 0xE2, CHR 0x80, CHR 0xA8],
      [CHR 0xE2, CHR 0x80, CHR 0xA9], [CHR 0xE2, CHR 0x80, CHR 0xAF],
      [CHR 0xE2, CHR 0x81, CHR 0x9F], [CHR 0xE3, CHR 0x80, CHR 0x80]]"

text \<open>The rest of \<open>s\<close> after a leading element of \<open>ps\<close>, if there is one.\<close>

fun strip_any :: "str list \<Rightarrow> str \<Rightarrow> str option" where
  "strip_any [] s = None"
| "strip_any (p # ps) s =
     (if p = [] then strip_any ps s
      else case strip_prefix p s of Some r \<Rightarrow> Some r | None \<Rightarrow> strip_any ps s)"

lemma strip_any_shorter: "strip_any ps s = Some r \<Longrightarrow> length r < length s"
  by (induction ps) (auto simp: strip_prefix_Some split: if_splits option.splits)

function trim_any :: "str list \<Rightarrow> str \<Rightarrow> str" where
  "trim_any ps s = (case strip_any ps s of None \<Rightarrow> s | Some r \<Rightarrow> trim_any ps r)"
  by pat_completeness auto
termination
  by (relation "measure (\<lambda>(ps, s). length s)") (auto dest: strip_any_shorter)

declare trim_any.simps [simp del]

definition trim_start :: "str \<Rightarrow> str" where
  "trim_start s = trim_any ws_chars s"

definition trim_end :: "str \<Rightarrow> str" where
  "trim_end s = rev (trim_any (map rev ws_chars) (rev s))"

definition trim :: "str \<Rightarrow> str" where
  "trim s = trim_end (trim_start s)"

text \<open>
  \<^verbatim>\<open>s.split_whitespace().next()\<close>: skip leading whitespace; the token runs to the next
  whitespace character or the end, and there is none on blank text.
\<close>

fun token :: "str \<Rightarrow> str" where
  "token [] = []"
| "token (x # xs) = (if strip_any ws_chars (x # xs) \<noteq> None then [] else x # token xs)"

definition first_token :: "str \<Rightarrow> str option" where
  "first_token s = (let t = token (trim_start s) in if t = [] then None else Some t)"

lemma trim_any_id: "strip_any ps s = None \<Longrightarrow> trim_any ps s = s"
  by (simp add: trim_any.simps)

section \<open>Integers\<close>

text \<open>
  \<^verbatim>\<open>uN::from_str_radix\<close>: one leading plus sign is skipped when a digit follows it; then every
  byte is a digit below the radix and the value is at most the type's maximum.
\<close>

definition digit_val :: "char \<Rightarrow> nat option" where
  "digit_val c = (let n = byte c in
     if 48 \<le> n \<and> n \<le> 57 then Some (n - 48)
     else if 65 \<le> n \<and> n \<le> 70 then Some (n - 55)
     else if 97 \<le> n \<and> n \<le> 102 then Some (n - 87)
     else None)"

fun digits_value :: "nat \<Rightarrow> nat \<Rightarrow> nat \<Rightarrow> str \<Rightarrow> nat option" where
  "digits_value radix lim acc [] = Some acc"
| "digits_value radix lim acc (c # cs) =
     (case digit_val c of
        None \<Rightarrow> None
      | Some d \<Rightarrow>
          if d < radix \<and> acc * radix + d \<le> lim
          then digits_value radix lim (acc * radix + d) cs else None)"

definition parse_uint :: "nat \<Rightarrow> nat \<Rightarrow> str \<Rightarrow> nat option" where
  "parse_uint radix lim s =
     (case s of
        [] \<Rightarrow> None
      | c # cs \<Rightarrow>
          if c = CHR ''+'' then (if cs = [] then None else digits_value radix lim 0 cs)
          else digits_value radix lim 0 (c # cs))"

definition u32_max :: nat where
  "u32_max = 4294967295"

text \<open>The decimal spelling of a number, as \<^verbatim>\<open>to_string\<close> writes it.\<close>

fun to_dec :: "nat \<Rightarrow> str" where
  "to_dec n = (if n < 10 then [char_of (48 + n)] else to_dec (n div 10) @ [char_of (48 + n mod 10)])"

declare to_dec.simps [simp del]

lemma digit_val_dec: "d < 10 \<Longrightarrow> digit_val (char_of (48 + d)) = Some d"
  by (auto simp: digit_val_def Let_def)

lemma digits_value_snoc:
  "digits_value r m a cs = Some v \<Longrightarrow> digit_val c = Some d \<Longrightarrow> d < r \<Longrightarrow> v * r + d \<le> m \<Longrightarrow>
   digits_value r m a (cs @ [c]) = Some (v * r + d)"
  by (induction cs arbitrary: a) (auto split: option.splits if_splits)

lemma digits_value_to_dec: "n \<le> m \<Longrightarrow> digits_value 10 m 0 (to_dec n) = Some n"
proof (induction n rule: to_dec.induct)
  case (1 n)
  show ?case
  proof (cases "n < 10")
    case True
    with "1.prems" show ?thesis
      by (subst to_dec.simps) (simp add: digit_val_dec)
  next
    case False
    with "1.prems" have "digits_value 10 m 0 (to_dec (n div 10)) = Some (n div 10)"
      by (intro "1.IH") auto
    moreover have "n div 10 * 10 + n mod 10 = n" by simp
    ultimately have "digits_value 10 m 0 (to_dec (n div 10) @ [char_of (48 + n mod 10)]) = Some n"
      using digits_value_snoc [of 10 m 0 "to_dec (n div 10)" "n div 10" _ "n mod 10"] "1.prems"
      by (simp add: digit_val_dec)
    with False show ?thesis by (subst to_dec.simps) simp
  qed
qed

lemma to_dec_digits: "c \<in> set (to_dec n) \<Longrightarrow> ascii_digit c"
proof (induction n rule: to_dec.induct)
  case (1 n)
  have digit: "ascii_digit (char_of (48 + d))" if "d < 10" for d :: nat
    using that by (simp add: ascii_digit_def)
  from "1.prems" show ?case
    by (subst (asm) to_dec.simps)
      (auto split: if_splits intro: "1.IH" digit)
qed

lemma to_dec_not_Nil [simp]: "to_dec n \<noteq> []"
  by (subst to_dec.simps) simp

lemma to_dec_inject [simp]: "to_dec m = to_dec n \<longleftrightarrow> m = n"
proof
  assume "to_dec m = to_dec n"
  then have "digits_value 10 (m + n) 0 (to_dec m) = digits_value 10 (m + n) 0 (to_dec n)" by simp
  moreover have "digits_value 10 (m + n) 0 (to_dec m) = Some m" by (rule digits_value_to_dec) simp
  moreover have "digits_value 10 (m + n) 0 (to_dec n) = Some n" by (rule digits_value_to_dec) simp
  ultimately show "m = n" by simp
qed simp

lemma to_dec_no:
  assumes "\<not> ascii_digit c"
  shows "c \<notin> set (to_dec n)"
  using assms to_dec_digits by blast

lemma to_dec_hd_zero: "hd (to_dec n) = CHR ''0'' \<Longrightarrow> n = 0"
proof (induction n rule: to_dec.induct)
  case (1 n)
  show ?case
  proof (cases "n < 10")
    case True
    then have "char_of (48 + n) = CHR ''0''"
      using "1.prems" by (subst (asm) to_dec.simps) simp
    then have "byte (char_of (48 + n)) = 48" by (simp add: byte_def)
    with True show ?thesis by simp
  next
    case False
    with "1.prems" have "hd (to_dec (n div 10)) = CHR ''0''"
      by (subst (asm) to_dec.simps) (simp add: hd_append)
    with "1.IH" False have "n div 10 = 0" by simp
    with False show ?thesis by simp
  qed
qed

lemma parse_uint_to_dec: "n \<le> m \<Longrightarrow> parse_uint 10 m (to_dec n) = Some n"
proof -
  assume "n \<le> m"
  obtain c cs where eq: "to_dec n = c # cs"
    by (cases "to_dec n") auto
  then have "ascii_digit c" using to_dec_digits [of c n] by simp
  then have "c \<noteq> CHR ''+''" by (auto simp: ascii_digit_def byte_def)
  with eq \<open>n \<le> m\<close> show ?thesis
    using digits_value_to_dec [of n m] by (simp add: parse_uint_def)
qed

section \<open>Well-formed UTF-8\<close>

text \<open>\<^verbatim>\<open>core::str::from_utf8\<close> succeeds on exactly these byte sequences; every \<^verbatim>\<open>&str\<close> is one.\<close>

definition cont_byte :: "char \<Rightarrow> bool" where
  "cont_byte c \<longleftrightarrow> 128 \<le> byte c \<and> byte c \<le> 191"

fun utf8_valid :: "str \<Rightarrow> bool" where
  "utf8_valid [] = True"
| "utf8_valid (a # s) =
     (let n = byte a in
      if n < 128 then utf8_valid s
      else if 194 \<le> n \<and> n \<le> 223 then
        (case s of b # r \<Rightarrow> cont_byte b \<and> utf8_valid r | _ \<Rightarrow> False)
      else if 224 \<le> n \<and> n \<le> 239 then
        (case s of b # c # r \<Rightarrow>
           cont_byte b \<and> (n = 224 \<longrightarrow> 160 \<le> byte b) \<and> (n = 237 \<longrightarrow> byte b \<le> 159) \<and>
           cont_byte c \<and> utf8_valid r | _ \<Rightarrow> False)
      else if 240 \<le> n \<and> n \<le> 244 then
        (case s of b # c # d # r \<Rightarrow>
           cont_byte b \<and> (n = 240 \<longrightarrow> 144 \<le> byte b) \<and> (n = 244 \<longrightarrow> byte b \<le> 143) \<and>
           cont_byte c \<and> cont_byte d \<and> utf8_valid r | _ \<Rightarrow> False)
      else False)"

lemma utf8_valid_ascii: "byte a < 128 \<Longrightarrow> utf8_valid (a # s) = utf8_valid s"
  by (simp add: Let_def)

lemma utf8_valid_ascii_all: "\<forall>c \<in> set s. byte c < 128 \<Longrightarrow> utf8_valid s"
  by (induction s) (simp_all add: Let_def)

declare utf8_valid.simps(2) [simp del]

section \<open>Substrings\<close>

text \<open>\<^verbatim>\<open>s.find(p)\<close> for a string pattern: the offset of its first occurrence.\<close>

fun find_str :: "str \<Rightarrow> str \<Rightarrow> nat option" where
  "find_str p [] = (if p = [] then Some 0 else None)"
| "find_str p (x # xs) =
     (if starts_with p (x # xs) then Some 0 else map_option Suc (find_str p xs))"

lemma starts_with_append [simp]: "starts_with p (p @ r)"
  by (simp add: starts_with_def)

lemma find_str_None: "find_str p s = None \<longleftrightarrow> \<not> sublist p s"
  by (induction s) (auto simp: starts_with_prefix sublist_Cons_right)

lemma find_str_skip: "c \<notin> set u \<Longrightarrow> find_str (c # p) (u @ c # p @ v) = Some (length u)"
proof (induction u)
  case Nil
  show ?case using starts_with_append [of "c # p" v] by simp
qed (auto simp: starts_with_prefix)

text \<open>\<^verbatim>\<open>s.rsplit_once(p)\<close> for a string pattern: the parts around its last occurrence.\<close>

definition rsplit_str :: "str \<Rightarrow> str \<Rightarrow> (str \<times> str) option" where
  "rsplit_str p s =
     (case find_str (rev p) (rev s) of
        None \<Rightarrow> None
      | Some k \<Rightarrow> Some (take (length s - k - length p) s, drop (length s - k) s))"

lemma rsplit_str_None: "rsplit_str p s = None \<longleftrightarrow> \<not> sublist p s"
  using find_str_None [of "rev p" "rev s"] by (auto simp: rsplit_str_def split: option.splits)

text \<open>A pattern whose last byte does not occur after it is found where it stands.\<close>

lemma rsplit_str_append:
  assumes "c \<notin> set r"
  shows "rsplit_str (p @ [c]) (l @ (p @ [c]) @ r) = Some (l, r)"
proof -
  have "find_str (c # rev p) (rev r @ c # rev p @ rev l) = Some (length (rev r))"
    using assms by (intro find_str_skip) simp
  then show ?thesis by (simp add: rsplit_str_def)
qed

section \<open>Ordered maps\<close>

text \<open>
  \<^verbatim>\<open>BTreeMap<String, V>\<close> is the list of its entries in key order; the order of strings is the
  lexicographic order of their bytes.
\<close>

definition btree_ok :: "('k::linorder \<times> 'v) list \<Rightarrow> bool" where
  "btree_ok m \<longleftrightarrow> sorted_wrt (<) (map fst m)"

fun btree_insert :: "'k::linorder \<times> 'v \<Rightarrow> ('k \<times> 'v) list \<Rightarrow> ('k \<times> 'v) list" where
  "btree_insert kv [] = [kv]"
| "btree_insert kv (e # m) =
     (if fst kv < fst e then kv # e # m
      else if fst kv = fst e then kv # m
      else e # btree_insert kv m)"

lemma keys_btree_insert: "fst ` set (btree_insert kv m) = insert (fst kv) (fst ` set m)"
  by (induction m) auto

lemma btree_insert_ok: "btree_ok m \<Longrightarrow> btree_ok (btree_insert kv m)"
proof (induction m)
  case (Cons e m)
  have "\<forall>k \<in> fst ` set (btree_insert kv m). fst e < k" if "fst e < fst kv"
    using that Cons.prems unfolding keys_btree_insert by (auto simp: btree_ok_def)
  with Cons show ?case by (force simp: btree_ok_def)
qed (simp add: btree_ok_def)

lemma btree_insert_last:
  "\<forall>k \<in> fst ` set m. k < fst kv \<Longrightarrow> btree_insert kv m = m @ [kv]"
  by (induction m) auto

lemma btree_ok_simps [simp]:
  "btree_ok []" "btree_ok (e # m) \<longleftrightarrow> (\<forall>k \<in> fst ` set m. fst e < k) \<and> btree_ok m"
  by (simp_all add: btree_ok_def)

lemma btree_distinct: "btree_ok m \<Longrightarrow> distinct (map fst m)"
  by (induction m) auto

lemma map_of_btree_insert:
  "btree_ok m \<Longrightarrow> map_of (btree_insert kv m) = (map_of m)(fst kv \<mapsto> snd kv)"
proof (induction m)
  case (Cons e m)
  then show ?case by (cases kv; cases e) (auto simp: fun_eq_iff)
qed (cases kv, simp)

lemma set_btree_insert_sub: "set (btree_insert kv m) \<subseteq> insert kv (set m)"
  by (induction m) auto

text \<open>Two ordered maps with the same lookups are the same list.\<close>

lemma btree_determined:
  assumes "btree_ok m" "btree_ok m'" "map_of m = map_of m'"
  shows "m = m'"
proof (rule map_sorted_distinct_set_unique [where f = fst])
  have sets: "set m = set m'"
    using assms map_of_inject_set [of m m'] btree_distinct by blast
  show "inj_on fst (set m \<union> set m')"
    using btree_distinct [OF assms(1)] sets by (simp add: distinct_map)
  show "set m = set m'" by (rule sets)
qed (use assms in \<open>auto simp: btree_ok_def strict_sorted_iff\<close>)

end
