(* ===== verification/Addr.thy ===== *)
theory Addr
  imports Rust_Str
begin

text \<open>
  The agent-plane address \<^verbatim>\<open>[root:]path[#selector]\<close> and the mount-set projection
  (\<^verbatim>\<open>crates/addr/src/lib.rs\<close>): the parser and its rendering, the lexical predicates that
  share its colon law, and the lookup table of bound, unreachable and aliased roots.
\<close>

section \<open>Mount names and addresses\<close>

datatype addr_error =
    BadMountName str
  | EmptyMountName
  | EmptyPath
  | AmbiguousColon str

datatype mount_name = MountName (as_str: str)

definition mount_char :: "char \<Rightarrow> bool" where
  "mount_char b \<longleftrightarrow> ascii_lower b \<or> ascii_digit b \<or> b = CHR ''-''"

definition mount_name_parse :: "str \<Rightarrow> addr_error + mount_name" where
  "mount_name_parse name =
     (if name = [] then Inl EmptyMountName
      else if \<not> list_all mount_char name then Inl (BadMountName name)
      else Inr (MountName name))"

record addr =
  root :: "mount_name option"
  path :: str
  selector :: "str option"

text \<open>The head: the text before the first slash of the text before the first hash.\<close>

definition head_of :: "str \<Rightarrow> str" where
  "head_of before_frag = split_first CHR ''/'' before_frag"

definition addr_parse :: "str \<Rightarrow> addr_error + addr" where
  "addr_parse spelling =
     (let (before_frag, frag) = (case split_once CHR ''#'' spelling of
            Some (left, frag) \<Rightarrow> (left, Some frag)
          | None \<Rightarrow> (spelling, None));
          head = head_of before_frag;
          colons = length (filter (\<lambda>b. b = CHR '':'') head)
      in and_then
           (if colons = 0 then Inr (None, before_frag)
            else if colons = 1 then
              (let colon = (case find_chr CHR '':'' head of Some i \<Rightarrow> i | None \<Rightarrow> 0)
               in and_then (mount_name_parse (take colon head))
                    (\<lambda>name. let rest = drop (colon + 1) before_frag
                            in if rest = [] then Inl EmptyPath else Inr (Some name, rest)))
            else Inl (AmbiguousColon head))
           (\<lambda>(rt, p). if p = [] then Inl EmptyPath
                      else Inr \<lparr>root = rt, path = p, selector = frag\<rparr>))"

definition addr_display :: "addr \<Rightarrow> str" where
  "addr_display a =
     (case root a of None \<Rightarrow> [] | Some r \<Rightarrow> as_str r @ '':'') @ path a @
     (case selector a of None \<Rightarrow> [] | Some sel \<Rightarrow> ''#'' @ sel)"

definition selector_text :: "addr \<Rightarrow> str" where
  "selector_text a = (case selector a of None \<Rightarrow> [] | Some s \<Rightarrow> s)"

definition has_selector :: "addr \<Rightarrow> bool" where
  "has_selector a \<longleftrightarrow> selector a \<noteq> None"

definition target :: "addr \<Rightarrow> str" where
  "target a = (case root a of Some r \<Rightarrow> as_str r @ '':'' @ path a | None \<Rightarrow> path a)"

definition with_path :: "addr \<Rightarrow> str \<Rightarrow> addr_error + addr" where
  "with_path a p =
     and_then (addr_parse p)
       (\<lambda>reparsed.
          if root reparsed \<noteq> None \<or> selector reparsed \<noteq> None then Inl (AmbiguousColon p)
          else Inr \<lparr>root = root a, path = path reparsed, selector = selector a\<rparr>)"

definition head_carries_root_separator :: "str \<Rightarrow> bool" where
  "head_carries_root_separator spelling =
     (let before_frag = split_head (trim spelling) CHR ''#''
      in CHR '':'' \<in> set (head_of before_frag))"

definition confined :: "str \<Rightarrow> bool" where
  "confined p \<longleftrightarrow>
     \<not> (p = [] \<or> starts_with ''/'' p) \<and>
     \<not> list_ex (\<lambda>seg. seg = [] \<or> seg = ''.'' \<or> seg = ''..'') (split_chr CHR ''/'' p) \<and>
     CHR '':'' \<notin> set (split_first CHR ''/'' p)"

subsection \<open>Well-formed addresses\<close>

text \<open>The invariant the sole constructor establishes.\<close>

definition mount_name_ok :: "mount_name \<Rightarrow> bool" where
  "mount_name_ok n \<longleftrightarrow> as_str n \<noteq> [] \<and> list_all mount_char (as_str n)"

definition addr_path_ok :: "str \<Rightarrow> bool" where
  "addr_path_ok p \<longleftrightarrow> p \<noteq> [] \<and> CHR ''#'' \<notin> set p \<and> CHR '':'' \<notin> set (head_of p)"

definition addr_ok :: "addr \<Rightarrow> bool" where
  "addr_ok a \<longleftrightarrow> pred_option mount_name_ok (root a) \<and> addr_path_ok (path a)"

lemma mount_char_not_delimiter:
  "mount_char c \<Longrightarrow> c \<noteq> CHR '':'' \<and> c \<noteq> CHR ''/'' \<and> c \<noteq> CHR ''#''"
  by (auto simp: mount_char_def ascii_lower_def ascii_digit_def byte_def)

lemma mount_name_parse_Inr:
  "mount_name_parse s = Inr n \<longleftrightarrow> n = MountName s \<and> mount_name_ok n"
  by (auto simp: mount_name_parse_def mount_name_ok_def)

lemma mount_name_parse_as_str: "mount_name_ok n \<Longrightarrow> mount_name_parse (as_str n) = Inr n"
  by (cases n) (simp add: mount_name_parse_Inr)

lemma mount_name_delimiters:
  "mount_name_ok n \<Longrightarrow>
   CHR '':'' \<notin> set (as_str n) \<and> CHR ''/'' \<notin> set (as_str n) \<and> CHR ''#'' \<notin> set (as_str n)"
  unfolding mount_name_ok_def list_all_iff using mount_char_not_delimiter by blast

lemma head_of_append: "CHR ''/'' \<notin> set n \<Longrightarrow> head_of (n @ r) = n @ head_of r"
  by (induction n) (auto simp: head_of_def split_first_takeWhile)

lemma head_of_prefix: "\<exists>r. p = head_of p @ r"
  unfolding head_of_def split_first_takeWhile by (metis takeWhile_dropWhile_id)

lemma head_of_Cons: "x \<noteq> CHR ''/'' \<Longrightarrow> head_of (x # xs) = x # head_of xs"
  by (simp add: head_of_def split_first_takeWhile)

lemma slash_not_in_head: "CHR ''/'' \<notin> set (head_of p)"
  by (auto simp: head_of_def split_first_takeWhile dest: set_takeWhileD)

text \<open>A head with one colon splits around it, and the rest of the text follows.\<close>

lemma filter_one_split:
  "length (filter (\<lambda>b. b = c) h) = 1 \<Longrightarrow>
   \<exists>l r. h = l @ c # r \<and> c \<notin> set l \<and> c \<notin> set r"
proof -
  assume one: "length (filter (\<lambda>b. b = c) h) = 1"
  have "c \<in> set h"
  proof (rule ccontr)
    assume "c \<notin> set h"
    then have "filter (\<lambda>b. b = c) h = []" by (auto simp: filter_empty_conv)
    with one show False by simp
  qed
  then obtain l r where h: "h = l @ c # r" "c \<notin> set l" by (meson split_list_first)
  with one have "filter (\<lambda>b. b = c) r = []" by simp
  then have "c \<notin> set r" by (auto simp: filter_empty_conv)
  with h show ?thesis by blast
qed

lemma find_chr_append: "c \<notin> set l \<Longrightarrow> find_chr c (l @ c # r) = Some (length l)"
  by (induction l) auto

lemma one_colon_head:
  assumes "length (filter (\<lambda>b. b = CHR '':'') (head_of s)) = 1"
  obtains l r where "s = l @ CHR '':'' # r" and "CHR '':'' \<notin> set l"
    and "CHR ''/'' \<notin> set l" and "CHR '':'' \<notin> set (head_of r)"
    and "find_chr CHR '':'' (head_of s) = Some (length l)" and "take (length l) (head_of s) = l"
proof -
  from filter_one_split [OF assms] obtain l h where
    h: "head_of s = l @ CHR '':'' # h" "CHR '':'' \<notin> set l" "CHR '':'' \<notin> set h" by blast
  obtain r where s: "s = head_of s @ r" using head_of_prefix by blast
  have slash: "CHR ''/'' \<notin> set l" using slash_not_in_head [of s] h by auto
  have s': "s = l @ CHR '':'' # (h @ r)" using s h by simp
  have "head_of s = l @ CHR '':'' # head_of (h @ r)"
    by (subst s') (simp add: head_of_append [OF slash] head_of_Cons)
  then have "head_of (h @ r) = h" using h by simp
  then show thesis using that [OF s' h(2) slash] h by (simp add: find_chr_append)
qed

lemma addr_path_ok_split:
  "addr_path_ok p \<longleftrightarrow> p \<noteq> [] \<and> split_once CHR ''#'' p = None \<and>
     filter (\<lambda>b. b = CHR '':'') (head_of p) = []"
  by (auto simp: addr_path_ok_def split_once_None filter_empty_conv)

subsection \<open>The parse of a text split at the hash\<close>

definition parse_body :: "str \<Rightarrow> addr_error + (mount_name option \<times> str)" where
  "parse_body s =
     (let colons = length (filter (\<lambda>b. b = CHR '':'') (head_of s))
      in if colons = 0 then (if s = [] then Inl EmptyPath else Inr (None, s))
         else if colons = 1 then
           (let l = split_head s CHR '':''; r = drop (length l + 1) s
            in and_then (mount_name_parse l)
                 (\<lambda>n. if r = [] then Inl EmptyPath else Inr (Some n, r)))
         else Inl (AmbiguousColon (head_of s)))"

lemma split_head_append: "c \<notin> set l \<Longrightarrow> split_head (l @ c # r) c = l"
  by (simp add: split_head_def split_once_append)

lemma addr_parse_body:
  "addr_parse s =
     (case split_once CHR ''#'' s of
        None \<Rightarrow> and_then (parse_body s) (\<lambda>(rt, p). Inr \<lparr>root = rt, path = p, selector = None\<rparr>)
      | Some (l, f) \<Rightarrow>
          and_then (parse_body l) (\<lambda>(rt, p). Inr \<lparr>root = rt, path = p, selector = Some f\<rparr>))"
proof -
  have body: "and_then
           (if length (filter (\<lambda>b. b = CHR '':'') (head_of b)) = 0 then Inr (None, b)
            else if length (filter (\<lambda>b. b = CHR '':'') (head_of b)) = 1 then
              (let colon = (case find_chr CHR '':'' (head_of b) of Some i \<Rightarrow> i | None \<Rightarrow> 0)
               in and_then (mount_name_parse (take colon (head_of b)))
                    (\<lambda>name. let rest = drop (colon + 1) b
                            in if rest = [] then Inl EmptyPath else Inr (Some name, rest)))
            else Inl (AmbiguousColon (head_of b)))
           (\<lambda>(rt, p). if p = [] then Inl EmptyPath
                      else Inr \<lparr>root = rt, path = p, selector = frag\<rparr>) =
         and_then (parse_body b) (\<lambda>(rt, p). Inr \<lparr>root = rt, path = p, selector = frag\<rparr>)"
    for b and frag :: "str option"
  proof (cases "length (filter (\<lambda>b. b = CHR '':'') (head_of b)) = 1")
    case True
    then show ?thesis
    proof (rule one_colon_head)
      fix l r
      assume "b = l @ CHR '':'' # r" and "CHR '':'' \<notin> set l"
        and "find_chr CHR '':'' (head_of b) = Some (length l)" and "take (length l) (head_of b) = l"
      with True show ?thesis
        by (cases "mount_name_parse l") (simp_all add: parse_body_def Let_def split_head_append)
    qed
  next
    case False
    then show ?thesis by (simp add: parse_body_def Let_def)
  qed
  show ?thesis
  proof (cases "split_once CHR ''#'' s")
    case None
    then show ?thesis
      by (simp only: addr_parse_def Let_def option.case prod.case body [unfolded Let_def])
  next
    case (Some lf)
    then show ?thesis
      by (cases lf) (simp only: addr_parse_def Let_def option.case prod.case body [unfolded Let_def])
  qed
qed

lemma parse_body_Inr:
  assumes "parse_body s = Inr (rt, p)" and "CHR ''#'' \<notin> set s"
  shows "s = (case rt of None \<Rightarrow> [] | Some r \<Rightarrow> as_str r @ '':'') @ p"
    and "pred_option mount_name_ok rt" and "addr_path_ok p"
proof -
  let ?n = "length (filter (\<lambda>b. b = CHR '':'') (head_of s))"
  have "s = (case rt of None \<Rightarrow> [] | Some r \<Rightarrow> as_str r @ '':'') @ p \<and>
        pred_option mount_name_ok rt \<and> addr_path_ok p"
  proof (cases "?n = 1")
    case True
    then obtain l r where s: "s = l @ CHR '':'' # r" "CHR '':'' \<notin> set l" "CHR '':'' \<notin> set (head_of r)"
      by (rule one_colon_head)
    with True assms show ?thesis
      by (auto simp: parse_body_def Let_def split_head_append mount_name_parse_Inr addr_path_ok_def
          and_then_Inr split: if_splits)
  next
    case False
    with assms show ?thesis
      by (auto simp: parse_body_def Let_def addr_path_ok_def filter_empty_conv split: if_splits)
  qed
  then show "s = (case rt of None \<Rightarrow> [] | Some r \<Rightarrow> as_str r @ '':'') @ p"
    and "pred_option mount_name_ok rt" and "addr_path_ok p" by simp_all
qed

lemma parse_body_render:
  assumes "pred_option mount_name_ok rt" and "addr_path_ok p"
  shows "parse_body ((case rt of None \<Rightarrow> [] | Some r \<Rightarrow> as_str r @ '':'') @ p) = Inr (rt, p)"
proof (cases rt)
  case None
  with assms show ?thesis
    by (simp add: parse_body_def Let_def addr_path_ok_split)
next
  case (Some r)
  then have r: "mount_name_ok r" and
    delims: "CHR '':'' \<notin> set (as_str r)" "CHR ''/'' \<notin> set (as_str r)"
    using assms mount_name_delimiters by auto
  have "head_of (as_str r @ CHR '':'' # p) = as_str r @ CHR '':'' # head_of p"
    using delims by (simp add: head_of_append head_of_Cons)
  then have "length (filter (\<lambda>b. b = CHR '':'') (head_of (as_str r @ CHR '':'' # p))) = 1"
    using delims assms(2) by (auto simp: addr_path_ok_split filter_empty_conv)
  then show ?thesis
    using r delims assms(2) Some
    by (simp add: parse_body_def Let_def split_head_append mount_name_parse_as_str addr_path_ok_def)
qed

lemma hash_not_in_root: "pred_option mount_name_ok rt \<Longrightarrow>
  CHR ''#'' \<notin> set (case rt of None \<Rightarrow> [] | Some r \<Rightarrow> as_str r @ '':'')"
  by (cases rt) (auto dest: mount_name_delimiters)

section \<open>Correctness of the address type\<close>

lemma addr_parse_sound:
  assumes "addr_parse s = Inr a"
  shows "addr_display a = s" and "addr_ok a"
proof -
  obtain b frag rt p where body: "parse_body b = Inr (rt, p)" "CHR ''#'' \<notin> set b"
    and a: "a = \<lparr>root = rt, path = p, selector = frag\<rparr>"
    and s: "s = b @ (case frag of None \<Rightarrow> [] | Some f \<Rightarrow> ''#'' @ f)"
  proof (cases "split_once CHR ''#'' s")
    case None
    with assms that [of s _ _ None] show thesis
      by (auto simp: addr_parse_body and_then_Inr split_once_None split: prod.splits)
  next
    case (Some lf)
    then obtain l f where "lf = (l, f)" "s = l @ CHR ''#'' # f" "CHR ''#'' \<notin> set l"
      by (cases lf) (auto simp: split_once_Some)
    with Some assms that [of l _ _ "Some f"] show thesis
      by (auto simp: addr_parse_body and_then_Inr split: prod.splits)
  qed
  from parse_body_Inr [OF body] a s show "addr_display a = s" and "addr_ok a"
    by (simp_all add: addr_display_def addr_ok_def)
qed

lemma addr_parse_complete:
  assumes "addr_ok a"
  shows "addr_parse (addr_display a) = Inr a"
proof -
  let ?b = "(case root a of None \<Rightarrow> [] | Some r \<Rightarrow> as_str r @ '':'') @ path a"
  from assms have body: "parse_body ?b = Inr (root a, path a)"
    by (intro parse_body_render) (simp_all add: addr_ok_def)
  have hash: "CHR ''#'' \<notin> set ?b"
    using assms hash_not_in_root [of "root a"] by (auto simp: addr_ok_def addr_path_ok_def)
  show ?thesis
  proof (cases "selector a")
    case None
    then have "addr_display a = ?b" by (simp add: addr_display_def)
    moreover have "split_once CHR ''#'' ?b = None" using hash split_once_None by blast
    ultimately show ?thesis using body None by (simp add: addr_parse_body)
  next
    case (Some f)
    then have "addr_display a = ?b @ CHR ''#'' # f" by (simp add: addr_display_def)
    moreover have "split_once CHR ''#'' (?b @ CHR ''#'' # f) = Some (?b, f)"
      using hash by (rule split_once_append)
    ultimately show ?thesis using body Some by (simp add: addr_parse_body del: append_assoc)
  qed
qed

lemma addr_parse_iff_display_raw: "addr_parse s = Inr a \<longleftrightarrow> addr_ok a \<and> addr_display a = s"
  using addr_parse_sound addr_parse_complete by blast

section \<open>Properties\<close>

text \<open>
  Parsing is exactly the inverse of rendering: a spelling parses to an address if and
  only if the address is well formed (a canonical root name, a non-empty path that carries no
  hash and no root separator in its head) and renders to that spelling, byte for byte.
\<close>

theorem addr_parse_iff_display:
  "addr_parse s = Inr a \<longleftrightarrow> addr_ok a \<and> addr_display a = s"
  by (rule addr_parse_iff_display_raw)

lemma drop_Suc_append: "drop (Suc (length l)) (l @ c # r) = r"
  by simp

lemma parse_body_head:
  "parse_body (l @ CHR '':'' # r) =
     and_then (mount_name_parse l) (\<lambda>n. if r = [] then Inl EmptyPath else Inr (Some n, r))"
  if "CHR '':'' \<notin> set l" "CHR ''/'' \<notin> set l" "CHR '':'' \<notin> set (head_of r)"
proof -
  have "length (filter (\<lambda>b. b = CHR '':'') (head_of (l @ CHR '':'' # r))) = 1"
    using that by (simp add: head_of_append head_of_Cons filter_empty_conv) (metis (full_types))
  then show ?thesis
    using that by (cases "r = []")
      (simp_all add: parse_body_def Let_def split_head_append drop_Suc_append del: drop_append)
qed

lemma addr_parse_Inl: "addr_parse s = Inl e \<longleftrightarrow> parse_body (split_head s CHR ''#'') = Inl e"
  by (cases "split_once CHR ''#'' s")
    (auto simp: addr_parse_body split_head_def and_then_def split: sum.splits)

lemma colon_count_cases:
  obtains (none) "filter (\<lambda>b. b = CHR '':'') (head_of s) = []"
  | (one) l r where "s = l @ CHR '':'' # r" "CHR '':'' \<notin> set l" "CHR ''/'' \<notin> set l"
      "CHR '':'' \<notin> set (head_of r)" "length (filter (\<lambda>b. b = CHR '':'') (head_of s)) = 1"
  | (more) "2 \<le> length (filter (\<lambda>b. b = CHR '':'') (head_of s))"
proof -
  consider "length (filter (\<lambda>b. b = CHR '':'') (head_of s)) = 0"
    | "length (filter (\<lambda>b. b = CHR '':'') (head_of s)) = 1"
    | "2 \<le> length (filter (\<lambda>b. b = CHR '':'') (head_of s))" by linarith
  then show thesis
  proof cases
    case 2
    then show thesis by (rule one_colon_head) (use 2 one in blast)
  qed (use none more in auto)
qed

definition refusal_of :: "str \<Rightarrow> addr_error option" where
  "refusal_of b =
     (if 2 \<le> length (filter (\<lambda>c. c = CHR '':'') (head_of b)) then Some (AmbiguousColon (head_of b))
      else case split_once CHR '':'' (head_of b) of
        None \<Rightarrow> if b = [] then Some EmptyPath else None
      | Some (name, _) \<Rightarrow>
          if name = [] then Some EmptyMountName
          else if \<not> list_all mount_char name then Some (BadMountName name)
          else if b = name @ '':'' then Some EmptyPath
          else None)"

lemma parse_body_refusal: "parse_body b = Inl e \<longleftrightarrow> refusal_of b = Some e"
proof (cases b rule: colon_count_cases)
  case none
  then have "split_once CHR '':'' (head_of b) = None"
    by (simp add: split_once_None filter_empty_conv) (metis (full_types))
  with none show ?thesis by (auto simp: parse_body_def refusal_of_def)
next
  case (one l r)
  have "split_once CHR '':'' (head_of b) = Some (l, head_of r)"
    using one by (simp add: head_of_append head_of_Cons split_once_append)
  moreover have "parse_body b =
     and_then (mount_name_parse l) (\<lambda>n. if r = [] then Inl EmptyPath else Inr (Some n, r))"
    unfolding one(1) using one by (intro parse_body_head)
  ultimately show ?thesis
    using one by (auto simp: refusal_of_def mount_name_parse_def)
next
  case more
  then show ?thesis by (auto simp: parse_body_def refusal_of_def Let_def)
qed

text \<open>
  The refusals are exactly the colon law's: over the text before the first hash, two
  colons in the head are ambiguous; one colon needs a non-empty name of the mount charset before
  it and some path after it; without one the text itself must not be empty. The refusal is the
  first of these that fails, carrying the offending text, and nothing else refuses.
\<close>

theorem addr_parse_refusals:
  "addr_parse s = Inl e \<longleftrightarrow> refusal_of (split_head s CHR ''#'') = Some e"
  by (simp add: addr_parse_Inl parse_body_refusal)

text \<open>
  Replacing the path of an address succeeds exactly on a path that carries neither a
  root prefix nor a fragment, and then changes the path alone, so the invariant of the type
  cannot be smuggled around through the resolution seam.
\<close>

theorem with_path_iff:
  "with_path a p = Inr b \<longleftrightarrow> addr_path_ok p \<and> b = \<lparr>root = root a, path = p, selector = selector a\<rparr>"
proof -
  have parse: "addr_parse p = Inr c \<and> root c = None \<and> selector c = None \<longleftrightarrow>
        addr_path_ok p \<and> c = \<lparr>root = None, path = p, selector = None\<rparr>" for c :: addr
    by (cases c) (auto simp: addr_parse_iff_display_raw addr_ok_def addr_display_def)
  have "with_path a p = Inr b \<longleftrightarrow>
      (\<exists>c. (addr_parse p = Inr c \<and> root c = None \<and> selector c = None) \<and>
           b = \<lparr>root = root a, path = path c, selector = selector a\<rparr>)"
    by (auto simp: with_path_def and_then_Inr split: if_splits)
  then show ?thesis unfolding parse by auto
qed

end
