(* ===== verification/Keyed.thy ===== *)
theory Keyed
  imports Rust_Str
begin

text \<open>
  Keyed tables. Several components keep a list of records in which a field is a key and write
  it by "replace the record of that key": the mount set's vault, alias and unreachable
  tables, the pins of a lock block, the ledger's owed turns. This theory states that contract
  once, as the locale \<open>keyed_table\<close>, proves what its clients need, and gives the two list
  implementations the code uses: drop the old record and push the new one last, and overwrite
  in place.
\<close>

section \<open>The contract\<close>

locale keyed_table =
  fixes get :: "'s \<Rightarrow> 'k \<Rightarrow> 'v option"
    and put :: "'v \<Rightarrow> 's \<Rightarrow> 's"
    and key :: "'v \<Rightarrow> 'k"
    and ok :: "'s \<Rightarrow> bool"
  assumes ok_put: "ok s \<Longrightarrow> ok (put v s)"
    and get_put: "ok s \<Longrightarrow> get (put v s) k = (if k = key v then Some v else get s k)"
begin

text \<open>After a run of writes a lookup answers with the last write of its key.\<close>

lemma ok_fold: "ok s \<Longrightarrow> ok (fold put vs s)"
  by (induction vs arbitrary: s) (simp_all add: ok_put)

lemma get_fold:
  "ok s \<Longrightarrow> get (fold put vs s) k =
     (case find (\<lambda>v. key v = k) (rev vs) of Some v \<Rightarrow> Some v | None \<Rightarrow> get s k)"
proof (induction vs rule: rev_induct)
  case Nil
  then show ?case by simp
next
  case (snoc v vs)
  then show ?case by (simp add: get_put ok_fold)
qed

lemma put_twice: "ok s \<Longrightarrow> key v = key w \<Longrightarrow> get (put w (put v s)) k = get (put w s) k"
  by (simp add: get_put ok_put)

lemma put_commute:
  "ok s \<Longrightarrow> key v \<noteq> key w \<Longrightarrow> get (put w (put v s)) k = get (put v (put w s)) k"
  by (simp add: get_put ok_put)

end

text \<open>
  A table with removal: a history of writes and removals is a fold, and it does to the lookups
  what the same history does to a plain map.
\<close>

datatype ('v, 'k) table_op = Enter 'v | Erase 'k

fun table_step :: "('v \<Rightarrow> 's \<Rightarrow> 's) \<Rightarrow> ('k \<Rightarrow> 's \<Rightarrow> 's) \<Rightarrow> ('v, 'k) table_op \<Rightarrow> 's \<Rightarrow> 's" where
  "table_step put del (Enter v) s = put v s"
| "table_step put del (Erase k) s = del k s"

fun map_step :: "('v \<Rightarrow> 'k) \<Rightarrow> ('v, 'k) table_op \<Rightarrow> ('k \<rightharpoonup> 'v) \<Rightarrow> ('k \<rightharpoonup> 'v)" where
  "map_step key (Enter v) f = f(key v \<mapsto> v)"
| "map_step key (Erase k) f = f(k := None)"

definition map_run :: "('v \<Rightarrow> 'k) \<Rightarrow> ('v, 'k) table_op list \<Rightarrow> ('k \<rightharpoonup> 'v)" where
  "map_run key xs = fold (map_step key) xs (\<lambda>_. None)"

lemma map_run_Enter: "map_run key xs k = Some v \<Longrightarrow> Enter v \<in> set xs \<and> key v = k"
proof (induction xs rule: rev_induct)
  case Nil
  then show ?case by (simp add: map_run_def)
next
  case (snoc x xs)
  then show ?case by (cases x) (auto simp: map_run_def split: if_splits)
qed

locale erasable_table = keyed_table +
  fixes del :: "'b \<Rightarrow> 'a \<Rightarrow> 'a"
  assumes ok_del: "ok s \<Longrightarrow> ok (del k s)"
    and get_del: "ok s \<Longrightarrow> get (del k s) j = (if j = k then None else get s j)"
begin

lemma ok_step: "ok s \<Longrightarrow> ok (table_step put del x s)"
  by (cases x) (simp_all add: ok_put ok_del)

lemma get_step: "ok s \<Longrightarrow> get (table_step put del x s) = map_step key x (get s)"
  by (cases x) (auto simp: get_put get_del)

lemma ok_run: "ok s \<Longrightarrow> ok (fold (table_step put del) xs s)"
  by (induction xs arbitrary: s) (simp_all add: ok_step)

lemma get_run: "ok s \<Longrightarrow> get (fold (table_step put del) xs s) = fold (map_step key) xs (get s)"
  by (induction xs arbitrary: s) (simp_all add: ok_step get_step)

end

section \<open>The two implementations\<close>

definition lookup_by :: "('v \<Rightarrow> 'k) \<Rightarrow> 'v list \<Rightarrow> 'k \<Rightarrow> 'v option" where
  "lookup_by key vs k = find (\<lambda>v. key v = k) vs"

definition distinct_by :: "('v \<Rightarrow> 'k) \<Rightarrow> 'v list \<Rightarrow> bool" where
  "distinct_by key vs \<longleftrightarrow> distinct (map key vs)"

definition put_last :: "('v \<Rightarrow> 'k) \<Rightarrow> 'v \<Rightarrow> 'v list \<Rightarrow> 'v list" where
  "put_last key v vs = filter (\<lambda>w. key w \<noteq> key v) vs @ [v]"

fun put_at :: "('v \<Rightarrow> 'k) \<Rightarrow> 'v \<Rightarrow> 'v list \<Rightarrow> 'v list" where
  "put_at key v [] = [v]"
| "put_at key v (w # ws) = (if key w = key v then v # ws else w # put_at key v ws)"

lemma lookup_by_Nil [simp]: "lookup_by key [] k = None"
  by (simp add: lookup_by_def)

lemma lookup_by_Cons [simp]:
  "lookup_by key (v # vs) k = (if key v = k then Some v else lookup_by key vs k)"
  by (simp add: lookup_by_def)

lemma lookup_by_append:
  "lookup_by key (vs @ ws) k = (case lookup_by key vs k of Some v \<Rightarrow> Some v | None \<Rightarrow> lookup_by key ws k)"
  by (induction vs) auto

lemma lookup_by_None: "lookup_by key vs k = None \<longleftrightarrow> k \<notin> key ` set vs"
  by (induction vs) auto

lemma lookup_by_SomeD: "lookup_by key vs k = Some v \<Longrightarrow> v \<in> set vs \<and> key v = k"
  by (induction vs) (auto split: if_splits)

lemma lookup_by_mem: "distinct_by key vs \<Longrightarrow> v \<in> set vs \<Longrightarrow> lookup_by key vs (key v) = Some v"
  by (induction vs) (auto simp: distinct_by_def)

lemma lookup_by_filter:
  "lookup_by key (filter (\<lambda>w. key w \<noteq> k') vs) k = (if k = k' then None else lookup_by key vs k)"
  by (induction vs) auto

lemma distinct_by_filter: "distinct_by key vs \<Longrightarrow> distinct_by key (filter P vs)"
  by (simp add: distinct_by_def distinct_map_filter)

lemma keys_put_last: "key ` set (put_last key v vs) = insert (key v) (key ` set vs)"
  by (auto simp: put_last_def)

lemma keys_put_at: "key ` set (put_at key v vs) = insert (key v) (key ` set vs)"
  by (induction vs) auto

lemma distinct_by_put_last: "distinct_by key vs \<Longrightarrow> distinct_by key (put_last key v vs)"
  unfolding put_last_def using distinct_by_filter [of key vs "\<lambda>w. key w \<noteq> key v"]
  by (auto simp: distinct_by_def)

lemma distinct_by_put_at: "distinct_by key vs \<Longrightarrow> distinct_by key (put_at key v vs)"
proof (induction vs)
  case (Cons w ws)
  then show ?case
    using keys_put_at [of key v ws] by (auto simp: distinct_by_def)
qed (simp add: distinct_by_def)

lemma lookup_by_put_last:
  "lookup_by key (put_last key v vs) k = (if k = key v then Some v else lookup_by key vs k)"
  by (auto simp: put_last_def lookup_by_append lookup_by_filter split: option.splits)

lemma lookup_by_put_at:
  "lookup_by key (put_at key v vs) k = (if k = key v then Some v else lookup_by key vs k)"
  by (induction vs) auto

text \<open>Overwriting in place keeps the order of the keys.\<close>

lemma map_key_put_at:
  "map key (put_at key v vs) = (if key v \<in> key ` set vs then map key vs else map key vs @ [key v])"
  by (induction vs) auto

text \<open>Both implementations meet the contract, for any key.\<close>

interpretation pushed: keyed_table "lookup_by key" "put_last key" key "distinct_by key"
  for key :: "'v \<Rightarrow> 'k"
  by unfold_locales (simp_all add: distinct_by_put_last lookup_by_put_last)

interpretation in_place: keyed_table "lookup_by key" "put_at key" key "distinct_by key"
  for key :: "'v \<Rightarrow> 'k"
  by unfold_locales (simp_all add: distinct_by_put_at lookup_by_put_at)

end
