(* ===== verification/Mounts.thy ===== *)
theory Mounts
  imports Addr Keyed
begin

text \<open>
  The mount set (\<^verbatim>\<open>MountSet\<close> of \<^verbatim>\<open>crates/addr/src/lib.rs\<close>): which canonical root names this
  machine binds, which it declares but cannot read, and the vault and alias axes. Its writers
  are chainable builders from \<^verbatim>\<open>MountSet::new\<close>; the lookups resolve a name first and an alias
  second.
\<close>

section \<open>State and operations\<close>

record unreachable_root =
  uname :: mount_name
  upath :: str
  udetail :: str

record mount_set =
  bound :: "mount_name list"
  unreachables :: "unreachable_root list"
  vaults :: "(mount_name \<times> str) list"
  aliases :: "(mount_name \<times> mount_name) list"

fun push_new :: "mount_name list \<Rightarrow> mount_name list \<Rightarrow> mount_name list" where
  "push_new names [] = names"
| "push_new names (n # ns) = (if n \<in> set names then push_new names ns else push_new (names @ [n]) ns)"

definition mount_set_new :: "mount_name list \<Rightarrow> mount_set" where
  "mount_set_new ns = \<lparr>bound = push_new [] ns, unreachables = [], vaults = [], aliases = []\<rparr>"

definition with_vault :: "mount_name \<Rightarrow> str \<Rightarrow> mount_set \<Rightarrow> mount_set" where
  "with_vault n v s = s\<lparr>vaults := put_last fst (n, v) (vaults s)\<rparr>"

definition vault_of :: "mount_set \<Rightarrow> mount_name \<Rightarrow> str option" where
  "vault_of s n = map_option snd (lookup_by fst (vaults s) n)"

definition name_of_vault :: "mount_set \<Rightarrow> str \<Rightarrow> mount_name option" where
  "name_of_vault s v = map_option fst (lookup_by snd (vaults s) v)"

definition with_unreachable :: "mount_name \<Rightarrow> str \<Rightarrow> str \<Rightarrow> mount_set \<Rightarrow> mount_set" where
  "with_unreachable n p d s =
     s\<lparr>bound := filter (\<lambda>m. m \<noteq> n) (bound s),
       vaults := filter (\<lambda>w. fst w \<noteq> n) (vaults s),
       unreachables := put_last uname \<lparr>uname = n, upath = p, udetail = d\<rparr> (unreachables s)\<rparr>"

definition with_alias :: "mount_name \<Rightarrow> mount_name \<Rightarrow> mount_set \<Rightarrow> mount_set" where
  "with_alias al n s = s\<lparr>aliases := put_last fst (al, n) (aliases s)\<rparr>"

definition canonical :: "mount_set \<Rightarrow> mount_name \<Rightarrow> mount_name option" where
  "canonical s spelling =
     (if spelling \<in> set (bound s) \<or> list_ex (\<lambda>u. uname u = spelling) (unreachables s)
      then Some spelling
      else map_option snd (lookup_by fst (aliases s) spelling))"

definition alias_of :: "mount_set \<Rightarrow> mount_name \<Rightarrow> mount_name option" where
  "alias_of s n = map_option fst (lookup_by snd (aliases s) n)"

definition is_bound :: "mount_set \<Rightarrow> mount_name \<Rightarrow> bool" where
  "is_bound s n \<longleftrightarrow> n \<in> set (bound s) \<or> list_ex (\<lambda>(a, m). a = n \<and> m \<in> set (bound s)) (aliases s)"

definition unreachable :: "mount_set \<Rightarrow> mount_name \<Rightarrow> unreachable_root option" where
  "unreachable s n =
     (case lookup_by uname (unreachables s) n of
        Some direct \<Rightarrow> Some direct
      | None \<Rightarrow>
          (case lookup_by fst (aliases s) n of
             None \<Rightarrow> None
           | Some (_, tgt) \<Rightarrow> lookup_by uname (unreachables s) tgt))"

definition is_declared :: "mount_set \<Rightarrow> mount_name \<Rightarrow> bool" where
  "is_declared s n \<longleftrightarrow> is_bound s n \<or> unreachable s n \<noteq> None"

definition head_names_declared_root :: "str \<Rightarrow> mount_set \<Rightarrow> bool" where
  "head_names_declared_root spelling s =
     (let before_frag = split_head (trim spelling) CHR ''#'';
          head = head_of before_frag
      in (case split_once CHR '':'' head of
            None \<Rightarrow> False
          | Some (name, _) \<Rightarrow>
              (case mount_name_parse name of Inl _ \<Rightarrow> False | Inr n \<Rightarrow> is_declared s n)))"

section \<open>The builder chain and its invariant\<close>

datatype build_op =
    WithVault mount_name str
  | WithUnreachable mount_name str str
  | WithAlias mount_name mount_name

fun build :: "mount_set \<Rightarrow> build_op \<Rightarrow> mount_set" where
  "build s (WithVault n v) = with_vault n v s"
| "build s (WithUnreachable n p d) = with_unreachable n p d s"
| "build s (WithAlias a n) = with_alias a n s"

definition mount_set_ok :: "mount_set \<Rightarrow> bool" where
  "mount_set_ok s \<longleftrightarrow>
     distinct (bound s) \<and> distinct_by uname (unreachables s) \<and>
     distinct_by fst (vaults s) \<and> distinct_by fst (aliases s) \<and>
     set (bound s) \<inter> uname ` set (unreachables s) = {}"

text \<open>The law of the config plane: no alias is spelled like a declared root.\<close>

definition no_shadowing :: "mount_set \<Rightarrow> bool" where
  "no_shadowing s \<longleftrightarrow>
     fst ` set (aliases s) \<inter> (set (bound s) \<union> uname ` set (unreachables s)) = {}"

lemma distinct_push_new: "distinct names \<Longrightarrow> distinct (push_new names ns)"
  by (induction names ns rule: push_new.induct) auto

lemma set_push_new: "set (push_new names ns) = set names \<union> set ns"
  by (induction names ns rule: push_new.induct) auto

lemma mount_set_new_ok: "mount_set_ok (mount_set_new ns)"
  by (simp add: mount_set_ok_def mount_set_new_def distinct_by_def distinct_push_new)

lemma build_ok: "mount_set_ok s \<Longrightarrow> mount_set_ok (build s op)"
proof (cases op)
  case (WithUnreachable n p d)
  assume "mount_set_ok s"
  then show ?thesis
    using WithUnreachable
      keys_put_last [of uname "\<lparr>uname = n, upath = p, udetail = d\<rparr>" "unreachables s"]
    by (auto simp: mount_set_ok_def with_unreachable_def distinct_by_put_last distinct_by_filter)
qed (auto simp: mount_set_ok_def with_vault_def with_alias_def distinct_by_put_last)

lemma builds_ok: "mount_set_ok s \<Longrightarrow> mount_set_ok (foldl build s ops)"
  by (induction ops arbitrary: s) (simp_all add: build_ok)

lemma is_bound_lookup:
  assumes "distinct_by fst (aliases s)"
  shows "is_bound s n \<longleftrightarrow> n \<in> set (bound s) \<or>
    (case lookup_by fst (aliases s) n of None \<Rightarrow> False | Some (_, m) \<Rightarrow> m \<in> set (bound s))"
proof -
  have "list_ex (\<lambda>(a, m). a = n \<and> m \<in> set (bound s)) (aliases s) \<longleftrightarrow>
    (case lookup_by fst (aliases s) n of None \<Rightarrow> False | Some (_, m) \<Rightarrow> m \<in> set (bound s))"
  proof (cases "lookup_by fst (aliases s) n")
    case None
    then have "n \<notin> fst ` set (aliases s)" by (simp add: lookup_by_None)
    then have "\<not> list_ex (\<lambda>(a, m). a = n \<and> m \<in> set (bound s)) (aliases s)"
      unfolding list_ex_iff by force
    with None show ?thesis by simp
  next
    case (Some am)
    then obtain m where m: "am = (n, m)" "(n, m) \<in> set (aliases s)"
      using lookup_by_SomeD [of fst "aliases s" n am] by (cases am) auto
    have "m' = m" if "(n, m') \<in> set (aliases s)" for m'
      using lookup_by_mem [OF assms that] Some m by simp
    then have "list_ex (\<lambda>(a, m). a = n \<and> m \<in> set (bound s)) (aliases s) \<longleftrightarrow> m \<in> set (bound s)"
      using m(2) unfolding list_ex_iff by fast
    with Some m show ?thesis by simp
  qed
  then show ?thesis by (simp add: is_bound_def)
qed

text \<open>Every lookup goes through the canonical name.\<close>

lemma lookups_via_canonical:
  assumes ok: "mount_set_ok s" and sh: "no_shadowing s"
  shows "is_bound s n \<longleftrightarrow> (\<exists>c. canonical s n = Some c \<and> c \<in> set (bound s))"
    and "unreachable s n = Option.bind (canonical s n) (lookup_by uname (unreachables s))"
proof -
  have dist: "distinct_by fst (aliases s)"
    and disj: "set (bound s) \<inter> uname ` set (unreachables s) = {}"
    using ok by (auto simp: mount_set_ok_def)
  have declared: "list_ex (\<lambda>u. uname u = n) (unreachables s) \<longleftrightarrow> n \<in> uname ` set (unreachables s)"
    by (force simp: list_ex_iff)
  have unaliased: "lookup_by fst (aliases s) n = None"
    if "n \<in> set (bound s) \<or> n \<in> uname ` set (unreachables s)"
    using that sh by (auto simp: lookup_by_None no_shadowing_def)
  show "is_bound s n \<longleftrightarrow> (\<exists>c. canonical s n = Some c \<and> c \<in> set (bound s))"
    using disj unaliased
    by (auto simp: is_bound_lookup [OF dist] canonical_def declared split: option.splits)
  show "unreachable s n = Option.bind (canonical s n) (lookup_by uname (unreachables s))"
  proof (cases "n \<in> set (bound s) \<or> n \<in> uname ` set (unreachables s)")
    case True
    then show ?thesis
      using unaliased by (auto simp: unreachable_def canonical_def declared split: option.splits)
  next
    case False
    then have "lookup_by uname (unreachables s) n = None" by (simp add: lookup_by_None)
    with False show ?thesis
      by (auto simp: unreachable_def canonical_def declared split: option.splits)
  qed
qed

section \<open>Properties\<close>

text \<open>
  Claim C37. In every mount set the builders can produce, as long as no alias is spelled like a
  declared root, the lookups agree through the canonical name: a name is bound exactly when its
  canonical name is in the bound list, declared exactly when it has a canonical name that is
  bound or unreachable, and never both bound and unreachable.
\<close>

theorem mount_lookups_agree:
  assumes "s = foldl build (mount_set_new ns) ops" and "no_shadowing s"
  shows "(is_bound s n \<longleftrightarrow> (\<exists>c. canonical s n = Some c \<and> c \<in> set (bound s))) \<and>
    (is_declared s n \<longleftrightarrow>
       (\<exists>c. canonical s n = Some c \<and> (c \<in> set (bound s) \<or> c \<in> uname ` set (unreachables s)))) \<and>
    \<not> (is_bound s n \<and> unreachable s n \<noteq> None)"
proof -
  have ok: "mount_set_ok s"
    using assms(1) by (simp add: builds_ok mount_set_new_ok)
  note via = lookups_via_canonical [OF ok assms(2)]
  have unr: "unreachable s n \<noteq> None \<longleftrightarrow>
      (\<exists>c. canonical s n = Some c \<and> c \<in> uname ` set (unreachables s))"
    unfolding via(2)
    by (cases "canonical s n")
      (simp_all, metis lookup_by_None not_None_eq)
  have "set (bound s) \<inter> uname ` set (unreachables s) = {}"
    using ok by (simp add: mount_set_ok_def)
  then show ?thesis
    unfolding is_declared_def unr via(1) by auto
qed

theorem mount_lookups_agree_witness:
  "\<exists>s n. no_shadowing s \<and> \<not> is_bound s n \<and> unreachable s n \<noteq> None \<and> is_declared s n"
proof -
  let ?ses = "MountName ''sessions''" and ?s1 = "MountName ''s-2026''"
  let ?ops = "[WithVault ?s1 ''v'', WithUnreachable ?s1 ''/mnt'' ''gone'', WithAlias ?ses ?s1]"
  let ?s = "foldl build (mount_set_new [?s1, MountName ''assets'']) ?ops"
  note defs = no_shadowing_def mount_set_new_def with_vault_def with_unreachable_def
    with_alias_def put_last_def
  have sh: "no_shadowing ?s" by (simp add: defs)
  have u: "unreachable ?s ?ses \<noteq> None"
    by (simp add: unreachable_def defs)
  from mount_lookups_agree [OF refl sh, of ?ses] u have "\<not> is_bound ?s ?ses" by blast
  moreover from u have "is_declared ?s ?ses" by (simp only: is_declared_def simp_thms not_False_eq_True)
  ultimately show ?thesis using sh u by blast
qed

end
