(* ===== verification/Stored.thy ===== *)
theory Stored
  imports Addr
begin

text \<open>
  The stored plane of a cross-root address, the \<^verbatim>\<open>obsidian://\<close> URI
  (\<^verbatim>\<open>crates/addr/src/stored.rs\<close>): the percent codec, the canonical writer and the strict reader.
\<close>

section \<open>The percent codec\<close>

definition obsidian_scheme :: str where "obsidian_scheme = ''obsidian://''"
definition action_open :: str where "action_open = ''open''"
definition action_advanced :: str where "action_advanced = ''advanced-uri''"

definition literal_byte :: "char \<Rightarrow> bool" where
  "literal_byte b \<longleftrightarrow> byte b < 128 \<and> byte b > 32 \<and> byte b \<noteq> 127 \<and> b \<notin> set ''%&=?#+''"

definition hex_char :: "nat \<Rightarrow> char" where
  "hex_char n = ''0123456789ABCDEF'' ! n"

definition encode_byte :: "char \<Rightarrow> str" where
  "encode_byte b =
     (if literal_byte b then [b]
      else [CHR ''%'', hex_char (byte b div 16), hex_char (byte b mod 16)])"

definition encode_component :: "str \<Rightarrow> str" where
  "encode_component v = concat (map encode_byte v)"

fun decode_bytes :: "str \<Rightarrow> str option" where
  "decode_bytes [] = Some []"
| "decode_bytes (b # bs) =
     (if b = CHR ''%'' then
        (case bs of
           h1 # h2 # rest \<Rightarrow>
             (if utf8_valid [h1, h2] then
                (case parse_uint 16 255 [h1, h2] of
                   Some n \<Rightarrow> map_option ((#) (char_of n)) (decode_bytes rest)
                 | None \<Rightarrow> None)
              else None)
         | _ \<Rightarrow> None)
      else map_option ((#) b) (decode_bytes bs))"

definition decode_component :: "str \<Rightarrow> str option" where
  "decode_component v =
     (case decode_bytes v of None \<Rightarrow> None | Some out \<Rightarrow> if utf8_valid out then Some out else None)"

section \<open>The writer and the reader\<close>

record stored_ref =
  vault :: str
  stored_path :: str
  stored_selector :: "str option"

datatype stored_error =
    NotStoredForm
  | UnknownAction str
  | BadParams str str str
  | NonCanonicalEncoding str str str
  | EmptyValue str
  | BadPath str

definition is_stored_uri :: "str \<Rightarrow> bool" where
  "is_stored_uri text \<longleftrightarrow> starts_with obsidian_scheme text"

definition encode :: "str \<Rightarrow> str \<Rightarrow> str option \<Rightarrow> stored_error + str" where
  "encode v p sel =
     (if v = [] then Inl (EmptyValue ''vault'')
      else if \<not> confined p then Inl (BadPath p)
      else
        let vault_enc = encode_component v; path_enc = encode_component p in
        case sel of
          None \<Rightarrow>
            Inr (obsidian_scheme @ action_open @ ''?vault='' @ vault_enc @ ''&file='' @ path_enc)
        | Some s \<Rightarrow>
            if s = [] then Inl (EmptyValue ''selector'')
            else
              let (key, val) = (case strip_prefix ''^'' s of
                                  Some block \<Rightarrow> (''block'', block)
                                | None \<Rightarrow> (''heading'', s))
              in if val = [] then Inl (EmptyValue ''selector'')
                 else Inr (obsidian_scheme @ action_advanced @ ''?vault='' @ vault_enc @
                           ''&filepath='' @ path_enc @ ''&'' @ key @ ''='' @ encode_component val))"

definition query_params :: "str \<Rightarrow> (str \<times> str) list" where
  "query_params query =
     (if query = [] then []
      else map (\<lambda>p. case split_once CHR ''='' p of Some kv \<Rightarrow> kv | None \<Rightarrow> (p, []))
             (split_chr CHR ''&'' query))"

definition value_of :: "(str \<times> str) list \<Rightarrow> str \<Rightarrow> stored_error + str" where
  "value_of params key =
     (let raw = (case find (\<lambda>(k, _). k = key) params of Some (_, v) \<Rightarrow> v | None \<Rightarrow> [])
      in if raw = [] then Inl (EmptyValue key)
         else
           and_then (ok_or (decode_component raw)
                       (NonCanonicalEncoding key raw (encode_component raw)))
             (\<lambda>decoded.
                if encode_component decoded \<noteq> raw
                then Inl (NonCanonicalEncoding key raw (encode_component decoded))
                else Inr decoded))"

definition param_shape :: "str \<Rightarrow> str list \<Rightarrow> stored_error + (str \<times> str option)" where
  "param_shape action names =
     (if action = action_open \<and> names = [''vault'', ''file''] then Inr (''file'', None)
      else if action = action_advanced \<and> names = [''vault'', ''filepath'', ''heading'']
        then Inr (''filepath'', Some ''heading'')
      else if action = action_advanced \<and> names = [''vault'', ''filepath'', ''block'']
        then Inr (''filepath'', Some ''block'')
      else if action = action_open
        then Inl (BadParams action (join ''&'' names) ''vault&file'')
      else Inl (BadParams action (join ''&'' names) ''vault&filepath&(heading|block)''))"

definition decode :: "str \<Rightarrow> stored_error + stored_ref" where
  "decode uri =
     and_then (ok_or (strip_prefix obsidian_scheme uri) NotStoredForm) (\<lambda>rest.
     let (action, query) = (case split_once CHR ''?'' rest of Some aq \<Rightarrow> aq | None \<Rightarrow> (rest, []))
     in if action \<noteq> action_open \<and> action \<noteq> action_advanced then Inl (UnknownAction action)
        else
          let params = query_params query; names = map fst params in
          and_then (param_shape action names) (\<lambda>(path_key, sel_key).
          and_then (value_of params ''vault'') (\<lambda>v.
          and_then (value_of params path_key) (\<lambda>p.
          if \<not> confined p then Inl (BadPath p)
          else
            and_then (case sel_key of
                        None \<Rightarrow> Inr None
                      | Some key \<Rightarrow>
                          and_then (value_of params key)
                            (\<lambda>val. Inr (Some (if key = ''block'' then ''^'' @ val else val))))
              (\<lambda>sel. Inr \<lparr>vault = v, stored_path = p, stored_selector = sel\<rparr>)))))"

section \<open>Correctness of the codec\<close>

lemma below_16: "n < 16 \<Longrightarrow> n \<in> {0, 1, 2, 3, 4, 5, 6, 7, 8, 9, 10, 11, 12, 13, 14, 15::nat}"
  by (simp, presburger)

lemma hex_char_val: "n < 16 \<Longrightarrow> digit_val (hex_char n) = Some n \<and> hex_char n \<noteq> CHR ''+'' \<and> byte (hex_char n) < 128"
  by (drule below_16) (auto simp: hex_char_def digit_val_def byte_def)

lemma hex_char_clean: "n < 16 \<Longrightarrow> hex_char n \<notin> set ''&=?#+''"
  by (drule below_16) (auto simp: hex_char_def)

lemma hex_pair: "parse_uint 16 255 [hex_char (byte b div 16), hex_char (byte b mod 16)] = Some (byte b)"
proof -
  have "byte b div 16 < 16" "byte b mod 16 < 16"
    using byte_less_256 [of b] by auto
  with hex_char_val show ?thesis
    using byte_less_256 [of b] by (simp add: parse_uint_def)
qed

lemma hex_pair_utf8: "utf8_valid [hex_char (byte b div 16), hex_char (byte b mod 16)]"
proof -
  have "byte b div 16 < 16" "byte b mod 16 < 16"
    using byte_less_256 [of b] by auto
  with hex_char_val show ?thesis by (intro utf8_valid_ascii_all) auto
qed

lemma decode_bytes_encode_byte: "decode_bytes (encode_byte b @ r) = map_option ((#) b) (decode_bytes r)"
  by (auto simp: encode_byte_def hex_pair hex_pair_utf8 literal_byte_def)

lemma encode_component_simps [simp]:
  "encode_component [] = []"
  "encode_component (b # bs) = encode_byte b @ encode_component bs"
  by (simp_all add: encode_component_def)

lemma decode_bytes_encode: "decode_bytes (encode_component v) = Some v"
  by (induction v) (simp_all add: decode_bytes_encode_byte)

lemma decode_encode_component: "utf8_valid v \<Longrightarrow> decode_component (encode_component v) = Some v"
  by (simp add: decode_component_def decode_bytes_encode)

lemma encode_component_inject: "encode_component v = encode_component w \<longleftrightarrow> v = w"
  by (metis decode_bytes_encode option.inject)

lemma encode_byte_clean: "c \<in> set (encode_byte b) \<Longrightarrow> c \<notin> set ''&=?#+''"
proof -
  assume c: "c \<in> set (encode_byte b)"
  have "byte b div 16 < 16" "byte b mod 16 < 16"
    using byte_less_256 [of b] by auto
  then have "hex_char (byte b div 16) \<notin> set ''&=?#+''" "hex_char (byte b mod 16) \<notin> set ''&=?#+''"
    using hex_char_clean by blast+
  with c show ?thesis by (auto simp: encode_byte_def literal_byte_def split: if_splits)
qed

lemma encode_component_clean:
  "CHR ''&'' \<notin> set (encode_component v)" "CHR ''='' \<notin> set (encode_component v)"
  "CHR ''?'' \<notin> set (encode_component v)" "CHR ''#'' \<notin> set (encode_component v)"
  using encode_byte_clean by (fastforce simp: encode_component_def)+

lemma encode_component_empty [simp]: "encode_component v = [] \<longleftrightarrow> v = []"
  by (cases v) (auto simp: encode_byte_def)

section \<open>Correctness of the stored form\<close>

text \<open>A query of clean pairs splits back into them.\<close>

definition pair_text :: "str \<times> str \<Rightarrow> str" where
  "pair_text kv = fst kv @ ''='' @ snd kv"

definition clean_pair :: "str \<times> str \<Rightarrow> bool" where
  "clean_pair kv \<longleftrightarrow> CHR ''='' \<notin> set (fst kv) \<and> CHR ''&'' \<notin> set (fst kv) \<and> CHR ''&'' \<notin> set (snd kv)"

lemma query_params_join:
  assumes "kvs \<noteq> []" and "\<forall>kv \<in> set kvs. clean_pair kv"
  shows "query_params (join ''&'' (map pair_text kvs)) = kvs"
proof -
  have split: "split_chr CHR ''&'' (join ''&'' (map pair_text kvs)) = map pair_text kvs"
    using assms by (intro split_chr_join) (auto simp: pair_text_def clean_pair_def)
  have pair: "(case split_once CHR ''='' (pair_text kv) of Some kv \<Rightarrow> kv | None \<Rightarrow> (pair_text kv, [])) = kv"
    if "kv \<in> set kvs" for kv
    using that assms(2) by (auto simp: pair_text_def clean_pair_def split_once_append)
  have "join ''&'' (map pair_text kvs) \<noteq> []"
  proof
    assume "join ''&'' (map pair_text kvs) = []"
    with split have "map pair_text kvs = [[]]" by simp
    then show False by (cases kvs) (auto simp: pair_text_def)
  qed
  with split pair show ?thesis by (simp add: query_params_def map_idI)
qed

text \<open>Any query is the join of its parts, and a part with a value is a pair.\<close>

lemma query_params_text:
  assumes "\<forall>kv \<in> set (query_params q). snd kv \<noteq> []" and "q \<noteq> []"
  shows "q = join ''&'' (map pair_text (query_params q))"
proof -
  let ?split = "\<lambda>p. case split_once CHR ''='' p of Some kv \<Rightarrow> kv | None \<Rightarrow> (p, [])"
  have "pair_text (?split p) = p" if "snd (?split p) \<noteq> []" for p
    using that
    by (cases "split_once CHR ''='' p")
      (auto simp: pair_text_def dest: split_once_Some [THEN iffD1])
  then have "map (pair_text \<circ> ?split) (split_chr CHR ''&'' q) = split_chr CHR ''&'' q"
    using assms by (intro map_idI) (auto simp: query_params_def)
  then show ?thesis
    using assms(2) join_split_chr [of "CHR ''&''" q] by (simp add: query_params_def)
qed

lemma value_of_Inr:
  "value_of params key = Inr v \<Longrightarrow>
   v \<noteq> [] \<and> utf8_valid v \<and> (\<exists>kv. find (\<lambda>(k, _). k = key) params = Some kv \<and> snd kv = encode_component v)"
  by (auto simp: value_of_def Let_def and_then_Inr ok_or_Inr decode_component_def
      split: option.splits if_splits)

lemma value_of_encoded:
  "find (\<lambda>(k, _). k = key) params = Some (k', encode_component v) \<Longrightarrow> v \<noteq> [] \<Longrightarrow> utf8_valid v \<Longrightarrow>
   value_of params key = Inr v"
  by (simp add: value_of_def Let_def decode_encode_component)

lemma confined_not_empty: "confined p \<Longrightarrow> p \<noteq> []"
  by (simp add: confined_def)

text \<open>The reader on a URI given by its action and clean parameters.\<close>

lemma decode_query:
  assumes "action = action_open \<or> action = action_advanced"
    and "kvs \<noteq> []" and "\<forall>kv \<in> set kvs. clean_pair kv"
  shows "decode (obsidian_scheme @ action @ ''?'' @ join ''&'' (map pair_text kvs)) =
          and_then (param_shape action (map fst kvs)) (\<lambda>(path_key, sel_key).
          and_then (value_of kvs ''vault'') (\<lambda>v.
          and_then (value_of kvs path_key) (\<lambda>p.
          if \<not> confined p then Inl (BadPath p)
          else
            and_then (case sel_key of
                        None \<Rightarrow> Inr None
                      | Some key \<Rightarrow>
                          and_then (value_of kvs key)
                            (\<lambda>val. Inr (Some (if key = ''block'' then ''^'' @ val else val))))
              (\<lambda>sel. Inr \<lparr>vault = v, stored_path = p, stored_selector = sel\<rparr>))))"
proof -
  have "CHR ''?'' \<notin> set action"
    using assms(1) by (auto simp: action_open_def action_advanced_def)
  then have "split_once CHR ''?'' (action @ ''?'' @ join ''&'' (map pair_text kvs)) =
      Some (action, join ''&'' (map pair_text kvs))"
    by (simp add: split_once_append)
  with assms(1) show ?thesis
    by (auto simp: decode_def query_params_join [OF assms(2,3)])
qed

text \<open>The writer's output, as an action and clean parameters.\<close>

definition canon_pairs :: "str \<Rightarrow> str \<Rightarrow> str option \<Rightarrow> str \<times> (str \<times> str) list" where
  "canon_pairs v p sel =
     (case sel of
        None \<Rightarrow> (action_open, [(''vault'', encode_component v), (''file'', encode_component p)])
      | Some s \<Rightarrow>
          (action_advanced,
           [(''vault'', encode_component v), (''filepath'', encode_component p),
            (case strip_prefix ''^'' s of
               Some block \<Rightarrow> (''block'', encode_component block)
             | None \<Rightarrow> (''heading'', encode_component s))]))"

definition uri_text :: "str \<times> (str \<times> str) list \<Rightarrow> str" where
  "uri_text akv = obsidian_scheme @ fst akv @ ''?'' @ join ''&'' (map pair_text (snd akv))"

lemma encode_Inr:
  "encode v p sel = Inr u \<longleftrightarrow>
     v \<noteq> [] \<and> confined p \<and> sel \<noteq> Some [] \<and> sel \<noteq> Some ''^'' \<and> u = uri_text (canon_pairs v p sel)"
  by (auto simp: encode_def Let_def uri_text_def canon_pairs_def pair_text_def strip_prefix_Some
      split: option.splits if_splits prod.splits)

lemma clean_canon_pairs: "\<forall>kv \<in> set (snd (canon_pairs v p sel)). clean_pair kv"
  by (auto simp: canon_pairs_def clean_pair_def encode_component_clean split: option.splits)

lemma decode_encode:
  assumes "encode v p sel = Inr u"
    and "utf8_valid v" and "utf8_valid p" and "pred_option utf8_valid sel"
  shows "decode u = Inr \<lparr>vault = v, stored_path = p, stored_selector = sel\<rparr>"
proof -
  from assms(1) have ok: "v \<noteq> []" "confined p" "sel \<noteq> Some []" "sel \<noteq> Some ''^''"
    and u: "u = uri_text (canon_pairs v p sel)"
    by (auto simp: encode_Inr)
  have p: "p \<noteq> []" using ok(2) by (rule confined_not_empty)
  have pre: "fst (canon_pairs v p sel) = action_open \<or> fst (canon_pairs v p sel) = action_advanced"
    "snd (canon_pairs v p sel) \<noteq> []"
    by (auto simp: canon_pairs_def split: option.splits)
  note u' = decode_query [OF pre clean_canon_pairs]
  note step = canon_pairs_def param_shape_def action_open_def action_advanced_def value_of_encoded
  show ?thesis
  proof (cases sel)
    case None
    then show ?thesis using ok assms(2,3) p unfolding u uri_text_def u' by (simp add: step)
  next
    case (Some s)
    show ?thesis
    proof (cases "strip_prefix ''^'' s")
      case None
      then show ?thesis using Some ok assms(2-4) p unfolding u uri_text_def u' by (simp add: step)
    next
      case (Some b)
      then have s: "s = CHR ''^'' # b" by (simp add: strip_prefix_Some)
      have "utf8_valid b" using assms(4) \<open>sel = Some s\<close> s by (simp add: utf8_valid_ascii byte_def)
      then show ?thesis using \<open>sel = Some s\<close> s ok assms(2,3) p
        unfolding u uri_text_def u' by (simp add: step)
    qed
  qed
qed

text \<open>What an accepted URI looks like: the action and parameters of its fields.\<close>

definition fields_pairs :: "str \<Rightarrow> str \<Rightarrow> (str \<times> str) option \<Rightarrow> str \<times> (str \<times> str) list" where
  "fields_pairs v p kv =
     (case kv of
        None \<Rightarrow> (action_open, [(''vault'', encode_component v), (''file'', encode_component p)])
      | Some (key, val) \<Rightarrow>
          (action_advanced, [(''vault'', encode_component v), (''filepath'', encode_component p),
                             (key, encode_component val)]))"

definition selector_of :: "(str \<times> str) option \<Rightarrow> str option" where
  "selector_of kv = map_option (\<lambda>(key, val). if key = ''block'' then ''^'' @ val else val) kv"

lemma map_fst_eq_Cons: "map fst xs = k # ks \<longleftrightarrow> (\<exists>v ys. xs = (k, v) # ys \<and> map fst ys = ks)"
  by (cases xs) auto

lemma decode_fields:
  assumes "decode u = Inr r"
  obtains kv where "u = uri_text (fields_pairs (vault r) (stored_path r) kv)"
    and "stored_selector r = selector_of kv" and "vault r \<noteq> []" and "confined (stored_path r)"
    and "\<And>key val. kv = Some (key, val) \<Longrightarrow> val \<noteq> [] \<and> (key = ''heading'' \<or> key = ''block'')"
proof -
  from assms obtain rest where rest: "u = obsidian_scheme @ rest"
    by (auto simp: decode_def and_then_Inr ok_or_Inr strip_prefix_Some)
  define aq where "aq = (case split_once CHR ''?'' rest of Some aq \<Rightarrow> aq | None \<Rightarrow> (rest, []))"
  obtain action query where aq: "aq = (action, query)" by fastforce
  let ?ps = "query_params query"
  from assms obtain pk sk v p sel where
    shape: "param_shape action (map fst ?ps) = Inr (pk, sk)"
    and v: "value_of ?ps ''vault'' = Inr v" and p: "value_of ?ps pk = Inr p" "confined p"
    and sel: "(case sk of None \<Rightarrow> Inr None
               | Some key \<Rightarrow> and_then (value_of ?ps key)
                   (\<lambda>val. Inr (Some (if key = ''block'' then ''^'' @ val else val)))) = Inr sel"
    and r: "r = \<lparr>vault = v, stored_path = p, stored_selector = sel\<rparr>"
    by (auto simp: decode_def rest aq_def [symmetric] aq Let_def and_then_Inr split: if_splits prod.splits)
  have utext: "u = uri_text (action, ?ps)"
    if ne: "\<forall>kv \<in> set ?ps. snd kv \<noteq> []" and "?ps \<noteq> []"
  proof -
    have q: "query \<noteq> []" using \<open>?ps \<noteq> []\<close> by (auto simp: query_params_def)
    then have "split_once CHR ''?'' rest = Some (action, query)"
      using aq by (auto simp: aq_def split: option.splits)
    then show ?thesis
      using query_params_text [OF ne q] by (simp add: rest uri_text_def split_once_Some)
  qed
  note vals = value_of_Inr
  consider (page) "action = action_open" "map fst ?ps = [''vault'', ''file'']" "pk = ''file''" "sk = None"
    | (node) k where "action = action_advanced" "map fst ?ps = [''vault'', ''filepath'', k]"
        "pk = ''filepath''" "sk = Some k" "k = ''heading'' \<or> k = ''block''"
    using shape by (auto simp: param_shape_def split: if_splits)
  then show thesis
  proof cases
    case page
    then obtain a b where ps: "?ps = [(''vault'', a), (''file'', b)]"
      by (auto simp: map_fst_eq_Cons)
    then have "a = encode_component v" "b = encode_component p" "v \<noteq> []" "p \<noteq> []"
      using vals [OF v] vals [OF p(1)] page by auto
    then show thesis
      using that [of None] utext ps page sel r p
      by (simp add: fields_pairs_def selector_of_def)
  next
    case (node k)
    then obtain a b c where ps: "?ps = [(''vault'', a), (''filepath'', b), (k, c)]"
      by (auto simp: map_fst_eq_Cons)
    from node(4) sel obtain w where w: "value_of ?ps k = Inr w"
      and s: "sel = Some (if k = ''block'' then ''^'' @ w else w)"
      by (auto simp: and_then_Inr)
    have "a = encode_component v" "b = encode_component p" "c = encode_component w"
      "v \<noteq> []" "p \<noteq> []" "w \<noteq> []"
      using vals [OF v] vals [OF p(1)] vals [OF w] node ps by auto
    then show thesis
      using that [of "Some (k, w)"] utext ps node s r p
      by (auto simp: fields_pairs_def selector_of_def)
  qed
qed

lemma decode_canonical:
  assumes "decode u = Inr r"
  shows "encode (vault r) (stored_path r) (stored_selector r) = Inr u \<or>
    (\<exists>w. stored_selector r = Some (CHR ''^'' # w) \<and>
         u = uri_text (fields_pairs (vault r) (stored_path r) (Some (''heading'', CHR ''^'' # w))))"
  using assms
proof (rule decode_fields)
  fix kv
  assume u: "u = uri_text (fields_pairs (vault r) (stored_path r) kv)"
    and sel: "stored_selector r = selector_of kv" and ok: "vault r \<noteq> []" "confined (stored_path r)"
    and key: "\<And>key val. kv = Some (key, val) \<Longrightarrow> val \<noteq> [] \<and> (key = ''heading'' \<or> key = ''block'')"
  show ?thesis
  proof (cases kv)
    case None
    then show ?thesis using u sel ok
      by (simp add: encode_Inr canon_pairs_def fields_pairs_def selector_of_def)
  next
    case (Some a)
    then obtain k w where kw: "kv = Some (k, w)" "w \<noteq> []" "k = ''heading'' \<or> k = ''block''"
      using key by (cases a) auto
    show ?thesis
    proof (cases "k = ''heading'' \<and> strip_prefix ''^'' w \<noteq> None")
      case True
      then obtain w' where "w = CHR ''^'' # w'" by (auto simp: strip_prefix_Some)
      then show ?thesis using True u sel kw by (auto simp: selector_of_def)
    next
      case False
      then show ?thesis using u sel ok kw
        by (auto simp: encode_Inr canon_pairs_def fields_pairs_def selector_of_def split: option.splits)
    qed
  qed
qed

section \<open>Properties\<close>

text \<open>
  Claim C38. Reading back a minted URI gives the address it was minted from: the vault, the path
  and the selector, caret included.
\<close>

theorem stored_roundtrip:
  assumes "encode v p sel = Inr u"
    and "utf8_valid v" and "utf8_valid p" and "pred_option utf8_valid sel"
  shows "decode u = Inr \<lparr>vault = v, stored_path = p, stored_selector = sel\<rparr>"
  using assms by (rule decode_encode)

theorem stored_roundtrip_witness:
  "\<exists>u. encode ''a b'' ''d/x y.md'' (Some ''^id'') = Inr u \<and>
       decode u = Inr \<lparr>vault = ''a b'', stored_path = ''d/x y.md'', stored_selector = Some ''^id''\<rparr>"
proof -
  have utf8: "utf8_valid s" if "list_all (\<lambda>c. byte c < 128) s" for s
    using that by (intro utf8_valid_ascii_all) (simp add: list_all_iff)
  let ?u = "uri_text (canon_pairs ''a b'' ''d/x y.md'' (Some ''^id''))"
  have e: "encode ''a b'' ''d/x y.md'' (Some ''^id'') = Inr ?u"
    by (simp add: encode_Inr confined_def starts_with_def split_first_def)
  have "decode ?u = Inr \<lparr>vault = ''a b'', stored_path = ''d/x y.md'', stored_selector = Some ''^id''\<rparr>"
    by (rule stored_roundtrip [OF e]) (simp_all add: utf8 byte_def)
  with e show ?thesis by blast
qed

text \<open>
  Claim C39. The reader is strict up to one shape: an accepted URI is, byte for byte, the URI the
  writer mints for the fields read, unless it is a heading form whose value opens with a caret.
\<close>

theorem stored_strict:
  assumes "decode u = Inr r"
  shows "encode (vault r) (stored_path r) (stored_selector r) = Inr u \<or>
    (\<exists>w. stored_selector r = Some (CHR ''^'' # w) \<and>
         u = uri_text (fields_pairs (vault r) (stored_path r) (Some (''heading'', CHR ''^'' # w))))"
  using assms by (rule decode_canonical)

theorem stored_strict_witness:
  "\<exists>u r. decode u = Inr r \<and> encode (vault r) (stored_path r) (stored_selector r) = Inr u"
proof -
  have utf8: "utf8_valid s" if "list_all (\<lambda>c. byte c < 128) s" for s
    using that by (intro utf8_valid_ascii_all) (simp add: list_all_iff)
  let ?u = "uri_text (canon_pairs ''v'' ''a.md'' (Some ''H''))"
  have "encode ''v'' ''a.md'' (Some ''H'') = Inr ?u"
    by (simp add: encode_Inr confined_def starts_with_def split_first_def)
  then have "decode ?u = Inr \<lparr>vault = ''v'', stored_path = ''a.md'', stored_selector = Some ''H''\<rparr>"
    by (rule decode_encode) (simp_all add: utf8 byte_def)
  with stored_strict [OF this] show ?thesis by fastforce
qed

lemma fields_decode:
  assumes "v \<noteq> []" and "confined p" and "w \<noteq> []" and "utf8_valid v" "utf8_valid p" "utf8_valid w"
    and "key = ''heading'' \<or> key = ''block''"
  shows "decode (uri_text (fields_pairs v p (Some (key, w)))) =
    Inr \<lparr>vault = v, stored_path = p, stored_selector = selector_of (Some (key, w))\<rparr>"
proof -
  let ?f = "fields_pairs v p (Some (key, w))"
  have "fst ?f = action_open \<or> fst ?f = action_advanced" "snd ?f \<noteq> []"
    "\<forall>kv \<in> set (snd ?f). clean_pair kv"
    using assms(7) by (auto simp: fields_pairs_def clean_pair_def encode_component_clean)
  note dec = decode_query [OF this]
  show ?thesis
    unfolding uri_text_def dec using assms confined_not_empty [OF assms(2)]
    by (auto simp: fields_pairs_def param_shape_def action_open_def action_advanced_def
        value_of_encoded selector_of_def)
qed

text \<open>A URI determines its action and its clean parameters.\<close>

definition canonical_uri :: "str \<times> (str \<times> str) list \<Rightarrow> bool" where
  "canonical_uri akv \<longleftrightarrow>
     (fst akv = action_open \<or> fst akv = action_advanced) \<and> snd akv \<noteq> [] \<and>
     (\<forall>kv \<in> set (snd akv). clean_pair kv)"

lemma uri_text_inject:
  assumes "uri_text a = uri_text b" and "canonical_uri a" and "canonical_uri b"
  shows "a = b"
proof -
  have q: "CHR ''?'' \<notin> set (fst c)" if "canonical_uri c" for c
    using that by (auto simp: canonical_uri_def action_open_def action_advanced_def)
  have "fst a @ CHR ''?'' # join ''&'' (map pair_text (snd a)) =
      fst b @ CHR ''?'' # join ''&'' (map pair_text (snd b))"
    using assms(1) by (simp add: uri_text_def)
  then have "fst a = fst b"
    and "join ''&'' (map pair_text (snd a)) = join ''&'' (map pair_text (snd b))"
    using split_once_append [OF q [OF assms(2)]] split_once_append [OF q [OF assms(3)]]
    by (metis option.inject prod.inject)+
  moreover have "query_params (join ''&'' (map pair_text (snd c))) = snd c" if "canonical_uri c" for c
    using that by (intro query_params_join) (auto simp: canonical_uri_def)
  ultimately show ?thesis using assms(2,3) by (metis prod.collapse)
qed

text \<open>
  The exception is real: two different URIs, one of which the writer never mints, read
  back as the same block reference, because a heading value is not checked for a leading caret.
\<close>

theorem stored_caret_collision:
  "\<exists>u1 u2 r. u1 \<noteq> u2 \<and> decode u1 = Inr r \<and> decode u2 = Inr r \<and>
     (\<forall>v p sel. encode v p sel \<noteq> Inr u1)"
proof -
  let ?u1 = "uri_text (fields_pairs ''v'' ''a.md'' (Some (''heading'', ''^x'')))"
  let ?u2 = "uri_text (fields_pairs ''v'' ''a.md'' (Some (''block'', ''x'')))"
  let ?r = "\<lparr>vault = ''v'', stored_path = ''a.md'', stored_selector = Some ''^x''\<rparr>"
  have utf8: "utf8_valid s" if "list_all (\<lambda>c. byte c < 128) s" for s
    using that by (intro utf8_valid_ascii_all) (simp add: list_all_iff)
  have conf: "confined ''a.md''"
    by (simp add: confined_def starts_with_def split_first_def)
  have d1: "decode ?u1 = Inr ?r" and d2: "decode ?u2 = Inr ?r"
    using conf by (simp_all add: fields_decode utf8 byte_def selector_of_def)
  have e2: "encode ''v'' ''a.md'' (Some ''^x'') = Inr ?u2"
    using conf by (simp add: encode_Inr canon_pairs_def fields_pairs_def)
  have ne: "?u1 \<noteq> ?u2"
    by (simp add: uri_text_def fields_pairs_def pair_text_def)
  have "encode v p sel \<noteq> Inr ?u1" for v p sel
  proof
    assume "encode v p sel = Inr ?u1"
    then have "uri_text (canon_pairs v p sel) =
        uri_text (fields_pairs ''v'' ''a.md'' (Some (''heading'', ''^x'')))"
      by (simp only: encode_Inr)
    then have "canon_pairs v p sel = fields_pairs ''v'' ''a.md'' (Some (''heading'', ''^x''))"
      by (rule uri_text_inject)
        (auto simp: canonical_uri_def canon_pairs_def fields_pairs_def clean_pair_def
          encode_component_clean simp del: encode_component_simps split: option.splits)
    then show False
      by (auto simp: canon_pairs_def fields_pairs_def encode_component_inject action_open_def
          action_advanced_def strip_prefix_Some simp del: encode_component_simps split: option.splits)
  qed
  with ne d1 d2 show ?thesis by blast
qed

end
