(* ===== verification/Lock.thy ===== *)
theory Lock
  imports Keyed
begin

text \<open>
  The \<^verbatim>\<open>meridian-lock\<close> fenced block (\<^verbatim>\<open>crates/lock/src/lib.rs\<close>): the lock value and its upsert,
  the one canonical writer and the line reader with its refusals, and the occurrence spelling
  of a path segment. A body line is paired with its 1-based number in the block, as the
  reader's cursor has it; a refusal's fixed wording is one constructor of \<open>reason\<close>.
\<close>

section \<open>The lock value\<close>

definition lock_lang :: str where "lock_lang = ''meridian-lock''"
definition namespace_prefix :: str where "namespace_prefix = ''meridian-''"
definition lock_version :: nat where "lock_version = 2"

definition is_meridian_lang :: "str \<Rightarrow> bool" where
  "is_meridian_lang lang =
     (case first_token lang of None \<Rightarrow> False | Some tok \<Rightarrow> starts_with namespace_prefix tok)"

definition is_lock_lang :: "str \<Rightarrow> bool" where
  "is_lock_lang lang \<longleftrightarrow> first_token lang = Some lock_lang"

datatype pin_selector = PathSel "str list" | PropSel "str list"

fun sel_key :: "pin_selector \<Rightarrow> str" where
  "sel_key (PathSel _) = ''path''"
| "sel_key (PropSel _) = ''properties''"

fun elements :: "pin_selector \<Rightarrow> str list" where
  "elements (PathSel v) = v"
| "elements (PropSel v) = v"

definition is_all :: "pin_selector \<Rightarrow> bool" where
  "is_all s \<longleftrightarrow> elements s = []"

fun duplicate_property :: "pin_selector \<Rightarrow> str option" where
  "duplicate_property (PathSel _) = None"
| "duplicate_property (PropSel keys) =
     map_option (\<lambda>i. keys ! i) (find (\<lambda>i. keys ! i \<in> set (take i keys)) [0..<length keys])"

record pin_entry =
  pin_object :: str
  pin_hash :: str
  pin_sel :: pin_selector
  pin_fp :: str
  pin_extra :: "(str \<times> str) list"

definition reserved_keys :: "str list" where
  "reserved_keys = [''object'', ''hash'', ''path'', ''properties'', ''fingerprint'']"

definition pin_new :: "str \<Rightarrow> str \<Rightarrow> pin_selector \<Rightarrow> str \<Rightarrow> pin_entry" where
  "pin_new obj h s f = \<lparr>pin_object = obj, pin_hash = h, pin_sel = s, pin_fp = f, pin_extra = []\<rparr>"

definition pin_key :: "pin_entry \<Rightarrow> str \<times> pin_selector" where
  "pin_key p = (pin_object p, pin_sel p)"

record lock =
  version :: nat
  pins :: "pin_entry list"

definition lock_new :: lock where
  "lock_new = \<lparr>version = lock_version, pins = []\<rparr>"

definition upsert_pin :: "pin_entry \<Rightarrow> lock \<Rightarrow> lock" where
  "upsert_pin e l = l\<lparr>pins := put_at pin_key e (pins l)\<rparr>"

definition pins_for :: "lock \<Rightarrow> str \<Rightarrow> pin_entry list" where
  "pins_for l obj = filter (\<lambda>p. pin_object p = obj) (pins l)"

section \<open>Occurrence ordinals\<close>

definition render_occurrence :: "str \<Rightarrow> nat option \<Rightarrow> str" where
  "render_occurrence h n = (case n of Some n \<Rightarrow> h @ ''#'' @ to_dec n | None \<Rightarrow> h)"

definition parse_occurrence :: "str \<Rightarrow> str \<times> nat option" where
  "parse_occurrence seg =
     (case rsplit_once CHR ''#'' seg of
        None \<Rightarrow> (seg, None)
      | Some (head, tail) \<Rightarrow>
          if head = [] \<or> tail = [] \<or> starts_with ''0'' tail \<or> \<not> list_all ascii_digit tail
          then (seg, None)
          else (case parse_uint 10 u32_max tail of
                  Some n \<Rightarrow> (head, Some n)
                | None \<Rightarrow> (seg, None)))"

section \<open>The writer\<close>

fun quote_char :: "char \<Rightarrow> str" where
  "quote_char c =
     (if c = CHR 0x5C then [CHR 0x5C, CHR 0x5C]
      else if c = CHR 0x22 then [CHR 0x5C, CHR 0x22]
      else if c = CHR 0x0A then [CHR 0x5C, CHR ''n'']
      else [c])"

definition quoted :: "str \<Rightarrow> str" where
  "quoted s = [CHR 0x22] @ concat (map quote_char s) @ [CHR 0x22]"

fun array_items :: "str list \<Rightarrow> str" where
  "array_items [] = []"
| "array_items [e] = quoted e"
| "array_items (e # es) = quoted e @ '', '' @ array_items es"

definition array_text :: "str list \<Rightarrow> str" where
  "array_text es = ''['' @ array_items es @ '']''"

definition nl :: str where "nl = [CHR 0x0A]"
definition fence :: str where "fence = ''```''"
definition row_open :: str where "row_open = ''  - object: ''"

definition render_pin :: "pin_entry \<Rightarrow> str" where
  "render_pin pin =
     row_open @ quoted (''[['' @ pin_object pin @ '']]'') @ nl @
     ''    hash: '' @ quoted (pin_hash pin) @ nl @
     ''    '' @ sel_key (pin_sel pin) @ '': '' @ array_text (elements (pin_sel pin)) @ nl @
     ''    fingerprint: '' @ quoted (pin_fp pin) @ nl @
     concat (map (\<lambda>(k, v). ''    '' @ k @ '': '' @ v @ nl) (pin_extra pin))"

definition lock_render :: "lock \<Rightarrow> str" where
  "lock_render l =
     fence @ lock_lang @ nl @ ''version: '' @ to_dec (version l) @ nl @
     (if pins l = [] then [] else ''pins:'' @ nl @ concat (map render_pin (pins l))) @ fence"

section \<open>The reader\<close>

datatype reason =
    MissingClosingFence
  | EmptyBody
  | VersionLineExpected
  | VersionNotInteger
  | UnrecognizedLine
  | TrailingAfterObject
  | RowEndedBeforeFields
  | MissingHash
  | MissingFingerprint
  | TrailingAfterField
  | RowEndedBeforeSelector
  | SelectorExpected
  | SelectorNotArray
  | ArraySeparator
  | ReservedOutOfOrder
  | DuplicateExtra
  | QuotedExpected
  | UnknownEscape
  | UnterminatedQuoted
  | SpanOutOfBounds

datatype lock_error =
    NotALockBlock
  | UnsupportedVersion str "str option"
  | Malformed nat reason
  | MultipleBlocks
  | BadObject nat str
  | DuplicateSelectorKey nat str
  | WrongSelectorArm str

type_synonym cursor = "(nat \<times> str) list"

fun read_chars :: "nat \<Rightarrow> str \<Rightarrow> lock_error + (str \<times> str)" where
  "read_chars line [] = Inl (Malformed line UnterminatedQuoted)"
| "read_chars line (c # cs) =
     (if c = CHR 0x22 then Inr ([], cs)
      else if c = CHR 0x5C then
        (case cs of
           e # r \<Rightarrow>
             (if e = CHR 0x5C then and_then (read_chars line r) (\<lambda>(v, t). Inr (CHR 0x5C # v, t))
              else if e = CHR 0x22 then and_then (read_chars line r) (\<lambda>(v, t). Inr (CHR 0x22 # v, t))
              else if e = CHR ''n'' then and_then (read_chars line r) (\<lambda>(v, t). Inr (CHR 0x0A # v, t))
              else Inl (Malformed line UnknownEscape))
         | [] \<Rightarrow> Inl (Malformed line UnknownEscape))
      else and_then (read_chars line cs) (\<lambda>(v, t). Inr (c # v, t)))"

definition read_quoted :: "str \<Rightarrow> nat \<Rightarrow> lock_error + (str \<times> str)" where
  "read_quoted s line =
     and_then (ok_or (strip_prefix [CHR 0x22] s) (Malformed line QuotedExpected)) (read_chars line)"

lemma read_chars_shorter: "read_chars n s = Inr (v, t) \<Longrightarrow> length t < length s"
proof (induction n s arbitrary: v rule: read_chars.induct)
  case (2 n c cs)
  show ?case
  proof (cases cs)
    case Nil
    with "2" show ?thesis by (auto simp: and_then_Inr split: if_splits)
  next
    case (Cons e r)
    with "2" show ?thesis
      by (fastforce simp: and_then_Inr split: if_splits)
  qed
qed simp

lemma read_quoted_shorter: "read_quoted s n = Inr (v, t) \<Longrightarrow> length t < length s"
  by (auto simp: read_quoted_def and_then_Inr ok_or_Inr strip_prefix_Some dest: read_chars_shorter)

definition unwrap_wikilink :: "str \<Rightarrow> str option" where
  "unwrap_wikilink raw =
     Option.bind (strip_prefix ''[['' raw) (\<lambda>r.
     Option.bind (strip_suffix '']]'' r) (\<lambda>inner. if inner = [] then None else Some inner))"

definition read_field :: "cursor \<Rightarrow> str \<Rightarrow> nat \<Rightarrow> lock_error + (str \<times> cursor)" where
  "read_field it name row =
     (case it of
        [] \<Rightarrow> Inl (Malformed row RowEndedBeforeFields)
      | (n, line) # rest_it \<Rightarrow>
          (case strip_prefix (''    '' @ name @ '': '') line of
             None \<Rightarrow> Inl (Malformed n (if name = ''hash'' then MissingHash else MissingFingerprint))
           | Some rest \<Rightarrow>
               and_then (read_quoted rest n) (\<lambda>(v, tail).
                 if tail \<noteq> [] then Inl (Malformed n TrailingAfterField) else Inr (v, rest_it))))"

function read_items :: "str \<Rightarrow> nat \<Rightarrow> lock_error + str list" where
  "read_items rest line =
     and_then (read_quoted rest line) (\<lambda>(v, tail).
       (case strip_prefix '', '' tail of
          Some next \<Rightarrow> and_then (read_items next line) (\<lambda>vs. Inr (v # vs))
        | None \<Rightarrow> if tail = [] then Inr [v] else Inl (Malformed line ArraySeparator)))"
  by pat_completeness auto
termination
  by (relation "measure (\<lambda>(s, n). length s)")
    (auto dest!: read_quoted_shorter simp: strip_prefix_Some)

declare read_items.simps [simp del]

definition read_array :: "str \<Rightarrow> nat \<Rightarrow> lock_error + str list" where
  "read_array s line =
     and_then (ok_or (Option.bind (strip_prefix ''['' s) (strip_suffix '']''))
                 (Malformed line SelectorNotArray))
       (\<lambda>inner. if inner = [] then Inr [] else read_items inner line)"

definition read_selector :: "cursor \<Rightarrow> nat \<Rightarrow> lock_error + (pin_selector \<times> nat \<times> cursor)" where
  "read_selector it row =
     (case it of
        [] \<Rightarrow> Inl (Malformed row RowEndedBeforeSelector)
      | (n, line) # rest_it \<Rightarrow>
          (case strip_prefix ''    path: '' line of
             Some rest \<Rightarrow> and_then (read_array rest n) (\<lambda>v. Inr (PathSel v, n, rest_it))
           | None \<Rightarrow>
               (case strip_prefix ''    properties: '' line of
                  Some rest \<Rightarrow> and_then (read_array rest n) (\<lambda>v. Inr (PropSel v, n, rest_it))
                | None \<Rightarrow> Inl (Malformed n SelectorExpected))))"

text \<open>The free-form tail: the loop breaks, leaving the line unread, on a line that is no pair.\<close>

fun read_extras :: "(str \<times> str) list \<Rightarrow> cursor \<Rightarrow> lock_error + ((str \<times> str) list \<times> cursor)" where
  "read_extras out [] = Inr (out, [])"
| "read_extras out ((n, line) # it) =
     (case strip_prefix ''    '' line of
        None \<Rightarrow> Inr (out, (n, line) # it)
      | Some rest \<Rightarrow>
          (case find_str '': '' rest of
             None \<Rightarrow> Inr (out, (n, line) # it)
           | Some colon \<Rightarrow>
               let key = take colon rest in
               if key = [] \<or> CHR '' '' \<in> set key then Inr (out, (n, line) # it)
               else if key \<in> set reserved_keys then Inl (Malformed n ReservedOutOfOrder)
               else if key \<in> fst ` set out then Inl (Malformed n DuplicateExtra)
               else read_extras (btree_insert (key, drop (colon + 2) rest) out) it))"

definition parse_row :: "nat \<Rightarrow> str \<Rightarrow> cursor \<Rightarrow> lock_error + (pin_entry \<times> cursor)" where
  "parse_row n l it =
     and_then (read_quoted (drop (length row_open) l) n) (\<lambda>(raw_object, tail).
     if tail \<noteq> [] then Inl (Malformed n TrailingAfterObject)
     else
     and_then (ok_or (unwrap_wikilink raw_object) (BadObject n raw_object)) (\<lambda>obj.
     and_then (read_field it ''hash'' n) (\<lambda>(h, it1).
     and_then (read_selector it1 n) (\<lambda>(sel, sel_line, it2).
     (case duplicate_property sel of
        Some dup \<Rightarrow> Inl (DuplicateSelectorKey sel_line dup)
      | None \<Rightarrow>
     and_then (read_field it2 ''fingerprint'' n) (\<lambda>(f, it3).
     and_then (read_extras [] it3) (\<lambda>(ex, it4).
     Inr (\<lparr>pin_object = obj, pin_hash = h, pin_sel = sel, pin_fp = f, pin_extra = ex\<rparr>, it4))))))))"

lemma read_field_shorter: "read_field it name row = Inr (v, it') \<Longrightarrow> length it' < length it"
  by (auto simp: read_field_def and_then_Inr split: list.splits option.splits if_splits)

lemma read_selector_shorter: "read_selector it row = Inr (s, n, it') \<Longrightarrow> length it' < length it"
  by (auto simp: read_selector_def and_then_Inr split: list.splits option.splits)

lemma read_extras_shorter: "read_extras out it = Inr (ex, it') \<Longrightarrow> length it' \<le> length it"
proof (induction out it rule: read_extras.induct)
  case (2 out n line it)
  show ?case
    using "2.prems" "2.IH" by (fastforce simp: Let_def split: option.splits if_splits)
qed simp

lemma parse_row_shorter: "parse_row n l it = Inr (pin, it') \<Longrightarrow> length it' < length it"
  unfolding parse_row_def
  by (auto simp: and_then_Inr split: if_splits option.splits prod.splits
      dest!: read_field_shorter read_selector_shorter read_extras_shorter)

function parse_pins :: "cursor \<Rightarrow> lock_error + (pin_entry list \<times> cursor)" where
  "parse_pins [] = Inr ([], [])"
| "parse_pins ((n, l) # it) =
     (if \<not> starts_with row_open l then Inr ([], (n, l) # it)
      else
        and_then (parse_row n l it) (\<lambda>(pin, it').
        and_then (parse_pins it') (\<lambda>(ps, rest). Inr (pin # ps, rest))))"
  by pat_completeness auto
termination
  by (relation "measure length") (auto dest: parse_row_shorter)

definition numbered :: "str list \<Rightarrow> cursor" where
  "numbered ls = zip [2..<2 + length ls] ls"

text \<open>The body between the fences: the version line, then the pins, then nothing.\<close>

definition parse_plane :: "cursor \<Rightarrow> lock_error + (pin_entry list \<times> cursor)" where
  "parse_plane it =
     (case it of
        (m, l) # it' \<Rightarrow> if l = ''pins:'' then parse_pins it' else Inr ([], it)
      | [] \<Rightarrow> Inr ([], []))"

fun plane_end :: "pin_entry list \<times> cursor \<Rightarrow> lock_error + lock" where
  "plane_end (ps, []) = Inr (lock_new\<lparr>pins := ps\<rparr>)"
| "plane_end (ps, (m, _) # _) = Inl (Malformed m UnrecognizedLine)"

definition parse_body_lines :: "cursor \<Rightarrow> lock_error + lock" where
  "parse_body_lines body =
     (case body of
        [] \<Rightarrow> Inl (Malformed 1 EmptyBody)
      | (vline, vtext) # it \<Rightarrow>
          and_then (ok_or (strip_prefix ''version: '' vtext) (Malformed vline VersionLineExpected))
            (\<lambda>vraw.
          and_then (ok_or (parse_uint 10 u32_max (trim vraw)) (Malformed vline VersionNotInteger))
            (\<lambda>v.
          if v \<noteq> lock_version then Inl (UnsupportedVersion (trim vraw) None)
          else
            and_then (parse_plane it) plane_end)))"

definition lock_parse :: "str \<Rightarrow> lock_error + lock" where
  "lock_parse slice =
     (case lines slice of
        [] \<Rightarrow> Inl NotALockBlock
      | first # rest \<Rightarrow>
          if \<not> starts_with fence first \<or> \<not> is_lock_lang (drop 3 first) then Inl NotALockBlock
          else if rest = [] then Inl (Malformed 1 MissingClosingFence)
          else
            let (n, close) = last (numbered rest) in
            if trim_end close \<noteq> fence then Inl (Malformed n MissingClosingFence)
            else parse_body_lines (butlast (numbered rest)))"

end
