(* ===== verification/Lock_Round.thy ===== *)
theory Lock_Round
  imports Lock
begin

text \<open>
  The lock block's round trip: the reader inverts the writer on well-formed locks, the reader
  produces well-formed locks only, and the occurrence spelling is a bijection on its range.
\<close>

section \<open>Well-formed locks\<close>

definition extra_ok :: "str \<times> str \<Rightarrow> bool" where
  "extra_ok kv \<longleftrightarrow>
     fst kv \<noteq> [] \<and> CHR '' '' \<notin> set (fst kv) \<and> CHR 0x0A \<notin> set (fst kv) \<and>
     fst kv \<notin> set reserved_keys \<and> CHR 0x0A \<notin> set (snd kv)"

definition pin_ok :: "pin_entry \<Rightarrow> bool" where
  "pin_ok p \<longleftrightarrow>
     pin_object p \<noteq> [] \<and> duplicate_property (pin_sel p) = None \<and>
     btree_ok (pin_extra p) \<and> list_all extra_ok (pin_extra p)"

definition lock_ok :: "lock \<Rightarrow> bool" where
  "lock_ok l \<longleftrightarrow> version l = lock_version \<and> list_all pin_ok (pins l)"

text \<open>No extra value ends in a carriage return, which a line reader cannot tell from a line end.\<close>

definition extras_cr_free :: "lock \<Rightarrow> bool" where
  "extras_cr_free l \<longleftrightarrow> list_all (\<lambda>p. list_all (\<lambda>kv. no_trailing_cr (snd kv)) (pin_extra p)) (pins l)"

section \<open>Reading what was written\<close>

lemma read_chars_quote: "read_chars n (concat (map quote_char s) @ CHR 0x22 # t) = Inr (s, t)"
  by (induction s) auto

lemma read_quoted_quoted [simp]: "read_quoted (quoted s @ t) n = Inr (s, t)"
  by (simp add: read_quoted_def quoted_def read_chars_quote)

lemma read_quoted_quoted_end [simp]: "read_quoted (quoted s) n = Inr (s, [])"
  using read_quoted_quoted [of s "[]" n] by simp

lemma read_items_array: "es \<noteq> [] \<Longrightarrow> read_items (array_items es) n = Inr es"
proof (induction es rule: array_items.induct)
  case (2 e)
  then show ?case by (simp add: read_items.simps)
next
  case (3 e f es)
  then show ?case by (subst read_items.simps) simp
qed simp

lemma array_items_Nil: "array_items es = [] \<longleftrightarrow> es = []"
  by (cases es rule: array_items.cases) (auto simp: quoted_def)

lemma read_array_text [simp]: "read_array (array_text es) n = Inr es"
proof -
  have "Option.bind (strip_prefix ''['' (array_text es)) (strip_suffix '']'') = Some (array_items es)"
    by (simp add: array_text_def strip_suffix_Some)
  then show ?thesis by (simp add: read_array_def array_items_Nil read_items_array)
qed

lemma unwrap_wikilink_bracket: "unwrap_wikilink (''[['' @ obj @ '']]'') = (if obj = [] then None else Some obj)"
proof -
  have "strip_suffix '']]'' (obj @ '']]'') = Some obj" by (rule strip_suffix_append)
  then show ?thesis by (simp add: unwrap_wikilink_def)
qed

definition field_line :: "str \<Rightarrow> str \<Rightarrow> str" where
  "field_line name v = ''    '' @ name @ '': '' @ quoted v"

lemma read_field_line: "read_field ((n, field_line name v) # it) name row = Inr (v, it)"
proof -
  have "strip_prefix (''    '' @ name @ '': '') (''    '' @ name @ '': '' @ quoted v) = Some (quoted v)"
    by (simp only: strip_prefix_Some append_assoc)
  then show ?thesis unfolding read_field_def field_line_def by simp
qed

definition sel_line :: "pin_selector \<Rightarrow> str" where
  "sel_line s = ''    '' @ sel_key s @ '': '' @ array_text (elements s)"

lemma read_selector_line: "read_selector ((n, sel_line s) # it) row = Inr (s, n, it)"
proof (cases s)
  case (PathSel v)
  then show ?thesis by (simp add: read_selector_def sel_line_def)
next
  case (PropSel v)
  then show ?thesis by (simp add: read_selector_def sel_line_def)
qed

lemma find_str_colon: "CHR '' '' \<notin> set k \<Longrightarrow> find_str '': '' (k @ '': '' @ v) = Some (length k)"
proof (induction k)
  case (Cons c k)
  then have "\<not> starts_with '': '' ((c # k) @ '': '' @ v)"
    by (cases k) (auto simp: starts_with_def)
  with Cons show ?case by simp
qed (simp add: starts_with_def)

definition extra_line :: "str \<times> str \<Rightarrow> str" where
  "extra_line kv = ''    '' @ fst kv @ '': '' @ snd kv"

text \<open>A cursor at which a pin row is over: the end, or the next row's opening line.\<close>

definition row_end :: "cursor \<Rightarrow> bool" where
  "row_end it \<longleftrightarrow> (\<forall>n l it'. it = (n, l) # it' \<longrightarrow> starts_with row_open l)"

lemma row_end_extras: "row_end it \<Longrightarrow> read_extras out it = Inr (out, it)"
proof (cases it)
  case (Cons p it')
  assume "row_end it"
  then obtain n r where "it = (n, row_open @ r) # it'"
    using Cons by (cases p) (auto simp: row_end_def starts_with_def strip_prefix_Some)
  then show ?thesis by (simp add: row_open_def)
qed simp

lemma read_extras_lines:
  assumes "map snd it = map extra_line ex" and "list_all extra_ok ex"
    and "btree_ok (out @ ex)" and "row_end rest"
  shows "read_extras out (it @ rest) = Inr (out @ ex, rest)"
  using assms(1-3)
proof (induction ex arbitrary: it out)
  case Nil
  then show ?case by (simp add: row_end_extras [OF assms(4)])
next
  case (Cons kv ex)
  obtain k v where kv: "kv = (k, v)" by fastforce
  obtain n it' where it: "it = (n, extra_line kv) # it'" "map snd it' = map extra_line ex"
    using Cons.prems(1) by (cases it) auto
  have k: "k \<noteq> []" "CHR '' '' \<notin> set k" "k \<notin> set reserved_keys"
    using Cons.prems(2) kv by (auto simp: extra_ok_def)
  have last: "\<forall>j \<in> fst ` set out. j < k"
    using Cons.prems(3) kv by (auto simp: btree_ok_def sorted_wrt_append)
  then have new: "k \<notin> fst ` set out" by auto
  have ins: "btree_insert (k, v) out = out @ [(k, v)]"
    using last by (intro btree_insert_last) simp
  have line: "extra_line kv = ''    '' @ k @ '': '' @ v"
    by (simp add: extra_line_def kv)
  have "read_extras out (it @ rest) = read_extras (btree_insert (k, v) out) (it' @ rest)"
    using k new find_str_colon [OF k(2), of v]
    unfolding it(1) line by (simp add: Let_def)
  also have "\<dots> = Inr ((out @ [(k, v)]) @ ex, rest)"
    unfolding ins using Cons.prems it(2) kv by (intro Cons.IH) auto
  finally show ?case by (simp add: kv)
qed

section \<open>One row\<close>

definition pin_head :: "pin_entry \<Rightarrow> str" where
  "pin_head p = row_open @ quoted (''[['' @ pin_object p @ '']]'')"

definition pin_tail :: "pin_entry \<Rightarrow> str list" where
  "pin_tail p =
     [field_line ''hash'' (pin_hash p), sel_line (pin_sel p),
      field_line ''fingerprint'' (pin_fp p)] @ map extra_line (pin_extra p)"

lemma parse_row_lines:
  assumes "map snd it = pin_tail p" and "pin_ok p" and "row_end rest"
  shows "parse_row n (pin_head p) (it @ rest) = Inr (p, rest)"
proof -
  obtain n1 n2 n3 it' where it:
    "it = (n1, field_line ''hash'' (pin_hash p)) # (n2, sel_line (pin_sel p)) #
          (n3, field_line ''fingerprint'' (pin_fp p)) # it'"
    and ex: "map snd it' = map extra_line (pin_extra p)"
    using assms(1) by (auto simp: pin_tail_def map_eq_Cons_conv)
  have "read_extras [] (it' @ rest) = Inr ([] @ pin_extra p, rest)"
    using ex assms(2,3) by (intro read_extras_lines) (auto simp: pin_ok_def)
  then show ?thesis
    using assms(2) unwrap_wikilink_bracket [of "pin_object p"]
    unfolding it parse_row_def pin_head_def
    by (simp add: pin_ok_def read_field_line read_selector_line)
qed

lemma parse_pins_lines:
  assumes "map snd it = concat (map (\<lambda>p. pin_head p # pin_tail p) ps)" and "list_all pin_ok ps"
  shows "parse_pins it = Inr (ps, [])"
  using assms
proof (induction ps arbitrary: it)
  case Nil
  then show ?case by simp
next
  case (Cons p ps)
  let ?n = "length (pin_tail p)"
  obtain n it0 where it: "it = (n, pin_head p) # it0"
    and it0: "map snd it0 = pin_tail p @ concat (map (\<lambda>p. pin_head p # pin_tail p) ps)"
    using Cons.prems(1) by (cases it) auto
  have t: "map snd (take ?n it0) = pin_tail p"
    and d: "map snd (drop ?n it0) = concat (map (\<lambda>p. pin_head p # pin_tail p) ps)"
    by (simp_all add: take_map [symmetric] drop_map [symmetric] it0)
  have "row_end (drop ?n it0)"
  proof (cases ps)
    case Nil
    with d show ?thesis by (simp add: row_end_def)
  next
    case (Cons q qs)
    with d show ?thesis by (auto simp: row_end_def pin_head_def)
  qed
  then have "parse_row n (pin_head p) (take ?n it0 @ drop ?n it0) = Inr (p, drop ?n it0)"
    using t Cons.prems(2) by (intro parse_row_lines) auto
  moreover have "parse_pins (drop ?n it0) = Inr (ps, [])"
    using d Cons.prems(2) by (intro Cons.IH) auto
  ultimately show ?case by (simp add: it pin_head_def)
qed

section \<open>The block\<close>

definition lock_body :: "lock \<Rightarrow> str list" where
  "lock_body l =
     (''version: '' @ to_dec (version l)) #
     (if pins l = [] then [] else ''pins:'' # concat (map (\<lambda>p. pin_head p # pin_tail p) (pins l)))"

definition lock_lines :: "lock \<Rightarrow> str list" where
  "lock_lines l = (fence @ lock_lang) # lock_body l @ [fence]"

lemma render_pin_lines: "render_pin p = terminated (pin_head p # pin_tail p)"
proof -
  have "concat (map (\<lambda>(k, v). ''    '' @ k @ '': '' @ v @ nl) ex) = terminated (map extra_line ex)" for ex
    by (induction ex) (auto simp: extra_line_def nl_def split: prod.splits)
  then show ?thesis
    by (simp add: render_pin_def pin_head_def pin_tail_def sel_line_def field_line_def nl_def)
qed

lemma lock_render_lines: "lock_render l = join nl (lock_lines l)"
proof -
  have "concat (map render_pin ps) = terminated (concat (map (\<lambda>p. pin_head p # pin_tail p) ps))" for ps
    by (induction ps) (simp_all add: render_pin_lines)
  then show ?thesis
    using join_terminated [of "(fence @ lock_lang) # lock_body l" fence]
    by (simp add: lock_lines_def lock_render_def lock_body_def nl_def)
qed

lemma quoted_newline: "CHR 0x0A \<notin> set (quoted s)"
  by (auto simp: quoted_def split: if_splits)

lemma array_items_newline: "CHR 0x0A \<notin> set (array_items es)"
  by (induction es rule: array_items.induct) (auto simp: quoted_newline)

lemma last_quoted: "last (r @ quoted s) = CHR 0x22"
  by (simp add: quoted_def)

lemma pin_lines_clean:
  assumes "pin_ok p" and "list_all (\<lambda>kv. no_trailing_cr (snd kv)) (pin_extra p)"
    and "l \<in> set (pin_head p # pin_tail p)"
  shows "CHR 0x0A \<notin> set l \<and> no_trailing_cr l"
proof -
  have ex: "CHR 0x0A \<notin> set (extra_line kv) \<and> no_trailing_cr (extra_line kv)"
    if "kv \<in> set (pin_extra p)" for kv
    using that assms(1,2)
    by (auto simp: pin_ok_def list_all_iff extra_ok_def extra_line_def no_trailing_cr_def)
  have sel: "CHR 0x0A \<notin> set (sel_line s) \<and> no_trailing_cr (sel_line s)" for s
    by (cases s) (auto simp: sel_line_def array_text_def array_items_newline no_trailing_cr_def)
  have q: "no_trailing_cr (r @ quoted s)" for r s
    using last_quoted [of r s] by (simp add: no_trailing_cr_def)
  have head: "no_trailing_cr (pin_head p) \<and> CHR 0x0A \<notin> set (pin_head p)"
    using q [of row_open] quoted_newline unfolding pin_head_def by (simp add: row_open_def)
  have field: "no_trailing_cr (field_line name v) \<and> CHR 0x0A \<notin> set (field_line name v)"
    if "CHR 0x0A \<notin> set name" for name v
    using that q [of "''    '' @ name @ '': ''" v] quoted_newline [of v]
    by (simp add: field_line_def)
  from assms(3) head ex sel field [of "''hash''"] field [of "''fingerprint''"] show ?thesis
    by (auto simp: pin_tail_def)
qed

lemma lock_lines_read:
  assumes "lock_ok l" and "extras_cr_free l"
  shows "lines (lock_render l) = lock_lines l"
proof -
  have pin: "CHR 0x0A \<notin> set m \<and> no_trailing_cr m"
    if "p \<in> set (pins l)" "m \<in> set (pin_head p # pin_tail p)" for p m
    using that assms pin_lines_clean [of p m]
    by (auto simp: lock_ok_def extras_cr_free_def list_all_iff)
  have dec: "CHR 0x0A \<notin> set (to_dec n)" "CHR 0x0D \<notin> set (to_dec n)" for n
    by (auto dest!: to_dec_digits simp: ascii_digit_def byte_def)
  have "no_trailing_cr (''version: '' @ to_dec n)" for n
  proof -
    have "last (to_dec n) \<noteq> CHR 0x0D"
      using dec(2) [of n] last_in_set [of "to_dec n"] by (metis to_dec_not_Nil)
    then show ?thesis by (simp add: no_trailing_cr_def)
  qed
  then have all: "CHR 0x0A \<notin> set m \<and> no_trailing_cr m" if "m \<in> set (lock_lines l)" for m
    using that pin dec
    by (auto simp: lock_lines_def lock_body_def fence_def lock_lang_def no_trailing_cr_def
        split: if_splits)
  have "lines (join [CHR 0x0A] (lock_lines l)) = lock_lines l"
    using all by (intro lines_join) (auto simp: lock_lines_def fence_def dest!: in_set_butlastD)
  then show ?thesis by (simp add: lock_render_lines nl_def)
qed

lemma numbered_snd: "map snd (numbered ls) = ls"
  unfolding numbered_def by (rule map_snd_zip) (simp only: length_upt diff_add_inverse)

lemma numbered_snoc: "\<exists>n it. numbered (ls @ [m]) = it @ [(n, m)] \<and> map snd it = ls"
proof -
  have "map snd (numbered (ls @ [m])) = ls @ [m]" by (rule numbered_snd)
  then obtain it z where "numbered (ls @ [m]) = it @ [z]" "map snd it = ls" "snd z = m"
    by (auto simp: map_eq_append_conv)
  then show ?thesis by (metis prod.collapse)
qed

lemma head_line_ok: "starts_with fence (fence @ lock_lang) \<and> is_lock_lang (drop 3 (fence @ lock_lang))"
  by (simp add: fence_def lock_lang_def is_lock_lang_def first_token_def trim_start_def
      trim_any.simps ws_chars_def starts_with_def)

lemma version_dec: "to_dec lock_version = ''2''"
  by code_simp

lemma version_text: "trim (to_dec lock_version) = ''2''"
  unfolding version_dec
  by (simp add: trim_def trim_start_def trim_end_def trim_any.simps ws_chars_def)

lemma fence_trim: "trim_end fence = fence"
  by (simp add: fence_def trim_end_def trim_any.simps ws_chars_def)

lemma lock_parse_lines:
  assumes "lock_ok l" and "lines s = lock_lines l"
  shows "lock_parse s = Inr l"
proof -
  obtain n it where num: "numbered (lock_body l @ [fence]) = it @ [(n, fence)]"
    and it: "map snd it = lock_body l"
    using numbered_snoc by blast
  obtain vl it' where it': "it = (vl, ''version: '' @ to_dec (version l)) # it'"
    and rest: "map snd it' = tl (lock_body l)"
    using it by (cases it) (auto simp: lock_body_def)
  have ver: "version l = lock_version" using assms(1) by (simp add: lock_ok_def)
  have pu: "parse_uint 10 u32_max ''2'' = Some 2"
    by (simp add: parse_uint_def digit_val_def byte_def u32_max_def)
  have "parse_plane it' = Inr (pins l, [])"
  proof (cases "pins l")
    case Nil
    with rest show ?thesis by (simp add: lock_body_def parse_plane_def)
  next
    case (Cons p ps)
    then obtain m it'' where "it' = (m, ''pins:'') # it''"
      "map snd it'' = concat (map (\<lambda>p. pin_head p # pin_tail p) (pins l))"
      using rest by (cases it') (auto simp: lock_body_def)
    then show ?thesis
      using parse_pins_lines assms(1) by (simp add: lock_ok_def parse_plane_def)
  qed
  then show ?thesis
    using num ver pu version_text fence_trim head_line_ok
    unfolding lock_parse_def assms(2) lock_lines_def
    by (simp add: it' parse_body_lines_def lock_version_def lock_new_def)
qed

lemma lock_parse_render: "lock_ok l \<Longrightarrow> extras_cr_free l \<Longrightarrow> lock_parse (lock_render l) = Inr l"
  by (intro lock_parse_lines lock_lines_read)

section \<open>What the reader accepts is well formed\<close>

text \<open>A set of characters that occurs in no line read occurs in no extra pair.\<close>

definition free_of :: "char set \<Rightarrow> cursor \<Rightarrow> bool" where
  "free_of C it \<longleftrightarrow> (\<forall>entry \<in> set it. C \<inter> set (snd entry) = {})"

definition extras_free :: "char set \<Rightarrow> (str \<times> str) list \<Rightarrow> bool" where
  "extras_free C ex \<longleftrightarrow> (\<forall>kv \<in> set ex. C \<inter> set (fst kv) = {} \<and> C \<inter> set (snd kv) = {})"

definition key_ok :: "str \<times> str \<Rightarrow> bool" where
  "key_ok kv \<longleftrightarrow> fst kv \<noteq> [] \<and> CHR '' '' \<notin> set (fst kv) \<and> fst kv \<notin> set reserved_keys"

lemma free_of_Cons: "free_of C (entry # it) \<longleftrightarrow> C \<inter> set (snd entry) = {} \<and> free_of C it"
  by (auto simp: free_of_def)

lemma set_btree_insert: "set (btree_insert kv m) \<subseteq> insert kv (set m)"
  by (induction m) auto

lemma extras_free_insert:
  "extras_free C out \<Longrightarrow> C \<inter> set k = {} \<Longrightarrow> C \<inter> set v = {} \<Longrightarrow> extras_free C (btree_insert (k, v) out)"
  using set_btree_insert [of "(k, v)" out] unfolding extras_free_def by force

lemma key_ok_insert: "list_all key_ok out \<Longrightarrow> key_ok kv \<Longrightarrow> list_all key_ok (btree_insert kv out)"
  using set_btree_insert [of kv out] by (auto simp: list_all_iff)

definition extras_state_ok :: "char set \<Rightarrow> (str \<times> str) list \<Rightarrow> bool" where
  "extras_state_ok C ex \<longleftrightarrow> btree_ok ex \<and> list_all key_ok ex \<and> extras_free C ex"

lemma read_extras_ok:
  assumes "read_extras out it = Inr (ex, it')" and "extras_state_ok C out" and "free_of C it"
  shows "extras_state_ok C ex \<and> free_of C it'"
  using assms
proof (induction out it rule: read_extras.induct)
  case (2 out n line it)
  show ?case
  proof (cases "\<exists>rest colon. strip_prefix ''    '' line = Some rest \<and> find_str '': '' rest = Some colon \<and>
      take colon rest \<noteq> [] \<and> CHR '' '' \<notin> set (take colon rest)")
    case True
    then obtain rest colon where
      rest: "strip_prefix ''    '' line = Some rest" and colon: "find_str '': '' rest = Some colon"
      and key: "\<not> (take colon rest = [] \<or> CHR '' '' \<in> set (take colon rest))" by blast
    let ?k = "take colon rest" and ?v = "drop (colon + 2) rest"
    have new: "?k \<notin> set reserved_keys" "?k \<notin> fst ` set out"
      and rec: "read_extras (btree_insert (?k, ?v) out) it = Inr (ex, it')"
      using "2.prems"(1) rest colon key by (auto simp: Let_def split: if_splits)
    have "set ?k \<subseteq> set line" "set ?v \<subseteq> set line"
      using rest set_take_subset [of colon rest] set_drop_subset [of "colon + 2" rest]
      by (auto simp: strip_prefix_Some)
    then have free: "C \<inter> set ?k = {}" "C \<inter> set ?v = {}"
      using "2.prems"(3) unfolding free_of_Cons snd_conv by blast+
    have ok: "key_ok (?k, ?v)" unfolding key_ok_def fst_conv using key new(1) by blast
    have "extras_state_ok C (btree_insert (?k, ?v) out)"
      using "2.prems"(2) unfolding extras_state_ok_def
      by (intro conjI btree_insert_ok key_ok_insert extras_free_insert free ok) blast+
    then show ?thesis
      using "2.IH" [OF rest colon refl key new rec] "2.prems"(3) by (simp add: free_of_Cons)
  next
    case False
    with "2.prems" show ?thesis by (auto simp: Let_def split: option.splits if_splits)
  qed
qed simp

lemma read_field_rest: "read_field it name row = Inr (v, it') \<Longrightarrow> \<exists>entry. it = entry # it'"
  by (auto simp: read_field_def and_then_Inr split: list.splits option.splits if_splits)

lemma read_selector_rest: "read_selector it row = Inr (s, n, it') \<Longrightarrow> \<exists>entry. it = entry # it'"
  by (auto simp: read_selector_def and_then_Inr split: list.splits option.splits)

lemma unwrap_wikilink_Some: "unwrap_wikilink r = Some obj \<Longrightarrow> obj \<noteq> []"
  by (auto simp: unwrap_wikilink_def bind_eq_Some_conv split: if_splits)

definition pin_read_ok :: "char set \<Rightarrow> pin_entry \<Rightarrow> bool" where
  "pin_read_ok C p \<longleftrightarrow>
     pin_object p \<noteq> [] \<and> duplicate_property (pin_sel p) = None \<and> extras_state_ok C (pin_extra p)"

lemma parse_row_ok:
  assumes "parse_row n l it = Inr (p, it')" and "free_of C it"
  shows "pin_read_ok C p \<and> free_of C it'"
proof -
  obtain raw obj h it1 s sl it2 f it3 ex where
    obj: "unwrap_wikilink raw = Some obj" and h: "read_field it ''hash'' n = Inr (h, it1)"
    and s: "read_selector it1 n = Inr (s, sl, it2)" and dup: "duplicate_property s = None"
    and f: "read_field it2 ''fingerprint'' n = Inr (f, it3)" and ex: "read_extras [] it3 = Inr (ex, it')"
    and p: "p = \<lparr>pin_object = obj, pin_hash = h, pin_sel = s, pin_fp = f, pin_extra = ex\<rparr>"
    using assms(1)
    by (auto simp: parse_row_def and_then_Inr ok_or_Inr split: if_splits option.splits prod.splits)
  have "free_of C it3"
    using assms(2) read_field_rest [OF h] read_selector_rest [OF s] read_field_rest [OF f]
    by (auto simp: free_of_Cons)
  moreover have "extras_state_ok C []"
    by (simp add: extras_state_ok_def btree_ok_def extras_free_def)
  ultimately show ?thesis
    using read_extras_ok [OF ex] unwrap_wikilink_Some [OF obj] dup p by (simp add: pin_read_ok_def)
qed

lemma parse_pins_ok:
  "parse_pins it = Inr (ps, it') \<Longrightarrow> free_of C it \<Longrightarrow> list_all (pin_read_ok C) ps"
proof (induction it arbitrary: ps rule: parse_pins.induct)
  case (2 n l it)
  show ?case
  proof (cases "starts_with row_open l")
    case True
    with "2.prems" obtain p it1 qs where
      row: "parse_row n l it = Inr (p, it1)" and rest: "parse_pins it1 = Inr (qs, it')" and ps: "ps = p # qs"
      by (auto simp: and_then_Inr)
    have "pin_read_ok C p \<and> free_of C it1"
      using parse_row_ok [OF row] "2.prems"(2) by (simp add: free_of_Cons)
    with "2.IH" [of "(p, it1)" p it1] True row rest ps show ?thesis by simp
  next
    case False
    with "2.prems" show ?thesis by simp
  qed
qed simp

lemma parse_plane_ok:
  assumes "parse_plane it = Inr (ps, it')" and "free_of C it"
  shows "list_all (pin_read_ok C) ps"
proof (cases it)
  case Nil
  with assms show ?thesis by (simp add: parse_plane_def)
next
  case (Cons q it1)
  with assms show ?thesis
    by (cases q) (auto simp: parse_plane_def free_of_Cons split: if_splits intro: parse_pins_ok)
qed

lemma parse_body_lines_ok:
  assumes "parse_body_lines body = Inr l" and "free_of C body"
  shows "version l = lock_version \<and> list_all (pin_read_ok C) (pins l)"
proof -
  obtain vl vt it ps left where it: "body = (vl, vt) # it" "parse_plane it = Inr (ps, left)"
    and l: "plane_end (ps, left) = Inr l"
    using assms(1)
    by (auto simp: parse_body_lines_def and_then_Inr ok_or_Inr split: list.splits if_splits)
  have "l = lock_new\<lparr>pins := ps\<rparr>"
    using l by (cases "(ps, left)" rule: plane_end.cases) auto
  then show ?thesis
    using assms(2) it parse_plane_ok [of it ps left C] by (simp add: lock_new_def free_of_Cons)
qed

lemma lock_parse_reads:
  assumes "lock_parse s = Inr l" and "\<And>m. m \<in> set (lines s) \<Longrightarrow> C \<inter> set m = {}"
  shows "version l = lock_version \<and> list_all (pin_read_ok C) (pins l)"
proof -
  obtain first rest where ls: "lines s = first # rest"
    and body: "parse_body_lines (butlast (numbered rest)) = Inr l"
    using assms(1) by (auto simp: lock_parse_def Let_def split: list.splits if_splits prod.splits)
  have "C \<inter> set (snd entry) = {}" if "entry \<in> set (butlast (numbered rest))" for entry
  proof -
    have "snd entry \<in> set (map snd (numbered rest))" using that by (auto dest: in_set_butlastD)
    then show ?thesis using assms(2) ls by (simp add: numbered_snd del: set_map)
  qed
  then have "free_of C (butlast (numbered rest))" by (simp add: free_of_def)
  with body show ?thesis by (rule parse_body_lines_ok)
qed

lemma pin_read_ok_pin_ok: "pin_read_ok C p \<Longrightarrow> CHR 0x0A \<in> C \<Longrightarrow> pin_ok p"
  by (auto simp: pin_read_ok_def pin_ok_def list_all_iff extra_ok_def key_ok_def extras_free_def extras_state_ok_def)

lemma lock_parse_ok: "lock_parse s = Inr l \<Longrightarrow> lock_ok l"
proof -
  assume "lock_parse s = Inr l"
  then have "version l = lock_version \<and> list_all (pin_read_ok {CHR 0x0A}) (pins l)"
    by (rule lock_parse_reads) (use lines_no_newline in auto)
  then show ?thesis
    using pin_read_ok_pin_ok by (auto simp: lock_ok_def list_all_iff)
qed

lemma set_split_chr: "p \<in> set (split_chr c s) \<Longrightarrow> set p \<subseteq> set s"
proof (induction s arbitrary: p)
  case (Cons x xs)
  obtain q qs where q: "split_chr c xs = q # qs" by (cases "split_chr c xs") auto
  with Cons.IH have IH: "set q \<subseteq> set xs" "\<And>r. r \<in> set qs \<Longrightarrow> set r \<subseteq> set xs" by auto
  show ?case
  proof (cases "x = c")
    case True
    with Cons.prems IH q show ?thesis by auto
  next
    case False
    with Cons.prems q have "p = x # q \<or> p \<in> set qs" by simp
    with IH show ?thesis by auto
  qed
qed simp

lemma set_lines: "m \<in> set (lines s) \<Longrightarrow> set m \<subseteq> set s"
proof -
  assume m: "m \<in> set (lines s)"
  have strip: "set (strip_cr p) \<subseteq> set p" for p
    using set_strip_cr by blast
  have "m \<in> strip_cr ` set (butlast (split_chr CHR 0x0A s)) \<or> m = last (split_chr CHR 0x0A s)"
    using m by (simp add: lines_def Let_def split: if_splits del: strip_cr.simps)
  moreover have "split_chr CHR 0x0A s \<noteq> []" by (induction s) (auto split: list.splits)
  ultimately obtain p where "p \<in> set (split_chr CHR 0x0A s)" "m = strip_cr p \<or> m = p"
    using in_set_butlastD [of _ "split_chr CHR 0x0A s"] last_in_set [of "split_chr CHR 0x0A s"]
    by blast
  then show ?thesis using set_split_chr [of p "CHR 0x0A" s] strip [of p] by auto
qed

lemma lock_parse_cr_free: "lock_parse s = Inr l \<Longrightarrow> CHR 0x0D \<notin> set s \<Longrightarrow> extras_cr_free l"
proof -
  assume l: "lock_parse s = Inr l" and cr: "CHR 0x0D \<notin> set s"
  have "version l = lock_version \<and> list_all (pin_read_ok {CHR 0x0D}) (pins l)"
    using l by (rule lock_parse_reads) (use cr set_lines in auto)
  then show ?thesis
    using last_in_set
    by (fastforce simp: extras_cr_free_def list_all_iff pin_read_ok_def extras_state_ok_def
        extras_free_def no_trailing_cr_def)
qed

end
