(* ===== verification/Lock_Props.thy ===== *)
theory Lock_Props
  imports Lock_Round
begin

text \<open>
  What the lock block promises its users: the properties of the writer, the reader, the upsert
  and the occurrence spelling, and the two places where the reader is laxer than its contract.
\<close>

section \<open>The round trip\<close>

text \<open>
  Claim C40. The writer's bytes read back as the lock they were written from, for every lock of
  the live version whose pins are well formed and whose extra values end in no carriage return.
\<close>

theorem lock_roundtrip:
  assumes "lock_ok l" and "extras_cr_free l"
  shows "lock_parse (lock_render l) = Inr l"
  using assms by (rule lock_parse_render)

definition sample_pin :: pin_entry where
  "sample_pin = \<lparr>pin_object = ''a]]'', pin_hash = [CHR 0x22, CHR 0x0A, CHR 0x5C],
     pin_sel = PropSel [''k'', ''l''], pin_fp = ''fp1'', pin_extra = [(''n:'', ''x: y''), (''o'', [])]\<rparr>"

lemma sample_pin_ok: "pin_ok sample_pin"
  by code_simp

lemma sample_pin_lock: "lock_ok (upsert_pin sample_pin lock_new)"
  by code_simp

lemma sample_cr_free: "extras_cr_free (upsert_pin sample_pin lock_new)"
  by code_simp

theorem lock_roundtrip_witness:
  "\<exists>l. pins l \<noteq> [] \<and> lock_parse (lock_render l) = Inr l"
  using lock_roundtrip [OF sample_pin_lock sample_cr_free]
  by (intro exI [of _ "upsert_pin sample_pin lock_new"]) (simp add: upsert_pin_def lock_new_def)

text \<open>
  Whatever the reader accepts is well formed, and rewriting it is stable: on a text
  without carriage returns, the lock read is the lock read back after writing it.
\<close>

theorem lock_read_canonical:
  assumes "lock_parse s = Inr l"
  shows "lock_ok l \<and> (CHR 0x0D \<notin> set s \<longrightarrow> lock_parse (lock_render l) = Inr l)"
  using lock_parse_ok [OF assms] lock_parse_cr_free [OF assms] lock_parse_render by blast+

definition lax_block :: str where
  "lax_block = fence @ lock_lang @ '' x'' @ nl @ ''version:  +2 '' @ nl @ ''pins:'' @ nl @ fence @ '' ''"

lemma lax_block_lines:
  "lines lax_block = [fence @ lock_lang @ '' x'', ''version:  +2 '', ''pins:'', fence @ '' '']"
  by code_simp

lemma lax_block_reads: "lock_parse lax_block = Inr lock_new"
proof -
  have head: "starts_with fence (fence @ lock_lang @ '' x'') \<and>
      is_lock_lang (drop 3 (fence @ lock_lang @ '' x''))"
    by (simp add: fence_def lock_lang_def is_lock_lang_def first_token_def trim_start_def
        trim_any.simps ws_chars_def starts_with_def)
  have num: "numbered [a, b, c] = [(2, a), (3, b), (4, c)]" for a b c :: str
    by (simp add: numbered_def upt_conv_Cons)
  have close: "trim_end (fence @ '' '') = fence"
    by (simp add: fence_def trim_end_def trim_any.simps ws_chars_def)
  have ver: "trim '' +2 '' = ''+2''"
    by (simp add: trim_def trim_start_def trim_end_def trim_any.simps ws_chars_def)
  have two: "parse_uint 10 u32_max ''+2'' = Some lock_version"
    by (simp add: parse_uint_def digit_val_def byte_def u32_max_def lock_version_def)
  show ?thesis
    using head close
    by (simp add: lock_parse_def lax_block_lines num parse_body_lines_def ver two parse_plane_def
        lock_new_def)
qed

lemma lax_block_cr: "CHR 0x0D \<notin> set lax_block"
  by code_simp

theorem lock_read_canonical_witness:
  "\<exists>s l. lock_parse s = Inr l \<and> CHR 0x0D \<notin> set s \<and> lock_ok l \<and> lock_parse (lock_render l) = Inr l"
  using lock_read_canonical [OF lax_block_reads] lax_block_reads lax_block_cr by blast

text \<open>
  The reader does not accept exactly the canonical grammar: a block with a longer info
  string, a signed and padded version number, an empty pin plane and blanks after the closing
  fence reads as the empty lock, whose one byte form is another text.
\<close>

theorem lock_reader_not_exact:
  "\<exists>s l. lock_parse s = Inr l \<and> lock_render l \<noteq> s"
proof (intro exI conjI)
  show "lock_parse lax_block = Inr lock_new" by (rule lax_block_reads)
  show "lock_render lock_new \<noteq> lax_block" by code_simp
qed

definition cr_block :: str where
  "cr_block = fence @ lock_lang @ nl @ ''version: 2'' @ nl @ ''pins:'' @ nl @
     row_open @ quoted ''[[a]]'' @ nl @ ''    hash: '' @ quoted ''h'' @ nl @
     ''    path: []'' @ nl @ ''    fingerprint: '' @ quoted ''f'' @ nl @
     ''    note: x'' @ [CHR 0x0D, CHR 0x0D] @ nl @ fence"

definition cr_pin :: "str \<Rightarrow> pin_entry" where
  "cr_pin v = (pin_new ''a'' ''h'' (PathSel []) ''f'')\<lparr>pin_extra := [(''note'', v)]\<rparr>"

text \<open>
  Free-form extras are not carried verbatim: a value read with a trailing carriage
  return loses it when the block is written and read again.
\<close>

theorem lock_extra_not_verbatim:
  "\<exists>s l l'. lock_parse s = Inr l \<and> lock_parse (lock_render l) = Inr l' \<and> l' \<noteq> l"
proof (intro exI conjI)
  let ?l = "\<lambda>v. lock_new\<lparr>pins := [cr_pin v]\<rparr>"
  show "lock_parse cr_block = Inr (?l [CHR ''x'', CHR 0x0D])"
    by (rule lock_parse_lines) code_simp+
  show "lock_parse (lock_render (?l [CHR ''x'', CHR 0x0D])) = Inr (?l ''x'')"
    by (rule lock_parse_lines) code_simp+
  show "?l ''x'' \<noteq> ?l [CHR ''x'', CHR 0x0D]" by (simp add: cr_pin_def pin_new_def lock_new_def)
qed

section \<open>The upsert\<close>

lemma pins_fold_upsert: "pins (fold upsert_pin es l) = fold (put_at pin_key) es (pins l)"
  by (induction es arbitrary: l) (simp_all add: upsert_pin_def)

lemma version_fold_upsert: "version (fold upsert_pin es l) = version l"
  by (induction es arbitrary: l) (simp_all add: upsert_pin_def)

lemma set_put_at: "set (put_at key v vs) \<subseteq> insert v (set vs)"
  by (induction vs) auto

lemma set_fold_put_at: "set (fold (put_at key) es vs) \<subseteq> set es \<union> set vs"
proof (induction es arbitrary: vs)
  case (Cons e es)
  then show ?case using set_put_at [of key e vs] by fastforce
qed simp

text \<open>
  A lock built by upserts holds each claim (an object with a selector) once, with the
  entry last written for it and no other; if the entries are well formed so is the lock.
\<close>

theorem upserts_last_write_wins:
  assumes "l = fold upsert_pin es lock_new"
  shows "distinct_by pin_key (pins l) \<and>
    (\<forall>k. lookup_by pin_key (pins l) k = find (\<lambda>e. pin_key e = k) (rev es)) \<and>
    (list_all pin_ok es \<longrightarrow> lock_ok l)"
proof -
  have start: "distinct_by pin_key (pins lock_new)"
    by (simp add: lock_new_def distinct_by_def)
  have "lookup_by pin_key (pins l) k = find (\<lambda>e. pin_key e = k) (rev es)" for k
    using in_place.get_fold [OF start, of es k]
    by (simp add: assms pins_fold_upsert lock_new_def split: option.splits)
  moreover have "distinct_by pin_key (pins l)"
    using in_place.ok_fold [OF start, of es] by (simp add: assms pins_fold_upsert)
  moreover have "lock_ok l" if "list_all pin_ok es"
    using that set_fold_put_at [of pin_key es "[]"]
    by (auto simp: assms lock_ok_def pins_fold_upsert version_fold_upsert lock_new_def list_all_iff)
  ultimately show ?thesis by blast
qed

theorem upserts_last_write_wins_witness:
  "lookup_by pin_key (pins (fold upsert_pin [sample_pin, sample_pin\<lparr>pin_hash := ''g''\<rparr>] lock_new))
     (pin_key sample_pin) = Some (sample_pin\<lparr>pin_hash := ''g''\<rparr>)"
  using upserts_last_write_wins [OF refl, of "[sample_pin, sample_pin\<lparr>pin_hash := ''g''\<rparr>]"]
  by (simp add: pin_key_def)

text \<open>
  An upsert never drops or reorders the other entries: the keys keep their order, a
  known key its position, a new one goes last, and every other entry is untouched.
\<close>

theorem upsert_keeps_order:
  "map pin_key (pins (upsert_pin e l)) =
     (if pin_key e \<in> pin_key ` set (pins l) then map pin_key (pins l)
      else map pin_key (pins l) @ [pin_key e]) \<and>
   filter (\<lambda>p. pin_key p \<noteq> pin_key e) (pins (upsert_pin e l)) =
     filter (\<lambda>p. pin_key p \<noteq> pin_key e) (pins l) \<and>
   version (upsert_pin e l) = version l"
proof -
  have "filter (\<lambda>p. pin_key p \<noteq> pin_key e) (put_at pin_key e ps) =
      filter (\<lambda>p. pin_key p \<noteq> pin_key e) ps" for ps
    by (induction ps) auto
  then show ?thesis by (simp add: upsert_pin_def map_key_put_at)
qed

section \<open>Occurrence ordinals\<close>

lemma digit_val_ascii: "ascii_digit c \<Longrightarrow> digit_val c = Some (byte c - 48) \<and> byte c - 48 < 10"
  by (auto simp: ascii_digit_def digit_val_def Let_def)

lemma to_dec_unfold: "10 \<le> n \<Longrightarrow> to_dec n = to_dec (n div 10) @ [char_of (48 + n mod 10)]"
  by (subst to_dec.simps) simp

lemma digits_value_bound: "digits_value r m a s = Some v \<Longrightarrow> a \<le> m \<Longrightarrow> v \<le> m"
  by (induction r m a s rule: digits_value.induct) (auto split: option.splits if_splits)

text \<open>Reading digits onto a positive accumulator extends its decimal spelling.\<close>

lemma digits_value_text:
  "digits_value 10 m a s = Some v \<Longrightarrow> 0 < a \<Longrightarrow> list_all ascii_digit s \<Longrightarrow> to_dec v = to_dec a @ s"
proof (induction s arbitrary: a)
  case (Cons c s)
  let ?d = "byte c - 48"
  have d: "digit_val c = Some ?d" "?d < 10" and c: "char_of (48 + ?d) = c"
    using digit_val_ascii [of c] Cons.prems(3) by (auto simp: ascii_digit_def)
  have "digits_value 10 m (a * 10 + ?d) s = Some v"
    using Cons.prems(1) d by (auto split: if_splits)
  then have "to_dec v = to_dec (a * 10 + ?d) @ s"
    using Cons.prems by (intro Cons.IH) auto
  moreover have "to_dec (a * 10 + ?d) = to_dec a @ [c]"
    using Cons.prems(2) d(2) c by (subst to_dec_unfold) auto
  ultimately show ?case by simp
qed simp

lemma parse_ordinal_text:
  assumes "parse_uint 10 m s = Some v" and "list_all ascii_digit s" and "\<not> starts_with ''0'' s"
  shows "to_dec v = s \<and> 0 < v \<and> v \<le> m"
proof -
  obtain c cs where s: "s = c # cs"
    using assms(1) by (cases s) (auto simp: parse_uint_def)
  let ?d = "byte c - 48"
  have c: "ascii_digit c" "c \<noteq> CHR ''0''" and cs: "list_all ascii_digit cs"
    using assms(2,3) by (auto simp: s starts_with_def)
  have d: "digit_val c = Some ?d" "?d < 10" "char_of (48 + ?d) = c"
    using digit_val_ascii [OF c(1)] c(1) by (auto simp: ascii_digit_def)
  have pos: "0 < ?d"
  proof (rule ccontr)
    assume "\<not> 0 < ?d"
    then have "byte c = byte CHR ''0''" using c(1) by (simp add: ascii_digit_def byte_def)
    with c(2) show False by simp
  qed
  have "c \<noteq> CHR ''+''" using c(1) by (auto simp: ascii_digit_def byte_def)
  then have dv: "digits_value 10 m ?d cs = Some v" and le: "?d \<le> m"
    using assms(1) d by (auto simp: s parse_uint_def split: if_splits)
  have "to_dec v = to_dec ?d @ cs" by (rule digits_value_text [OF dv pos cs])
  moreover have "to_dec ?d = [c]" using d by (subst to_dec.simps) simp
  moreover have "0 < v"
  proof (rule ccontr)
    assume "\<not> 0 < v"
    then have "to_dec v = ''0''" by (subst to_dec.simps) (simp, code_simp)
    with calculation c(2) show False by simp
  qed
  ultimately show ?thesis using digits_value_bound [OF dv le] s by simp
qed

text \<open>
  The two occurrence functions are inverse on their range: a segment is claimed as
  heading text with ordinal \<open>n\<close> exactly when it is the spelling of that pair, with a non-empty
  heading and an ordinal from 1 to the largest 32-bit number.
\<close>

theorem parse_occurrence_iff:
  "parse_occurrence seg = (h, Some n) \<longleftrightarrow>
     h \<noteq> [] \<and> 0 < n \<and> n \<le> u32_max \<and> seg = render_occurrence h (Some n)"
proof
  assume p: "parse_occurrence seg = (h, Some n)"
  then obtain t where t: "rsplit_once CHR ''#'' seg = Some (h, t)" "h \<noteq> []"
    "\<not> starts_with ''0'' t" "list_all ascii_digit t" "parse_uint 10 u32_max t = Some n"
    by (auto simp: parse_occurrence_def split: option.splits if_splits)
  then show "h \<noteq> [] \<and> 0 < n \<and> n \<le> u32_max \<and> seg = render_occurrence h (Some n)"
    using parse_ordinal_text [OF t(5,4,3)]
    by (simp add: render_occurrence_def rsplit_once_Some)
next
  assume r: "h \<noteq> [] \<and> 0 < n \<and> n \<le> u32_max \<and> seg = render_occurrence h (Some n)"
  have digits: "list_all ascii_digit (to_dec n)"
    by (auto simp: list_all_iff dest: to_dec_digits)
  then have hash: "CHR ''#'' \<notin> set (to_dec n)"
    by (auto simp: list_all_iff ascii_digit_def byte_def)
  have "\<not> starts_with ''0'' (to_dec n)"
    using r to_dec_hd_zero [of n] by (cases "to_dec n") (auto simp: starts_with_def)
  moreover have "rsplit_once CHR ''#'' seg = Some (h, to_dec n)"
    using r hash by (simp add: rsplit_once_Some render_occurrence_def)
  moreover have "parse_uint 10 u32_max (to_dec n) = Some n"
    using r by (intro parse_uint_to_dec) simp
  ultimately show "parse_occurrence seg = (h, Some n)"
    using r digits by (simp add: parse_occurrence_def)
qed

end
