(* ===== verification/Rust_Slice.thy ===== *)
theory Rust_Slice
  imports Rust_Str "HOL-Library.Monad_Syntax" "HOL-Library.Product_Lexorder"
begin

text \<open>
  The second prelude: byte ranges into a text, slicing, and panics.

  A computation that may panic has type \<open>'a option\<close>, \<^const>\<open>None\<close> the panic, and is composed with
  the option monad. A code \<^verbatim>\<open>Option<T>\<close> result of such a computation is an option inside it,
  and a \<^verbatim>\<open>Result\<close> a sum inside it. The panics modelled are the slicing panics: a range outside
  the text, a reversed range, and, for \<^verbatim>\<open>&str\<close>, a range that cuts a character. A \<^verbatim>\<open>usize\<close> is a
  \<^typ>\<open>nat\<close>: an offset into a text in memory stays below \<^verbatim>\<open>isize::MAX\<close>, so no sum of two
  offsets wraps.
\<close>

section \<open>Ranges\<close>

text \<open>\<^verbatim>\<open>Range<usize>\<close>, half open.\<close>

datatype span = Span (lo: nat) (hi: nat)

definition covers :: "span \<Rightarrow> span \<Rightarrow> bool" where
  "covers a b \<longleftrightarrow> lo a \<le> lo b \<and> hi b \<le> hi a"

definition span_in :: "str \<Rightarrow> span \<Rightarrow> bool" where
  "span_in s r \<longleftrightarrow> lo r \<le> hi r \<and> hi r \<le> length s"

lemma covers_refl [simp]: "covers a a"
  by (simp add: covers_def)

lemma covers_trans: "covers a b \<Longrightarrow> covers b c \<Longrightarrow> covers a c"
  by (auto simp: covers_def)

section \<open>Slices\<close>

definition sub :: "str \<Rightarrow> nat \<Rightarrow> nat \<Rightarrow> str" where
  "sub s a b = take (b - a) (drop a s)"

text \<open>\<^verbatim>\<open>bytes[a..b]\<close> on a byte slice.\<close>

definition byte_slice :: "str \<Rightarrow> span \<Rightarrow> str option" where
  "byte_slice s r = (if span_in s r then Some (sub s (lo r) (hi r)) else None)"

text \<open>\<^verbatim>\<open>s.is_char_boundary(i)\<close>: the ends, and every offset whose byte starts a character.\<close>

definition is_char_boundary :: "str \<Rightarrow> nat \<Rightarrow> bool" where
  "is_char_boundary s i \<longleftrightarrow>
     i = 0 \<or> i = length s \<or> (i < length s \<and> \<not> cont_byte (s ! i))"

text \<open>\<^verbatim>\<open>s[a..b]\<close> and \<^verbatim>\<open>s.get(a..b)\<close> on a string slice; the latter returns the option.\<close>

definition str_slice :: "str \<Rightarrow> span \<Rightarrow> str option" where
  "str_slice s r =
     (if span_in s r \<and> is_char_boundary s (lo r) \<and> is_char_boundary s (hi r)
      then Some (sub s (lo r) (hi r)) else None)"

lemma length_sub: "b \<le> length s \<Longrightarrow> length (sub s a b) = b - a"
  by (simp add: sub_def)

lemma sub_whole [simp]: "sub s 0 (length s) = s"
  by (simp add: sub_def)

lemma sub_empty [simp]: "b \<le> a \<Longrightarrow> sub s a b = []"
  by (simp add: sub_def)

lemma sub_append: "a \<le> b \<Longrightarrow> b \<le> c \<Longrightarrow> sub s a b @ sub s b c = sub s a c"
proof -
  assume "a \<le> b" "b \<le> c"
  then have "sub s a c = take ((b - a) + (c - b)) (drop a s)" by (simp add: sub_def)
  also have "\<dots> = sub s a b @ take (c - b) (drop (b - a) (drop a s))"
    unfolding take_add by (simp add: sub_def)
  finally show ?thesis using \<open>a \<le> b\<close> by (simp add: sub_def)
qed

lemma sub_sub: "b \<le> d - c \<Longrightarrow> sub (sub s c d) a b = sub s (c + a) (c + b)"
proof -
  assume "b \<le> d - c"
  then have "min (b - a) (d - c - a) = b - a" by simp
  then show ?thesis
    by (simp add: sub_def drop_take add.commute)
qed

lemma nth_sub: "i < b - a \<Longrightarrow> b \<le> length s \<Longrightarrow> sub s a b ! i = s ! (a + i)"
  by (simp add: sub_def)

lemma sub_to_end: "sub s a (length s) = drop a s"
  by (simp add: sub_def)

lemma sub_from_start: "sub s 0 b = take b s"
  by (simp add: sub_def)

lemma byte_slice_Some: "byte_slice s r = Some t \<longleftrightarrow> span_in s r \<and> t = sub s (lo r) (hi r)"
  by (auto simp: byte_slice_def)

lemma str_slice_Some:
  "str_slice s r = Some t \<longleftrightarrow>
     span_in s r \<and> is_char_boundary s (lo r) \<and> is_char_boundary s (hi r) \<and> t = sub s (lo r) (hi r)"
  by (auto simp: str_slice_def)

lemma char_boundary_le: "is_char_boundary s i \<Longrightarrow> i \<le> length s"
  by (auto simp: is_char_boundary_def)

lemma char_boundary_ends [simp]: "is_char_boundary s 0" "is_char_boundary s (length s)"
  by (simp_all add: is_char_boundary_def)

section \<open>Panicking steps over lists\<close>

text \<open>A loop that runs a panicking step on every element.\<close>

fun each :: "('a \<Rightarrow> 'b option) \<Rightarrow> 'a list \<Rightarrow> 'b list option" where
  "each f [] = Some []"
| "each f (x # xs) = do { y \<leftarrow> f x; ys \<leftarrow> each f xs; Some (y # ys) }"

lemma each_cong [fundef_cong]:
  "xs = ys \<Longrightarrow> (\<And>x. x \<in> set ys \<Longrightarrow> f x = g x) \<Longrightarrow> each f xs = each g ys"
  by (induction ys arbitrary: xs) (auto simp: Option.bind_eq_Some_conv)

lemma each_Some: "each f xs = Some ys \<longleftrightarrow> list_all2 (\<lambda>x y. f x = Some y) xs ys"
  by (induction xs arbitrary: ys) (auto simp: bind_eq_Some_conv list_all2_Cons1)

lemma each_member: "each f xs = Some ys \<Longrightarrow> x \<in> set xs \<Longrightarrow> \<exists>y \<in> set ys. f x = Some y"
  by (induction xs arbitrary: ys) (auto simp: bind_eq_Some_conv)

lemma each_total: "(\<And>x. x \<in> set xs \<Longrightarrow> f x = Some (g x)) \<Longrightarrow> each f xs = Some (map g xs)"
  by (induction xs) simp_all

lemma each_no_panic: "(\<And>x. x \<in> set xs \<Longrightarrow> f x \<noteq> None) \<Longrightarrow> each f xs \<noteq> None"
  by (induction xs) (auto simp: bind_eq_None_conv)

section \<open>Panicking computations with a Result\<close>

text \<open>The \<^verbatim>\<open>?\<close> operator inside a computation that may panic.\<close>

definition attempt :: "('e + 'a) option \<Rightarrow> ('a \<Rightarrow> ('e + 'b) option) \<Rightarrow> ('e + 'b) option" where
  "attempt m f = (case m of None \<Rightarrow> None | Some (Inl e) \<Rightarrow> Some (Inl e) | Some (Inr a) \<Rightarrow> f a)"

lemma attempt_simps [simp]:
  "attempt None f = None"
  "attempt (Some (Inl e)) f = Some (Inl e)"
  "attempt (Some (Inr a)) f = f a"
  by (simp_all add: attempt_def)

lemma attempt_cong [fundef_cong]:
  "m = m' \<Longrightarrow> (\<And>a. m' = Some (Inr a) \<Longrightarrow> f a = g a) \<Longrightarrow> attempt m f = attempt m' g"
  by (auto simp: attempt_def split: option.split sum.split)

lemma attempt_Inr [result_elims]:
  "attempt m f = Some (Inr b) \<longleftrightarrow> (\<exists>a. m = Some (Inr a) \<and> f a = Some (Inr b))"
  by (auto simp: attempt_def split: option.split sum.split)

lemma attempt_None [result_elims]:
  "attempt m f = None \<longleftrightarrow> m = None \<or> (\<exists>a. m = Some (Inr a) \<and> f a = None)"
  by (auto simp: attempt_def split: option.split sum.split)

section \<open>Positions\<close>

text \<open>The offset of the first element with a property: \<^verbatim>\<open>iter().position(p)\<close>.\<close>

fun position :: "('a \<Rightarrow> bool) \<Rightarrow> 'a list \<Rightarrow> nat option" where
  "position p [] = None"
| "position p (x # xs) = (if p x then Some 0 else map_option Suc (position p xs))"

lemma position_Some:
  "position p xs = Some i \<longleftrightarrow> i < length xs \<and> p (xs ! i) \<and> (\<forall>j < i. \<not> p (xs ! j))"
proof (induction xs arbitrary: i)
  case (Cons x xs)
  show ?case
  proof (cases i)
    case 0
    then show ?thesis by auto
  next
    case (Suc k)
    have "(\<forall>j < Suc k. \<not> p ((x # xs) ! j)) \<longleftrightarrow> \<not> p x \<and> (\<forall>j < k. \<not> p (xs ! j))"
      by (auto simp: less_Suc_eq_0_disj)
    then show ?thesis by (auto simp: Suc Cons.IH)
  qed
qed simp

lemma position_None: "position p xs = None \<longleftrightarrow> (\<forall>x \<in> set xs. \<not> p x)"
  by (induction xs) auto

lemma position_less: "position p xs = Some i \<Longrightarrow> i < length xs"
  by (simp add: position_Some)

section \<open>Well-formed UTF-8 and character boundaries\<close>

lemma utf8_first_char:
  assumes "utf8_valid s" and "s \<noteq> []"
  obtains c r where "s = c @ r" and "c \<noteq> []" and "utf8_valid r"
    and "\<not> cont_byte (hd c)" and "\<forall>x \<in> set (tl c). cont_byte x"
    and "\<And>t. utf8_valid t \<Longrightarrow> utf8_valid (c @ t)"
proof -
  obtain a s' where s: "s = a # s'" using assms(2) by (cases s) auto
  note v = assms(1) [unfolded s utf8_valid.simps(2) Let_def]
  consider (1) "byte a < 128" | (2) "194 \<le> byte a" "byte a \<le> 223"
    | (3) "224 \<le> byte a" "byte a \<le> 239" | (4) "240 \<le> byte a" "byte a \<le> 244"
    using v by (auto split: if_splits)
  then show ?thesis
  proof cases
    case 1
    then show ?thesis
      using that [of "[a]" s'] s v by (simp add: cont_byte_def utf8_valid.simps(2))
  next
    case 2
    then obtain b r where "s' = b # r" using v by (cases s') auto
    with 2 v show ?thesis
      using that [of "[a, b]" r] s by (simp add: cont_byte_def utf8_valid.simps(2))
  next
    case 3
    then obtain b c r where "s' = b # c # r"
      using v by (cases s'; cases "tl s'") auto
    with 3 v show ?thesis
      using that [of "[a, b, c]" r] s by (simp add: cont_byte_def utf8_valid.simps(2))
  next
    case 4
    then obtain b c d r where "s' = b # c # d # r"
      using v by (cases s'; cases "tl s'"; cases "tl (tl s')") auto
    with 4 v show ?thesis
      using that [of "[a, b, c, d]" r] s by (simp add: cont_byte_def utf8_valid.simps(2))
  qed
qed

lemma utf8_induct [consumes 1, case_names empty char]:
  assumes "utf8_valid s"
    and "P []"
    and "\<And>c r. c \<noteq> [] \<Longrightarrow> \<not> cont_byte (hd c) \<Longrightarrow> \<forall>x \<in> set (tl c). cont_byte x \<Longrightarrow>
        (\<And>t. utf8_valid t \<Longrightarrow> utf8_valid (c @ t)) \<Longrightarrow> utf8_valid r \<Longrightarrow> P r \<Longrightarrow> P (c @ r)"
  shows "P s"
  using assms(1)
proof (induction "length s" arbitrary: s rule: less_induct)
  case less
  show ?case
  proof (cases "s = []")
    case False
    with less.prems obtain c r where "s = c @ r" "c \<noteq> []" "utf8_valid r"
      "\<not> cont_byte (hd c)" "\<forall>x \<in> set (tl c). cont_byte x"
      "\<And>t. utf8_valid t \<longrightarrow> utf8_valid (c @ t)"
      by (rule utf8_first_char) blast
    with less.hyps [of r] show ?thesis by (auto intro: assms(3))
  qed (simp add: assms(2))
qed

lemma utf8_append: "utf8_valid s \<Longrightarrow> utf8_valid t \<Longrightarrow> utf8_valid (s @ t)"
  by (induction s rule: utf8_induct) simp_all

lemma utf8_hd: "utf8_valid s \<Longrightarrow> s \<noteq> [] \<Longrightarrow> \<not> cont_byte (hd s)"
  by (erule utf8_first_char, assumption) auto

lemma boundary_in_char:
  assumes "\<forall>x \<in> set (tl c). cont_byte x" and "is_char_boundary (c @ r) i" and "i \<noteq> 0"
  shows "length c \<le> i \<and> is_char_boundary r (i - length c)"
proof -
  have i: "i = length (c @ r) \<or> (i < length (c @ r) \<and> \<not> cont_byte ((c @ r) ! i))"
    using assms(2,3) by (auto simp: is_char_boundary_def)
  have "length c \<le> i"
  proof (rule ccontr)
    assume "\<not> length c \<le> i"
    then have "(c @ r) ! i = tl c ! (i - 1)" and "i - 1 < length (tl c)"
      using assms(3) by (auto simp: nth_append nth_tl)
    with assms(1) i \<open>\<not> length c \<le> i\<close> show False by auto
  qed
  with i show ?thesis by (auto simp: is_char_boundary_def nth_append)
qed

lemma utf8_split:
  "utf8_valid s \<Longrightarrow> is_char_boundary s i \<Longrightarrow> utf8_valid (take i s) \<and> utf8_valid (drop i s)"
proof (induction s arbitrary: i rule: utf8_induct)
  case (char c r)
  show ?case
  proof (cases "i = 0")
    case False
    with char.prems char.hyps(3) have "length c \<le> i" "is_char_boundary r (i - length c)"
      using boundary_in_char [of c r i] by auto
    with char.IH char.hyps(4) show ?thesis by simp
  qed (simp add: char.hyps)
qed simp

lemma boundary_drop:
  "is_char_boundary s i \<Longrightarrow> is_char_boundary s (i + j) \<Longrightarrow> is_char_boundary (drop i s) j"
  by (cases "i = length s") (auto simp: is_char_boundary_def)

lemma utf8_sub:
  assumes "utf8_valid s" and "is_char_boundary s a" and "is_char_boundary s b" and "a \<le> b"
  shows "utf8_valid (sub s a b)"
proof -
  have "is_char_boundary (drop a s) (b - a)"
    using assms by (intro boundary_drop) simp_all
  moreover have "utf8_valid (drop a s)" using assms utf8_split by blast
  ultimately show ?thesis unfolding sub_def using utf8_split by blast
qed

lemma utf8_boundary_iff: "utf8_valid s \<Longrightarrow> i < length s \<Longrightarrow> utf8_valid (drop i s) \<Longrightarrow> is_char_boundary s i"
  using utf8_hd [of "drop i s"] by (simp add: is_char_boundary_def hd_drop_conv_nth)

lemma ascii_boundary:
  assumes "utf8_valid s" and "i < length s" and "byte (s ! i) < 128"
  shows "is_char_boundary s i" and "is_char_boundary s (Suc i)"
proof -
  show i: "is_char_boundary s i"
    using assms by (simp add: is_char_boundary_def cont_byte_def)
  have "utf8_valid (s ! i # drop (Suc i) s)"
    using utf8_split [OF assms(1) i] by (simp add: Cons_nth_drop_Suc assms(2))
  then have "utf8_valid (drop (Suc i) s)"
    using assms(3) by (simp add: utf8_valid_ascii)
  then show "is_char_boundary s (Suc i)"
    using utf8_boundary_iff [OF assms(1), of "Suc i"] assms(2)
    by (cases "Suc i = length s") (auto simp: is_char_boundary_def)
qed

text \<open>A range of whole characters.\<close>

definition good_span :: "str \<Rightarrow> span \<Rightarrow> bool" where
  "good_span s r \<longleftrightarrow> span_in s r \<and> is_char_boundary s (lo r) \<and> is_char_boundary s (hi r)"

lemma str_slice_good: "good_span s r \<Longrightarrow> str_slice s r = Some (sub s (lo r) (hi r))"
  by (simp add: str_slice_def good_span_def)

lemma byte_slice_in: "span_in s r \<Longrightarrow> byte_slice s r = Some (sub s (lo r) (hi r))"
  by (simp add: byte_slice_def)

end
