(* ===== verification/Doc_Tree.thy ===== *)
theory Doc_Tree
  imports Rust_Slice
begin

text \<open>
  The governed document tree of \<^verbatim>\<open>crates/model/src/lib.rs\<close>: node kinds, nodes, the span order,
  sections cut from the heading list, the containment forest and the heading paths.

  The BLAKE3 digest is a parameter \<open>hash\<close> from bytes to digest bytes. The tree functions take
  it as an argument because a node carries the revision of its own bytes.
\<close>

section \<open>Nodes\<close>

type_synonym hpath = "str list"

datatype node_kind =
    DocumentNode (doc_path: str) (line_count: nat)
  | Frontmatter "(str \<times> str) list"
  | Section (heading_text: str) (level: nat)
  | HeadingNode str nat
  | Paragraph
  | ListNode
  | ListItem
  | TaskItem bool nat
  | CodeBlock str bool
  | Callout str str
  | Table
  | Wikilink str "str option" "str option" "str option"
  | Link str
  | Embed str "str option" "str option" "str option"
  | Anchor str
  | Tag str
  | InlineCode
  | Comment

datatype node =
  Node (kind: node_kind) (span: span) (node_rev: str) (node_hpath: "hpath option") (children: "node list")

record document =
  raw :: str
  root :: node

fun is_section :: "node_kind \<Rightarrow> bool" where
  "is_section (Section t l) = True"
| "is_section _ = False"

fun is_frontmatter :: "node_kind \<Rightarrow> bool" where
  "is_frontmatter (Frontmatter m) = True"
| "is_frontmatter _ = False"

fun is_document :: "node_kind \<Rightarrow> bool" where
  "is_document (DocumentNode p n) = True"
| "is_document _ = False"

fun kind_ordinal :: "node_kind \<Rightarrow> nat" where
  "kind_ordinal (DocumentNode _ _) = 0"
| "kind_ordinal (Frontmatter _) = 1"
| "kind_ordinal (Section _ _) = 2"
| "kind_ordinal (HeadingNode _ _) = 3"
| "kind_ordinal Paragraph = 4"
| "kind_ordinal ListNode = 5"
| "kind_ordinal ListItem = 6"
| "kind_ordinal (TaskItem _ _) = 7"
| "kind_ordinal (CodeBlock _ _) = 8"
| "kind_ordinal (Callout _ _) = 9"
| "kind_ordinal Table = 10"
| "kind_ordinal (Wikilink _ _ _ _) = 11"
| "kind_ordinal (Link _) = 12"
| "kind_ordinal (Embed _ _ _ _) = 13"
| "kind_ordinal (Anchor _) = 14"
| "kind_ordinal (Tag _) = 15"
| "kind_ordinal InlineCode = 16"
| "kind_ordinal Comment = 17"

section \<open>Revisions\<close>

text \<open>The lower-case hexadecimal spelling of digest bytes, and the revision cut from it.\<close>

definition hex_nibble :: "nat \<Rightarrow> char" where
  "hex_nibble n = (if n < 10 then char_of (48 + n) else char_of (87 + n))"

definition to_hex :: "str \<Rightarrow> str" where
  "to_hex bs = concat (map (\<lambda>b. [hex_nibble (byte b div 16), hex_nibble (byte b mod 16)]) bs)"

definition rev_of :: "(str \<Rightarrow> str) \<Rightarrow> str \<Rightarrow> str" where
  "rev_of hash bs = take 16 (to_hex (hash bs))"

definition node_rev_at :: "(str \<Rightarrow> str) \<Rightarrow> str \<Rightarrow> span \<Rightarrow> str option" where
  "node_rev_at hash s r = do { bs \<leftarrow> byte_slice s r; Some (rev_of hash bs) }"

definition node_rev_matches :: "(str \<Rightarrow> str) \<Rightarrow> str \<Rightarrow> span \<Rightarrow> str \<Rightarrow> bool" where
  "node_rev_matches hash s r claimed =
     (case str_slice s r of None \<Rightarrow> False | Some bs \<Rightarrow> rev_of hash bs = claimed)"

definition born_before_rev :: "(str \<Rightarrow> str) \<Rightarrow> str" where
  "born_before_rev hash = rev_of hash []"

definition leaf_node :: "(str \<Rightarrow> str) \<Rightarrow> str \<Rightarrow> node_kind \<Rightarrow> span \<Rightarrow> node option" where
  "leaf_node hash s k r = do { v \<leftarrow> node_rev_at hash s r; Some (Node k r v None []) }"

section \<open>Sections\<close>

text \<open>
  A heading is its start offset, level and text. A section ends at the next heading of its
  own level or above, else at the end of the text.
\<close>

fun section_end :: "nat \<Rightarrow> nat \<Rightarrow> (nat \<times> nat \<times> str) list \<Rightarrow> nat" where
  "section_end len lv [] = len"
| "section_end len lv ((s, l, t) # hs) = (if l \<le> lv then s else section_end len lv hs)"

fun section_nodes :: "(str \<Rightarrow> str) \<Rightarrow> str \<Rightarrow> (nat \<times> nat \<times> str) list \<Rightarrow> node list option" where
  "section_nodes hash txt [] = Some []"
| "section_nodes hash txt ((s, l, t) # hs) = do {
     n \<leftarrow> leaf_node hash txt (Section t l) (Span s (section_end (length txt) l hs));
     ns \<leftarrow> section_nodes hash txt hs;
     Some (n # ns) }"

section \<open>The containment forest\<close>

text \<open>The total order: start ascending, end descending, kind ordinal. Rust's sort is stable.\<close>

definition span_key :: "node \<Rightarrow> int \<times> int \<times> nat" where
  "span_key n = (int (lo (span n)), - int (hi (span n)), kind_ordinal (kind n))"

definition sort_nodes :: "node list \<Rightarrow> node list" where
  "sort_nodes ns = sort_key span_key ns"

fun push_child :: "node \<Rightarrow> node \<Rightarrow> node" where
  "push_child (Node k r v h cs) c = Node k r v h (cs @ [c])"

text \<open>
  The stack holds the open containers, the innermost first. \<open>pop_until\<close> closes the ones that
  do not span the item: a closed node joins the next container below, else the forest.
\<close>

fun pop_until :: "span \<Rightarrow> node list \<Rightarrow> node list \<Rightarrow> node list \<times> node list" where
  "pop_until r [] forest = ([], forest)"
| "pop_until r [n] forest =
     (if covers (span n) r then ([n], forest) else ([], forest @ [n]))"
| "pop_until r (n # p # st) forest =
     (if covers (span n) r then (n # p # st, forest)
      else pop_until r (push_child p n # st) forest)"

fun close_all :: "node list \<Rightarrow> node list \<Rightarrow> node list" where
  "close_all [] forest = forest"
| "close_all [n] forest = forest @ [n]"
| "close_all (n # p # st) forest = close_all (push_child p n # st) forest"

fun nest_items :: "node list \<Rightarrow> node list \<Rightarrow> node list \<Rightarrow> node list" where
  "nest_items [] st forest = close_all st forest"
| "nest_items (i # is) st forest =
     (case pop_until (span i) st forest of (st', forest') \<Rightarrow> nest_items is (i # st') forest')"

definition nest_by_containment :: "node list \<Rightarrow> node list" where
  "nest_by_containment items = nest_items (sort_nodes items) [] []"

text \<open>Sorting every child list, from the root down.\<close>

function sort_tree :: "node \<Rightarrow> node" where
  "sort_tree (Node k r v h cs) = Node k r v h (map sort_tree (sort_nodes cs))"
  by pat_completeness auto
termination
  by (relation "measure size") (auto simp: sort_nodes_def less_Suc_eq_le intro: trans_le_add2 size_list_estimation')

section \<open>Heading paths\<close>

fun own_chain :: "node_kind \<Rightarrow> hpath option \<Rightarrow> hpath option" where
  "own_chain (Section t l) governing = Some ((case governing of None \<Rightarrow> [] | Some up \<Rightarrow> up) @ [t])"
| "own_chain _ governing = None"

fun hpath_of :: "node_kind \<Rightarrow> hpath option \<Rightarrow> hpath option" where
  "hpath_of (DocumentNode p n) governing = None"
| "hpath_of (Frontmatter m) governing = None"
| "hpath_of (Section t l) governing = own_chain (Section t l) governing"
| "hpath_of _ governing = governing"

definition governing_below :: "node_kind \<Rightarrow> hpath option \<Rightarrow> hpath option" where
  "governing_below k governing = (case own_chain k governing of Some c \<Rightarrow> Some c | None \<Rightarrow> governing)"

fun fill_hpath :: "hpath option \<Rightarrow> node \<Rightarrow> node" where
  "fill_hpath g (Node k r v h cs) =
     Node k r v (hpath_of k g) (map (fill_hpath (governing_below k g)) cs)"

definition assign_hpath :: "node \<Rightarrow> node" where
  "assign_hpath n = fill_hpath None n"

end
