(* ===== verification/Frontmatter.thy ===== *)
theory Frontmatter
  imports Doc_Tree
begin

text \<open>
  The frontmatter plane of \<^verbatim>\<open>crates/model/src/lib.rs\<close>: the key rule, the flat parse with its
  block-scalar decoder, the byte grain of a key, and the plans of a key upsert and removal.
\<close>

section \<open>Key lines\<close>

definition trim_matches :: "char list \<Rightarrow> str \<Rightarrow> str" where
  "trim_matches cs s =
     rev (dropWhile (\<lambda>c. c \<in> set cs) (rev (dropWhile (\<lambda>c. c \<in> set cs) s)))"

definition lf :: char where "lf = CHR 0x0A"
definition cr :: char where "cr = CHR 0x0D"
definition dquote :: char where "dquote = CHR 0x22"
definition squote :: char where "squote = CHR 0x27"

definition is_indented :: "str \<Rightarrow> bool" where
  "is_indented s = (case s of [] \<Rightarrow> False | c # _ \<Rightarrow> c = CHR '' '' \<or> c = CHR 0x09)"

definition key_text :: "str \<Rightarrow> str" where
  "key_text s = trim_matches [dquote, squote] (trim s)"

definition fm_item_text :: "str \<Rightarrow> str option" where
  "fm_item_text t = (if t = ''-'' then Some [] else map_option trim (strip_prefix ''- '' t))"

definition fm_is_col0_item :: "str \<Rightarrow> bool" where
  "fm_is_col0_item l \<longleftrightarrow> fm_item_text (trim_end l) \<noteq> None"

definition fm_top_key :: "str \<Rightarrow> (str \<times> nat) option" where
  "fm_top_key l =
     (if is_indented l \<or> starts_with ''#'' (trim l) \<or> fm_is_col0_item l then None
      else case find_chr CHR '':'' l of
        None \<Rightarrow> None
      | Some colon \<Rightarrow>
          let key = key_text (take colon l) in
          if key = [] then None else Some (key, colon))"

section \<open>Block scalars\<close>

datatype chomp = Clip | Strip | Keep

record block_header =
  literal :: bool
  header_chomp :: chomp
  header_indent :: "nat option"

fun header_indicators :: "str \<Rightarrow> block_header \<Rightarrow> block_header option" where
  "header_indicators [] h = Some h"
| "header_indicators (c # cs) h =
     (if c = CHR ''-'' then header_indicators cs (h\<lparr>header_chomp := Strip\<rparr>)
      else if c = CHR ''+'' then header_indicators cs (h\<lparr>header_chomp := Keep\<rparr>)
      else if 49 \<le> byte c \<and> byte c \<le> 57
      then header_indicators cs (h\<lparr>header_indent := Some (byte c - 48)\<rparr>)
      else if c = CHR ''#'' then Some h
      else None)"

definition parse_block_header :: "str \<Rightarrow> block_header option" where
  "parse_block_header remainder =
     (case trim remainder of
        [] \<Rightarrow> None
      | c # rest \<Rightarrow>
          if c \<noteq> CHR ''|'' \<and> c \<noteq> CHR ''>'' then None
          else
            let header = \<lparr>literal = (c = CHR ''|''), header_chomp = Clip, header_indent = None\<rparr>;
                (indicators, tail) =
                  (case position (\<lambda>c. c = CHR '' '' \<or> c = CHR 0x09) rest of
                     Some i \<Rightarrow> (take i rest, trim_start (drop i rest))
                   | None \<Rightarrow> (rest, []))
            in if tail \<noteq> [] \<and> \<not> starts_with ''#'' tail then None
               else header_indicators indicators header)"

definition indent_width :: "str \<Rightarrow> nat" where
  "indent_width l = length l - length (trim_start l)"

text \<open>
  The content lines from the top: a blank line inside the block indent is \<^const>\<open>None\<close>, a line
  with text its bytes after the indent and whether it is indented further, and the first line
  indented less ends the block.
\<close>

fun scalar_content :: "nat \<Rightarrow> str list \<Rightarrow> (str \<times> bool) option list option" where
  "scalar_content indent [] = Some []"
| "scalar_content indent (l # ls) =
     (let blank = (trim l = []); width = indent_width l in
      if blank \<and> length l \<le> indent then map_option ((#) None) (scalar_content indent ls)
      else if \<not> blank \<and> width < indent then Some []
      else do {
        t \<leftarrow> str_slice l (Span indent (length l));
        rest \<leftarrow> scalar_content indent ls;
        Some (Some (t, indent < width) # rest) })"

definition line_breaks :: "nat \<Rightarrow> str" where
  "line_breaks k = replicate k lf"

text \<open>The fold over the content with the code's four running variables.\<close>

fun fold_content :: "bool \<Rightarrow> nat \<Rightarrow> bool \<Rightarrow> bool \<Rightarrow> (str \<times> bool) option list \<Rightarrow> str" where
  "fold_content lit blanks prev_more seen [] = []"
| "fold_content lit blanks prev_more seen (None # es) =
     fold_content lit (Suc blanks) prev_more seen es"
| "fold_content lit blanks prev_more seen (Some (t, deeper) # es) =
     (let breaks = (if lit \<or> deeper \<or> prev_more then Suc blanks else blanks);
          gap = (if \<not> seen then line_breaks blanks
                 else if breaks = 0 then '' '' else line_breaks breaks)
      in gap @ t @ fold_content lit 0 deeper True es)"

definition chomp_tail :: "chomp \<Rightarrow> nat \<Rightarrow> str" where
  "chomp_tail c trailing =
     (case c of Strip \<Rightarrow> [] | Clip \<Rightarrow> [lf] | Keep \<Rightarrow> line_breaks (Suc trailing))"

definition keep_only :: "chomp \<Rightarrow> nat \<Rightarrow> str" where
  "keep_only c k = (if c = Keep then line_breaks k else [])"

definition block_indent :: "block_header \<Rightarrow> str list \<Rightarrow> nat option" where
  "block_indent h body =
     (case header_indent h of
        Some i \<Rightarrow> Some i
      | None \<Rightarrow> map_option indent_width (find (\<lambda>l. trim l \<noteq> []) body))"

definition fm_block_scalar :: "str list \<Rightarrow> nat \<Rightarrow> block_header \<Rightarrow> str option" where
  "fm_block_scalar ls at h =
     (let body = drop (Suc at) ls in
      case block_indent h body of
        Some (Suc i) \<Rightarrow> do {
          content \<leftarrow> scalar_content (Suc i) body;
          let texts = rev (dropWhile (\<lambda>e. e = None) (rev content));
          Some (if texts = [] then keep_only (header_chomp h) (length content)
                else fold_content (literal h) 0 False False texts
                     @ chomp_tail (header_chomp h) (length content - length texts)) }
      | _ \<Rightarrow> Some (keep_only (header_chomp h) (length (takeWhile (\<lambda>l. trim l = []) body))))"

section \<open>The flat parse\<close>

definition fm_value_at :: "str list \<Rightarrow> nat \<Rightarrow> str \<Rightarrow> str option" where
  "fm_value_at ls at remainder =
     (case parse_block_header remainder of
        Some h \<Rightarrow> fm_block_scalar ls at h
      | None \<Rightarrow> Some remainder)"

fun fm_pairs :: "str list \<Rightarrow> nat \<Rightarrow> str list \<Rightarrow> (str \<times> str) list \<Rightarrow> (str \<times> str) list option" where
  "fm_pairs ls at [] pairs = Some pairs"
| "fm_pairs ls at (l # rest) pairs =
     (if trim l = ''---'' \<or> trim l = [] then fm_pairs ls (Suc at) rest pairs
      else case fm_top_key l of
        None \<Rightarrow> fm_pairs ls (Suc at) rest pairs
      | Some (key, colon) \<Rightarrow>
          if key \<in> fst ` set pairs then fm_pairs ls (Suc at) rest pairs
          else do {
            v \<leftarrow> fm_value_at ls at (trim (drop (Suc colon) l));
            fm_pairs ls (Suc at) rest (pairs @ [(key, v)]) })"

definition parse_frontmatter :: "str \<Rightarrow> span \<Rightarrow> (str \<times> str) list option" where
  "parse_frontmatter s r =
     (let block = (case str_slice s r of None \<Rightarrow> [] | Some b \<Rightarrow> b) in
      fm_pairs (lines block) 0 (lines block) [])"

section \<open>Line terminators\<close>

definition extend_terminator :: "str \<Rightarrow> nat \<Rightarrow> nat" where
  "extend_terminator s e =
     (let e1 = (if e < length s \<and> s ! e = cr then Suc e else e) in
      if e1 < length s \<and> s ! e1 = lf then Suc e1 else e1)"

definition trim_terminator :: "str \<Rightarrow> nat \<Rightarrow> nat \<Rightarrow> nat" where
  "trim_terminator s st e =
     (if st < e \<and> s ! (e - 1) = lf
      then (let e1 = e - 1 in if st < e1 \<and> s ! (e1 - 1) = cr then e1 - 1 else e1)
      else e)"

section \<open>The grain of a key\<close>

definition fm_line_end :: "str \<Rightarrow> nat \<Rightarrow> nat \<Rightarrow> nat option" where
  "fm_line_end s st block_end = do {
     seg \<leftarrow> byte_slice s (Span st block_end);
     Some (case position (\<lambda>c. c = lf) seg of None \<Rightarrow> block_end | Some p \<Rightarrow> Suc (st + p)) }"

definition fm_line_is_blank :: "str \<Rightarrow> nat \<Rightarrow> nat \<Rightarrow> bool" where
  "fm_line_is_blank s st e \<longleftrightarrow> (\<forall>c \<in> set (sub s st e). c \<in> {CHR '' '', CHR 0x09, cr, lf})"

definition fm_line_continues :: "str \<Rightarrow> nat \<Rightarrow> nat \<Rightarrow> bool" where
  "fm_line_continues s st e \<longleftrightarrow>
     (st < length s \<and> is_indented [s ! st]) \<or> (utf8_valid (sub s st e) \<and> fm_is_col0_item (sub s st e))"

lemma fm_line_end_bounds:
  "fm_line_end s st be = Some e \<Longrightarrow> be \<le> length s \<and> st \<le> e \<and> e \<le> be \<and> (st < be \<longrightarrow> st < e)"
  by (auto simp: fm_line_end_def bind_eq_Some_conv byte_slice_Some span_in_def length_sub
      split: option.splits dest!: position_less)

function grain_scan :: "str \<Rightarrow> nat \<Rightarrow> nat \<Rightarrow> nat \<Rightarrow> nat option" where
  "grain_scan s be cursor grain_end =
     (if cursor < be then do {
        e \<leftarrow> fm_line_end s cursor be;
        if fm_line_is_blank s cursor e then grain_scan s be e grain_end
        else if fm_line_continues s cursor e
        then grain_scan s be e (trim_terminator s cursor e)
        else Some grain_end }
      else Some grain_end)"
  by pat_completeness auto
termination
  by (relation "measure (\<lambda>(s, be, cursor, g). be - cursor)") (auto dest!: fm_line_end_bounds)

declare grain_scan.simps [simp del]

definition fm_key_grain_span :: "str \<Rightarrow> nat \<Rightarrow> nat \<Rightarrow> span option" where
  "fm_key_grain_span s st be = do {
     e \<leftarrow> fm_line_end s st be;
     g \<leftarrow> grain_scan s be e (trim_terminator s st e);
     Some (Span st g) }"

section \<open>Finding a key\<close>

record resolved =
  res_span :: span
  res_content :: span
  res_rev :: str

fun find_frontmatter :: "node \<Rightarrow> node option"
  and find_frontmatter_in :: "node list \<Rightarrow> node option" where
  "find_frontmatter (Node k r v h cs) =
     (if is_frontmatter k then Some (Node k r v h cs) else find_frontmatter_in cs)"
| "find_frontmatter_in [] = None"
| "find_frontmatter_in (c # cs) =
     (case find_frontmatter c of Some n \<Rightarrow> Some n | None \<Rightarrow> find_frontmatter_in cs)"

definition line_has_key :: "str \<Rightarrow> str \<Rightarrow> bool" where
  "line_has_key l key \<longleftrightarrow>
     \<not> is_indented l \<and> (case split_once CHR '':'' l of None \<Rightarrow> False | Some (k, _) \<Rightarrow> key_text k = key)"

text \<open>The line loop: \<^const>\<open>None\<close> a panic, \<open>Some None\<close> no such key, else the start of its line.\<close>

function key_line_start :: "str \<Rightarrow> str \<Rightarrow> nat \<Rightarrow> nat \<Rightarrow> nat option option" where
  "key_line_start s key be st =
     (if st < be then do {
        e \<leftarrow> fm_line_end s st be;
        l \<leftarrow> str_slice s (Span st e);
        if line_has_key l key then Some (Some st) else key_line_start s key be e }
      else Some None)"
  by pat_completeness auto
termination
  by (relation "measure (\<lambda>(s, key, be, st). be - st)") (auto dest!: fm_line_end_bounds)

declare key_line_start.simps [simp del]

definition resolve_fm_key :: "(str \<Rightarrow> str) \<Rightarrow> document \<Rightarrow> str \<Rightarrow> resolved option option" where
  "resolve_fm_key hash doc key =
     (case find_frontmatter (root doc) of
        None \<Rightarrow> Some None
      | Some fm \<Rightarrow> do {
          hit \<leftarrow> key_line_start (raw doc) key (hi (span fm)) (lo (span fm));
          case hit of
            None \<Rightarrow> Some None
          | Some st \<Rightarrow> do {
              g \<leftarrow> fm_key_grain_span (raw doc) st (hi (span fm));
              v \<leftarrow> node_rev_at hash (raw doc) g;
              Some (Some \<lparr>res_span = g, res_content = g, res_rev = v\<rparr>) } })"

section \<open>Upserting a key\<close>

record fm_upsert_plan =
  plan_target :: span
  plan_region :: span
  plan_text :: str
  plan_before :: str

datatype fm_block_synth = Whole | Open | Mid | Close

definition fm_fence :: str where "fm_fence = ''---'' @ [lf]"

definition key_line :: "str \<Rightarrow> str \<Rightarrow> str" where
  "key_line key val = key @ '': '' @ val"

fun synth_text :: "fm_block_synth \<Rightarrow> str \<Rightarrow> str" where
  "synth_text Whole l = fm_fence @ l @ [lf] @ fm_fence"
| "synth_text Open l = fm_fence @ l @ [lf]"
| "synth_text Mid l = l @ [lf]"
| "synth_text Close l = l @ [lf] @ fm_fence"

text \<open>The first newline in the block, past it; the start of the block if there is none.\<close>

definition fm_insert_offset :: "str \<Rightarrow> span \<Rightarrow> nat option" where
  "fm_insert_offset s r = do {
     seg \<leftarrow> (if lo r < hi r then byte_slice s r else Some []);
     Some (case position (\<lambda>c. c = lf) seg of None \<Rightarrow> lo r | Some p \<Rightarrow> Suc (lo r + p)) }"

definition plan_fm_upsert ::
    "(str \<Rightarrow> str) \<Rightarrow> document \<Rightarrow> str \<Rightarrow> str \<Rightarrow> fm_block_synth \<Rightarrow> fm_upsert_plan option" where
  "plan_fm_upsert hash doc key val synth = do {
     existing \<leftarrow> resolve_fm_key hash doc key;
     case existing of
       Some e \<Rightarrow> Some \<lparr>plan_target = res_span e, plan_region = res_span e,
                       plan_text = key_line key val, plan_before = res_rev e\<rparr>
     | None \<Rightarrow>
         (case find_frontmatter (root doc) of
            Some fm \<Rightarrow> do {
              at \<leftarrow> fm_insert_offset (raw doc) (span fm);
              Some \<lparr>plan_target = Span at at, plan_region = Span at at,
                    plan_text = key_line key val @ [lf], plan_before = born_before_rev hash\<rparr> }
          | None \<Rightarrow>
              Some \<lparr>plan_target = Span 0 0, plan_region = Span 0 0,
                    plan_text = synth_text synth (key_line key val),
                    plan_before = born_before_rev hash\<rparr>) }"

definition fm_upsert_before :: "(str \<Rightarrow> str) \<Rightarrow> document \<Rightarrow> str \<Rightarrow> (span \<times> str) option" where
  "fm_upsert_before hash doc key = do {
     p \<leftarrow> plan_fm_upsert hash doc key [] Whole;
     Some (plan_target p, plan_before p) }"

section \<open>Removing a key\<close>

definition fm_remove_region :: "document \<Rightarrow> span \<Rightarrow> span option" where
  "fm_remove_region doc r =
     (case find_frontmatter (root doc) of
        None \<Rightarrow> Some r
      | Some fm \<Rightarrow>
          if hi (span fm) \<le> hi r then Some r
          else do {
            e \<leftarrow> fm_line_end (raw doc) (hi r) (hi (span fm));
            Some (Span (lo r) e) })"

definition block_line_is_key :: "str \<Rightarrow> nat \<Rightarrow> nat \<Rightarrow> bool" where
  "block_line_is_key s st e \<longleftrightarrow>
     \<not> is_indented (sub s st e) \<and> CHR '':'' \<in> set (sub s st e) \<and>
     \<not> (utf8_valid (sub s st e) \<and> fm_is_col0_item (sub s st e))"

function fm_block_has_key_outside :: "str \<Rightarrow> nat \<Rightarrow> nat \<Rightarrow> span \<Rightarrow> bool option" where
  "fm_block_has_key_outside s st be removed =
     (if st < be then do {
        e \<leftarrow> fm_line_end s st be;
        if block_line_is_key s st e \<and> \<not> (lo removed \<le> st \<and> st < hi removed) then Some True
        else fm_block_has_key_outside s e be removed }
      else Some False)"
  by pat_completeness auto
termination
  by (relation "measure (\<lambda>(s, st, be, r). be - st)") (auto dest!: fm_line_end_bounds)

declare fm_block_has_key_outside.simps [simp del]

definition fm_remove_empties_block :: "(str \<Rightarrow> str) \<Rightarrow> document \<Rightarrow> str \<Rightarrow> bool option" where
  "fm_remove_empties_block hash doc key =
     (case find_frontmatter (root doc) of
        None \<Rightarrow> Some False
      | Some fm \<Rightarrow> do {
          hit \<leftarrow> resolve_fm_key hash doc key;
          case hit of
            None \<Rightarrow> Some False
          | Some e \<Rightarrow> do {
              stop \<leftarrow> fm_line_end (raw doc) (hi (res_span e)) (hi (span fm));
              found \<leftarrow> fm_block_has_key_outside (raw doc) (lo (span fm)) (hi (span fm))
                         (Span (lo (res_span e)) stop);
              Some (\<not> found) } })"

end
