(* ===== verification/Build.thy ===== *)
theory Build
  imports Frontmatter
begin

text \<open>
  The seam from the dialect stream to the governed tree, in \<^verbatim>\<open>crates/model/src/lib.rs\<close>: the host
  block of an anchor, and \<open>build\<close>. The dialect nodes are data here; \<^verbatim>\<open>syntax::parse\<close>, a wrapper of
  the pulldown-cmark fork, is a parameter of what reparses.
\<close>

section \<open>The dialect stream\<close>

datatype dialect_kind =
    DFrontmatter "str list"
  | DHeading nat str
  | DFence str bool
  | DInlineCode
  | DAnchor str
  | DWikilink str "str option" "str option" "str option"
  | DEmbed str "str option" "str option" "str option"
  | DCallout str str
  | DTask bool nat
  | DTable
  | DComment

datatype dialect_node = Dialect (dkind: dialect_kind) (dspan: span)

fun leaf_kind :: "dialect_kind \<Rightarrow> node_kind option" where
  "leaf_kind (DFence info unterminated) = Some (CodeBlock info unterminated)"
| "leaf_kind (DAnchor i) = Some (Anchor i)"
| "leaf_kind (DWikilink t h b a) = Some (Wikilink t h b a)"
| "leaf_kind (DEmbed t h b a) = Some (Embed t h b a)"
| "leaf_kind (DCallout t f) = Some (Callout t f)"
| "leaf_kind (DTask c d) = Some (TaskItem c d)"
| "leaf_kind DTable = Some Table"
| "leaf_kind DInlineCode = Some InlineCode"
| "leaf_kind DComment = Some Comment"
| "leaf_kind (DFrontmatter _) = None"
| "leaf_kind (DHeading _ _) = None"

section \<open>Lines around an offset\<close>

definition ascii_space :: "char \<Rightarrow> bool" where
  "ascii_space c \<longleftrightarrow> byte c \<in> {9, 10, 12, 13, 32}"

definition line_start :: "str \<Rightarrow> nat \<Rightarrow> nat" where
  "line_start s pos = (case position (\<lambda>c. c = lf) (rev (take pos s)) of None \<Rightarrow> 0 | Some k \<Rightarrow> pos - k)"

definition line_around :: "str \<Rightarrow> nat \<Rightarrow> span" where
  "line_around s pos =
     (let st = line_start s pos;
          e = (case position (\<lambda>c. c = lf) (drop pos s) of None \<Rightarrow> length s | Some p \<Rightarrow> pos + p)
      in Span st (if st < e \<and> s ! (e - 1) = cr then e - 1 else e))"

definition prev_line :: "str \<Rightarrow> span \<Rightarrow> span option" where
  "prev_line s l = (if lo l = 0 then None else Some (line_around s (lo l - 1)))"

definition next_line :: "str \<Rightarrow> span \<Rightarrow> span option" where
  "next_line s l =
     (let p = (if hi l < length s \<and> s ! hi l = cr then Suc (hi l) else hi l) in
      if p < length s \<and> s ! p = lf
      then (if length s \<le> Suc p then None else Some (line_around s (Suc p)))
      else None)"

definition line_text :: "str \<Rightarrow> span \<Rightarrow> str" where
  "line_text s l = sub s (lo l) (hi l)"

definition is_blank :: "str \<Rightarrow> span \<Rightarrow> bool" where
  "is_blank s l \<longleftrightarrow> (\<forall>c \<in> set (line_text s l). ascii_space c)"

definition trim_ascii :: "str \<Rightarrow> str" where
  "trim_ascii s = rev (dropWhile ascii_space (rev (dropWhile ascii_space s)))"

definition block_id_char :: "char \<Rightarrow> bool" where
  "block_id_char c \<longleftrightarrow>
     ascii_lower c \<or> (65 \<le> byte c \<and> byte c \<le> 90) \<or> ascii_digit c \<or> c = CHR ''-''"

definition is_marker_only_line :: "str \<Rightarrow> span \<Rightarrow> bool" where
  "is_marker_only_line s l =
     (case strip_prefix ''^'' (trim_ascii (line_text s l)) of
        None \<Rightarrow> False
      | Some rest \<Rightarrow> rest \<noteq> [] \<and> (\<forall>c \<in> set rest. block_id_char c))"

definition is_list_line :: "str \<Rightarrow> span \<Rightarrow> bool" where
  "is_list_line s l =
     (let t = trim_ascii (line_text s l) in
      if starts_with ''- '' t \<or> starts_with ''* '' t \<or> starts_with ''+ '' t then True
      else if t = ''-'' \<or> t = ''*'' \<or> t = ''+'' then True
      else let d = length (takeWhile ascii_digit t) in
        0 < d \<and> d < length t \<and> (t ! d = CHR ''.'' \<or> t ! d = CHR '')'') \<and>
        (length t \<le> Suc d \<or> t ! Suc d = CHR '' ''))"

section \<open>Hosts\<close>

fun best_host :: "span list \<Rightarrow> span option" where
  "best_host [] = None"
| "best_host (h # hs) =
     (case best_host hs of
        None \<Rightarrow> Some h
      | Some b \<Rightarrow>
          if lo b < lo h \<or> (lo b = lo h \<and> hi h - lo h < hi b - lo b) then Some h else Some b)"

definition smallest_host :: "span list \<Rightarrow> nat \<Rightarrow> span option" where
  "smallest_host hosts pos = best_host (filter (\<lambda>h. lo h \<le> pos \<and> pos < hi h) hosts)"

lemma line_start_le: "line_start s pos \<le> pos"
  by (simp add: line_start_def split: option.split)

lemma line_start_after_newline:
  "pos < length s \<Longrightarrow> s ! pos = lf \<Longrightarrow> line_start s (Suc pos) = Suc pos"
  by (simp add: line_start_def take_Suc_conv_app_nth)

lemma prev_line_earlier: "prev_line s l = Some p \<Longrightarrow> lo p < lo l"
proof -
  assume p: "prev_line s l = Some p"
  then have "lo p = line_start s (lo l - 1)" and "0 < lo l"
    by (auto simp: prev_line_def line_around_def Let_def split: if_splits)
  moreover have "line_start s (lo l - 1) \<le> lo l - 1" by (rule line_start_le)
  ultimately show ?thesis by simp
qed

lemma next_line_later: "next_line s l = Some n \<Longrightarrow> hi l < hi n \<and> hi n \<le> length s"
proof -
  assume n: "next_line s l = Some n"
  define p where "p = (if hi l < length s \<and> s ! hi l = cr then Suc (hi l) else hi l)"
  have p: "hi l \<le> p" "p < length s" "s ! p = lf" "Suc p < length s" "n = line_around s (Suc p)"
    using n by (auto simp: next_line_def p_def Let_def split: if_splits)
  have start: "line_start s (Suc p) = Suc p"
    using p by (intro line_start_after_newline)
  have "Suc p \<le> hi n \<and> hi n \<le> length s"
    using p by (auto simp: line_around_def Let_def start split: option.split dest!: position_less)
  with p show ?thesis by simp
qed

text \<open>Growing a run over adjacent lines, upwards from its first and downwards from its last.\<close>

function run_up :: "(span \<Rightarrow> bool) \<Rightarrow> str \<Rightarrow> span \<Rightarrow> span" where
  "run_up p s l =
     (case prev_line s l of None \<Rightarrow> l | Some q \<Rightarrow> if p q then run_up p s q else l)"
  by pat_completeness auto
termination
  by (relation "measure (\<lambda>(p, s, l). lo l)") (auto dest: prev_line_earlier)

function run_down :: "(span \<Rightarrow> bool) \<Rightarrow> str \<Rightarrow> span \<Rightarrow> span" where
  "run_down p s l =
     (case next_line s l of None \<Rightarrow> l | Some q \<Rightarrow> if p q then run_down p s q else l)"
  by pat_completeness auto
termination
  by (relation "measure (\<lambda>(p, s, l). length s - hi l)") (auto dest!: next_line_later)

declare run_up.simps [simp del] run_down.simps [simp del]

definition within_fm :: "span option \<Rightarrow> span \<Rightarrow> bool" where
  "within_fm fm l = (case fm of None \<Rightarrow> False | Some f \<Rightarrow> covers f l)"

definition in_paragraph :: "str \<Rightarrow> span list \<Rightarrow> span option \<Rightarrow> span \<Rightarrow> bool" where
  "in_paragraph s hosts fm l \<longleftrightarrow>
     \<not> is_blank s l \<and> smallest_host hosts (lo l) = None \<and> \<not> within_fm fm l \<and> \<not> is_list_line s l"

definition paragraph_run :: "str \<Rightarrow> span list \<Rightarrow> span option \<Rightarrow> span \<Rightarrow> span \<Rightarrow> span" where
  "paragraph_run s hosts fm first final =
     Span (lo (run_up (in_paragraph s hosts fm) s first))
          (hi (run_down (in_paragraph s hosts fm) s final))"

definition in_list :: "str \<Rightarrow> span \<Rightarrow> bool" where
  "in_list s l \<longleftrightarrow> \<not> is_blank s l \<and> (is_list_line s l \<or> is_indented (line_text s l))"

definition list_run :: "str \<Rightarrow> span \<Rightarrow> span" where
  "list_run s item = Span (lo (run_up (in_list s) s item)) (hi (run_down (in_list s) s item))"

text \<open>The upward scan for an id on a line of its own, from \<open>probe\<close>.\<close>

function own_line_host :: "str \<Rightarrow> span list \<Rightarrow> span option \<Rightarrow> span \<Rightarrow> bool \<Rightarrow> span \<Rightarrow> span" where
  "own_line_host s hosts fm line gap probe =
     (case prev_line s probe of
        None \<Rightarrow> line
      | Some p \<Rightarrow>
          if within_fm fm p then line
          else if is_blank s p then own_line_host s hosts fm line True p
          else if is_marker_only_line s p then own_line_host s hosts fm line gap p
          else case smallest_host hosts (lo p) of
            Some h \<Rightarrow> h
          | None \<Rightarrow>
              if is_list_line s p
              then (if gap then list_run s p else Span (lo p) (hi line))
              else paragraph_run s hosts fm p (if gap then p else line))"
  by pat_completeness auto
termination
  by (relation "measure (\<lambda>(s, hosts, fm, line, gap, probe). lo probe)") (auto dest: prev_line_earlier)

declare own_line_host.simps [simp del]

text \<open>The only slice of the text that can be out of range is the one at the marker's start.\<close>

definition anchor_host_span :: "str \<Rightarrow> span \<Rightarrow> span list \<Rightarrow> span option \<Rightarrow> span option" where
  "anchor_host_span s marker hosts fm =
     (if length s < lo marker then None
      else
        let line = line_around s (lo marker) in
        Some (if within_fm fm line then line
              else if \<forall>c \<in> set (sub s (lo line) (lo marker)). ascii_space c
              then own_line_host s hosts fm line False line
              else case smallest_host hosts (lo line) of
                Some h \<Rightarrow> h
              | None \<Rightarrow> if is_list_line s line then line else paragraph_run s hosts fm line line))"

section \<open>Build\<close>

fun is_host :: "dialect_kind \<Rightarrow> bool" where
  "is_host (DHeading _ _) = True"
| "is_host (DFence _ _) = True"
| "is_host (DCallout _ _) = True"
| "is_host DTable = True"
| "is_host (DTask _ _) = True"
| "is_host _ = False"

fun is_fm_dialect :: "dialect_kind \<Rightarrow> bool" where
  "is_fm_dialect (DFrontmatter _) = True"
| "is_fm_dialect _ = False"

record build_acc =
  acc_fm :: "node option"
  acc_headings :: "(nat \<times> nat \<times> str) list"
  acc_leaves :: "node list"

definition fm_node :: "(str \<Rightarrow> str) \<Rightarrow> str \<Rightarrow> span \<Rightarrow> node option" where
  "fm_node hash s r =
     (let r' = Span (lo r) (extend_terminator s (hi r)) in do {
        m \<leftarrow> parse_frontmatter s r';
        leaf_node hash s (Frontmatter m) r' })"

definition leaf_span :: "str \<Rightarrow> span list \<Rightarrow> span option \<Rightarrow> node_kind \<Rightarrow> span \<Rightarrow> span option" where
  "leaf_span s hosts fm k r =
     (case k of Anchor _ \<Rightarrow> anchor_host_span s r hosts fm | _ \<Rightarrow> Some r)"

fun collect :: "(str \<Rightarrow> str) \<Rightarrow> str \<Rightarrow> span list \<Rightarrow> span option \<Rightarrow> dialect_node list \<Rightarrow>
    build_acc \<Rightarrow> build_acc option" where
  "collect hash s hosts fm [] acc = Some acc"
| "collect hash s hosts fm (Dialect k r # ds) acc =
     (case k of
        DFrontmatter _ \<Rightarrow> do {
          n \<leftarrow> fm_node hash s r;
          collect hash s hosts fm ds (acc\<lparr>acc_fm := Some n\<rparr>) }
      | DHeading lv t \<Rightarrow>
          collect hash s hosts fm ds (acc\<lparr>acc_headings := acc_headings acc @ [(lo r, lv, t)]\<rparr>)
      | _ \<Rightarrow>
          (case leaf_kind k of
             None \<Rightarrow> collect hash s hosts fm ds acc
           | Some nk \<Rightarrow> do {
               r' \<leftarrow> leaf_span s hosts fm nk r;
               n \<leftarrow> leaf_node hash s nk r';
               collect hash s hosts fm ds (acc\<lparr>acc_leaves := acc_leaves acc @ [n]\<rparr>) }))"

definition build_items :: "(str \<Rightarrow> str) \<Rightarrow> str \<Rightarrow> dialect_node list \<Rightarrow> node list option" where
  "build_items hash s ds = do {
     let hosts = map dspan (filter (\<lambda>d. is_host (dkind d)) ds);
     let fm = map_option dspan (find (\<lambda>d. is_fm_dialect (dkind d)) ds);
     acc \<leftarrow> collect hash s hosts fm ds \<lparr>acc_fm = None, acc_headings = [], acc_leaves = []\<rparr>;
     secs \<leftarrow> section_nodes hash s (acc_headings acc);
     Some (secs @ acc_leaves acc @ (case acc_fm acc of None \<Rightarrow> [] | Some n \<Rightarrow> [n])) }"

definition build :: "(str \<Rightarrow> str) \<Rightarrow> str \<Rightarrow> dialect_node list \<Rightarrow> document option" where
  "build hash s ds = do {
     items \<leftarrow> build_items hash s ds;
     v \<leftarrow> node_rev_at hash s (Span 0 (length s));
     let doc_kind = DocumentNode [] (min (length (lines s)) u32_max);
     Some \<lparr>raw = s,
       root = assign_hpath (sort_tree
         (Node doc_kind (Span 0 (length s)) v None (nest_by_containment items)))\<rparr> }"

end
