(* ===== verification/Resolve.thy ===== *)
theory Resolve
  imports Build
begin

text \<open>
  The mint-plane lookup of \<^verbatim>\<open>crates/model/src/lib.rs\<close>: heading paths walked byte-exactly down the
  containment tree, block ids, frontmatter keys, and the validation surface of a target.
\<close>

record hpath_seg =
  seg_h :: str
  seg_n :: "nat option"

definition seg_of :: "str \<Rightarrow> hpath_seg" where
  "seg_of h = \<lparr>seg_h = h, seg_n = None\<rparr>"

datatype ref = Hpath "hpath_seg list" | AnchorRef str | FmKey str

definition anchor_ref :: "str \<Rightarrow> str + ref" where
  "anchor_ref i = (if i \<noteq> [] \<and> (\<forall>c \<in> set i. block_id_char c) then Inr (AnchorRef i) else Inl i)"

record target =
  tgt_span :: span
  tgt_rev :: str

datatype resolve_error = NotFound | Ambiguous "target list"

definition content_span :: "node \<Rightarrow> str \<Rightarrow> span option" where
  "content_span n s =
     (if is_section (kind n) then do {
        seg \<leftarrow> byte_slice s (span n);
        Some (Span (case position (\<lambda>c. c = lf) seg of
                      None \<Rightarrow> hi (span n) | Some p \<Rightarrow> Suc (lo (span n) + p))
                   (hi (span n))) }
      else Some (span n))"

definition resolved_of :: "node \<Rightarrow> str \<Rightarrow> resolved option" where
  "resolved_of n s = do {
     c \<leftarrow> content_span n s;
     Some \<lparr>res_span = span n, res_content = c, res_rev = node_rev n\<rparr> }"

definition target_of :: "node \<Rightarrow> target" where
  "target_of n = \<lparr>tgt_span = span n, tgt_rev = node_rev n\<rparr>"

fun section_named :: "str \<Rightarrow> node_kind \<Rightarrow> bool" where
  "section_named t (Section u l) \<longleftrightarrow> u = t"
| "section_named t _ \<longleftrightarrow> False"

definition pick_match :: "node list \<Rightarrow> nat option \<Rightarrow> resolve_error + node" where
  "pick_match ms n =
     (if ms = [] then Inl NotFound
      else case n of
        Some i \<Rightarrow> if 0 < i \<and> i - 1 < length ms then Inr (ms ! (i - 1)) else Inl NotFound
      | None \<Rightarrow> (case ms of [only] \<Rightarrow> Inr only | _ \<Rightarrow> Inl (Ambiguous (map target_of ms))))"

fun resolve_hpath_node :: "node \<Rightarrow> hpath_seg list \<Rightarrow> resolve_error + node" where
  "resolve_hpath_node n [] = Inr n"
| "resolve_hpath_node n (seg # segs) =
     and_then (pick_match (filter (\<lambda>c. section_named (seg_h seg) (kind c)) (children n)) (seg_n seg))
       (\<lambda>c. resolve_hpath_node c segs)"

fun collect_anchors :: "str \<Rightarrow> node \<Rightarrow> node list" where
  "collect_anchors i (Node k r v h cs) =
     (if k = Anchor i then [Node k r v h cs] else []) @ concat (map (collect_anchors i) cs)"

definition resolve_anchor_node :: "document \<Rightarrow> str \<Rightarrow> resolve_error + node" where
  "resolve_anchor_node doc i =
     (case sort_key (\<lambda>n. lo (span n)) (collect_anchors i (root doc)) of
        [] \<Rightarrow> Inl NotFound
      | [only] \<Rightarrow> Inr only
      | many \<Rightarrow> Inl (Ambiguous (map target_of many)))"

definition lift_resolved :: "resolve_error + node \<Rightarrow> str \<Rightarrow> (resolve_error + resolved) option" where
  "lift_resolved r s = attempt (Some r) (\<lambda>n. map_option Inr (resolved_of n s))"

fun resolve_full :: "(str \<Rightarrow> str) \<Rightarrow> document \<Rightarrow> ref \<Rightarrow> (resolve_error + resolved) option" where
  "resolve_full hash doc (Hpath segs) = lift_resolved (resolve_hpath_node (root doc) segs) (raw doc)"
| "resolve_full hash doc (AnchorRef i) = lift_resolved (resolve_anchor_node doc i) (raw doc)"
| "resolve_full hash doc (FmKey key) =
     map_option (\<lambda>r. case r of None \<Rightarrow> Inl NotFound | Some x \<Rightarrow> Inr x) (resolve_fm_key hash doc key)"

definition resolve :: "(str \<Rightarrow> str) \<Rightarrow> document \<Rightarrow> ref \<Rightarrow> (resolve_error + target) option" where
  "resolve hash doc r = attempt (resolve_full hash doc r)
     (\<lambda>x. Some (Inr \<lparr>tgt_span = res_span x, tgt_rev = res_rev x\<rparr>))"

end
