(* ===== verification/Splice.thy ===== *)
theory Splice
  imports Resolve
begin

text \<open>
  The compare-and-swap splice of \<^verbatim>\<open>crates/model/src/lib.rs\<close>: a batch of edits validated against
  a document and sealed, and the two ways the sealed edits are applied, the candidate of
  \<^verbatim>\<open>model\<close> and the cursor pass of \<^verbatim>\<open>crates/fs/src/lib.rs\<close>. The parser \<open>parse\<close> from text to dialect
  nodes is a parameter beside \<open>hash\<close>.
\<close>

section \<open>Requests and verdicts\<close>

datatype put_at = AtAll | AtContent | AtEnd | AtUpsert

datatype edit_kind = MatchEdit str str | Put put_at str | Remove

record edit =
  edit_target :: ref
  edit_shape :: edit_kind
  if_node_rev :: "str option"

record engine_edit =
  eng_span :: span
  eng_text :: str

record splice_request =
  if_root :: "str option"
  edits :: "edit list"
  engine :: "engine_edit option"

record receipt_append =
  rcpt_span :: span
  rcpt_text :: str

record validated_edit =
  ve_span :: span
  ve_text :: str
  ve_index :: nat

record validated_batch =
  vb_edits :: "validated_edit list"
  vb_receipt :: "receipt_append option"

datatype corrupt_cause = HeadingDestroyed | Reparented

datatype verdict =
    Validated validated_batch
  | RootMismatch str str
  | RefNotFound
  | AmbiguousRef "target list"
  | CasMismatch str str
  | NoMatch nat
  | NotUnique nat
  | Overlap "nat list" "span list"
  | WouldCorrupt "hpath list" "corrupt_cause option"
  | TransitionUnrepresentable ref
  | MultibyteSplit

record planned_edit =
  region :: span
  new_text :: str

section \<open>Regions\<close>

text \<open>\<^verbatim>\<open>s.matches(p).count()\<close>: occurrences left to right, each search after the last match; the
  empty pattern matches at every character boundary.\<close>

lemma find_str_bound: "find_str p s = Some i \<Longrightarrow> i + length p \<le> length s"
proof (induction p s arbitrary: i rule: find_str.induct)
  case (2 p x xs)
  show ?case
  proof (cases "starts_with p (x # xs)")
    case True
    then have "length p \<le> length (x # xs)"
      unfolding starts_with_prefix by (rule prefix_length_le)
    with 2 True show ?thesis by simp
  next
    case False
    with 2 show ?thesis by auto
  qed
qed (simp split: if_splits)

function count_matches :: "str \<Rightarrow> str \<Rightarrow> nat" where
  "count_matches p s =
     (if p = [] then Suc (length (filter (\<lambda>c. \<not> cont_byte c) s))
      else case find_str p s of
        None \<Rightarrow> 0
      | Some i \<Rightarrow> Suc (count_matches p (drop (i + length p) s)))"
  by pat_completeness auto
termination
  by (relation "measure (\<lambda>(p, s). length s)")
    (auto dest!: find_str_bound simp: neq_Nil_conv)

declare count_matches.simps [simp del]

definition match_region :: "str \<Rightarrow> span \<Rightarrow> str \<Rightarrow> (verdict + span) option" where
  "match_region s r old = do {
     hay \<leftarrow> str_slice s r;
     Some (case find_str old hay of
       None \<Rightarrow> Inl (NoMatch 0)
     | Some first \<Rightarrow>
         let count = 1 + count_matches old (drop (first + length old) hay) in
         if 1 < count then Inl (NotUnique count)
         else Inr (Span (lo r + first) (lo r + first + length old))) }"

definition guard_char_aligned :: "str \<Rightarrow> span \<Rightarrow> verdict + unit" where
  "guard_char_aligned s r =
     (if is_char_boundary s (lo r) \<and> is_char_boundary s (hi r) then Inr () else Inl MultibyteSplit)"

definition plan_engine_edit :: "str \<Rightarrow> engine_edit \<Rightarrow> verdict + planned_edit" where
  "plan_engine_edit s e =
     and_then (guard_char_aligned s (eng_span e))
       (\<lambda>_. Inr \<lparr>region = eng_span e, new_text = eng_text e\<rparr>)"

section \<open>Planning one edit\<close>

type_synonym guard_slot = "(ref \<times> str) option"

definition cas_guard :: "str option \<Rightarrow> str \<Rightarrow> verdict + unit" where
  "cas_guard expected actual =
     (case expected of
        None \<Rightarrow> Inr ()
      | Some e \<Rightarrow> if e \<noteq> actual then Inl (CasMismatch e actual) else Inr ())"

fun fm_upsert_key :: "edit \<Rightarrow> str option" where
  "fm_upsert_key e =
     (case (edit_shape e, edit_target e) of (Put AtUpsert _, FmKey key) \<Rightarrow> Some key | _ \<Rightarrow> None)"

definition synth_of :: "nat \<Rightarrow> nat \<Rightarrow> fm_block_synth" where
  "synth_of n_synth pos =
     (if n_synth < 2 then Whole
      else if pos = 0 then Open
      else if pos + 1 = n_synth then Close
      else Mid)"

definition plan_upsert :: "(str \<Rightarrow> str) \<Rightarrow> document \<Rightarrow> edit \<Rightarrow> str \<Rightarrow> str \<Rightarrow> fm_block_synth \<Rightarrow>
    (verdict + planned_edit \<times> guard_slot) option" where
  "plan_upsert hash doc e key val synth = do {
     p \<leftarrow> plan_fm_upsert hash doc key val synth;
     Some (and_then (cas_guard (if_node_rev e) (plan_before p)) (\<lambda>_.
           and_then (guard_char_aligned (raw doc) (plan_region p)) (\<lambda>_.
           Inr (\<lparr>region = plan_region p, new_text = plan_text p\<rparr>, None)))) }"

definition refusal_of :: "resolve_error \<Rightarrow> verdict" where
  "refusal_of e = (case e of NotFound \<Rightarrow> RefNotFound | Ambiguous c \<Rightarrow> AmbiguousRef c)"

definition put_region :: "put_at \<Rightarrow> resolved \<Rightarrow> span" where
  "put_region at r =
     (case at of
        AtAll \<Rightarrow> res_span r
      | AtUpsert \<Rightarrow> res_span r
      | AtContent \<Rightarrow> res_content r
      | AtEnd \<Rightarrow> Span (hi (res_span r)) (hi (res_span r)))"

definition edit_region :: "document \<Rightarrow> edit_kind \<Rightarrow> resolved \<Rightarrow> (verdict + span \<times> str) option" where
  "edit_region doc k r =
     (case k of
        MatchEdit old new \<Rightarrow>
          attempt (match_region (raw doc) (res_span r) old) (\<lambda>reg. Some (Inr (reg, new)))
      | Put at t \<Rightarrow> Some (Inr (put_region at r, t))
      | Remove \<Rightarrow> map_option (\<lambda>reg. Inr (reg, [])) (fm_remove_region doc (res_span r)))"

definition guard_slot_of :: "edit \<Rightarrow> resolved \<Rightarrow> guard_slot" where
  "guard_slot_of e r =
     (if edit_shape e = Remove then None else Some (edit_target e, res_rev r))"

definition plan_resolved ::
    "(str \<Rightarrow> str) \<Rightarrow> document \<Rightarrow> edit \<Rightarrow> (verdict + planned_edit \<times> guard_slot) option" where
  "plan_resolved hash doc e = do {
     found \<leftarrow> resolve_full hash doc (edit_target e);
     case found of
       Inl err \<Rightarrow> Some (Inl (refusal_of err))
     | Inr r \<Rightarrow>
         attempt (Some (cas_guard (if_node_rev e) (res_rev r))) (\<lambda>_.
         attempt (edit_region doc (edit_shape e) r) (\<lambda>(reg, t).
         attempt (Some (guard_char_aligned (raw doc) reg)) (\<lambda>_.
         Some (Inr (\<lparr>region = reg, new_text = t\<rparr>, guard_slot_of e r))))) }"

text \<open>The loop over the edits; \<open>seen\<close> counts the upserts planned while the block is synthesised.\<close>

fun plan_edits :: "(str \<Rightarrow> str) \<Rightarrow> document \<Rightarrow> nat \<Rightarrow> nat \<Rightarrow> edit list \<Rightarrow>
    (verdict + (planned_edit \<times> guard_slot) list) option" where
  "plan_edits hash doc n_synth seen [] = Some (Inr [])"
| "plan_edits hash doc n_synth seen (e # es) =
     attempt
       (case (edit_shape e, edit_target e) of
          (Put AtUpsert val, FmKey key) \<Rightarrow> plan_upsert hash doc e key val (synth_of n_synth seen)
        | _ \<Rightarrow> plan_resolved hash doc e)
       (\<lambda>p. attempt
          (plan_edits hash doc n_synth (if fm_upsert_key e \<noteq> None \<and> 2 \<le> n_synth then Suc seen else seen) es)
          (\<lambda>ps. Some (Inr (p # ps))))"

definition synth_total :: "document \<Rightarrow> edit list \<Rightarrow> nat" where
  "synth_total doc es =
     (if find_frontmatter (root doc) = None
      then length (filter (\<lambda>e. fm_upsert_key e \<noteq> None) es) else 0)"

section \<open>Disjointness\<close>

definition region_key :: "planned_edit \<Rightarrow> nat \<times> nat" where
  "region_key p = (lo (region p), hi (region p))"

fun first_duplicate_from :: "str option list \<Rightarrow> planned_edit list \<Rightarrow> nat \<Rightarrow> str option list \<Rightarrow>
    (nat list \<times> span list) option" where
  "first_duplicate_from all ps i [] = None"
| "first_duplicate_from all ps i (None # ks) = first_duplicate_from all ps (Suc i) ks"
| "first_duplicate_from all ps i (Some key # ks) =
     (case position (\<lambda>earlier. earlier = Some key) (take i all) of
        Some first \<Rightarrow> Some ([first, i], [region (ps ! first), region (ps ! i)])
      | None \<Rightarrow> first_duplicate_from all ps (Suc i) ks)"

definition first_duplicate_fm_upsert ::
    "str option list \<Rightarrow> planned_edit list \<Rightarrow> (nat list \<times> span list) option" where
  "first_duplicate_fm_upsert keys ps = first_duplicate_from keys ps 0 keys"

fun overlap_scan :: "planned_edit list \<Rightarrow> nat list \<Rightarrow> (nat list \<times> span list) option" where
  "overlap_scan ps (a # b # rest) =
     (if lo (region (ps ! b)) < hi (region (ps ! a))
      then Some ([a, b], [region (ps ! a), region (ps ! b)])
      else overlap_scan ps (b # rest))"
| "overlap_scan ps _ = None"

definition first_overlap :: "planned_edit list \<Rightarrow> (nat list \<times> span list) option" where
  "first_overlap ps = overlap_scan ps (sort_key (\<lambda>i. region_key (ps ! i)) [0..<length ps])"

definition region_disjoint :: "span \<Rightarrow> span \<Rightarrow> bool" where
  "region_disjoint a b \<longleftrightarrow> hi a \<le> lo b \<or> hi b \<le> lo a"

section \<open>Applying\<close>

text \<open>The forward pass: the gap from the cursor, the text, on from the region's end.\<close>

fun apply_from :: "(str \<Rightarrow> span \<Rightarrow> str option) \<Rightarrow> str \<Rightarrow> nat \<Rightarrow> (span \<times> str) list \<Rightarrow> str option" where
  "apply_from slice s cursor [] = slice s (Span cursor (length s))"
| "apply_from slice s cursor ((r, t) # es) = do {
     gap \<leftarrow> slice s (Span cursor (lo r));
     rest \<leftarrow> apply_from slice s (hi r) es;
     Some (gap @ t @ rest) }"

definition apply_regions :: "str \<Rightarrow> planned_edit list \<Rightarrow> str option" where
  "apply_regions s ps =
     apply_from str_slice s 0 (map (\<lambda>p. (region p, new_text p)) (sort_key region_key ps))"

text \<open>\<^verbatim>\<open>fs\<close>: the same pass over bytes, in the order it is given.\<close>

definition apply_spans :: "str \<Rightarrow> (span \<times> str) list \<Rightarrow> str option" where
  "apply_spans old es = apply_from byte_slice old 0 es"

text \<open>\<^verbatim>\<open>String::replace_range\<close>, and the candidate spliced from the back.\<close>

definition replace_range :: "str \<Rightarrow> span \<Rightarrow> str \<Rightarrow> str option" where
  "replace_range s r t =
     (if span_in s r \<and> is_char_boundary s (lo r) \<and> is_char_boundary s (hi r)
      then Some (take (lo r) s @ t @ drop (hi r) s) else None)"

fun replace_all :: "str \<Rightarrow> validated_edit list \<Rightarrow> str option" where
  "replace_all s [] = Some s"
| "replace_all s (e # es) = do { s' \<leftarrow> replace_range s (ve_span e) (ve_text e); replace_all s' es }"

definition stamp_path :: "str \<Rightarrow> document \<Rightarrow> document" where
  "stamp_path path doc =
     (case root doc of Node k r v h cs \<Rightarrow>
        (case k of
           DocumentNode _ n \<Rightarrow> doc\<lparr>root := Node (DocumentNode path n) r v h cs\<rparr>
         | _ \<Rightarrow> doc))"

definition candidate_of_body ::
    "(str \<Rightarrow> str) \<Rightarrow> (str \<Rightarrow> dialect_node list) \<Rightarrow> str \<Rightarrow> str \<Rightarrow> document option" where
  "candidate_of_body hash parse path s = map_option (stamp_path path) (build hash s (parse s))"

definition candidate_of_batch ::
    "(str \<Rightarrow> str) \<Rightarrow> (str \<Rightarrow> dialect_node list) \<Rightarrow> str \<Rightarrow> str \<Rightarrow> validated_batch \<Rightarrow> document option" where
  "candidate_of_batch hash parse path pre b = do {
     s \<leftarrow> replace_all pre (rev (vb_edits b));
     candidate_of_body hash parse path s }"

section \<open>The guards after the reparse\<close>

fun heading_survives :: "str \<Rightarrow> nat \<Rightarrow> node \<Rightarrow> bool" where
  "heading_survives t lv (Node k r v h cs) \<longleftrightarrow>
     k = Section t lv \<or> (\<exists>c \<in> set cs. heading_survives t lv c)"

text \<open>What one node adds to the list of lost sections.\<close>

definition lost_here :: "(str \<Rightarrow> str) \<Rightarrow> planned_edit list \<Rightarrow> document \<Rightarrow>
    node_kind \<Rightarrow> span \<Rightarrow> hpath option \<Rightarrow> (hpath \<times> corrupt_cause) list option" where
  "lost_here hash ps new_doc k r h =
     (case (k, h) of
        (Section t lv, Some path) \<Rightarrow>
          if \<forall>p \<in> set ps. region_disjoint r (region p) then do {
            found \<leftarrow> resolve_full hash new_doc (Hpath (map seg_of path));
            Some (if found = Inl NotFound
                  then [(path, if heading_survives t lv (root new_doc) then Reparented
                               else HeadingDestroyed)]
                  else []) }
          else Some []
      | _ \<Rightarrow> Some [])"

fun collect_lost :: "(str \<Rightarrow> str) \<Rightarrow> planned_edit list \<Rightarrow> document \<Rightarrow> node \<Rightarrow>
    (hpath \<times> corrupt_cause) list option" where
  "collect_lost hash ps new_doc (Node k r v h cs) = do {
     here \<leftarrow> lost_here hash ps new_doc k r h;
     below \<leftarrow> each (collect_lost hash ps new_doc) cs;
     Some (here @ concat below) }"

definition would_corrupt :: "(str \<Rightarrow> str) \<Rightarrow> document \<Rightarrow> planned_edit list \<Rightarrow> document \<Rightarrow>
    (hpath list \<times> corrupt_cause option) option option" where
  "would_corrupt hash doc ps new_doc = do {
     lost \<leftarrow> collect_lost hash ps new_doc (root doc);
     Some (case lost of
       [] \<Rightarrow> None
     | (_, first) # _ \<Rightarrow>
         Some (map fst lost, if \<forall>x \<in> set lost. snd x = first then Some first else None)) }"

fun first_write_past_its_span :: "(str \<Rightarrow> str) \<Rightarrow> str \<Rightarrow> document \<Rightarrow>
    planned_edit list \<Rightarrow> guard_slot list \<Rightarrow> ref option option" where
  "first_write_past_its_span hash s new_doc ps [] = Some None"
| "first_write_past_its_span hash s new_doc [] (g # gs) =
     (if g = None then first_write_past_its_span hash s new_doc [] gs else None)"
| "first_write_past_its_span hash s new_doc (p # ps) (None # gs) =
     first_write_past_its_span hash s new_doc ps gs"
| "first_write_past_its_span hash s new_doc (p # ps) (Some (t, pre_rev) # gs) = do {
     old \<leftarrow> str_slice s (region p);
     if old = new_text p then first_write_past_its_span hash s new_doc ps gs
     else do {
       after \<leftarrow> resolve_full hash new_doc t;
       case after of
         Inl _ \<Rightarrow> first_write_past_its_span hash s new_doc ps gs
       | Inr r \<Rightarrow>
           if res_rev r = pre_rev then Some (Some t)
           else first_write_past_its_span hash s new_doc ps gs } }"

section \<open>Validation\<close>

definition root_guard :: "str option \<Rightarrow> str option \<Rightarrow> verdict + unit" where
  "root_guard expected live =
     (case (expected, live) of
        (Some e, Some a) \<Rightarrow> if e \<noteq> a then Inl (RootMismatch e a) else Inr ()
      | _ \<Rightarrow> Inr ())"

definition engine_plan :: "str \<Rightarrow> engine_edit option \<Rightarrow> verdict + planned_edit list" where
  "engine_plan s e =
     (case e of None \<Rightarrow> Inr [] | Some x \<Rightarrow> and_then (plan_engine_edit s x) (\<lambda>p. Inr [p]))"

definition overlap_guard :: "(nat list \<times> span list) option \<Rightarrow> verdict + unit" where
  "overlap_guard o' = (case o' of None \<Rightarrow> Inr () | Some (is, rs) \<Rightarrow> Inl (Overlap is rs))"

text \<open>Rungs one to three: the planned set and the guard slots, or the first refusal.\<close>

definition plan_batch :: "(str \<Rightarrow> str) \<Rightarrow> document \<Rightarrow> str option \<Rightarrow> splice_request \<Rightarrow>
    (verdict + planned_edit list \<times> guard_slot list) option" where
  "plan_batch hash doc live b =
     attempt (Some (root_guard (if_root b) live)) (\<lambda>_.
     attempt (plan_edits hash doc (synth_total doc (edits b)) 0 (edits b)) (\<lambda>pgs.
     attempt (Some (engine_plan (raw doc) (engine b))) (\<lambda>eng.
     let ps = map fst pgs @ eng in
     attempt (Some (overlap_guard (first_duplicate_fm_upsert (map fm_upsert_key (edits b)) ps))) (\<lambda>_.
     attempt (Some (overlap_guard (first_overlap ps))) (\<lambda>_.
     Some (Inr (ps, map snd pgs)))))))"

text \<open>Rung four: the one reparse and the two guards that read it.\<close>

definition reparse_guards :: "(str \<Rightarrow> str) \<Rightarrow> (str \<Rightarrow> dialect_node list) \<Rightarrow> document \<Rightarrow>
    planned_edit list \<Rightarrow> guard_slot list \<Rightarrow> (verdict + unit) option" where
  "reparse_guards hash parse doc ps guarded = do {
     new_raw \<leftarrow> apply_regions (raw doc) ps;
     new_doc \<leftarrow> build hash new_raw (parse new_raw);
     lost \<leftarrow> would_corrupt hash doc ps new_doc;
     case lost of
       Some (paths, cause) \<Rightarrow> Some (Inl (WouldCorrupt paths cause))
     | None \<Rightarrow> do {
         past \<leftarrow> first_write_past_its_span hash (raw doc) new_doc ps guarded;
         case past of
           Some t \<Rightarrow> Some (Inl (TransitionUnrepresentable t))
         | None \<Rightarrow> Some (Inr ()) } }"

fun stamp_index :: "nat \<Rightarrow> planned_edit list \<Rightarrow> validated_edit list" where
  "stamp_index i [] = []"
| "stamp_index i (p # ps) =
     \<lparr>ve_span = region p, ve_text = new_text p, ve_index = i\<rparr> # stamp_index (Suc i) ps"

definition ve_key :: "validated_edit \<Rightarrow> nat \<times> nat" where
  "ve_key e = (lo (ve_span e), hi (ve_span e))"

definition seal :: "planned_edit list \<Rightarrow> receipt_append option \<Rightarrow> validated_batch" where
  "seal ps receipt = \<lparr>vb_edits = sort_key ve_key (stamp_index 0 ps), vb_receipt = receipt\<rparr>"

definition validate_batch :: "(str \<Rightarrow> str) \<Rightarrow> (str \<Rightarrow> dialect_node list) \<Rightarrow> document \<Rightarrow>
    str option \<Rightarrow> splice_request \<Rightarrow> receipt_append option \<Rightarrow> verdict option" where
  "validate_batch hash parse doc live b receipt = do {
     outcome \<leftarrow> attempt (plan_batch hash doc live b) (\<lambda>(ps, guarded).
       attempt (reparse_guards hash parse doc ps guarded) (\<lambda>_. Some (Inr (seal ps receipt))));
     Some (case outcome of Inl v \<Rightarrow> v | Inr sealed \<Rightarrow> Validated sealed) }"

end
