(* ===== verification/Tree_Laws.thy ===== *)
theory Tree_Laws
  imports Build
begin

text \<open>
  Laws of the governed tree: the containment forest keeps every item, in the span order, each
  inside its parent; sorting and the heading paths change neither; and a tree built from a
  dialect stream with spans inside the text carries the revision of every node's own bytes.
\<close>

section \<open>The nodes of a tree\<close>

type_synonym facts = "node_kind \<times> span \<times> str"

definition facts_of :: "node \<Rightarrow> facts" where
  "facts_of n = (kind n, span n, node_rev n)"

fun preorder :: "node \<Rightarrow> facts list" where
  "preorder (Node k r v h cs) = (k, r, v) # concat (map preorder cs)"

fun nested :: "node \<Rightarrow> bool" where
  "nested (Node k r v h cs) \<longleftrightarrow> (\<forall>c \<in> set cs. covers r (span c) \<and> nested c)"

definition facts_key :: "facts \<Rightarrow> int \<times> int \<times> nat" where
  "facts_key f = (case f of (k, r, v) \<Rightarrow> (int (lo r), - int (hi r), kind_ordinal k))"

lemma facts_key_of: "facts_key (facts_of n) = span_key n"
  by (simp add: facts_key_def facts_of_def span_key_def)

lemma preorder_hd: "preorder n = facts_of n # concat (map preorder (children n))"
  by (cases n) (simp add: facts_of_def)

lemma facts_in_preorder [simp]: "facts_of n \<in> set (preorder n)"
  by (cases n) (simp add: facts_of_def)

lemma span_push [simp]: "span (push_child p c) = span p" "kind (push_child p c) = kind p"
  by (cases p; simp)+

lemma preorder_push: "preorder (push_child p c) = preorder p @ preorder c"
  by (cases p) simp

lemma nested_push: "nested (push_child p c) \<longleftrightarrow> nested p \<and> covers (span p) (span c) \<and> nested c"
  by (cases p) auto

section \<open>The forest\<close>

definition open_order :: "node list \<Rightarrow> node list \<Rightarrow> facts list" where
  "open_order st forest = concat (map preorder forest) @ concat (map preorder (rev st))"

lemma pop_until_order:
  "pop_until r st forest = (st', forest') \<Longrightarrow> open_order st' forest' = open_order st forest"
  by (induction r st forest rule: pop_until.induct)
    (auto simp: open_order_def preorder_push split: if_splits)

lemma close_all_order: "concat (map preorder (close_all st forest)) = open_order st forest"
  by (induction st forest rule: close_all.induct) (auto simp: open_order_def preorder_push)

lemma nest_items_order:
  "concat (map preorder (nest_items is st forest)) = open_order st forest @ concat (map preorder is)"
proof (induction "is" arbitrary: st forest)
  case Nil
  then show ?case by (simp add: close_all_order)
next
  case (Cons i "is")
  obtain st' forest' where p: "pop_until (span i) st forest = (st', forest')" by fastforce
  then have "open_order (i # st') forest' = open_order st forest @ preorder i"
    using pop_until_order [OF p] by (simp add: open_order_def)
  with p Cons.IH show ?case by simp
qed

lemma preorder_leaf: "children n = [] \<Longrightarrow> preorder n = [facts_of n]"
  by (cases n) (simp add: facts_of_def)

lemma nest_order:
  assumes "\<forall>n \<in> set items. children n = []"
  shows "concat (map preorder (nest_by_containment items)) = map facts_of (sort_nodes items)"
proof -
  have "concat (map preorder xs) = map facts_of xs" if "set xs \<subseteq> set items" for xs
    using that assms by (induction xs) (auto simp: preorder_leaf)
  then show ?thesis
    by (simp add: nest_by_containment_def nest_items_order open_order_def sort_nodes_def)
qed

fun stack_ok :: "node list \<Rightarrow> bool" where
  "stack_ok [] = True"
| "stack_ok [n] = nested n"
| "stack_ok (n # p # st) = (nested n \<and> covers (span p) (span n) \<and> stack_ok (p # st))"

lemma stack_ok_push:
  "nested p \<Longrightarrow> covers (span p) (span n) \<Longrightarrow> nested n \<Longrightarrow> stack_ok (p # st) \<Longrightarrow>
   stack_ok (push_child p n # st)"
  by (cases st) (auto simp: nested_push)

lemma stack_ok_hd: "stack_ok (p # st) \<Longrightarrow> nested p"
  by (cases st) auto

lemma pop_until_ok:
  "pop_until r st forest = (st', forest') \<Longrightarrow> stack_ok st \<Longrightarrow> \<forall>n \<in> set forest. nested n \<Longrightarrow>
   stack_ok st' \<and> (\<forall>n \<in> set forest'. nested n) \<and> (st' \<noteq> [] \<longrightarrow> covers (span (hd st')) r)"
  by (induction r st forest arbitrary: st' forest' rule: pop_until.induct)
    (auto split: if_splits dest: stack_ok_hd intro!: stack_ok_push)

lemma close_all_ok:
  "stack_ok st \<Longrightarrow> \<forall>n \<in> set forest. nested n \<Longrightarrow> \<forall>n \<in> set (close_all st forest). nested n"
  by (induction st forest rule: close_all.induct)
    (auto dest: stack_ok_hd intro!: stack_ok_push)

lemma nest_items_ok:
  "stack_ok st \<Longrightarrow> \<forall>n \<in> set forest. nested n \<Longrightarrow> \<forall>n \<in> set is. nested n \<Longrightarrow>
   \<forall>n \<in> set (nest_items is st forest). nested n"
proof (induction "is" arbitrary: st forest)
  case Nil
  then show ?case using close_all_ok by simp
next
  case (Cons i "is")
  obtain st' forest' where p: "pop_until (span i) st forest = (st', forest')" by fastforce
  note q = pop_until_ok [OF p Cons.prems(1,2)]
  have "stack_ok (i # st')"
    using q Cons.prems(3) by (cases st') auto
  with Cons.IH [of "i # st'" forest'] q Cons.prems(3) p show ?case by simp
qed

lemma nest_nested:
  assumes "\<forall>n \<in> set items. children n = []" and "n \<in> set (nest_by_containment items)"
  shows "nested n"
proof -
  have "\<forall>n \<in> set (sort_nodes items). nested n"
  proof
    fix m assume "m \<in> set (sort_nodes items)"
    then have "children m = []" using assms(1) by (simp add: sort_nodes_def)
    then show "nested m" by (cases m) simp
  qed
  with assms(2) show ?thesis
    unfolding nest_by_containment_def using nest_items_ok [of "[]" "[]"] by auto
qed

section \<open>Sorting and heading paths\<close>

lemma span_sort_tree [simp]: "span (sort_tree n) = span n" "kind (sort_tree n) = kind n"
  "node_rev (sort_tree n) = node_rev n"
  by (cases n; simp)+

lemma sorted_sub_concat:
  "sorted (map f (concat (map preorder ns))) \<Longrightarrow> n \<in> set ns \<Longrightarrow> sorted (map f (preorder n))"
  by (induction ns) (auto simp: sorted_append)

lemma sorted_heads:
  "sorted (map facts_key (concat (map preorder ns))) \<Longrightarrow> sorted (map span_key ns)"
proof (induction ns)
  case (Cons n ns)
  have "\<forall>m \<in> set ns. span_key n \<le> span_key m"
  proof
    fix m assume "m \<in> set ns"
    then have "facts_of m \<in> set (concat (map preorder ns))"
      by (auto intro!: bexI [of _ m])
    moreover have "map facts_key (concat (map preorder (n # ns))) =
        facts_key (facts_of n) # map facts_key (concat (map preorder (children n)) @ concat (map preorder ns))"
      by (cases n) (simp add: facts_of_def)
    ultimately have "facts_key (facts_of n) \<le> facts_key (facts_of m)"
      using Cons.prems by auto
    then show "span_key n \<le> span_key m" by (simp add: facts_key_of)
  qed
  with Cons show ?case by (auto simp: sorted_append)
qed simp

lemma sort_nodes_sorted: "sorted (map span_key ns) \<Longrightarrow> sort_nodes ns = ns"
  by (simp add: sort_nodes_def sorted_sort_id sort_key_id_if_sorted)

lemma sort_tree_id: "sorted (map facts_key (preorder n)) \<Longrightarrow> sort_tree n = n"
proof (induction n rule: sort_tree.induct)
  case (1 k r v h cs)
  have kids: "sorted (map facts_key (concat (map preorder cs)))"
    using "1.prems" by simp
  then have cs: "sort_nodes cs = cs"
    by (intro sort_nodes_sorted sorted_heads)
  have "sort_tree c = c" if "c \<in> set cs" for c
    using "1.IH" [of c] sorted_sub_concat [OF kids that] that by (simp add: cs)
  then have "map sort_tree cs = cs" by (simp add: map_idI)
  then show ?case by (simp add: cs)
qed

lemma span_fill_hpath [simp]: "span (fill_hpath g n) = span n" "kind (fill_hpath g n) = kind n"
  "node_rev (fill_hpath g n) = node_rev n"
  by (cases n; simp)+

lemma preorder_fill_hpath: "preorder (fill_hpath g n) = preorder n"
proof (induction n arbitrary: g)
  case (Node k r v h cs)
  then have "map (preorder \<circ> fill_hpath g') cs = map preorder cs" for g' by simp
  then show ?case by (simp add: comp_def del: map_eq_conv)
qed

lemma nested_fill_hpath: "nested (fill_hpath g n) = nested n"
  by (induction n arbitrary: g) auto

end
