(* ===== verification/Build_Laws.thy ===== *)
theory Build_Laws
  imports Tree_Laws
begin

text \<open>
  Laws of \<open>build\<close>: a built tree is the document node followed by its items in the span order,
  every node inside its parent with the revision of its own bytes, and every span cuts the text
  at character boundaries when the dialect spans do.
\<close>

section \<open>Items\<close>

definition facts_ok :: "(str \<Rightarrow> str) \<Rightarrow> str \<Rightarrow> facts \<Rightarrow> bool" where
  "facts_ok hash s f = (case f of (k, r, v) \<Rightarrow> span_in s r \<and> v = rev_of hash (sub s (lo r) (hi r)))"

definition item_ok :: "(str \<Rightarrow> str) \<Rightarrow> str \<Rightarrow> node \<Rightarrow> bool" where
  "item_ok hash s n \<longleftrightarrow> children n = [] \<and> facts_ok hash s (facts_of n)"

lemma node_rev_at_Some:
  "node_rev_at hash s r = Some v \<longleftrightarrow> span_in s r \<and> v = rev_of hash (sub s (lo r) (hi r))"
  by (auto simp: node_rev_at_def byte_slice_Some bind_eq_Some_conv)

lemma leaf_node_Some:
  "leaf_node hash s k r = Some n \<longleftrightarrow>
     span_in s r \<and> n = Node k r (rev_of hash (sub s (lo r) (hi r))) None []"
  by (auto simp: leaf_node_def bind_eq_Some_conv node_rev_at_Some)

lemma leaf_node_ok: "leaf_node hash s k r = Some n \<Longrightarrow> item_ok hash s n \<and> span n = r \<and> kind n = k"
  by (auto simp: leaf_node_Some item_ok_def facts_ok_def facts_of_def)

lemma section_nodes_ok:
  "section_nodes hash s hs = Some ns \<Longrightarrow> n \<in> set ns \<Longrightarrow> item_ok hash s n"
proof (induction hs arbitrary: ns)
  case (Cons h hs)
  obtain st l t where h: "h = (st, l, t)" by (cases h)
  show ?case
    using Cons.prems Cons.IH by (auto simp: h bind_eq_Some_conv dest: leaf_node_ok)
qed simp

definition acc_ok :: "(node \<Rightarrow> bool) \<Rightarrow> build_acc \<Rightarrow> bool" where
  "acc_ok P acc \<longleftrightarrow> (\<forall>n \<in> set (acc_leaves acc). P n) \<and> (\<forall>n. acc_fm acc = Some n \<longrightarrow> P n)"

lemma fm_node_Some:
  "fm_node hash s r = Some n \<Longrightarrow>
     item_ok hash s n \<and> span n = Span (lo r) (extend_terminator s (hi r)) \<and> is_frontmatter (kind n)"
  by (auto simp: fm_node_def Let_def bind_eq_Some_conv dest!: leaf_node_ok)

lemma collect_leaf:
  "leaf_kind k = Some nk \<Longrightarrow>
   collect hash s hosts fm (Dialect k r # ds) acc = do {
     r' \<leftarrow> leaf_span s hosts fm nk r;
     n \<leftarrow> leaf_node hash s nk r';
     collect hash s hosts fm ds (acc\<lparr>acc_leaves := acc_leaves acc @ [n]\<rparr>) }"
  by (cases k) auto

lemma leaf_kind_None: "leaf_kind k = None \<longleftrightarrow> is_fm_dialect k \<or> (\<exists>lv t. k = DHeading lv t)"
  by (cases k) auto

lemma collect_ok:
  assumes "collect hash s hosts fm ds acc = Some acc'" and "acc_ok P acc"
    and "\<And>r n. (\<exists>k. Dialect (DFrontmatter k) r \<in> set ds) \<Longrightarrow> fm_node hash s r = Some n \<Longrightarrow> P n"
    and "\<And>k nk r r' n. Dialect k r \<in> set ds \<Longrightarrow> leaf_kind k = Some nk \<Longrightarrow>
        leaf_span s hosts fm nk r = Some r' \<Longrightarrow> leaf_node hash s nk r' = Some n \<Longrightarrow> P n"
  shows "acc_ok P acc'"
  using assms
proof (induction ds arbitrary: acc)
  case (Cons d ds)
  obtain k r where d: "d = Dialect k r" by (cases d)
  have rest: "(\<exists>ks. Dialect (DFrontmatter ks) r' \<in> set ds) \<Longrightarrow> fm_node hash s r' = Some n \<Longrightarrow> P n"
    "Dialect k' r' \<in> set ds \<Longrightarrow> leaf_kind k' = Some nk \<Longrightarrow> leaf_span s hosts fm nk r' = Some r'' \<Longrightarrow>
     leaf_node hash s nk r'' = Some n \<Longrightarrow> P n" for k' nk r' r'' n
    using Cons.prems(3) [of r' n] Cons.prems(4) [of k' r' nk r'' n] by auto
  show ?case
  proof (cases "leaf_kind k")
    case None
    then consider (fm) ks where "k = DFrontmatter ks" | (heading) lv t where "k = DHeading lv t"
      by (cases k) auto
    then show ?thesis
    proof cases
      case fm
      with Cons.prems(1) d obtain n where n: "fm_node hash s r = Some n"
        "collect hash s hosts fm ds (acc\<lparr>acc_fm := Some n\<rparr>) = Some acc'"
        by (auto simp: bind_eq_Some_conv)
      have "P n" using Cons.prems(3) n(1) fm d by auto
      with Cons.prems(2) have "acc_ok P (acc\<lparr>acc_fm := Some n\<rparr>)"
        by (simp add: acc_ok_def)
      then show ?thesis
        by (rule Cons.IH [OF n(2)]) (erule (1) rest(1), erule (3) rest(2))
    next
      case heading
      have "acc_ok P (acc\<lparr>acc_headings := acc_headings acc @ [(lo r, lv, t)]\<rparr>)"
        using Cons.prems(2) by (simp add: acc_ok_def)
      moreover have "collect hash s hosts fm ds
          (acc\<lparr>acc_headings := acc_headings acc @ [(lo r, lv, t)]\<rparr>) = Some acc'"
        using Cons.prems(1) by (simp add: d heading)
      ultimately show ?thesis
        by (intro Cons.IH) (assumption, assumption, erule (1) rest(1), erule (3) rest(2))
    qed
  next
    case (Some nk)
    obtain r' n where n: "leaf_span s hosts fm nk r = Some r'"
      "leaf_node hash s nk r' = Some n"
      "collect hash s hosts fm ds (acc\<lparr>acc_leaves := acc_leaves acc @ [n]\<rparr>) = Some acc'"
      using Cons.prems(1) unfolding d collect_leaf [OF Some] by (auto simp: bind_eq_Some_conv)
    have "P n" using Cons.prems(4) [of k r nk] n Some d by simp
    with Cons.prems(2) have "acc_ok P (acc\<lparr>acc_leaves := acc_leaves acc @ [n]\<rparr>)"
      by (auto simp: acc_ok_def)
    then show ?thesis
      by (rule Cons.IH [OF n(3)]) (erule (1) rest(1), erule (3) rest(2))
  qed
qed simp

lemma build_items_ok: "build_items hash s ds = Some items \<Longrightarrow> n \<in> set items \<Longrightarrow> item_ok hash s n"
proof -
  assume "build_items hash s ds = Some items" and n: "n \<in> set items"
  then obtain hosts fm acc secs where
    acc: "collect hash s hosts fm ds \<lparr>acc_fm = None, acc_headings = [], acc_leaves = []\<rparr> = Some acc"
    and secs: "section_nodes hash s (acc_headings acc) = Some secs"
    and items: "items = secs @ acc_leaves acc @ (case acc_fm acc of None \<Rightarrow> [] | Some n \<Rightarrow> [n])"
    by (auto simp: build_items_def Let_def bind_eq_Some_conv)
  have "acc_ok (item_ok hash s) acc"
    by (rule collect_ok [OF acc]) (auto simp: acc_ok_def dest: fm_node_Some leaf_node_ok)
  with n items section_nodes_ok [OF secs] show ?thesis
    by (auto simp: acc_ok_def split: option.splits)
qed

section \<open>The built tree\<close>

definition doc_facts :: "(str \<Rightarrow> str) \<Rightarrow> str \<Rightarrow> facts" where
  "doc_facts hash s =
     (DocumentNode [] (min (length (lines s)) u32_max), Span 0 (length s), rev_of hash s)"

lemma build_Some:
  assumes "build hash s ds = Some doc"
  obtains items where "build_items hash s ds = Some items" and "raw doc = s"
    and "root doc = assign_hpath (Node (DocumentNode [] (min (length (lines s)) u32_max))
           (Span 0 (length s)) (rev_of hash s) None (nest_by_containment items))"
    and "preorder (root doc) = doc_facts hash s # map facts_of (sort_nodes items)"
proof -
  obtain items where items: "build_items hash s ds = Some items"
    using assms by (auto simp: build_def bind_eq_Some_conv)
  define n where "n = Node (DocumentNode [] (min (length (lines s)) u32_max))
      (Span 0 (length s)) (rev_of hash s) None (nest_by_containment items)"
  have leafless: "\<forall>m \<in> set items. children m = []"
    using build_items_ok [OF items] by (simp add: item_ok_def)
  have order: "preorder n = doc_facts hash s # map facts_of (sort_nodes items)"
    by (simp add: n_def doc_facts_def nest_order [OF leafless])
  have "facts_key (doc_facts hash s) \<le> facts_key (facts_of m)" if "m \<in> set items" for m
  proof -
    have "span_in s (span m)"
      using build_items_ok [OF items that] by (simp add: item_ok_def facts_ok_def facts_of_def)
    then have "hi (span m) \<le> length s" by (simp add: span_in_def)
    then show ?thesis
      by (auto simp: facts_key_def doc_facts_def facts_of_def less_eq_prod_def)
  qed
  then have "sorted (map facts_key (preorder n))"
    by (auto simp: order sort_nodes_def comp_def facts_key_of)
  then have "sort_tree n = n" by (rule sort_tree_id)
  with assms items have "raw doc = s" "root doc = assign_hpath n"
    by (auto simp: build_def bind_eq_Some_conv node_rev_at_Some Let_def n_def)
  moreover have "preorder (assign_hpath n) = preorder n"
    by (simp only: assign_hpath_def preorder_fill_hpath)
  ultimately show ?thesis
    using items order that unfolding n_def by metis
qed

lemma build_facts:
  assumes "build hash s ds = Some doc" and "f \<in> set (preorder (root doc))"
  shows "facts_ok hash s f"
  using assms(1)
proof (rule build_Some)
  fix items
  assume items: "build_items hash s ds = Some items"
    and order: "preorder (root doc) = doc_facts hash s # map facts_of (sort_nodes items)"
  have "f = doc_facts hash s \<or> (\<exists>n \<in> set items. f = facts_of n)"
    using assms(2) order by (auto simp: sort_nodes_def)
  moreover have "facts_ok hash s (doc_facts hash s)"
    by (simp add: facts_ok_def doc_facts_def span_in_def)
  ultimately show "facts_ok hash s f"
    using build_items_ok [OF items] by (auto simp: item_ok_def)
qed

lemma nested_facts: "nested n \<Longrightarrow> (k, r, v) \<in> set (preorder n) \<Longrightarrow> covers (span n) r"
proof (induction n)
  case (Node k' r' v' h cs)
  then show ?case by (auto intro: covers_trans)
qed

lemma build_nested:
  assumes "build hash s ds = Some doc"
  shows "nested (root doc)"
  using assms
proof (rule build_Some)
  fix items
  assume items: "build_items hash s ds = Some items"
    and root: "root doc = assign_hpath (Node (DocumentNode [] (min (length (lines s)) u32_max))
           (Span 0 (length s)) (rev_of hash s) None (nest_by_containment items))"
    and order: "preorder (root doc) = doc_facts hash s # map facts_of (sort_nodes items)"
  have leafless: "\<forall>m \<in> set items. children m = []"
    using build_items_ok [OF items] by (simp add: item_ok_def)
  have "covers (Span 0 (length s)) (span c)" if "c \<in> set (nest_by_containment items)" for c
  proof -
    have "facts_of c \<in> set (concat (map preorder (nest_by_containment items)))"
      using that by (auto intro!: bexI [of _ c])
    then obtain m where "m \<in> set items" "facts_of c = facts_of m"
      by (auto simp: nest_order [OF leafless] sort_nodes_def)
    then have "facts_ok hash s (facts_of c)"
      using build_items_ok [OF items] by (simp add: item_ok_def)
    then show ?thesis by (simp add: facts_ok_def facts_of_def span_in_def covers_def)
  qed
  then show "nested (root doc)"
    using nest_nested [OF leafless] by (simp add: root assign_hpath_def nested_fill_hpath)
qed

section \<open>Character boundaries\<close>

lemma byte_terminators [simp]: "byte lf = 10" "byte cr = 13"
  by (simp_all add: lf_def cr_def byte_def)

lemma line_start_boundary:
  assumes "utf8_valid s" and "pos \<le> length s"
  shows "is_char_boundary s (line_start s pos)"
proof (cases "position (\<lambda>c. c = lf) (rev (take pos s))")
  case (Some k)
  then have k: "k < pos" "rev (take pos s) ! k = lf"
    using assms(2) by (auto simp: position_Some)
  then have "s ! (pos - Suc k) = lf"
    using assms(2) by (simp add: rev_nth)
  then have "is_char_boundary s (Suc (pos - Suc k))"
    using assms k by (intro ascii_boundary) simp_all
  with Some k show ?thesis by (simp add: line_start_def Suc_diff_Suc)
qed (simp add: line_start_def)

lemma line_around_good:
  assumes "utf8_valid s" and "pos \<le> length s"
  shows "good_span s (line_around s pos)" and "lo (line_around s pos) \<le> pos"
proof -
  define e where "e = (case position (\<lambda>c. c = lf) (drop pos s) of None \<Rightarrow> length s | Some p \<Rightarrow> pos + p)"
  have e: "pos \<le> e \<and> e \<le> length s \<and> is_char_boundary s e"
  proof (cases "position (\<lambda>c. c = lf) (drop pos s)")
    case (Some p)
    then have "p < length s - pos" "s ! (pos + p) = lf"
      using assms(2) by (auto simp: position_Some)
    then have "is_char_boundary s (pos + p)"
      using assms by (intro ascii_boundary) simp_all
    with Some \<open>p < length s - pos\<close> show ?thesis by (simp add: e_def)
  qed (simp add: e_def assms)
  have st: "line_start s pos \<le> pos" by (rule line_start_le)
  have trimmed: "is_char_boundary s (e - 1)" if "line_start s pos < e" "s ! (e - 1) = cr"
  proof -
    have "e - 1 < length s" using that(1) e by linarith
    then show ?thesis using that(2) assms(1) by (intro ascii_boundary) simp_all
  qed
  show "good_span s (line_around s pos)"
    using st e trimmed line_start_boundary [OF assms]
    unfolding line_around_def Let_def e_def [symmetric]
    by (auto simp: good_span_def span_in_def)
  show "lo (line_around s pos) \<le> pos"
    using st by (simp add: line_around_def Let_def)
qed

lemma prev_line_good:
  "utf8_valid s \<Longrightarrow> good_span s l \<Longrightarrow> prev_line s l = Some p \<Longrightarrow> good_span s p"
  by (auto simp: prev_line_def good_span_def [of s l] span_in_def split: if_splits
      intro!: line_around_good)

lemma next_line_good: "utf8_valid s \<Longrightarrow> next_line s l = Some n \<Longrightarrow> good_span s n"
  by (auto simp: next_line_def Let_def split: if_splits intro!: line_around_good)

lemma run_up_good:
  "utf8_valid s \<Longrightarrow> good_span s l \<Longrightarrow> good_span s (run_up p s l) \<and> lo (run_up p s l) \<le> lo l"
proof (induction p s l rule: run_up.induct)
  case (1 p s l)
  show ?case
  proof (cases "prev_line s l")
    case (Some q)
    have "good_span s q" by (rule prev_line_good [OF "1.prems" Some])
    moreover have "lo q < lo l" using Some by (rule prev_line_earlier)
    ultimately have "p q \<Longrightarrow> good_span s (run_up p s q) \<and> lo (run_up p s q) \<le> lo q"
      using "1.IH" [OF Some] "1.prems" by blast
    with \<open>lo q < lo l\<close> "1.prems" Some show ?thesis
      by (subst (1 2) run_up.simps) auto
  qed (use 1 in \<open>simp add: run_up.simps\<close>)
qed

lemma run_down_good:
  "utf8_valid s \<Longrightarrow> good_span s l \<Longrightarrow> good_span s (run_down p s l) \<and> hi l \<le> hi (run_down p s l)"
proof (induction p s l rule: run_down.induct)
  case (1 p s l)
  show ?case
  proof (cases "next_line s l")
    case (Some q)
    have "good_span s q" by (rule next_line_good [OF "1.prems"(1) Some])
    moreover have "hi l < hi q" using next_line_later [OF Some] by simp
    ultimately have "p q \<Longrightarrow> good_span s (run_down p s q) \<and> hi q \<le> hi (run_down p s q)"
      using "1.IH" [OF Some] "1.prems" by blast
    with \<open>hi l < hi q\<close> "1.prems" Some show ?thesis
      by (subst (1 2) run_down.simps) auto
  qed (use 1 in \<open>simp add: run_down.simps\<close>)
qed

lemma run_span_good:
  assumes "utf8_valid s" and "good_span s a" and "good_span s b" and "lo a \<le> hi b"
  shows "good_span s (Span (lo (run_up p s a)) (hi (run_down p' s b)))"
  using run_up_good [OF assms(1,2), of p] run_down_good [OF assms(1,3), of p'] assms(4)
  by (auto simp: good_span_def span_in_def)

lemma good_lo_hi: "good_span s a \<Longrightarrow> lo a \<le> hi a"
  by (simp add: good_span_def span_in_def)

lemma smallest_host_in: "smallest_host hosts pos = Some h \<Longrightarrow> h \<in> set hosts"
proof -
  have "best_host hs = Some h \<Longrightarrow> h \<in> set hs" for hs
    by (induction hs) (auto split: option.splits if_splits)
  then show "smallest_host hosts pos = Some h \<Longrightarrow> h \<in> set hosts"
    unfolding smallest_host_def by fastforce
qed

lemma own_line_host_good:
  assumes "utf8_valid s" and "\<forall>h \<in> set hosts. good_span s h" and "good_span s line"
  shows "good_span s probe \<Longrightarrow> lo probe \<le> lo line \<Longrightarrow>
    good_span s (own_line_host s hosts fm line gap probe)"
  using assms
proof (induction s hosts fm line gap probe rule: own_line_host.induct)
  case (1 s hosts fm line gap probe)
  show ?case
  proof (cases "prev_line s probe")
    case (Some p)
    then have "good_span s p" using 1 prev_line_good by blast
    moreover have "lo p < lo line" using prev_line_earlier [OF Some] "1.prems" by simp
    ultimately have p: "good_span s p" "lo p < lo line" by simp_all
    have line: "good_span s (Span (lo p) (hi line))" "lo p \<le> hi line"
      using p 1 by (auto simp: good_span_def span_in_def)
    have runs: "good_span s (list_run s p)" "good_span s (paragraph_run s hosts fm p p)"
      "good_span s (paragraph_run s hosts fm p line)"
      unfolding list_run_def paragraph_run_def
      using p 1 line good_lo_hi by (auto intro!: run_span_good)
    have blank: "good_span s (own_line_host s hosts fm line True p)"
      if "\<not> within_fm fm p" "is_blank s p"
      using "1.IH"(1) [OF Some that] p "1.prems" by simp
    have marker: "good_span s (own_line_host s hosts fm line gap p)"
      if "\<not> within_fm fm p" "\<not> is_blank s p" "is_marker_only_line s p"
      using "1.IH"(2) [OF Some that] p "1.prems" by simp
    have host: "good_span s h" if "smallest_host hosts (lo p) = Some h" for h
      using smallest_host_in [OF that] "1.prems" by blast
    show ?thesis
      using blank marker host line runs "1.prems"
      by (subst own_line_host.simps) (simp add: Some split: option.split)
  qed (use 1 in \<open>simp add: own_line_host.simps\<close>)
qed

lemma anchor_host_span_good:
  assumes "utf8_valid s" and "\<forall>h \<in> set hosts. good_span s h"
    and "anchor_host_span s m hosts fm = Some r"
  shows "good_span s r"
proof -
  have m: "lo m \<le> length s" using assms(3) by (auto simp: anchor_host_span_def split: if_splits)
  define line where "line = line_around s (lo m)"
  note line = line_around_good [OF assms(1) m, folded line_def]
  have "good_span s (own_line_host s hosts fm line False line)"
    using assms line by (intro own_line_host_good) auto
  moreover have "good_span s (paragraph_run s hosts fm line line)"
    unfolding paragraph_run_def using assms line good_lo_hi by (intro run_span_good) auto
  moreover have "r = (if within_fm fm line then line
      else if \<forall>c \<in> set (sub s (lo line) (lo m)). ascii_space c
      then own_line_host s hosts fm line False line
      else case smallest_host hosts (lo line) of
        Some h \<Rightarrow> h
      | None \<Rightarrow> if is_list_line s line then line else paragraph_run s hosts fm line line)"
    using assms(3) m unfolding anchor_host_span_def Let_def line_def [symmetric] by simp
  ultimately show ?thesis
    using line assms(2) smallest_host_in [of hosts "lo line"]
    by (simp split: option.split if_split)
qed

lemma extend_terminator_good:
  assumes "utf8_valid s" and "good_span s r"
  shows "good_span s (Span (lo r) (extend_terminator s (hi r)))"
proof -
  define e where "e = (if hi r < length s \<and> s ! hi r = cr then Suc (hi r) else hi r)"
  have e: "is_char_boundary s e \<and> hi r \<le> e \<and> e \<le> length s"
    using assms ascii_boundary(2) [of s "hi r"] by (auto simp: e_def good_span_def span_in_def)
  then have "is_char_boundary s (if e < length s \<and> s ! e = lf then Suc e else e)"
    using assms(1) ascii_boundary(2) [of s e] by auto
  with e assms(2) show ?thesis
    by (auto simp: extend_terminator_def Let_def e_def [symmetric] good_span_def span_in_def)
qed

section \<open>Spans of the built tree\<close>

definition dialect_ok :: "str \<Rightarrow> dialect_node list \<Rightarrow> bool" where
  "dialect_ok s ds \<longleftrightarrow> (\<forall>d \<in> set ds. good_span s (dspan d))"

lemma leaf_span_good:
  assumes "utf8_valid s" and "\<forall>h \<in> set hosts. good_span s h" and "good_span s r"
    and "leaf_span s hosts fm k r = Some r'"
  shows "good_span s r'"
  using assms anchor_host_span_good by (auto simp: leaf_span_def split: node_kind.splits)

lemma collect_headings:
  "collect hash s hosts fm ds acc = Some acc' \<Longrightarrow>
   set (acc_headings acc') \<subseteq> set (acc_headings acc) \<union>
     {(lo (dspan d), lv, t) | d lv t. d \<in> set ds}"
proof (induction ds arbitrary: acc)
  case (Cons d ds)
  obtain k r where d: "d = Dialect k r" by (cases d)
  show ?case
  proof (cases "leaf_kind k")
    case None
    then consider (fm) ks where "k = DFrontmatter ks" | (heading) lv t where "k = DHeading lv t"
      by (cases k) auto
    then show ?thesis
    proof cases
      case fm
      with Cons.prems d obtain n where
        "collect hash s hosts fm ds (acc\<lparr>acc_fm := Some n\<rparr>) = Some acc'"
        by (auto simp: bind_eq_Some_conv)
      from Cons.IH [OF this] show ?thesis by (rule order_trans) auto
    next
      case heading
      with Cons.prems d have
        "collect hash s hosts fm ds (acc\<lparr>acc_headings := acc_headings acc @ [(lo r, lv, t)]\<rparr>) = Some acc'"
        by simp
      from Cons.IH [OF this] show ?thesis
        unfolding d by (fastforce intro: exI [of _ "Dialect k r"])
    qed
  next
    case (Some nk)
    then obtain n where
      "collect hash s hosts fm ds (acc\<lparr>acc_leaves := acc_leaves acc @ [n]\<rparr>) = Some acc'"
      using Cons.prems unfolding d collect_leaf [OF Some] by (auto simp: bind_eq_Some_conv)
    from Cons.IH [OF this] show ?thesis by (rule order_trans) auto
  qed
qed simp

lemma section_nodes_good:
  "section_nodes hash s hs = Some ns \<Longrightarrow> \<forall>(st, l, t) \<in> set hs. is_char_boundary s st \<Longrightarrow>
   n \<in> set ns \<Longrightarrow> good_span s (span n)"
proof (induction hs arbitrary: ns)
  case (Cons h hs)
  obtain st l t where h: "h = (st, l, t)" by (cases h)
  have "is_char_boundary s (section_end (length s) lv hs)" for lv
    using Cons.prems(2) by (induction hs) (auto split: if_splits)
  with Cons.prems Cons.IH show ?case
    by (auto simp: h bind_eq_Some_conv leaf_node_Some good_span_def)
qed simp

lemma build_items_good:
  assumes "utf8_valid s" and "dialect_ok s ds"
    and "build_items hash s ds = Some items" and n: "n \<in> set items"
  shows "good_span s (span n)"
proof -
  define hosts where "hosts = map dspan (filter (\<lambda>d. is_host (dkind d)) ds)"
  obtain fm acc secs where
    acc: "collect hash s hosts fm ds \<lparr>acc_fm = None, acc_headings = [], acc_leaves = []\<rparr> = Some acc"
    and secs: "section_nodes hash s (acc_headings acc) = Some secs"
    and items: "items = secs @ acc_leaves acc @ (case acc_fm acc of None \<Rightarrow> [] | Some n \<Rightarrow> [n])"
    using assms(3) by (auto simp: build_items_def Let_def bind_eq_Some_conv hosts_def)
  have hosts: "\<forall>h \<in> set hosts. good_span s h"
    using assms(2) by (auto simp: hosts_def dialect_ok_def)
  have ds: "good_span s r" if "Dialect k r \<in> set ds" for k r
    using that assms(2) by (auto simp: dialect_ok_def)
  have "acc_ok (\<lambda>n. good_span s (span n)) acc"
  proof (rule collect_ok [OF acc])
    fix r n assume "\<exists>k. Dialect (DFrontmatter k) r \<in> set ds" "fm_node hash s r = Some n"
    then show "good_span s (span n)"
      using ds extend_terminator_good [OF assms(1)] by (auto dest!: fm_node_Some)
  next
    fix k nk r r' n
    assume "Dialect k r \<in> set ds" "leaf_span s hosts fm nk r = Some r'" "leaf_node hash s nk r' = Some n"
    then show "good_span s (span n)"
      using leaf_span_good [OF assms(1) hosts, of r] ds leaf_node_ok by blast
  qed (simp add: acc_ok_def)
  moreover have "\<forall>(st, l, t) \<in> set (acc_headings acc). is_char_boundary s st"
    using collect_headings [OF acc] assms(2) by (fastforce simp: dialect_ok_def good_span_def)
  ultimately show ?thesis
    using n items section_nodes_good [OF secs] by (auto simp: acc_ok_def split: option.splits)
qed

lemma build_good:
  assumes "utf8_valid s" and "dialect_ok s ds"
    and "build hash s ds = Some doc" and f: "(k, r, v) \<in> set (preorder (root doc))"
  shows "good_span s r"
  using assms(3)
proof (rule build_Some)
  fix items
  assume items: "build_items hash s ds = Some items"
    and order: "preorder (root doc) = doc_facts hash s # map facts_of (sort_nodes items)"
  have "(k, r, v) = doc_facts hash s \<or> (\<exists>n \<in> set items. (k, r, v) = facts_of n)"
    using f order by (auto simp: sort_nodes_def)
  moreover have "good_span s (Span 0 (length s))" by (simp add: good_span_def span_in_def)
  ultimately show "good_span s r"
    using build_items_good [OF assms(1,2) items] by (auto simp: doc_facts_def facts_of_def)
qed

end
