(* ===== verification/Resolve_Laws.thy ===== *)
theory Resolve_Laws
  imports Resolve Build_Laws
begin

text \<open>
  Laws of the frontmatter plane and of the mint-plane lookup on a well-formed document: no slice
  panics, every resolved range cuts at character boundaries, and every revision is the one of
  the bytes it stands for. A heading path resolves to the one chain of sections that spells it.
\<close>

section \<open>Well-formed documents\<close>

definition doc_ok :: "(str \<Rightarrow> str) \<Rightarrow> document \<Rightarrow> bool" where
  "doc_ok hash doc \<longleftrightarrow>
     utf8_valid (raw doc) \<and> nested (root doc) \<and>
     (\<forall>f \<in> set (preorder (root doc)). facts_ok hash (raw doc) f \<and> good_span (raw doc) (fst (snd f)))"

lemma build_doc_ok:
  assumes "utf8_valid s" and "dialect_ok s ds" and "build hash s ds = Some doc"
  shows "doc_ok hash doc" and "raw doc = s"
proof -
  show raw: "raw doc = s" using assms(3) by (rule build_Some)
  show "doc_ok hash doc"
    using assms build_facts [OF assms(3)] build_nested [OF assms(3)] build_good [OF assms]
    by (auto simp: doc_ok_def raw)
qed

lemma doc_ok_node:
  assumes "doc_ok hash doc" and "facts_of n \<in> set (preorder (root doc))"
  shows "good_span (raw doc) (span n)"
    and "node_rev n = rev_of hash (sub (raw doc) (lo (span n)) (hi (span n)))"
  using assms by (auto simp: doc_ok_def facts_of_def facts_ok_def)

section \<open>The line loop of the frontmatter block\<close>

lemma fm_line_end_total:
  assumes "st \<le> be" and "be \<le> length s"
  shows "\<exists>e. fm_line_end s st be = Some e \<and> st \<le> e \<and> e \<le> be \<and> (st < be \<longrightarrow> st < e)"
proof -
  obtain e where "fm_line_end s st be = Some e"
    using assms by (auto simp: fm_line_end_def byte_slice_def span_in_def)
  with fm_line_end_bounds [OF this] show ?thesis by blast
qed

lemma fm_line_end_boundary:
  assumes "utf8_valid s" and "is_char_boundary s be" and "fm_line_end s st be = Some e"
  shows "is_char_boundary s e"
proof -
  have in_s: "be \<le> length s" "st \<le> be"
    using assms(3) by (auto simp: fm_line_end_def bind_eq_Some_conv byte_slice_Some span_in_def)
  show ?thesis
  proof (cases "position (\<lambda>c. c = lf) (sub s st be)")
    case None
    with assms show ?thesis
      by (auto simp: fm_line_end_def bind_eq_Some_conv byte_slice_Some)
  next
    case (Some p)
    then have "p < be - st" and "s ! (st + p) = lf"
      using in_s by (auto simp: position_Some length_sub nth_sub)
    then have "is_char_boundary s (Suc (st + p))"
      using assms(1) in_s by (intro ascii_boundary) simp_all
    with Some assms(3) show ?thesis
      by (auto simp: fm_line_end_def bind_eq_Some_conv byte_slice_Some)
  qed
qed

lemma trim_terminator_bounds:
  "st \<le> e \<Longrightarrow> st \<le> trim_terminator s st e \<and> trim_terminator s st e \<le> e"
  by (auto simp: trim_terminator_def Let_def)

lemma trim_terminator_boundary:
  assumes "utf8_valid s" and "is_char_boundary s e"
  shows "is_char_boundary s (trim_terminator s st e)"
proof -
  have e: "e \<le> length s" using assms(2) by (rule char_boundary_le)
  have one: "is_char_boundary s (e - 1)" if "st < e" "s ! (e - 1) = lf"
  proof -
    have "e - 1 < length s" using that(1) e by linarith
    then show ?thesis using that(2) assms(1) by (intro ascii_boundary) simp_all
  qed
  have two: "is_char_boundary s (e - 1 - 1)" if "st < e - 1" "s ! (e - 1 - 1) = cr"
  proof -
    have "e - 1 - 1 < length s" using that(1) e by linarith
    then show ?thesis using that(2) assms(1) by (intro ascii_boundary) simp_all
  qed
  show ?thesis using assms(2) one two by (auto simp: trim_terminator_def Let_def)
qed

lemma grain_scan_total:
  "be \<le> length s \<Longrightarrow> cursor \<le> be \<Longrightarrow> g \<le> cursor \<Longrightarrow>
   \<exists>g'. grain_scan s be cursor g = Some g' \<and> g \<le> g' \<and> g' \<le> be"
proof (induction s be cursor g rule: grain_scan.induct)
  case (1 s be cursor g)
  show ?case
  proof (cases "cursor < be")
    case True
    obtain e where e: "fm_line_end s cursor be = Some e" "cursor < e" "e \<le> be"
      using fm_line_end_total [of cursor be s] "1.prems" True by auto
    have t: "trim_terminator s cursor e \<le> e" "cursor \<le> trim_terminator s cursor e"
      using trim_terminator_bounds [of cursor e s] e by simp_all
    have blank: "\<exists>g'. grain_scan s be e g = Some g' \<and> g \<le> g' \<and> g' \<le> be"
      if "fm_line_is_blank s cursor e"
      using "1.IH"(1) [OF True e(1) that] "1.prems" e by simp
    have cont: "\<exists>g'. grain_scan s be e (trim_terminator s cursor e) = Some g' \<and>
        trim_terminator s cursor e \<le> g' \<and> g' \<le> be"
      if "\<not> fm_line_is_blank s cursor e" "fm_line_continues s cursor e"
      using "1.IH"(2) [OF True e(1) that] "1.prems" e t by simp
    show ?thesis
      using True e blank cont "1.prems" t by (subst grain_scan.simps) (auto intro: le_trans)
  next
    case False
    with "1.prems" show ?thesis by (subst grain_scan.simps) simp
  qed
qed

lemma grain_scan_boundary:
  "grain_scan s be cursor g = Some g' \<Longrightarrow> utf8_valid s \<Longrightarrow> is_char_boundary s be \<Longrightarrow>
   is_char_boundary s g \<Longrightarrow> is_char_boundary s g'"
proof (induction s be cursor g rule: grain_scan.induct)
  case (1 s be cursor g)
  show ?case
  proof (cases "cursor < be")
    case True
    with "1.prems"(1) obtain e where e: "fm_line_end s cursor be = Some e"
      by (subst (asm) grain_scan.simps) (auto simp: bind_eq_Some_conv)
    have "is_char_boundary s (trim_terminator s cursor e)"
      by (rule trim_terminator_boundary [OF "1.prems"(2)
            fm_line_end_boundary [OF "1.prems"(2,3) e]])
    with "1.IH" [OF True e] "1.prems" show ?thesis
      using True e by (subst (asm) (2) grain_scan.simps) (auto split: if_splits)
  next
    case False
    with "1.prems" show ?thesis by (subst (asm) grain_scan.simps) simp
  qed
qed

lemma fm_key_grain_total:
  assumes "st \<le> be" and "be \<le> length s"
  obtains g where "fm_key_grain_span s st be = Some (Span st g)" and "st \<le> g" and "g \<le> be"
proof -
  obtain e where e: "fm_line_end s st be = Some e" "st \<le> e" "e \<le> be"
    using fm_line_end_total [OF assms] by blast
  have t: "st \<le> trim_terminator s st e" "trim_terminator s st e \<le> e"
    using trim_terminator_bounds [OF e(2)] by simp_all
  obtain g where "grain_scan s be e (trim_terminator s st e) = Some g"
    "trim_terminator s st e \<le> g" "g \<le> be"
    using grain_scan_total [OF assms(2) e(3) t(2)] by blast
  with e t that show ?thesis by (simp add: fm_key_grain_span_def)
qed

lemma fm_key_grain_boundary:
  assumes "utf8_valid s" and "is_char_boundary s be" and "fm_key_grain_span s st be = Some r"
  shows "is_char_boundary s (hi r)"
proof -
  obtain e g where e: "fm_line_end s st be = Some e"
    and g: "grain_scan s be e (trim_terminator s st e) = Some g" and r: "r = Span st g"
    using assms(3) by (auto simp: fm_key_grain_span_def bind_eq_Some_conv)
  have "is_char_boundary s (trim_terminator s st e)"
    by (intro trim_terminator_boundary fm_line_end_boundary [OF assms(1,2) e] assms(1))
  with grain_scan_boundary [OF g assms(1,2)] r show ?thesis by simp
qed

lemma key_line_start_total:
  "utf8_valid s \<Longrightarrow> is_char_boundary s be \<Longrightarrow> is_char_boundary s st \<Longrightarrow>
   \<exists>r. key_line_start s key be st = Some r \<and>
     (\<forall>p. r = Some p \<longrightarrow> st \<le> p \<and> p < be \<and> is_char_boundary s p)"
proof (induction s key be st rule: key_line_start.induct)
  case (1 s key be st)
  show ?case
  proof (cases "st < be")
    case True
    have be: "be \<le> length s" using "1.prems"(2) by (rule char_boundary_le)
    obtain e where e: "fm_line_end s st be = Some e" "st < e" "e \<le> be"
      using fm_line_end_total [of st be s] be True by auto
    have b: "is_char_boundary s e" by (rule fm_line_end_boundary [OF "1.prems"(1,2) e(1)])
    then obtain l where l: "str_slice s (Span st e) = Some l"
      using "1.prems" e be by (simp add: str_slice_def span_in_def)
    show ?thesis
    proof (cases "line_has_key l key")
      case True
      with \<open>st < be\<close> e l "1.prems" show ?thesis by (subst key_line_start.simps) simp
    next
      case False
      with "1.IH" [OF \<open>st < be\<close> e(1) l] "1.prems" b obtain r where
        "key_line_start s key be e = Some r"
        "\<forall>p. r = Some p \<longrightarrow> e \<le> p \<and> p < be \<and> is_char_boundary s p"
        by blast
      with False \<open>st < be\<close> e l show ?thesis
        by (subst key_line_start.simps) fastforce
    qed
  qed (subst key_line_start.simps, simp)
qed

lemma find_frontmatter_in_tree:
  "find_frontmatter n = Some fm \<Longrightarrow> facts_of fm \<in> set (preorder n) \<and> is_frontmatter (kind fm)"
  "find_frontmatter_in ns = Some fm \<Longrightarrow>
     facts_of fm \<in> set (concat (map preorder ns)) \<and> is_frontmatter (kind fm)"
  by (induction n and ns rule: find_frontmatter_find_frontmatter_in.induct)
    (auto simp: facts_of_def split: if_splits option.splits)

section \<open>Lookups on a well-formed document\<close>

definition resolved_ok :: "(str \<Rightarrow> str) \<Rightarrow> document \<Rightarrow> resolved \<Rightarrow> bool" where
  "resolved_ok hash doc r \<longleftrightarrow>
     good_span (raw doc) (res_span r) \<and> good_span (raw doc) (res_content r) \<and>
     covers (res_span r) (res_content r) \<and>
     res_rev r = rev_of hash (sub (raw doc) (lo (res_span r)) (hi (res_span r)))"

lemma resolve_fm_key_total:
  assumes "doc_ok hash doc"
  shows "\<exists>r. resolve_fm_key hash doc key = Some r \<and>
    (\<forall>x. r = Some x \<longrightarrow> resolved_ok hash doc x \<and>
       (\<exists>fm. find_frontmatter (root doc) = Some fm \<and> hi (res_span x) \<le> hi (span fm)))"
proof (cases "find_frontmatter (root doc)")
  case (Some fm)
  have fm: "good_span (raw doc) (span fm)"
    using doc_ok_node(1) [OF assms] find_frontmatter_in_tree(1) [OF Some] by blast
  have u: "utf8_valid (raw doc)" using assms by (simp add: doc_ok_def)
  obtain hit where hit: "key_line_start (raw doc) key (hi (span fm)) (lo (span fm)) = Some hit"
    "\<And>p. hit = Some p \<Longrightarrow> lo (span fm) \<le> p \<and> p < hi (span fm) \<and> is_char_boundary (raw doc) p"
    using key_line_start_total [OF u] fm by (metis good_span_def)
  show ?thesis
  proof (cases hit)
    case (Some p)
    note p = hit(2) [OF Some]
    obtain g where g: "fm_key_grain_span (raw doc) p (hi (span fm)) = Some (Span p g)"
      "p \<le> g" "g \<le> hi (span fm)"
      using fm_key_grain_total [of p "hi (span fm)" "raw doc"] p fm
      by (auto simp: good_span_def span_in_def)
    have "is_char_boundary (raw doc) g"
      using fm_key_grain_boundary [OF u _ g(1)] fm by (simp add: good_span_def)
    then have "good_span (raw doc) (Span p g)"
      using p g fm by (simp add: good_span_def span_in_def)
    with g Some hit \<open>find_frontmatter (root doc) = Some fm\<close> show ?thesis
      by (simp add: resolve_fm_key_def node_rev_at_def byte_slice_def good_span_def
          resolved_ok_def)
  qed (use hit \<open>find_frontmatter (root doc) = Some fm\<close> in \<open>simp add: resolve_fm_key_def\<close>)
qed (simp add: resolve_fm_key_def)

lemma content_span_total:
  assumes "utf8_valid s" and "good_span s (span n)"
  shows "\<exists>c. content_span n s = Some c \<and> good_span s c \<and> covers (span n) c"
proof (cases "is_section (kind n)")
  case True
  note n = assms(2) [unfolded good_span_def span_in_def]
  define t where "t = sub s (lo (span n)) (hi (span n))"
  have t: "byte_slice s (span n) = Some t"
    using assms(2) by (simp add: byte_slice_def good_span_def t_def)
  show ?thesis
  proof (cases "position (\<lambda>c. c = lf) t")
    case None
    with True t n show ?thesis
      by (simp add: content_span_def good_span_def span_in_def covers_def)
  next
    case (Some p)
    then have p: "p < hi (span n) - lo (span n)" "s ! (lo (span n) + p) = lf"
      using n by (auto simp: position_Some t_def length_sub nth_sub)
    moreover have "lo (span n) + p < length s" using p n by linarith
    ultimately have "is_char_boundary s (Suc (lo (span n) + p))"
      using assms(1) by (intro ascii_boundary(2)) simp_all
    with Some True t n p show ?thesis
      by (simp add: content_span_def good_span_def span_in_def covers_def)
  qed
qed (use assms in \<open>simp add: content_span_def\<close>)

lemma resolved_of_ok:
  assumes "doc_ok hash doc" and "facts_of n \<in> set (preorder (root doc))"
  shows "\<exists>r. resolved_of n (raw doc) = Some r \<and> resolved_ok hash doc r \<and>
    res_span r = span n \<and> res_rev r = node_rev n"
  using content_span_total [of "raw doc" n] doc_ok_node [OF assms] assms(1)
  by (auto simp: resolved_of_def resolved_ok_def doc_ok_def)

lemma pick_match_in: "pick_match ms i = Inr n \<Longrightarrow> n \<in> set ms"
  by (auto simp: pick_match_def split: if_splits option.splits list.splits)

lemma preorder_child: "c \<in> set (children n) \<Longrightarrow> set (preorder c) \<subseteq> set (preorder n)"
  by (cases n) auto

lemma resolve_hpath_in_tree:
  "resolve_hpath_node n segs = Inr m \<Longrightarrow> facts_of m \<in> set (preorder n)"
proof (induction n segs rule: resolve_hpath_node.induct)
  case (2 n seg segs)
  then obtain c where c: "c \<in> set (children n)" "resolve_hpath_node c segs = Inr m"
    "pick_match (filter (\<lambda>c. section_named (seg_h seg) (kind c)) (children n)) (seg_n seg) = Inr c"
    by (fastforce simp: and_then_Inr dest: pick_match_in)
  with "2.IH" [OF c(3,2)] show ?case using preorder_child by blast
qed simp

lemma collect_anchors_in_tree: "m \<in> set (collect_anchors i n) \<Longrightarrow> facts_of m \<in> set (preorder n)"
  by (induction n) (auto simp: facts_of_def split: if_splits)

lemma resolve_anchor_in_tree:
  assumes "resolve_anchor_node doc i = Inr m"
  shows "facts_of m \<in> set (preorder (root doc))"
proof -
  have "m \<in> set (sort_key (\<lambda>n. lo (span n)) (collect_anchors i (root doc)))"
    using assms by (auto simp: resolve_anchor_node_def simp del: set_sort split: list.splits)
  then show ?thesis by (auto dest: collect_anchors_in_tree)
qed

lemma lift_resolved_total:
  assumes "doc_ok hash doc" and "\<And>m. r = Inr m \<Longrightarrow> facts_of m \<in> set (preorder (root doc))"
  shows "\<exists>x. lift_resolved r (raw doc) = Some x \<and> (\<forall>y. x = Inr y \<longrightarrow> resolved_ok hash doc y)"
  using assms(2) resolved_of_ok [OF assms(1)] by (cases r) (fastforce simp: lift_resolved_def)+

lemma resolve_full_total:
  assumes "doc_ok hash doc"
  shows "\<exists>x. resolve_full hash doc r = Some x \<and> (\<forall>y. x = Inr y \<longrightarrow> resolved_ok hash doc y)"
proof (cases r)
  case (Hpath segs)
  then show ?thesis using lift_resolved_total [OF assms] resolve_hpath_in_tree by simp
next
  case (AnchorRef i)
  then show ?thesis using lift_resolved_total [OF assms] resolve_anchor_in_tree by simp
next
  case (FmKey key)
  then show ?thesis
    using resolve_fm_key_total [OF assms, of key] by (fastforce split: option.split)
qed

end
