(* ===== verification/Splice_Laws.thy ===== *)
theory Splice_Laws
  imports Splice Resolve_Laws "HOL-Library.Multiset"
begin

text \<open>
  Laws of the splice: what a planned batch holds of each edit, the region discipline, and the
  three ways of applying the sealed edits.
\<close>

section \<open>Stable sorting through a projection\<close>

lemma insort_key_map: "insort_key f (g x) (map g xs) = map g (insort_key (\<lambda>y. f (g y)) x xs)"
  by (induction xs) auto

lemma sort_key_map: "sort_key f (map g xs) = map g (sort_key (\<lambda>y. f (g y)) xs)"
  by (induction xs) (simp_all add: insort_key_map)

lemma sort_key_nth: "map ((!) ps) (sort_key (\<lambda>i. f (ps ! i)) [0..<length ps]) = sort_key f ps"
  using sort_key_map [of f "(!) ps" "[0..<length ps]"] by (simp add: map_nth)

section \<open>The region discipline\<close>

definition follows :: "planned_edit \<Rightarrow> planned_edit \<Rightarrow> bool" where
  "follows a b \<longleftrightarrow> hi (region a) \<le> lo (region b)"

lemma overlap_scan_None:
  "overlap_scan ps idx = None \<longleftrightarrow> successively follows (map ((!) ps) idx)"
  by (induction ps idx rule: overlap_scan.induct) (auto simp: follows_def)

lemma first_overlap_None:
  "first_overlap ps = None \<longleftrightarrow> successively follows (sort_key region_key ps)"
  by (simp add: first_overlap_def overlap_scan_None sort_key_nth)

definition well_ranged :: "planned_edit \<Rightarrow> bool" where
  "well_ranged p \<longleftrightarrow> lo (region p) \<le> hi (region p)"

lemma follows_trans: "well_ranged b \<Longrightarrow> follows a b \<Longrightarrow> follows b c \<Longrightarrow> follows a c"
  by (simp add: follows_def well_ranged_def)

lemma successively_follows:
  "\<forall>p \<in> set qs. well_ranged p \<Longrightarrow> successively follows qs \<longleftrightarrow> sorted_wrt follows qs"
proof (induction qs)
  case (Cons a qs)
  show ?case
  proof (cases qs)
    case (Cons b qs')
    with Cons.IH Cons.prems show ?thesis
      by (auto intro: follows_trans [of b])
  qed simp
qed simp

lemma follows_iff_disjoint:
  assumes "well_ranged a" and "well_ranged b" and "region_key a \<le> region_key b"
  shows "follows a b \<longleftrightarrow> region_disjoint (region a) (region b)"
  using assms by (auto simp: follows_def region_disjoint_def well_ranged_def region_key_def less_eq_prod_def)

lemma sorted_wrt_mono_key:
  "sorted (map f qs) \<Longrightarrow> (\<And>a b. a \<in> set qs \<Longrightarrow> b \<in> set qs \<Longrightarrow> f a \<le> f b \<Longrightarrow> P a b \<longleftrightarrow> Q a b) \<Longrightarrow>
   sorted_wrt P qs \<longleftrightarrow> sorted_wrt Q qs"
  by (induction qs) auto

lemma region_disjoint_sym: "region_disjoint a b \<longleftrightarrow> region_disjoint b a"
  by (auto simp: region_disjoint_def)

lemma sorted_wrt_perm:
  assumes "\<And>a b. P a b \<longleftrightarrow> P b a"
  shows "mset xs = mset ys \<Longrightarrow> sorted_wrt P xs \<longleftrightarrow> sorted_wrt P ys"
proof (induction xs arbitrary: ys)
  case (Cons x xs)
  then have "x \<in> set ys" by (metis list.set_intros(1) mset_eq_setD)
  then obtain us vs where ys: "ys = us @ x # vs" by (meson split_list)
  with Cons.prems have m: "mset xs = mset (us @ vs)" by simp
  have "sorted_wrt P ys \<longleftrightarrow> sorted_wrt P (us @ vs) \<and> (\<forall>y \<in> set us \<union> set vs. P x y)"
    using assms by (auto simp: ys sorted_wrt_append)
  with Cons.IH [OF m] mset_eq_setD [OF m] show ?case by auto
qed simp

definition pairwise_disjoint :: "planned_edit list \<Rightarrow> bool" where
  "pairwise_disjoint ps \<longleftrightarrow> sorted_wrt (\<lambda>a b. region_disjoint (region a) (region b)) ps"

lemma first_overlap_pairwise:
  assumes "\<forall>p \<in> set ps. well_ranged p"
  shows "first_overlap ps = None \<longleftrightarrow> pairwise_disjoint ps"
proof -
  let ?qs = "sort_key region_key ps"
  have "first_overlap ps = None \<longleftrightarrow> sorted_wrt follows ?qs"
    using assms by (simp add: first_overlap_None successively_follows)
  also have "\<dots> \<longleftrightarrow> sorted_wrt (\<lambda>a b. region_disjoint (region a) (region b)) ?qs"
    using assms by (intro sorted_wrt_mono_key [where f = region_key] follows_iff_disjoint) auto
  also have "\<dots> \<longleftrightarrow> pairwise_disjoint ps"
    unfolding pairwise_disjoint_def
    by (intro sorted_wrt_perm) (simp_all add: region_disjoint_sym)
  finally show ?thesis .
qed

section \<open>Applying\<close>

fun spliced :: "str \<Rightarrow> nat \<Rightarrow> (span \<times> str) list \<Rightarrow> str" where
  "spliced s c [] = drop c s"
| "spliced s c ((r, t) # es) = sub s c (lo r) @ t @ spliced s (hi r) es"

fun chain_from :: "nat \<Rightarrow> (span \<times> str) list \<Rightarrow> bool" where
  "chain_from c [] = True"
| "chain_from c ((r, t) # es) = (c \<le> lo r \<and> chain_from (hi r) es)"

definition region_pair :: "planned_edit \<Rightarrow> span \<times> str" where
  "region_pair p = (region p, new_text p)"

lemma chain_from_pairs:
  "successively follows qs \<Longrightarrow> (qs \<noteq> [] \<Longrightarrow> c \<le> lo (region (hd qs))) \<Longrightarrow>
   chain_from c (map region_pair qs)"
proof (induction qs arbitrary: c)
  case (Cons q qs)
  then show ?case by (cases qs) (auto simp: region_pair_def follows_def)
qed simp

definition good_pairs :: "str \<Rightarrow> (span \<times> str) list \<Rightarrow> bool" where
  "good_pairs s es \<longleftrightarrow> (\<forall>e \<in> set es. good_span s (fst e))"

lemma apply_from_str:
  "good_pairs s es \<Longrightarrow> chain_from c es \<Longrightarrow> is_char_boundary s c \<Longrightarrow>
   apply_from str_slice s c es = Some (spliced s c es)"
proof (induction es arbitrary: c)
  case Nil
  then show ?case
    by (simp add: str_slice_def span_in_def char_boundary_le sub_to_end)
next
  case (Cons e es)
  obtain r t where e: "e = (r, t)" by (cases e)
  from Cons.prems have "good_span s (Span c (lo r))" and "is_char_boundary s (hi r)"
    by (auto simp: e good_pairs_def good_span_def span_in_def)
  with Cons show ?case by (simp add: e str_slice_good good_pairs_def)
qed

lemma apply_from_bytes:
  "good_pairs s es \<Longrightarrow> chain_from c es \<Longrightarrow> c \<le> length s \<Longrightarrow>
   apply_from byte_slice s c es = Some (spliced s c es)"
proof (induction es arbitrary: c)
  case Nil
  then show ?case by (simp add: byte_slice_def span_in_def sub_to_end)
next
  case (Cons e es)
  obtain r t where e: "e = (r, t)" by (cases e)
  from Cons.prems have "span_in s (Span c (lo r))" and "hi r \<le> length s"
    by (auto simp: e good_pairs_def good_span_def span_in_def)
  with Cons show ?case by (simp add: e byte_slice_in good_pairs_def)
qed

text \<open>The tail of a splice starts a character, so the back-to-front splice never cuts one.\<close>

lemma spliced_hd:
  "utf8_valid s \<Longrightarrow> good_pairs s es \<Longrightarrow> chain_from c es \<Longrightarrow> is_char_boundary s c \<Longrightarrow>
   \<forall>e \<in> set es. utf8_valid (snd e) \<Longrightarrow> utf8_valid (spliced s c es)"
proof (induction es arbitrary: c)
  case Nil
  then show ?case using utf8_split by simp
next
  case (Cons e es)
  obtain r t where e: "e = (r, t)" by (cases e)
  from Cons.prems have r: "is_char_boundary s (lo r)" "is_char_boundary s (hi r)" "c \<le> lo r"
    by (auto simp: e good_pairs_def good_span_def)
  have "utf8_valid (sub s c (lo r))"
    using Cons.prems r by (intro utf8_sub)
  moreover have "utf8_valid (spliced s (hi r) es)"
    using Cons r by (simp add: e good_pairs_def)
  ultimately show ?case using Cons.prems by (simp add: e utf8_append)
qed

lemma boundary_of_prefix:
  assumes "is_char_boundary s i" and "i \<le> c" and "c \<le> length s" and "utf8_valid y"
  shows "is_char_boundary (take c s @ y) i"
proof -
  consider "i < c" | "i = c" using assms(2) by linarith
  then show ?thesis
  proof cases
    case 1
    with assms show ?thesis by (auto simp: is_char_boundary_def nth_append)
  next
    case 2
    with assms utf8_hd [OF assms(4)] show ?thesis
      by (cases y) (auto simp: is_char_boundary_def nth_append)
  qed
qed

fun replace_pairs :: "str \<Rightarrow> (span \<times> str) list \<Rightarrow> str option" where
  "replace_pairs s [] = Some s"
| "replace_pairs s ((r, t) # es) = do { s' \<leftarrow> replace_range s r t; replace_pairs s' es }"

lemma replace_pairs_append:
  "replace_pairs s (es @ fs) = do { s' \<leftarrow> replace_pairs s es; replace_pairs s' fs }"
proof (induction es arbitrary: s)
  case (Cons e es)
  show ?case by (cases e; cases "replace_range s (fst e) (snd e)") (simp_all add: Cons.IH)
qed simp

lemma replace_pairs_back:
  assumes "utf8_valid s"
  shows "good_pairs s es \<Longrightarrow> chain_from c es \<Longrightarrow> is_char_boundary s c \<Longrightarrow>
    \<forall>e \<in> set es. utf8_valid (snd e) \<Longrightarrow>
    replace_pairs s (rev es) = Some (take c s @ spliced s c es)"
proof (induction es arbitrary: c)
  case (Cons e es)
  obtain r t where e: "e = (r, t)" by (cases e)
  from Cons.prems have r: "good_span s r" "c \<le> lo r" "is_char_boundary s (hi r)"
    "is_char_boundary s (lo r)" "good_pairs s es" "chain_from (hi r) es"
    "\<forall>e \<in> set es. utf8_valid (snd e)" "lo r \<le> hi r" "hi r \<le> length s"
    by (auto simp: e good_pairs_def good_span_def span_in_def)
  define y where "y = spliced s (hi r) es"
  have y: "utf8_valid y"
    unfolding y_def using spliced_hd [OF assms r(5,6,3,7)] .
  have IH: "replace_pairs s (rev es) = Some (take (hi r) s @ y)"
    unfolding y_def by (rule Cons.IH [OF r(5,6,3,7)])
  have "replace_range (take (hi r) s @ y) r t = Some (take (lo r) s @ t @ y)"
    using r y boundary_of_prefix [of s "lo r" "hi r" y] boundary_of_prefix [of s "hi r" "hi r" y]
    by (simp add: replace_range_def span_in_def min_def)
  moreover have "take c s @ sub s c (lo r) = take (lo r) s"
    using sub_append [of 0 c "lo r" s] r by (simp add: sub_from_start)
  ultimately show ?case
    by (simp add: e replace_pairs_append IH y_def [symmetric])
qed simp

section \<open>The sealed batch\<close>

definition ve_pair :: "validated_edit \<Rightarrow> span \<times> str" where
  "ve_pair e = (ve_span e, ve_text e)"

lemma replace_all_pairs: "replace_all s es = replace_pairs s (map ve_pair es)"
  by (induction es arbitrary: s) (simp_all add: ve_pair_def)

lemma stamp_index_pairs: "map ve_pair (stamp_index i ps) = map region_pair ps"
  by (induction ps arbitrary: i) (simp_all add: ve_pair_def region_pair_def)

definition pair_key :: "span \<times> str \<Rightarrow> nat \<times> nat" where
  "pair_key e = (lo (fst e), hi (fst e))"

lemma seal_pairs: "map ve_pair (vb_edits (seal ps rc)) = map region_pair (sort_key region_key ps)"
proof -
  have "ve_key = (\<lambda>e. pair_key (ve_pair e))" "region_key = (\<lambda>p. pair_key (region_pair p))"
    by (auto simp: ve_key_def ve_pair_def region_key_def region_pair_def pair_key_def)
  then show ?thesis
    using sort_key_map [of pair_key ve_pair "stamp_index 0 ps"]
      sort_key_map [of pair_key region_pair ps]
    by (simp add: seal_def stamp_index_pairs)
qed

lemma apply_regions_pairs:
  "apply_regions s ps = apply_from str_slice s 0 (map region_pair (sort_key region_key ps))"
  by (simp add: apply_regions_def region_pair_def [abs_def])

lemma ordered_chain:
  "first_overlap ps = None \<Longrightarrow> chain_from 0 (map region_pair (sort_key region_key ps))"
  by (rule chain_from_pairs) (simp_all add: first_overlap_None)

lemma ordered_good:
  "\<forall>p \<in> set ps. good_span s (region p) \<Longrightarrow> good_pairs s (map region_pair (sort_key region_key ps))"
  by (auto simp: good_pairs_def region_pair_def)

lemma apply_regions_total:
  assumes "first_overlap ps = None" and "\<forall>p \<in> set ps. good_span s (region p)"
  shows "apply_regions s ps = Some (spliced s 0 (map region_pair (sort_key region_key ps)))"
  unfolding apply_regions_pairs
  by (rule apply_from_str) (simp_all add: ordered_chain ordered_good assms)

end
