(* ===== verification/Plan_Laws.thy ===== *)
theory Plan_Laws
  imports Splice_Laws
begin

text \<open>
  Laws of the planning rungs: what a plan holds of its edit, that planning a well-formed document
  never panics, and the inversion of a validated batch into the facts of every rung.
\<close>

section \<open>What a planned edit holds\<close>

definition edit_planned ::
    "(str \<Rightarrow> str) \<Rightarrow> document \<Rightarrow> edit \<Rightarrow> planned_edit \<times> guard_slot \<Rightarrow> bool" where
  "edit_planned hash doc e pg \<longleftrightarrow>
     (case fm_upsert_key e of
        Some key \<Rightarrow> \<exists>val synth pl.
          edit_shape e = Put AtUpsert val \<and>
          plan_fm_upsert hash doc key val synth = Some pl \<and>
          (\<forall>v. if_node_rev e = Some v \<longrightarrow> plan_before pl = v) \<and>
          region (fst pg) = plan_region pl \<and> new_text (fst pg) = plan_text pl \<and> snd pg = None
      | None \<Rightarrow> \<exists>r.
          resolve_full hash doc (edit_target e) = Some (Inr r) \<and>
          (\<forall>v. if_node_rev e = Some v \<longrightarrow> res_rev r = v) \<and>
          edit_region doc (edit_shape e) r = Some (Inr (region (fst pg), new_text (fst pg))) \<and>
          snd pg = guard_slot_of e r)"

definition aligned :: "str \<Rightarrow> span \<Rightarrow> bool" where
  "aligned s r \<longleftrightarrow> is_char_boundary s (lo r) \<and> is_char_boundary s (hi r)"

lemma guard_char_aligned_Inr: "guard_char_aligned s r = Inr u \<longleftrightarrow> aligned s r"
  by (simp add: guard_char_aligned_def aligned_def)

lemma cas_guard_Inr: "cas_guard x a = Inr u \<longleftrightarrow> (\<forall>v. x = Some v \<longrightarrow> a = v)"
  by (auto simp: cas_guard_def split: option.splits)

lemma plan_upsert_Inr:
  assumes "plan_upsert hash doc e key val synth = Some (Inr pg)"
    and "edit_shape e = Put AtUpsert val" and "edit_target e = FmKey key"
  shows "edit_planned hash doc e pg \<and> aligned (raw doc) (region (fst pg))"
  using assms
  by (fastforce simp: plan_upsert_def bind_eq_Some_conv and_then_Inr cas_guard_Inr
      guard_char_aligned_Inr edit_planned_def)

lemma plan_resolved_Inr:
  assumes "plan_resolved hash doc e = Some (Inr pg)" and "fm_upsert_key e = None"
  shows "edit_planned hash doc e pg \<and> aligned (raw doc) (region (fst pg))"
proof -
  obtain found where "resolve_full hash doc (edit_target e) = Some found"
    using assms(1) by (auto simp: plan_resolved_def bind_eq_Some_conv)
  with assms show ?thesis
    by (cases found)
      (auto simp: plan_resolved_def attempt_Inr cas_guard_Inr guard_char_aligned_Inr
        edit_planned_def simp del: fm_upsert_key.simps)
qed

definition plan_one ::
    "(str \<Rightarrow> str) \<Rightarrow> document \<Rightarrow> nat \<Rightarrow> nat \<Rightarrow> edit \<Rightarrow> (verdict + planned_edit \<times> guard_slot) option" where
  "plan_one hash doc n seen e =
     (case fm_upsert_key e of
        None \<Rightarrow> plan_resolved hash doc e
      | Some key \<Rightarrow>
          (case edit_shape e of
             Put _ val \<Rightarrow> plan_upsert hash doc e key val (synth_of n seen)
           | _ \<Rightarrow> None))"

lemma fm_upsert_key_Some:
  "fm_upsert_key e = Some key \<longleftrightarrow> (\<exists>val. edit_shape e = Put AtUpsert val) \<and> edit_target e = FmKey key"
  by (auto split: edit_kind.splits put_at.splits ref.splits)

lemma plan_edits_Cons:
  "plan_edits hash doc n seen (e # es) =
     attempt (plan_one hash doc n seen e)
       (\<lambda>p. attempt
          (plan_edits hash doc n (if fm_upsert_key e \<noteq> None \<and> 2 \<le> n then Suc seen else seen) es)
          (\<lambda>ps. Some (Inr (p # ps))))"
  by (auto simp: plan_one_def split: edit_kind.split put_at.split ref.split)

lemma plan_one_Inr:
  assumes "plan_one hash doc n seen e = Some (Inr pg)"
  shows "edit_planned hash doc e pg \<and> aligned (raw doc) (region (fst pg))"
proof (cases "fm_upsert_key e")
  case None
  with assms show ?thesis
    using plan_resolved_Inr by (simp add: plan_one_def del: fm_upsert_key.simps)
next
  case (Some key)
  then obtain val where v: "edit_shape e = Put AtUpsert val" "edit_target e = FmKey key"
    by (auto simp: fm_upsert_key_Some simp del: fm_upsert_key.simps)
  with assms Some have "plan_upsert hash doc e key val (synth_of n seen) = Some (Inr pg)"
    by (simp add: plan_one_def)
  then show ?thesis using v by (rule plan_upsert_Inr)
qed

lemma plan_edits_Inr:
  "plan_edits hash doc n seen es = Some (Inr pgs) \<Longrightarrow>
   list_all2 (\<lambda>e pg. edit_planned hash doc e pg \<and> aligned (raw doc) (region (fst pg))) es pgs"
proof (induction es arbitrary: seen pgs)
  case (Cons e es)
  then show ?case
    by (auto simp: plan_edits_Cons attempt_Inr dest: plan_one_Inr
        simp del: plan_edits.simps fm_upsert_key.simps)
qed simp

lemma plan_edits_each:
  assumes "plan_edits hash doc n seen es = Some (Inr pgs)"
  shows "e \<in> set es \<Longrightarrow> \<exists>pg \<in> set pgs. edit_planned hash doc e pg"
    and "pg \<in> set pgs \<Longrightarrow> \<exists>e \<in> set es. edit_planned hash doc e pg \<and> aligned (raw doc) (region (fst pg))"
  using plan_edits_Inr [OF assms] by (metis (no_types, lifting) list_all2_conv_all_nth in_set_conv_nth)+

section \<open>Planning does not panic\<close>

lemma fm_insert_offset_total:
  assumes "good_span s r"
  shows "\<exists>a. fm_insert_offset s r = Some a \<and> a \<le> length s"
proof -
  have "p < hi r - lo r \<Longrightarrow> Suc (lo r + p) \<le> length s" for p
    using assms by (auto simp: good_span_def span_in_def)
  then show ?thesis
    using assms
    by (auto simp: fm_insert_offset_def byte_slice_def good_span_def span_in_def length_sub
        split: option.split dest!: position_less)
qed

lemma plan_fm_upsert_before:
  assumes "plan_fm_upsert hash doc key val synth = Some pl"
  shows "\<exists>pl'. plan_fm_upsert hash doc key val' synth' = Some pl' \<and> plan_before pl' = plan_before pl"
proof -
  obtain x where x: "resolve_fm_key hash doc key = Some x"
    using assms by (auto simp: plan_fm_upsert_def bind_eq_Some_conv)
  then show ?thesis
    using assms
    by (cases x; cases "find_frontmatter (root doc)") (auto simp: plan_fm_upsert_def bind_eq_Some_conv)
qed

lemma plan_fm_upsert_total:
  assumes "doc_ok hash doc"
  shows "\<exists>pl. plan_fm_upsert hash doc key val synth = Some pl \<and>
    lo (plan_region pl) \<le> hi (plan_region pl) \<and> hi (plan_region pl) \<le> length (raw doc)"
proof -
  obtain x where x: "resolve_fm_key hash doc key = Some x"
    "\<And>y. x = Some y \<Longrightarrow> resolved_ok hash doc y"
    using resolve_fm_key_total [OF assms, of key] by blast
  show ?thesis
  proof (cases x)
    case (Some y)
    then show ?thesis
      using x by (auto simp: plan_fm_upsert_def resolved_ok_def good_span_def span_in_def)
  next
    case None
    show ?thesis
    proof (cases "find_frontmatter (root doc)")
      case (Some fm)
      have "good_span (raw doc) (span fm)"
        using doc_ok_node(1) [OF assms] find_frontmatter_in_tree(1) [OF Some] by blast
      then obtain a where "fm_insert_offset (raw doc) (span fm) = Some a" "a \<le> length (raw doc)"
        using fm_insert_offset_total by blast
      with x None Some show ?thesis by (simp add: plan_fm_upsert_def)
    qed (use x None in \<open>simp add: plan_fm_upsert_def\<close>)
  qed
qed

lemma match_region_total:
  "good_span s r \<Longrightarrow> \<exists>x. match_region s r old = Some x \<and>
     (\<forall>reg. x = Inr reg \<longrightarrow> lo r \<le> lo reg \<and> lo reg \<le> hi reg \<and> hi reg \<le> hi r)"
  by (auto simp: match_region_def str_slice_good Let_def good_span_def span_in_def length_sub
      split: option.split dest!: find_str_bound)

lemma fm_remove_region_total:
  assumes "doc_ok hash doc" and "good_span (raw doc) r"
  shows "\<exists>x. fm_remove_region doc r = Some x \<and> lo x = lo r \<and> hi r \<le> hi x \<and> hi x \<le> length (raw doc)"
proof (cases "find_frontmatter (root doc)")
  case (Some fm)
  have fm: "good_span (raw doc) (span fm)"
    using doc_ok_node(1) [OF assms(1)] find_frontmatter_in_tree(1) [OF Some] by blast
  show ?thesis
  proof (cases "hi (span fm) \<le> hi r")
    case False
    have b: "hi (span fm) \<le> length (raw doc)" using fm by (simp add: good_span_def span_in_def)
    then obtain e where "fm_line_end (raw doc) (hi r) (hi (span fm)) = Some e" "hi r \<le> e"
      "e \<le> hi (span fm)"
      using fm_line_end_total [of "hi r" "hi (span fm)" "raw doc"] False by auto
    with Some False b show ?thesis by (simp add: fm_remove_region_def)
  qed (use Some assms in \<open>simp add: fm_remove_region_def good_span_def span_in_def\<close>)
qed (use assms in \<open>simp add: fm_remove_region_def good_span_def span_in_def\<close>)

lemma edit_region_total:
  assumes "doc_ok hash doc" and "resolved_ok hash doc r"
  shows "\<exists>x. edit_region doc k r = Some x \<and>
    (\<forall>reg t. x = Inr (reg, t) \<longrightarrow> lo reg \<le> hi reg \<and> hi reg \<le> length (raw doc))"
proof (cases k)
  case (MatchEdit old new)
  obtain x where x: "match_region (raw doc) (res_span r) old = Some x"
    "\<forall>reg. x = Inr reg \<longrightarrow> lo (res_span r) \<le> lo reg \<and> lo reg \<le> hi reg \<and> hi reg \<le> hi (res_span r)"
    using match_region_total assms(2) unfolding resolved_ok_def by blast
  have "hi (res_span r) \<le> length (raw doc)"
    using assms(2) by (simp add: resolved_ok_def good_span_def span_in_def)
  with x MatchEdit show ?thesis
    by (cases x) (auto simp: edit_region_def)
next
  case (Put at t)
  with assms(2) show ?thesis
    by (auto simp: edit_region_def put_region_def resolved_ok_def good_span_def span_in_def
        split: put_at.split)
next
  case Remove
  have r: "good_span (raw doc) (res_span r)" using assms(2) by (simp add: resolved_ok_def)
  with fm_remove_region_total [OF assms(1) r] Remove show ?thesis
    by (auto simp: edit_region_def good_span_def span_in_def)
qed

lemma edit_planned_span:
  assumes "doc_ok hash doc" and "edit_planned hash doc e pg"
    and "aligned (raw doc) (region (fst pg))"
  shows "good_span (raw doc) (region (fst pg))"
proof (cases "fm_upsert_key e")
  case None
  with assms(2) obtain r where
    r: "resolve_full hash doc (edit_target e) = Some (Inr r)"
    "edit_region doc (edit_shape e) r = Some (Inr (region (fst pg), new_text (fst pg)))"
    by (auto simp: edit_planned_def simp del: fm_upsert_key.simps)
  have "resolved_ok hash doc r" using resolve_full_total [OF assms(1), of "edit_target e"] r by auto
  with edit_region_total [OF assms(1), of r "edit_shape e"] r assms(3) show ?thesis
    by (auto simp: good_span_def span_in_def aligned_def)
next
  case (Some key)
  with assms(2) obtain val synth pl where
    "plan_fm_upsert hash doc key val synth = Some pl" "region (fst pg) = plan_region pl"
    by (auto simp: edit_planned_def simp del: fm_upsert_key.simps)
  with plan_fm_upsert_total [OF assms(1), of key val synth] assms(3) show ?thesis
    by (auto simp: good_span_def span_in_def aligned_def)
qed

lemma plan_one_total:
  assumes "doc_ok hash doc"
  shows "plan_one hash doc n seen e \<noteq> None"
proof (cases "fm_upsert_key e")
  case (Some key)
  then obtain val where "edit_shape e = Put AtUpsert val"
    by (auto simp: fm_upsert_key_Some simp del: fm_upsert_key.simps)
  with Some plan_fm_upsert_total [OF assms, of key val "synth_of n seen"] show ?thesis
    by (auto simp: plan_one_def plan_upsert_def simp del: fm_upsert_key.simps)
next
  case None
  obtain x where x: "resolve_full hash doc (edit_target e) = Some x"
    "\<forall>y. x = Inr y \<longrightarrow> resolved_ok hash doc y"
    using resolve_full_total [OF assms] by blast
  have "plan_resolved hash doc e \<noteq> None"
  proof (cases x)
    case (Inr r)
    with x edit_region_total [OF assms, of r "edit_shape e"]
    have "edit_region doc (edit_shape e) r \<noteq> None" by auto
    with x Inr show ?thesis by (auto simp: plan_resolved_def attempt_None)
  qed (simp add: plan_resolved_def x)
  then show ?thesis by (simp add: plan_one_def None del: fm_upsert_key.simps)
qed

lemma plan_edits_total: "doc_ok hash doc \<Longrightarrow> plan_edits hash doc n seen es \<noteq> None"
proof (induction es arbitrary: seen)
  case (Cons e es)
  then show ?case
    using plan_one_total unfolding plan_edits_Cons attempt_None by blast
qed simp

section \<open>Inverting the rungs\<close>

lemma overlap_guard_Inr: "overlap_guard x = Inr u \<longleftrightarrow> x = None"
  by (auto simp: overlap_guard_def split: option.splits)

lemma root_guard_Inr:
  "root_guard x y = Inr u \<longleftrightarrow> (\<forall>e a. x = Some e \<longrightarrow> y = Some a \<longrightarrow> e = a)"
  by (auto simp: root_guard_def split: option.splits)

lemma engine_plan_Inr:
  "engine_plan s e = Inr ps \<longleftrightarrow>
     (case e of None \<Rightarrow> ps = []
      | Some x \<Rightarrow> aligned s (eng_span x) \<and> ps = [\<lparr>region = eng_span x, new_text = eng_text x\<rparr>])"
  by (auto simp: engine_plan_def plan_engine_edit_def and_then_Inr guard_char_aligned_Inr
      split: option.splits)

lemma plan_batch_Inr:
  assumes "plan_batch hash doc live b = Some (Inr (ps, gs))"
  obtains pgs eng where
    "\<And>e a. if_root b = Some e \<Longrightarrow> live = Some a \<Longrightarrow> e = a"
    and "plan_edits hash doc (synth_total doc (edits b)) 0 (edits b) = Some (Inr pgs)"
    and "engine_plan (raw doc) (engine b) = Inr eng"
    and "ps = map fst pgs @ eng" and "gs = map snd pgs"
    and "first_duplicate_fm_upsert (map fm_upsert_key (edits b)) ps = None"
    and "first_overlap ps = None"
  using assms
  by (auto simp: plan_batch_def attempt_Inr root_guard_Inr overlap_guard_Inr Let_def
      simp del: fm_upsert_key.simps)

lemma reparse_guards_Inr:
  assumes "reparse_guards hash parse doc ps gs = Some (Inr u)"
  obtains new_raw new_doc where
    "apply_regions (raw doc) ps = Some new_raw"
    and "build hash new_raw (parse new_raw) = Some new_doc"
    and "would_corrupt hash doc ps new_doc = Some None"
    and "first_write_past_its_span hash (raw doc) new_doc ps gs = Some None"
proof -
  obtain new_raw new_doc lost where
    a: "apply_regions (raw doc) ps = Some new_raw"
    "build hash new_raw (parse new_raw) = Some new_doc"
    and lost: "would_corrupt hash doc ps new_doc = Some lost"
    using assms by (auto simp: reparse_guards_def bind_eq_Some_conv)
  have none: "lost = None"
    using assms a lost by (cases lost) (auto simp: reparse_guards_def)
  then obtain past where "first_write_past_its_span hash (raw doc) new_doc ps gs = Some past"
    using assms a lost by (auto simp: reparse_guards_def bind_eq_Some_conv)
  with assms a lost none that show ?thesis
    by (cases past) (auto simp: reparse_guards_def)
qed

text \<open>No rung refuses with the success verdict.\<close>

lemma attempt_Inl:
  "attempt m f = Some (Inl e) \<longleftrightarrow> m = Some (Inl e) \<or> (\<exists>a. m = Some (Inr a) \<and> f a = Some (Inl e))"
  by (auto simp: attempt_def split: option.split sum.split)

lemma and_then_Inl:
  "and_then m f = Inl e \<longleftrightarrow> m = Inl e \<or> (\<exists>a. m = Inr a \<and> f a = Inl e)"
  by (cases m) auto

lemma guard_Inl_refuses:
  "guard_char_aligned s r \<noteq> Inl (Validated vb)"
  "cas_guard x a \<noteq> Inl (Validated vb)"
  "root_guard x y \<noteq> Inl (Validated vb)"
  "overlap_guard z \<noteq> Inl (Validated vb)"
  "engine_plan s g \<noteq> Inl (Validated vb)"
  "match_region s r old \<noteq> Some (Inl (Validated vb))"
  "refusal_of err \<noteq> Validated vb"
  by (auto simp: guard_char_aligned_def cas_guard_def root_guard_def overlap_guard_def
      engine_plan_def plan_engine_edit_def and_then_Inl match_region_def refusal_of_def Let_def
      bind_eq_Some_conv split: option.splits resolve_error.splits if_splits)

lemma edit_region_refuses: "edit_region doc k r \<noteq> Some (Inl (Validated vb))"
  by (auto simp: edit_region_def attempt_Inl guard_Inl_refuses split: edit_kind.splits)

lemma plan_resolved_refuses: "plan_resolved hash doc e \<noteq> Some (Inl (Validated vb))"
proof (cases "resolve_full hash doc (edit_target e)")
  case (Some found)
  then show ?thesis
    using guard_Inl_refuses(7)
    by (cases found)
      (auto simp: plan_resolved_def attempt_Inl guard_Inl_refuses edit_region_refuses)
qed (simp add: plan_resolved_def)

lemma plan_one_refuses: "plan_one hash doc n seen e \<noteq> Some (Inl (Validated vb))"
  by (auto simp: plan_one_def plan_resolved_refuses plan_upsert_def bind_eq_Some_conv and_then_Inl
      guard_Inl_refuses simp del: fm_upsert_key.simps split: option.splits edit_kind.splits)

lemma plan_edits_refuses: "plan_edits hash doc n seen es \<noteq> Some (Inl (Validated vb))"
  by (induction es arbitrary: seen)
    (auto simp: plan_edits_Cons attempt_Inl plan_one_refuses
      simp del: plan_edits.simps(2) fm_upsert_key.simps)

lemma plan_batch_refuses: "plan_batch hash doc live b \<noteq> Some (Inl (Validated vb))"
  by (auto simp: plan_batch_def attempt_Inl guard_Inl_refuses plan_edits_refuses Let_def)

lemma reparse_guards_refuses: "reparse_guards hash parse doc ps gs \<noteq> Some (Inl (Validated vb))"
  by (auto simp: reparse_guards_def bind_eq_Some_conv split: option.splits)

lemma validate_batch_Validated:
  assumes "validate_batch hash parse doc live b receipt = Some (Validated vb)"
  obtains ps gs where "plan_batch hash doc live b = Some (Inr (ps, gs))"
    and "reparse_guards hash parse doc ps gs = Some (Inr ())"
    and "vb = seal ps receipt"
proof -
  define m where "m = attempt (plan_batch hash doc live b) (\<lambda>(ps, guarded).
       attempt (reparse_guards hash parse doc ps guarded) (\<lambda>_. Some (Inr (seal ps receipt))))"
  have "m \<noteq> Some (Inl (Validated vb))"
    by (auto simp: m_def attempt_Inl plan_batch_refuses reparse_guards_refuses)
  moreover have "m = Some (Inl (Validated vb)) \<or> m = Some (Inr vb)"
  proof -
    obtain outcome where o: "m = Some outcome"
      and v: "(case outcome of Inl v \<Rightarrow> v | Inr sealed \<Rightarrow> Validated sealed) = Validated vb"
      using assms unfolding validate_batch_def m_def [symmetric] by (auto simp: bind_eq_Some_conv)
    then show ?thesis by (cases outcome) auto
  qed
  ultimately have "m = Some (Inr vb)" by blast
  then show ?thesis by (auto simp: m_def attempt_Inr intro: that)
qed

section \<open>Well-formed requests\<close>

text \<open>
  The type invariants of a request: its strings are UTF-8, and the range of the engine's own edit
  is not reversed.
\<close>

definition edit_utf8 :: "edit \<Rightarrow> bool" where
  "edit_utf8 e \<longleftrightarrow>
     (case edit_shape e of
        MatchEdit old new \<Rightarrow> utf8_valid new | Put at t \<Rightarrow> utf8_valid t | Remove \<Rightarrow> True) \<and>
     (case edit_target e of FmKey key \<Rightarrow> utf8_valid key | _ \<Rightarrow> True)"

definition request_ok :: "splice_request \<Rightarrow> bool" where
  "request_ok b \<longleftrightarrow>
     (\<forall>e \<in> set (edits b). edit_utf8 e) \<and>
     (case engine b of
        None \<Rightarrow> True
      | Some x \<Rightarrow> lo (eng_span x) \<le> hi (eng_span x) \<and> utf8_valid (eng_text x))"

lemma utf8_consts: "utf8_valid '': ''" "utf8_valid [lf]" "utf8_valid fm_fence"
  by (simp_all add: utf8_valid_ascii_all byte_def fm_fence_def lf_def)

lemma synth_text_utf8: "utf8_valid l \<Longrightarrow> utf8_valid (synth_text synth l)"
  by (cases synth) (simp_all only: synth_text.simps utf8_append utf8_consts)

lemma plan_fm_upsert_utf8:
  assumes "plan_fm_upsert hash doc key val synth = Some pl" and "utf8_valid key" and "utf8_valid val"
  shows "utf8_valid (plan_text pl)"
proof -
  have l: "utf8_valid (key_line key val)"
    unfolding key_line_def using assms by (intro utf8_append utf8_consts)
  obtain x where "resolve_fm_key hash doc key = Some x"
    using assms by (auto simp: plan_fm_upsert_def bind_eq_Some_conv)
  with assms l show ?thesis
    by (cases x; cases "find_frontmatter (root doc)")
      (auto simp: plan_fm_upsert_def bind_eq_Some_conv synth_text_utf8 utf8_append utf8_consts)
qed

lemma edit_planned_utf8:
  assumes "edit_planned hash doc e pg" and "edit_utf8 e"
  shows "utf8_valid (new_text (fst pg))"
proof (cases "fm_upsert_key e")
  case None
  with assms(1) obtain r where
    "edit_region doc (edit_shape e) r = Some (Inr (region (fst pg), new_text (fst pg)))"
    by (auto simp: edit_planned_def simp del: fm_upsert_key.simps)
  with assms(2) show ?thesis
    by (auto simp: edit_region_def attempt_Inr edit_utf8_def split: edit_kind.splits)
next
  case (Some key)
  with assms obtain val synth pl where
    p: "plan_fm_upsert hash doc key val synth = Some pl" "new_text (fst pg) = plan_text pl"
    "edit_shape e = Put AtUpsert val" "edit_target e = FmKey key"
    by (auto simp: edit_planned_def fm_upsert_key_Some simp del: fm_upsert_key.simps)
  with assms(2) plan_fm_upsert_utf8 [OF p(1)] show ?thesis by (simp add: edit_utf8_def)
qed

text \<open>What the planning rungs leave for the rest of the validation.\<close>

lemma plan_batch_good:
  assumes "doc_ok hash doc" and "request_ok b"
    and "plan_batch hash doc live b = Some (Inr (ps, gs))"
  shows "\<forall>p \<in> set ps. good_span (raw doc) (region p) \<and> utf8_valid (new_text p)"
    and "first_overlap ps = None" and "length gs \<le> length ps"
  using assms(3)
proof (rule_tac [!] plan_batch_Inr)
  fix pgs eng
  assume pgs: "plan_edits hash doc (synth_total doc (edits b)) 0 (edits b) = Some (Inr pgs)"
    and eng: "engine_plan (raw doc) (engine b) = Inr eng"
    and ps: "ps = map fst pgs @ eng" and gs: "gs = map snd pgs"
  show "length gs \<le> length ps" by (simp add: ps gs)
  have "good_span (raw doc) (region (fst pg)) \<and> utf8_valid (new_text (fst pg))"
    if "pg \<in> set pgs" for pg
    using plan_edits_each(2) [OF pgs that] edit_planned_span [OF assms(1)] edit_planned_utf8 assms(2)
    unfolding request_ok_def by blast
  moreover have "good_span (raw doc) (region p) \<and> utf8_valid (new_text p)" if p: "p \<in> set eng" for p
  proof -
    obtain x where x: "engine b = Some x" "aligned (raw doc) (eng_span x)"
      "p = \<lparr>region = eng_span x, new_text = eng_text x\<rparr>"
      using eng p by (auto simp: engine_plan_Inr split: option.splits)
    then have "lo (eng_span x) \<le> hi (eng_span x)" "utf8_valid (eng_text x)"
      using assms(2) by (simp_all add: request_ok_def)
    with x show ?thesis
      using char_boundary_le by (auto simp: aligned_def good_span_def span_in_def)
  qed
  ultimately show "\<forall>p \<in> set ps. good_span (raw doc) (region p) \<and> utf8_valid (new_text p)"
    by (auto simp: ps)
qed

end
