(* ===== verification/Sample.thy ===== *)
theory Sample
  imports Splice
begin

text \<open>
  One small document the witnesses share: a frontmatter block, two sections of the same heading,
  the first with a subsection and an anchored line.
\<close>

definition sample_hash :: "str \<Rightarrow> str" where
  "sample_hash s = take 1 s @ [char_of (length s)]"

definition nl_join :: "str list \<Rightarrow> str" where
  "nl_join ls = concat (map (\<lambda>l. l @ [lf]) ls)"

definition sample_text :: str where
  "sample_text = nl_join [''---'', ''k: v'', ''---'', ''# A'', ''## B'', ''y ^i'', ''# A'']"

definition sample_stream :: "dialect_node list" where
  "sample_stream =
     [Dialect (DFrontmatter [''k'']) (Span 0 12), Dialect (DHeading 1 ''A'') (Span 13 16),
      Dialect (DHeading 2 ''B'') (Span 17 21), Dialect (DAnchor ''i'') (Span 24 26),
      Dialect (DHeading 1 ''A'') (Span 27 30)]"

definition sample_root :: node where
  "sample_root =
     Node (DocumentNode [] 7) (Span 0 31) (rev_of sample_hash sample_text) None
       [Node (Frontmatter [(''k'', ''v'')]) (Span 0 13) (rev_of sample_hash (sub sample_text 0 13)) None [],
        Node (Section ''A'' 1) (Span 13 27) (rev_of sample_hash (sub sample_text 13 27)) (Some [''A''])
          [Node (Section ''B'' 2) (Span 17 27) (rev_of sample_hash (sub sample_text 17 27)) (Some [''A'', ''B''])
             [Node (Anchor ''i'') (Span 22 26) (rev_of sample_hash (sub sample_text 22 26)) (Some [''A'', ''B'']) []]],
        Node (Section ''A'' 1) (Span 27 31) (rev_of sample_hash (sub sample_text 27 31)) (Some [''A'']) []]"

definition sample_doc :: document where
  "sample_doc = \<lparr>raw = sample_text, root = sample_root\<rparr>"

definition sample_items :: "node list" where
  "sample_items =
     [Node (Section ''A'' 1) (Span 13 27) (rev_of sample_hash (sub sample_text 13 27)) None [],
      Node (Section ''B'' 2) (Span 17 27) (rev_of sample_hash (sub sample_text 17 27)) None [],
      Node (Section ''A'' 1) (Span 27 31) (rev_of sample_hash (sub sample_text 27 31)) None [],
      Node (Anchor ''i'') (Span 22 26) (rev_of sample_hash (sub sample_text 22 26)) None [],
      Node (Frontmatter [(''k'', ''v'')]) (Span 0 13) (rev_of sample_hash (sub sample_text 0 13)) None []]"

lemma sample_build_items: "build_items sample_hash sample_text sample_stream = Some sample_items"
  by code_simp

lemma build_from_items:
  "build_items hash s ds = Some items \<Longrightarrow> length (lines s) = n \<Longrightarrow> n \<le> u32_max \<Longrightarrow>
   length s = len \<Longrightarrow> rev_of hash s = v \<Longrightarrow>
   build hash s ds = Some \<lparr>raw = s, root = assign_hpath (sort_tree
     (Node (DocumentNode [] n) (Span 0 len) v None (nest_by_containment items)))\<rparr>"
  by (hypsubst, simp add: build_def node_rev_at_def byte_slice_def span_in_def Let_def
      del: sort_tree.simps)

lemma sample_build: "build sample_hash sample_text sample_stream = Some sample_doc"
proof -
  have "length (lines sample_text) = 7" "length sample_text = 31" by code_simp+
  moreover have "assign_hpath (sort_tree (Node (DocumentNode [] 7) (Span 0 31)
      (rev_of sample_hash sample_text) None (nest_by_containment sample_items))) = sample_root"
    by code_simp
  ultimately show ?thesis
    by (subst build_from_items [OF sample_build_items])
      (simp_all add: u32_max_def sample_doc_def)
qed

section \<open>A validated batch on it\<close>

definition sample_parse :: "str \<Rightarrow> dialect_node list" where
  "sample_parse s = sample_stream"

text \<open>Replace the anchored line's first letter and set the key, each guarded by its revision.\<close>

definition sample_request :: splice_request where
  "sample_request =
     \<lparr>if_root = Some ''r'',
      edits =
        [\<lparr>edit_target = AnchorRef ''i'', edit_shape = MatchEdit ''y'' ''z'',
          if_node_rev = Some (rev_of sample_hash ''y ^i'')\<rparr>,
         \<lparr>edit_target = FmKey ''k'', edit_shape = Put AtUpsert ''w'',
          if_node_rev = Some (rev_of sample_hash ''k: v'')\<rparr>],
      engine = None\<rparr>"

definition sample_planned :: "planned_edit list" where
  "sample_planned =
     [\<lparr>region = Span 22 23, new_text = ''z''\<rparr>, \<lparr>region = Span 4 8, new_text = ''k: w''\<rparr>]"

definition sample_slots :: "guard_slot list" where
  "sample_slots = [Some (AnchorRef ''i'', rev_of sample_hash ''y ^i''), None]"

lemma sample_plan:
  "plan_batch sample_hash sample_doc (Some ''r'') sample_request = Some (Inr (sample_planned, sample_slots))"
  by code_simp

definition sample_new_text :: str where
  "sample_new_text = nl_join [''---'', ''k: w'', ''---'', ''# A'', ''## B'', ''z ^i'', ''# A'']"

definition sample_new_items :: "node list" where
  "sample_new_items =
     [Node (Section ''A'' 1) (Span 13 27) (rev_of sample_hash (sub sample_new_text 13 27)) None [],
      Node (Section ''B'' 2) (Span 17 27) (rev_of sample_hash (sub sample_new_text 17 27)) None [],
      Node (Section ''A'' 1) (Span 27 31) (rev_of sample_hash (sub sample_new_text 27 31)) None [],
      Node (Anchor ''i'') (Span 22 26) (rev_of sample_hash (sub sample_new_text 22 26)) None [],
      Node (Frontmatter [(''k'', ''w'')]) (Span 0 13) (rev_of sample_hash (sub sample_new_text 0 13)) None []]"

definition sample_new_doc :: document where
  "sample_new_doc = \<lparr>raw = sample_new_text, root = assign_hpath (sort_tree
     (Node (DocumentNode [] 7) (Span 0 31) (rev_of sample_hash sample_new_text) None
        (nest_by_containment sample_new_items)))\<rparr>"

lemma sample_new_build:
  "build sample_hash sample_new_text (sample_parse sample_new_text) = Some sample_new_doc"
proof -
  have "build_items sample_hash sample_new_text (sample_parse sample_new_text) = Some sample_new_items"
    by code_simp
  moreover have "length (lines sample_new_text) = 7" "length sample_new_text = 31" by code_simp+
  ultimately show ?thesis
    by (subst build_from_items) (simp_all add: u32_max_def sample_new_doc_def)
qed

text \<open>A validation from the values of its rungs.\<close>

lemma validate_from_rungs:
  assumes "plan_batch hash doc live b = Some (Inr (ps, gs))" and "apply_regions (raw doc) ps = Some s"
    and "build hash s (parse s) = Some nd" and "would_corrupt hash doc ps nd = Some lost"
  shows "lost = None \<Longrightarrow> first_write_past_its_span hash (raw doc) nd ps gs = Some None \<Longrightarrow>
      validate_batch hash parse doc live b rc = Some (Validated (seal ps rc))"
    and "lost = Some (paths, cause) \<Longrightarrow>
      validate_batch hash parse doc live b rc = Some (WouldCorrupt paths cause)"
  using assms by (simp_all add: validate_batch_def reparse_guards_def)

definition sample_sealed :: validated_batch where
  "sample_sealed = seal sample_planned None"

lemma sample_validated:
  "validate_batch sample_hash sample_parse sample_doc (Some ''r'') sample_request None =
     Some (Validated sample_sealed)"
  unfolding sample_sealed_def
proof (rule validate_from_rungs(1) [OF sample_plan])
  show "apply_regions (raw sample_doc) sample_planned = Some sample_new_text" by code_simp
  show "build sample_hash sample_new_text (sample_parse sample_new_text) = Some sample_new_doc"
    by (rule sample_new_build)
  show "would_corrupt sample_hash sample_doc sample_planned sample_new_doc = Some None" by code_simp
  show "first_write_past_its_span sample_hash (raw sample_doc) sample_new_doc sample_planned
      sample_slots = Some None" by code_simp
qed simp

end
