(* ===== verification/Resolve_Props.thy ===== *)
theory Resolve_Props
  imports Resolve_Laws Sample
begin

text \<open>
  The properties of the document tree and of the mint-plane lookup.
\<close>

section \<open>Heading paths\<close>

text \<open>
  The specification of a heading path: the sections reached by descending section by section,
  in document order.
\<close>

fun section_chain :: "node \<Rightarrow> hpath \<Rightarrow> node list" where
  "section_chain n [] = [n]"
| "section_chain n (t # p) =
     concat (map (\<lambda>c. section_chain c p) (filter (\<lambda>c. section_named t (kind c)) (children n)))"

lemma pick_match_none_n:
  "pick_match ms None =
     (case ms of [] \<Rightarrow> Inl NotFound | [m] \<Rightarrow> Inr m | _ \<Rightarrow> Inl (Ambiguous (map target_of ms)))"
  by (auto simp: pick_match_def split: list.split)

definition nth_seg :: "str \<Rightarrow> nat \<Rightarrow> hpath_seg" where
  "nth_seg h i = \<lparr>seg_h = h, seg_n = Some i\<rparr>"

text \<open>
  The steps of a path before \<open>q\<close> each lead to exactly one section.
\<close>

definition single_before :: "node \<Rightarrow> hpath \<Rightarrow> bool" where
  "single_before n q \<longleftrightarrow> (\<forall>q'. strict_prefix q' q \<longrightarrow> length (section_chain n q') = 1)"

definition plain_answer :: "node \<Rightarrow> hpath \<Rightarrow> resolve_error + node \<Rightarrow> bool" where
  "plain_answer n p a \<longleftrightarrow>
     (case a of
        Inr m \<Rightarrow> single_before n p \<and> section_chain n p = [m]
      | Inl NotFound \<Rightarrow> (\<exists>q. prefix q p \<and> single_before n q \<and> section_chain n q = [])
      | Inl (Ambiguous ts) \<Rightarrow>
          (\<exists>q. prefix q p \<and> single_before n q \<and> 2 \<le> length (section_chain n q) \<and>
             ts = map target_of (section_chain n q)))"

lemma single_before_Nil: "single_before n []"
  by (simp add: single_before_def)

lemma single_before_Cons:
  assumes "\<And>q. section_chain n (t # q) = section_chain m q"
  shows "single_before n (t # q) \<longleftrightarrow> single_before m q"
proof
  assume a: "single_before n (t # q)"
  show "single_before m q"
    unfolding single_before_def
  proof (intro allI impI)
    fix q' assume "strict_prefix q' q"
    then have "strict_prefix (t # q') (t # q)" by simp
    with a have "length (section_chain n (t # q')) = 1" unfolding single_before_def by blast
    then show "length (section_chain m q') = 1" unfolding assms .
  qed
next
  assume a: "single_before m q"
  show "single_before n (t # q)"
    unfolding single_before_def
  proof (intro allI impI)
    fix q' assume q': "strict_prefix q' (t # q)"
    show "length (section_chain n q') = 1"
    proof (cases q')
      case (Cons u r)
      then have "u = t" "strict_prefix r q" using q' by auto
      then show ?thesis using a Cons assms by (simp add: single_before_def del: section_chain.simps)
    qed simp
  qed
qed

lemma plain_answer_holds: "plain_answer n p (resolve_hpath_node n (map seg_of p))"
proof (induction p arbitrary: n)
  case Nil
  then show ?case by (simp add: plain_answer_def single_before_Nil)
next
  case (Cons t p)
  define ms where "ms = filter (\<lambda>c. section_named t (kind c)) (children n)"
  have step: "resolve_hpath_node n (map seg_of (t # p)) =
      and_then (pick_match ms None) (\<lambda>c. resolve_hpath_node c (map seg_of p))"
    by (simp add: ms_def seg_of_def)
  have chain: "section_chain n (t # q) = concat (map (\<lambda>c. section_chain c q) ms)" for q
    by (simp add: ms_def)
  have here: "prefix [t] (t # p)" "single_before n [t]"
    by (auto simp: single_before_def strict_prefix_def prefix_Cons)
  have at: "section_chain n [t] = ms" by (simp add: ms_def)
  consider (none) "ms = []" | (one) m where "ms = [m]" | (more) a b r where "ms = a # b # r"
    by (cases ms; cases "tl ms") auto
  then show ?case
  proof cases
    case none
    then have "\<exists>q. prefix q (t # p) \<and> single_before n q \<and> section_chain n q = []" using here at by blast
    then show ?thesis unfolding step by (simp add: plain_answer_def none pick_match_none_n del: section_chain.simps)
  next
    case one
    have sub: "section_chain n (t # q) = section_chain m q" for q
      unfolding chain one by simp
    note before = single_before_Cons [OF sub]
    have lift: "\<exists>q. prefix q (t # p) \<and> single_before n q \<and> P (section_chain n q)"
      if x: "\<exists>q. prefix q p \<and> single_before m q \<and> P (section_chain m q)" for P
      using x sub before by (metis Cons_prefix_Cons)
    show ?thesis
    proof (cases "resolve_hpath_node m (map seg_of p)")
      case (Inr x)
      with Cons.IH [of m] show ?thesis
        unfolding step by (simp add: plain_answer_def one pick_match_none_n sub before del: section_chain.simps)
    next
      case (Inl e)
      show ?thesis
      proof (cases e)
        case NotFound
        with Cons.IH [of m] Inl have "\<exists>q. prefix q p \<and> single_before m q \<and> section_chain m q = []"
          by (simp add: plain_answer_def del: section_chain.simps)
        from lift [OF this] NotFound Inl show ?thesis
          unfolding step by (simp add: plain_answer_def one pick_match_none_n del: section_chain.simps)
      next
        case (Ambiguous ts)
        with Cons.IH [of m] Inl have "\<exists>q. prefix q p \<and> single_before m q \<and>
            (2 \<le> length (section_chain m q) \<and> ts = map target_of (section_chain m q))"
          by (simp add: plain_answer_def del: section_chain.simps)
        from lift [OF this] Ambiguous Inl show ?thesis
          unfolding step by (simp add: plain_answer_def one pick_match_none_n del: section_chain.simps)
      qed
    qed
  next
    case more
    have "prefix [t] (t # p) \<and> single_before n [t] \<and> 2 \<le> length (section_chain n [t]) \<and>
        map target_of ms = map target_of (section_chain n [t])"
      unfolding at using here more by (simp only: list.size) simp
    then have "\<exists>q. prefix q (t # p) \<and> single_before n q \<and> 2 \<le> length (section_chain n q) \<and>
        map target_of ms = map target_of (section_chain n q)" by blast
    then show ?thesis unfolding step by (simp add: plain_answer_def more pick_match_none_n del: section_chain.simps)
  qed
qed

text \<open>
  Claim C9. How a heading path without occurrence numbers resolves. It is read from the left, up to the
  first step that does not lead to exactly one section: the path resolves when there is no such
  step, to the section it spells; it is not found when no section continues there, and ambiguous
  when several do, with these as the candidates, in document order, whatever follows.
\<close>

theorem hpath_resolves_exactly:
  "case resolve_hpath_node n (map seg_of p) of
     Inr m \<Rightarrow> single_before n p \<and> section_chain n p = [m]
   | Inl NotFound \<Rightarrow> (\<exists>q. prefix q p \<and> single_before n q \<and> section_chain n q = [])
   | Inl (Ambiguous ts) \<Rightarrow>
       (\<exists>q. prefix q p \<and> single_before n q \<and> 2 \<le> length (section_chain n q) \<and>
          ts = map target_of (section_chain n q))"
  using plain_answer_holds [of n p] by (simp add: plain_answer_def)

text \<open>
  A duplicate on the way is not looked behind: only the second \<open>A\<close> has a \<open>B\<close>, and \<open>A/B\<close> is ambiguous.
\<close>

lemma duplicate_ancestor_ambiguous:
  "\<exists>ts. resolve_hpath_node
      (Node (DocumentNode [] 3) (Span 0 9) [] None
        [Node (Section ''A'' 1) (Span 0 3) [] None [],
         Node (Section ''A'' 1) (Span 3 9) [] None [Node (Section ''B'' 2) (Span 6 9) [] None []]])
      (map seg_of [''A'', ''B'']) = Inl (Ambiguous ts)"
  by (simp add: seg_of_def pick_match_def)

text \<open>
  Every section is addressable: a section its headings spell, however many siblings
  repeat them, is what some occurrence numbers on the path resolve to.
\<close>

theorem every_section_addressable:
  "m \<in> set (section_chain n p) \<Longrightarrow>
   \<exists>js. length js = length p \<and> resolve_hpath_node n (map2 nth_seg p js) = Inr m"
proof (induction p arbitrary: n)
  case Nil
  then show ?case by simp
next
  case (Cons t p)
  define ms where "ms = filter (\<lambda>c. section_named t (kind c)) (children n)"
  obtain c where c: "c \<in> set ms" "m \<in> set (section_chain c p)"
    using Cons.prems by (auto simp: ms_def)
  then obtain i where i: "i < length ms" "ms ! i = c" by (auto simp: in_set_conv_nth)
  obtain js where js: "length js = length p" "resolve_hpath_node c (map2 nth_seg p js) = Inr m"
    using Cons.IH [OF c(2)] by blast
  have "ms \<noteq> []" using i by auto
  then have "pick_match ms (Some (Suc i)) = Inr c"
    using i by (simp add: pick_match_def)
  then have "resolve_hpath_node n (map2 nth_seg (t # p) (Suc i # js)) = Inr m"
    using js by (simp add: ms_def nth_seg_def)
  then show ?case using js by (intro exI [of _ "Suc i # js"]) simp
qed

theorem every_section_addressable_witness:
  "\<exists>js. length js = 2 \<and> resolve_hpath_node sample_root (map2 nth_seg [''A'', ''B''] js) =
     Inr (hd (section_chain sample_root [''A'', ''B'']))"
proof -
  have "hd (section_chain sample_root [''A'', ''B'']) \<in> set (section_chain sample_root [''A'', ''B''])"
    by code_simp
  from every_section_addressable [OF this] show ?thesis by (simp add: numeral_2_eq_2)
qed

section \<open>The built tree\<close>

lemma section_named_iff: "section_named t k \<longleftrightarrow> (\<exists>l. k = Section t l)"
  by (cases k) auto

lemma chain_hpath:
  "m \<in> set (section_chain (fill_hpath g n) p) \<Longrightarrow> p \<noteq> [] \<Longrightarrow>
   node_hpath m = Some ((case governing_below (kind n) g of None \<Rightarrow> [] | Some u \<Rightarrow> u) @ p) \<and>
   (\<exists>l. kind m = Section (last p) l)"
proof (induction p arbitrary: n g)
  case (Cons t p)
  obtain k r v h cs where n: "n = Node k r v h cs" by (cases n)
  define g' where "g' = governing_below k g"
  obtain c where c: "c \<in> set cs" "section_named t (kind c)"
    "m \<in> set (section_chain (fill_hpath g' c) p)"
    using Cons.prems(1) by (auto simp: n g'_def)
  then obtain l where kc: "kind c = Section t l" by (auto simp: section_named_iff)
  have below: "governing_below (kind c) g' = Some ((case g' of None \<Rightarrow> [] | Some u \<Rightarrow> u) @ [t])"
    by (simp add: kc governing_below_def)
  show ?case
  proof (cases "p = []")
    case True
    with c(3) have "m = fill_hpath g' c" by simp
    then show ?thesis
      by (cases c) (use kc True in \<open>simp add: n g'_def\<close>)
  next
    case False
    from Cons.IH [OF c(3) this] below False show ?thesis
      by (simp add: n g'_def split: option.split)
  qed
qed simp

text \<open>
  In a built document the heading path a section carries is the one that leads to it:
  every section reached through sections alone carries the chain of headings on the way.
\<close>

theorem built_hpath_is_address:
  assumes "build hash s ds = Some doc" and "m \<in> set (section_chain (root doc) p)" and "p \<noteq> []"
  shows "node_hpath m = Some p"
  using assms(1)
proof (rule build_Some)
  fix items
  assume "root doc = assign_hpath (Node (DocumentNode [] (min (length (lines s)) u32_max))
           (Span 0 (length s)) (rev_of hash s) None (nest_by_containment items))"
  with assms(2) have "m \<in> set (section_chain (fill_hpath None (Node (DocumentNode []
      (min (length (lines s)) u32_max)) (Span 0 (length s)) (rev_of hash s) None
      (nest_by_containment items))) p)"
    by (simp add: assign_hpath_def)
  from chain_hpath [OF this assms(3)] show "node_hpath m = Some p"
    by (simp add: governing_below_def)
qed

theorem built_hpath_is_address_witness:
  "node_hpath (hd (section_chain sample_root [''A'', ''B''])) = Some [''A'', ''B'']"
proof -
  have "hd (section_chain sample_root [''A'', ''B'']) \<in> set (section_chain (root sample_doc) [''A'', ''B''])"
    by code_simp
  from built_hpath_is_address [OF sample_build this] show ?thesis by simp
qed

text \<open>
  The built tree lists the document node and then every item, sections, leaves and
  frontmatter, once each, in the total order of spans: nesting loses, copies and reorders
  nothing, and sorting the child lists again changes nothing.
\<close>

theorem built_tree_is_sorted_items:
  assumes "build hash s ds = Some doc" and "build_items hash s ds = Some items"
  shows "preorder (root doc) = doc_facts hash s # map facts_of (sort_nodes items)"
  using assms(1) by (rule build_Some) (use assms(2) in simp)

theorem built_tree_is_sorted_items_witness:
  "preorder sample_root = doc_facts sample_hash sample_text # map facts_of (sort_nodes sample_items)"
  using built_tree_is_sorted_items [OF sample_build sample_build_items]
  by (simp add: sample_doc_def)

text \<open>
  Claim C10. Every node of a built tree lies inside its parent and inside the text, and carries
  the revision of exactly the bytes of its own span; the root's is the revision of the text.
\<close>

theorem built_tree_spans_and_revisions:
  assumes "build hash s ds = Some doc"
  shows "nested (root doc) \<and> span (root doc) = Span 0 (length s) \<and>
    (\<forall>(k, r, v) \<in> set (preorder (root doc)).
       span_in s r \<and> v = rev_of hash (sub s (lo r) (hi r)))"
proof -
  have "span (root doc) = Span 0 (length s)"
    using assms by (rule build_Some) (simp add: assign_hpath_def)
  then show ?thesis
    using build_nested [OF assms] build_facts [OF assms] by (auto simp: facts_ok_def)
qed

theorem built_tree_spans_and_revisions_witness:
  "nested sample_root \<and> span sample_root = Span 0 (length sample_text)"
  using built_tree_spans_and_revisions [OF sample_build] by (simp add: sample_doc_def)

end
