(* ===== verification/Splice_Props.thy ===== *)
theory Splice_Props
  imports Plan_Laws Resolve_Props
begin

text \<open>
  The properties of the compare-and-swap splice.
\<close>

section \<open>The sample is well formed\<close>

lemma sample_doc_ok: "doc_ok sample_hash sample_doc"
proof (rule build_doc_ok(1) [OF _ _ sample_build])
  show "utf8_valid sample_text" by code_simp
  show "dialect_ok sample_text sample_stream" by code_simp
qed

lemma sample_request_ok: "request_ok sample_request"
  by code_simp

section \<open>What a validated batch guarantees\<close>

lemma region_pairs_text:
  "vb = seal ps rc \<Longrightarrow> e \<in> set (vb_edits vb) \<Longrightarrow>
     \<exists>p \<in> set ps. ve_span e = region p \<and> ve_text e = new_text p"
proof -
  assume "vb = seal ps rc" "e \<in> set (vb_edits vb)"
  then have "ve_pair e \<in> set (map region_pair (sort_key region_key ps))"
    by (metis seal_pairs image_eqI list.set_map)
  then show ?thesis by (auto simp: ve_pair_def region_pair_def)
qed

text \<open>The one text a validated batch produces.\<close>

lemma validated_text:
  assumes "doc_ok hash doc" and "request_ok b"
    and "plan_batch hash doc live b = Some (Inr (ps, gs))" and "vb = seal ps rc"
  shows "apply_regions (raw doc) ps = Some (spliced (raw doc) 0 (map ve_pair (vb_edits vb)))"
    and "apply_spans (raw doc) (map ve_pair (vb_edits vb)) =
      Some (spliced (raw doc) 0 (map ve_pair (vb_edits vb)))"
    and "replace_all (raw doc) (rev (vb_edits vb)) =
      Some (spliced (raw doc) 0 (map ve_pair (vb_edits vb)))"
proof -
  note good = plan_batch_good [OF assms(1-3)]
  have u: "utf8_valid (raw doc)" using assms(1) by (simp add: doc_ok_def)
  have pairs: "map ve_pair (vb_edits vb) = map region_pair (sort_key region_key ps)"
    unfolding assms(4) by (rule seal_pairs)
  have chain: "chain_from 0 (map ve_pair (vb_edits vb))"
    and gp: "good_pairs (raw doc) (map ve_pair (vb_edits vb))"
    unfolding pairs using good by (simp_all add: ordered_chain ordered_good)
  show "apply_regions (raw doc) ps = Some (spliced (raw doc) 0 (map ve_pair (vb_edits vb)))"
    unfolding pairs using good by (intro apply_regions_total) auto
  show "apply_spans (raw doc) (map ve_pair (vb_edits vb)) =
      Some (spliced (raw doc) 0 (map ve_pair (vb_edits vb)))"
    unfolding apply_spans_def by (rule apply_from_bytes [OF gp chain]) simp
  have texts: "\<forall>e \<in> set (map ve_pair (vb_edits vb)). utf8_valid (snd e)"
    unfolding pairs using good(1) by (auto simp: region_pair_def)
  show "replace_all (raw doc) (rev (vb_edits vb)) =
      Some (spliced (raw doc) 0 (map ve_pair (vb_edits vb)))"
    using replace_pairs_back [OF u gp chain _ texts]
    by (simp add: replace_all_pairs rev_map)
qed

text \<open>
  Claim C2. The three writers agree: on a validated batch the candidate spliced from the back,
  the validation's own reparse and the cursor pass of the file writer produce the same bytes,
  the old text with each region replaced, and none of the three panics.
\<close>

theorem sealed_bytes_agree:
  assumes "doc_ok hash doc" and "request_ok b"
    and "validate_batch hash parse doc live b receipt = Some (Validated vb)"
  shows "\<exists>ps gs new_raw new_doc.
    plan_batch hash doc live b = Some (Inr (ps, gs)) \<and>
    new_raw = spliced (raw doc) 0 (map ve_pair (vb_edits vb)) \<and>
    apply_regions (raw doc) ps = Some new_raw \<and>
    apply_spans (raw doc) (map ve_pair (vb_edits vb)) = Some new_raw \<and>
    build hash new_raw (parse new_raw) = Some new_doc \<and>
    candidate_of_batch hash parse path (raw doc) vb = Some (stamp_path path new_doc)"
  using assms(3)
proof (rule validate_batch_Validated)
  fix ps gs
  assume ps: "plan_batch hash doc live b = Some (Inr (ps, gs))"
    and g: "reparse_guards hash parse doc ps gs = Some (Inr ())" and vb: "vb = seal ps receipt"
  note t = validated_text [OF assms(1,2) ps vb]
  from g show ?thesis
  proof (rule reparse_guards_Inr)
    fix new_raw new_doc
    assume "apply_regions (raw doc) ps = Some new_raw" "build hash new_raw (parse new_raw) = Some new_doc"
    with t ps show ?thesis by (simp add: candidate_of_batch_def candidate_of_body_def)
  qed
qed

theorem sealed_bytes_agree_witness:
  "\<exists>new_doc. candidate_of_batch sample_hash sample_parse ''p'' (raw sample_doc) sample_sealed =
     Some (stamp_path ''p'' new_doc)"
  using sealed_bytes_agree [OF sample_doc_ok sample_request_ok sample_validated, of "''p''"] by blast

text \<open>
  Claim C6. The sealed edits are in offset order and disjoint: each region ends at or before the
  start of every later one, and every region is a range of whole characters of the old text.
\<close>

theorem sealed_edits_disjoint:
  assumes "doc_ok hash doc" and "request_ok b"
    and "validate_batch hash parse doc live b receipt = Some (Validated vb)"
  shows "sorted_wrt (\<lambda>x y. hi (ve_span x) \<le> lo (ve_span y)) (vb_edits vb) \<and>
    (\<forall>e \<in> set (vb_edits vb). good_span (raw doc) (ve_span e))"
  using assms(3)
proof (rule validate_batch_Validated)
  fix ps gs
  assume ps: "plan_batch hash doc live b = Some (Inr (ps, gs))" and vb: "vb = seal ps receipt"
  note good = plan_batch_good [OF assms(1,2) ps]
  have "sorted_wrt follows (sort_key region_key ps)"
    using good by (subst successively_follows [symmetric])
      (auto simp: first_overlap_None good_span_def span_in_def well_ranged_def)
  then have "sorted_wrt (\<lambda>x y. hi (fst x) \<le> lo (fst y)) (map region_pair (sort_key region_key ps))"
    by (simp add: sorted_wrt_map follows_def [abs_def] region_pair_def)
  then have "sorted_wrt (\<lambda>x y. hi (fst x) \<le> lo (fst y)) (map ve_pair (vb_edits vb))"
    unfolding vb seal_pairs .
  then show ?thesis
    using region_pairs_text [OF vb] good(1) by (fastforce simp: sorted_wrt_map ve_pair_def)
qed

theorem sealed_edits_disjoint_witness:
  "sorted_wrt (\<lambda>x y. hi (ve_span x) \<le> lo (ve_span y)) (vb_edits sample_sealed)"
  using sealed_edits_disjoint [OF sample_doc_ok sample_request_ok sample_validated] by blast

text \<open>
  Claim C1. Compare and swap: a validated batch saw the root it was guarded by, and every edit
  guarded by a revision saw that revision on its own target, or for a key upsert on the key's
  line or its birth token.
\<close>

theorem validated_batch_saw_its_guards:
  assumes "validate_batch hash parse doc live b receipt = Some (Validated vb)"
  shows "(\<forall>r a. if_root b = Some r \<longrightarrow> live = Some a \<longrightarrow> r = a) \<and>
    (\<forall>e \<in> set (edits b). \<forall>v. if_node_rev e = Some v \<longrightarrow>
       (case fm_upsert_key e of
          Some key \<Rightarrow> \<exists>r. fm_upsert_before hash doc key = Some (r, v)
        | None \<Rightarrow> \<exists>t. resolve hash doc (edit_target e) = Some (Inr t) \<and> tgt_rev t = v))"
  using assms
proof (rule validate_batch_Validated)
  fix ps gs
  assume "plan_batch hash doc live b = Some (Inr (ps, gs))"
  then show ?thesis
  proof (rule plan_batch_Inr)
    fix pgs eng
    assume root: "\<And>e a. if_root b = Some e \<Longrightarrow> live = Some a \<Longrightarrow> e = a"
      and pgs: "plan_edits hash doc (synth_total doc (edits b)) 0 (edits b) = Some (Inr pgs)"
    have "case fm_upsert_key e of
          Some key \<Rightarrow> \<exists>r. fm_upsert_before hash doc key = Some (r, v)
        | None \<Rightarrow> \<exists>t. resolve hash doc (edit_target e) = Some (Inr t) \<and> tgt_rev t = v"
      if e: "e \<in> set (edits b)" "if_node_rev e = Some v" for e v
    proof -
      obtain pg where pg: "edit_planned hash doc e pg"
        using plan_edits_each(1) [OF pgs e(1)] by blast
      show ?thesis
      proof (cases "fm_upsert_key e")
        case None
        with pg e(2) obtain r where "resolve_full hash doc (edit_target e) = Some (Inr r)" "res_rev r = v"
          by (auto simp: edit_planned_def simp del: fm_upsert_key.simps)
        with None show ?thesis by (simp add: resolve_def del: fm_upsert_key.simps)
      next
        case (Some key)
        with pg e(2) obtain val synth pl where
          pl: "plan_fm_upsert hash doc key val synth = Some pl" "plan_before pl = v"
          by (auto simp: edit_planned_def simp del: fm_upsert_key.simps)
        then have "\<exists>pl'. plan_fm_upsert hash doc key [] Whole = Some pl' \<and> plan_before pl' = v"
          using plan_fm_upsert_before by blast
        with Some show ?thesis by (auto simp: fm_upsert_before_def simp del: fm_upsert_key.simps)
      qed
    qed
    with root show ?thesis by blast
  qed
qed

theorem validated_batch_saw_its_guards_witness:
  "\<exists>r. fm_upsert_before sample_hash sample_doc ''k'' = Some (r, rev_of sample_hash ''k: v'')"
  using validated_batch_saw_its_guards [OF sample_validated]
  by (auto simp: sample_request_def)

section \<open>Untouched sections and moved revisions\<close>

fun subnodes :: "node \<Rightarrow> node list" where
  "subnodes (Node k r v h cs) = Node k r v h cs # concat (map subnodes cs)"

lemma collect_lost_each:
  "collect_lost hash ps nd n = Some lost \<Longrightarrow> m \<in> set (subnodes n) \<Longrightarrow>
   \<exists>l. lost_here hash ps nd (kind m) (span m) (node_hpath m) = Some l \<and> set l \<subseteq> set lost"
proof (induction n arbitrary: lost)
  case (Node k r v h cs)
  from Node.prems(1) obtain here below where l: "lost_here hash ps nd k r h = Some here"
    "each (collect_lost hash ps nd) cs = Some below" "lost = here @ concat below"
    by (auto simp: bind_eq_Some_conv)
  show ?case
  proof (cases "m = Node k r v h cs")
    case True
    with l show ?thesis by simp
  next
    case False
    with Node.prems(2) obtain c where c: "c \<in> set cs" "m \<in> set (subnodes c)" by auto
    then obtain x where x: "collect_lost hash ps nd c = Some x" "x \<in> set below"
      using each_member [OF l(2)] by blast
    with Node.IH [OF c(1) x(1) c(2)] l(3) show ?thesis by auto
  qed
qed

lemma stamp_path_simps:
  "raw (stamp_path path doc) = raw doc"
  "children (root (stamp_path path doc)) = children (root doc)"
  "span (root (stamp_path path doc)) = span (root doc)"
  "node_rev (root (stamp_path path doc)) = node_rev (root doc)"
  by (auto simp: stamp_path_def split: node.split node_kind.split)

lemma resolve_full_stamp:
  "resolve_full hash (stamp_path path doc) r = resolve_full hash doc r"
proof (cases "root doc")
  case (Node k r' v h cs)
  show ?thesis
  proof (cases "is_document k")
    case False
    then have "stamp_path path doc = doc"
      by (cases k) (simp_all add: stamp_path_def Node)
    then show ?thesis by simp
  next
    case True
    then obtain p n where k: "k = DocumentNode p n" by (cases k) auto
    have root: "root (stamp_path path doc) = Node (DocumentNode path n) r' v h cs"
      by (simp add: stamp_path_def Node k)
    have fm: "find_frontmatter (root (stamp_path path doc)) = find_frontmatter (root doc)"
      unfolding root Node k by simp
    have an: "collect_anchors i (root (stamp_path path doc)) = collect_anchors i (root doc)" for i
      unfolding root Node k by simp
    have ro: "resolved_of (root (stamp_path path doc)) s = resolved_of (root doc) s" for s
      unfolding root Node k by (simp add: resolved_of_def content_span_def)
    show ?thesis
    proof (cases r)
      case (Hpath segs)
      then show ?thesis
        by (cases segs) (simp_all add: lift_resolved_def stamp_path_simps ro)
    next
      case (AnchorRef i)
      then show ?thesis by (simp add: resolve_anchor_node_def an stamp_path_simps)
    next
      case (FmKey key)
      show ?thesis
        unfolding FmKey resolve_full.simps resolve_fm_key_def fm stamp_path_simps ..
    qed
  qed
qed

text \<open>
  Claim C4. Untouched sections stay reachable: after a validated batch, the heading path of every
  section of the old document whose bytes no edit touches is found in the candidate, as one
  section or as several that share it.
\<close>

theorem untouched_sections_stay:
  assumes "doc_ok hash doc" and "request_ok b"
    and "validate_batch hash parse doc live b receipt = Some (Validated vb)"
    and "m \<in> set (subnodes (root doc))" and "kind m = Section t lv" and "node_hpath m = Some p"
    and "\<forall>e \<in> set (vb_edits vb). region_disjoint (span m) (ve_span e)"
  shows "\<exists>cand found. candidate_of_batch hash parse path (raw doc) vb = Some cand \<and>
    resolve_full hash cand (Hpath (map seg_of p)) = Some found \<and> found \<noteq> Inl NotFound"
  using assms(3)
proof (rule validate_batch_Validated)
  fix ps gs
  assume ps: "plan_batch hash doc live b = Some (Inr (ps, gs))"
    and g: "reparse_guards hash parse doc ps gs = Some (Inr ())" and vb: "vb = seal ps receipt"
  note written = validated_text [OF assms(1,2) ps vb]
  from g show ?thesis
  proof (rule reparse_guards_Inr)
    fix new_raw nd
    assume nr: "apply_regions (raw doc) ps = Some new_raw"
      and nd: "build hash new_raw (parse new_raw) = Some nd"
      and wc: "would_corrupt hash doc ps nd = Some None"
    have cand: "candidate_of_batch hash parse path (raw doc) vb = Some (stamp_path path nd)"
      using written nr nd by (simp add: candidate_of_batch_def candidate_of_body_def)
    obtain lost where lost: "collect_lost hash ps nd (root doc) = Some lost"
      using wc by (auto simp: would_corrupt_def bind_eq_Some_conv)
    with wc have "collect_lost hash ps nd (root doc) = Some []"
      by (cases lost) (auto simp: would_corrupt_def)
    from collect_lost_each [OF this assms(4)]
    have here: "lost_here hash ps nd (Section t lv) (span m) (Some p) = Some []"
      using assms(5,6) by auto
    have "\<forall>q \<in> set ps. region_disjoint (span m) (region q)"
    proof
      fix q assume "q \<in> set ps"
      then have "region_pair q \<in> set (map ve_pair (vb_edits vb))"
        unfolding vb seal_pairs by simp
      then show "region_disjoint (span m) (region q)"
        using assms(7) by (auto simp: region_pair_def ve_pair_def)
    qed
    with here obtain found where "resolve_full hash nd (Hpath (map seg_of p)) = Some found"
      "found \<noteq> Inl NotFound"
      by (auto simp: lost_here_def bind_eq_Some_conv simp del: resolve_full.simps split: if_splits)
    with cand show ?thesis
      using resolve_full_stamp [of hash path nd] by (auto simp del: resolve_full.simps)
  qed
qed

theorem untouched_sections_stay_witness:
  "\<exists>cand found. candidate_of_batch sample_hash sample_parse ''p'' (raw sample_doc) sample_sealed = Some cand \<and>
     resolve_full sample_hash cand (Hpath (map seg_of [''A''])) = Some found \<and> found \<noteq> Inl NotFound"
proof (rule untouched_sections_stay [OF sample_doc_ok sample_request_ok sample_validated])
  let ?m = "Node (Section ''A'' 1) (Span 27 31) (rev_of sample_hash (sub sample_text 27 31)) (Some [''A'']) []"
  show "?m \<in> set (subnodes (root sample_doc))" by code_simp
  show "kind ?m = Section ''A'' 1" "node_hpath ?m = Some [''A'']" by simp_all
  show "\<forall>e \<in> set (vb_edits sample_sealed). region_disjoint (span ?m) (ve_span e)" by code_simp
qed

lemma write_past_None:
  "first_write_past_its_span hash s nd ps gs = Some None \<Longrightarrow> length gs \<le> length ps \<Longrightarrow>
   i < length gs \<Longrightarrow> gs ! i = Some (t, v) \<Longrightarrow>
   sub s (lo (region (ps ! i))) (hi (region (ps ! i))) = new_text (ps ! i) \<or>
   (\<exists>x. resolve_full hash nd t = Some x \<and> (\<forall>r. x = Inr r \<longrightarrow> res_rev r \<noteq> v))"
proof (induction hash s nd ps gs arbitrary: i rule: first_write_past_its_span.induct)
  case (3 hash s nd p ps gs)
  then show ?case by (cases i) auto
next
  case (4 hash s nd p ps u w gs)
  obtain old where old: "str_slice s (region p) = Some old"
    using "4.prems"(1) by (auto simp: bind_eq_Some_conv)
  then have o: "old = sub s (lo (region p)) (hi (region p))" by (simp add: str_slice_Some)
  show ?case
  proof (cases "old = new_text p")
    case True
    with 4 old o show ?thesis by (cases i) auto
  next
    case False
    with "4.prems"(1) old obtain x where x: "resolve_full hash nd u = Some x"
      by (auto simp: bind_eq_Some_conv simp del: resolve_full.simps)
    show ?thesis
    proof (cases x)
      case (Inl err)
      with 4 old o False x show ?thesis by (cases i) (auto simp del: resolve_full.simps)
    next
      case (Inr r)
      with "4.prems"(1) old False x have "res_rev r \<noteq> w"
        "first_write_past_its_span hash s nd ps gs = Some None"
        by (auto simp del: resolve_full.simps split: if_splits)
      with 4 old False x Inr show ?thesis by (cases i) (auto simp del: resolve_full.simps)
    qed
  qed
qed auto

lemma stamp_index_member:
  "e \<in> set (stamp_index i ps) \<Longrightarrow>
   i \<le> ve_index e \<and> ve_index e < i + length ps \<and>
   ve_span e = region (ps ! (ve_index e - i)) \<and> ve_text e = new_text (ps ! (ve_index e - i))"
  by (induction i ps rule: stamp_index.induct) (auto simp: nth_Cons' less_Suc_eq_le)

text \<open>
  Claim C5. A match or a put that changes bytes moves the revision it was sealed under: if a sealed
  edit of the request's own list (not one the engine adds) that is no removal and no key upsert
  changes the bytes of its region, and its target resolves before and still resolves in the
  candidate, then the target's revision there differs from the one before.
\<close>

theorem byte_change_moves_revision:
  assumes "doc_ok hash doc" and "request_ok b"
    and "validate_batch hash parse doc live b receipt = Some (Validated vb)"
    and "v \<in> set (vb_edits vb)" and "ve_index v < length (edits b)"
    and "edits b ! ve_index v = e" and "edit_shape e \<noteq> Remove" and "fm_upsert_key e = None"
    and "ve_text v \<noteq> sub (raw doc) (lo (ve_span v)) (hi (ve_span v))"
    and "resolve hash doc (edit_target e) = Some (Inr before)"
    and "candidate_of_batch hash parse path (raw doc) vb = Some cand"
    and "resolve hash cand (edit_target e) = Some (Inr after)"
  shows "tgt_rev after \<noteq> tgt_rev before"
  using assms(3)
proof (rule validate_batch_Validated)
  fix ps gs
  assume ps: "plan_batch hash doc live b = Some (Inr (ps, gs))"
    and g: "reparse_guards hash parse doc ps gs = Some (Inr ())" and vb: "vb = seal ps receipt"
  note written = validated_text [OF assms(1,2) ps vb]
  define i where "i = ve_index v"
  have v: "v \<in> set (stamp_index 0 ps)" using assms(4) by (simp add: vb seal_def)
  have vi: "ve_span v = region (ps ! i)" "ve_text v = new_text (ps ! i)"
    using stamp_index_member [OF v] by (simp_all add: i_def)
  obtain pgs eng where pgs: "plan_edits hash doc (synth_total doc (edits b)) 0 (edits b) = Some (Inr pgs)"
    and pseq: "ps = map fst pgs @ eng" and gs: "gs = map snd pgs"
    using ps by (rule plan_batch_Inr)
  have len: "length pgs = length (edits b)"
    using plan_edits_Inr [OF pgs] by (simp add: list_all2_lengthD)
  have "edit_planned hash doc e (pgs ! i)"
    using plan_edits_Inr [OF pgs] assms(5,6) by (auto simp: list_all2_conv_all_nth i_def)
  with assms(8) obtain r where r: "resolve_full hash doc (edit_target e) = Some (Inr r)"
    "snd (pgs ! i) = guard_slot_of e r"
    by (auto simp: edit_planned_def simp del: fm_upsert_key.simps resolve_full.simps)
  have slot: "gs ! i = Some (edit_target e, tgt_rev before)"
    using r assms(5,7,10) len by (auto simp: gs i_def guard_slot_of_def resolve_def simp del: resolve_full.simps)
  from g show ?thesis
  proof (rule reparse_guards_Inr)
    fix new_raw nd
    assume nr: "apply_regions (raw doc) ps = Some new_raw"
      and nd: "build hash new_raw (parse new_raw) = Some nd"
      and wp: "first_write_past_its_span hash (raw doc) nd ps gs = Some None"
    have "cand = stamp_path path nd"
      using written nr nd assms(11) by (simp add: candidate_of_batch_def candidate_of_body_def)
    then obtain r' where "resolve_full hash nd (edit_target e) = Some (Inr r')" "res_rev r' = tgt_rev after"
      using assms(12) by (auto simp: resolve_def resolve_full_stamp attempt_Inr simp del: resolve_full.simps)
    moreover have "i < length gs" "length gs \<le> length ps"
      using assms(5) len by (simp_all add: gs pseq i_def)
    ultimately show ?thesis
      using write_past_None [OF wp _ _ slot] assms(9) vi by auto
  qed
qed

theorem byte_change_moves_revision_witness:
  "\<exists>cand after. candidate_of_batch sample_hash sample_parse ''p'' (raw sample_doc) sample_sealed = Some cand \<and>
     resolve sample_hash cand (AnchorRef ''i'') = Some (Inr after) \<and>
     tgt_rev after \<noteq> rev_of sample_hash ''y ^i''"
proof -
  let ?e = "edits sample_request ! 0"
  let ?v = "\<lparr>ve_span = Span 22 23, ve_text = ''z'', ve_index = 0\<rparr>"
  let ?cand = "stamp_path ''p'' sample_new_doc"
  let ?after = "\<lparr>tgt_span = Span 22 26, tgt_rev = rev_of sample_hash ''z ^i''\<rparr>"
  let ?before = "\<lparr>tgt_span = Span 22 26, tgt_rev = rev_of sample_hash ''y ^i''\<rparr>"
  have "replace_all (raw sample_doc) (rev (vb_edits sample_sealed)) = Some sample_new_text" by code_simp
  then have cand: "candidate_of_batch sample_hash sample_parse ''p'' (raw sample_doc) sample_sealed = Some ?cand"
    by (simp add: candidate_of_batch_def candidate_of_body_def sample_new_build)
  have after: "resolve sample_hash ?cand (edit_target ?e) = Some (Inr ?after)" by code_simp
  have "tgt_rev ?after \<noteq> tgt_rev ?before"
  proof (rule byte_change_moves_revision [OF sample_doc_ok sample_request_ok sample_validated])
    show "?v \<in> set (vb_edits sample_sealed)" by code_simp
    show "ve_index ?v < length (edits sample_request)" by code_simp
    show "edits sample_request ! ve_index ?v = ?e" by simp
    show "edit_shape ?e \<noteq> Remove" by code_simp
    show "fm_upsert_key ?e = None" by code_simp
    show "ve_text ?v \<noteq> sub (raw sample_doc) (lo (ve_span ?v)) (hi (ve_span ?v))" by code_simp
    show "resolve sample_hash sample_doc (edit_target ?e) = Some (Inr ?before)" by code_simp
  qed (rule cand, rule after)
  with cand after show ?thesis by (auto simp: sample_request_def)
qed

end
