(* ===== verification/Build_Total.thy ===== *)
theory Build_Total
  imports Build_Laws
begin

text \<open>
  When \<open>build\<close> returns. The one slice of it that can cut a character is the indentation a block
  scalar of the frontmatter takes off its lines, so a block whose lines are indented by ASCII blanks
  builds.
\<close>

section \<open>Texts\<close>

lemma strip_any_Some: "strip_any ps s = Some r \<Longrightarrow> \<exists>w \<in> set ps. w \<noteq> [] \<and> s = w @ r"
  by (induction ps) (auto simp: strip_prefix_Some split: if_splits option.splits)

lemma strip_any_None: "strip_any ps s = None \<Longrightarrow> w \<in> set ps \<Longrightarrow> w \<noteq> [] \<Longrightarrow> \<not> prefix w s"
  by (induction ps) (auto simp: strip_prefix_None split: if_splits option.splits)

lemma trim_any_all: "trim_any ps s = [] \<Longrightarrow> s = [] \<or> (\<exists>w \<in> set ps. w \<noteq> [] \<and> suffix w s)"
proof (induction ps s rule: trim_any.induct)
  case (1 ps s)
  show ?case
  proof (cases "strip_any ps s")
    case None
    with "1.prems" show ?thesis by (simp add: trim_any_id)
  next
    case (Some r)
    then obtain w where w: "w \<in> set ps" "w \<noteq> []" "s = w @ r" using strip_any_Some by blast
    have "trim_any ps r = []" using "1.prems" Some by (simp add: trim_any.simps [of ps s])
    from "1.IH" [OF Some this] w show ?thesis by (auto simp: suffix_def)
  qed
qed

lemma trim_any_no_more: "strip_any ps (trim_any ps s) = None"
proof (induction ps s rule: trim_any.induct)
  case (1 ps s)
  then show ?case by (cases "strip_any ps s") (simp_all add: trim_any.simps [of ps s])
qed

lemma blank_all_whitespace: "trim s = [] \<Longrightarrow> trim_start s = []"
proof (rule ccontr)
  assume "trim s = []" and ne: "trim_start s \<noteq> []"
  then have "trim_any (map rev ws_chars) (rev (trim_start s)) = []" by (simp add: trim_def trim_end_def)
  from trim_any_all [OF this] ne obtain w where w: "w \<in> set ws_chars" "w \<noteq> []" "suffix (rev w) (rev (trim_start s))"
    by auto
  then have "prefix w (trim_start s)" by (simp add: suffix_to_prefix)
  with strip_any_None [of ws_chars "trim_start s" w] w show False
    using trim_any_no_more [of ws_chars s] by (simp add: trim_start_def)
qed

lemma indent_width_le: "indent_width l \<le> length l"
  by (simp add: indent_width_def)

text \<open>The pieces between newlines.\<close>

lemma utf8_ascii_suffix: "utf8_valid (l @ c # r) \<Longrightarrow> byte c < 128 \<Longrightarrow> utf8_valid l \<and> utf8_valid r"
proof -
  assume v: "utf8_valid (l @ c # r)" and c: "byte c < 128"
  have "is_char_boundary (l @ c # r) (length l)" "is_char_boundary (l @ c # r) (Suc (length l))"
    using ascii_boundary [OF v, of "length l"] c by simp_all
  from utf8_split [OF v this(1)] utf8_split [OF v this(2)] show ?thesis by simp
qed

lemma split_newline_valid: "utf8_valid s \<Longrightarrow> p \<in> set (split_chr lf s) \<Longrightarrow> utf8_valid p"
proof (induction "length s" arbitrary: s rule: less_induct)
  case less
  show ?case
  proof (cases "lf \<in> set s")
    case False
    then show ?thesis using less.prems by (simp add: split_chr_none)
  next
    case True
    then obtain l r where s: "s = l @ lf # r" "lf \<notin> set l" by (meson split_list_first)
    then have "utf8_valid l" "utf8_valid r" using utf8_ascii_suffix [of l lf r] less.prems(1) by simp_all
    moreover from less.prems(2) s have "p = l \<or> p \<in> set (split_chr lf r)" by (simp add: split_chr_append)
    ultimately show ?thesis using less.hyps [of r] s(1) by auto
  qed
qed

lemma strip_cr_valid: "utf8_valid s \<Longrightarrow> utf8_valid (strip_cr s)"
proof (cases s rule: rev_cases)
  case (snoc l c)
  assume v: "utf8_valid s"
  have "byte CHR 0x0D < 128" by (simp add: byte_def)
  with v snoc utf8_ascii_suffix [of l c "[]"] show ?thesis by auto
qed simp

lemma lines_valid: "utf8_valid s \<Longrightarrow> l \<in> set (lines s) \<Longrightarrow> utf8_valid l"
proof -
  assume s: "utf8_valid s" and l: "l \<in> set (lines s)"
  have p: "utf8_valid p" if "p \<in> set (split_chr lf s)" for p using split_newline_valid [OF s that] .
  from l consider q where "q \<in> set (butlast (split_chr lf s))" "l = strip_cr q"
    | "l = last (split_chr lf s)"
    by (auto simp: lines_def Let_def lf_def simp del: strip_cr.simps split: if_splits)
  then show ?thesis
  proof cases
    case 1
    then show ?thesis using p [OF in_set_butlastD] strip_cr_valid by blast
  next
    case 2
    then show ?thesis using p by simp
  qed
qed

section \<open>Block scalars\<close>

text \<open>The whitespace that opens a line is ASCII.\<close>

definition ascii_indent :: "str \<Rightarrow> bool" where
  "ascii_indent l \<longleftrightarrow> (\<forall>c \<in> set (take (length l - length (trim_start l)) l). byte c < 128)"

lemma indent_cut:
  assumes "utf8_valid l" "ascii_indent l" "n \<le> indent_width l"
  shows "is_char_boundary l n"
proof (cases n)
  case (Suc m)
  then have "m < indent_width l" "m < length l" using assms(3) indent_width_le [of l] by simp_all
  then have "l ! m \<in> set (take (indent_width l) l)" by (auto simp: in_set_conv_nth)
  then have "byte (l ! m) < 128" using assms(2) by (simp add: ascii_indent_def indent_width_def)
  with Suc ascii_boundary(2) [OF assms(1) \<open>m < length l\<close>] show ?thesis by simp
qed simp

lemma scalar_content_total:
  "\<forall>l \<in> set ls. utf8_valid l \<and> ascii_indent l \<Longrightarrow> scalar_content n ls \<noteq> None"
proof (induction ls)
  case (Cons l ls)
  have cut: "str_slice l (Span n (length l)) \<noteq> None" if "n \<le> indent_width l"
    using that indent_cut [of l n] Cons.prems indent_width_le [of l] by (simp add: str_slice_def span_in_def)
  have blank: "indent_width l = length l" if "trim l = []"
    using blank_all_whitespace [OF that] by (simp add: indent_width_def)
  show ?case
    using Cons cut blank by (auto simp: Let_def bind_eq_None_conv not_less)
qed simp

lemma fm_block_scalar_total:
  "\<forall>l \<in> set ls. utf8_valid l \<and> ascii_indent l \<Longrightarrow> fm_block_scalar ls at h \<noteq> None"
proof -
  assume ls: "\<forall>l \<in> set ls. utf8_valid l \<and> ascii_indent l"
  have c: "\<exists>c. scalar_content n (drop (Suc at) ls) = Some c" for n
    using scalar_content_total [of "drop (Suc at) ls" n] ls by (auto dest: in_set_dropD)
  show ?thesis
  proof (cases "block_indent h (drop (Suc at) ls)")
    case (Some k)
    show ?thesis
    proof (cases k)
      case (Suc i)
      obtain c where "scalar_content (Suc i) (drop (Suc at) ls) = Some c" using c by blast
      then show ?thesis using Some Suc by (simp add: fm_block_scalar_def Let_def)
    qed (simp add: fm_block_scalar_def Some)
  qed (simp add: fm_block_scalar_def)
qed

lemma fm_pairs_total:
  "\<forall>l \<in> set ls. utf8_valid l \<and> ascii_indent l \<Longrightarrow> fm_pairs ls at rest pairs \<noteq> None"
proof (induction ls at rest pairs rule: fm_pairs.induct)
  case (2 ls at l rest pairs)
  have v: "\<exists>v. fm_value_at ls at r = Some v" for r
    using fm_block_scalar_total [OF "2.prems"] by (auto simp: fm_value_at_def split: option.split)
  show ?case
  proof (cases "(trim l = ''---'' \<or> trim l = []) \<or> fm_top_key l = None")
    case False
    then obtain key colon where k: "fm_top_key l = Some (key, colon)" by auto
    obtain x where x: "fm_value_at ls at (trim (drop (Suc colon) l)) = Some x" using v by blast
    show ?thesis using 2(3,4) [OF _ k refl] False k x 2(5) by auto
  qed (use 2(1,2,5) in auto)
qed simp

section \<open>The build\<close>

text \<open>
  What the parser owes, the spans of whole characters in the order of their starts, and the condition on the lines of
  the frontmatter block it reports.
\<close>

definition stream_ok :: "str \<Rightarrow> dialect_node list \<Rightarrow> bool" where
  "stream_ok s ds \<longleftrightarrow> dialect_ok s ds \<and> sorted (map (\<lambda>d. lo (dspan d)) ds)"

definition block_indents_ascii :: "str \<Rightarrow> dialect_node list \<Rightarrow> bool" where
  "block_indents_ascii s ds \<longleftrightarrow>
     (\<forall>d \<in> set ds. is_fm_dialect (dkind d) \<longrightarrow>
        (\<forall>l \<in> set (lines (sub s (lo (dspan d)) (extend_terminator s (hi (dspan d))))). ascii_indent l))"

lemma leaf_node_total: "good_span s r \<Longrightarrow> leaf_node hash s k r \<noteq> None"
  by (simp add: leaf_node_Some good_span_def flip: not_Some_eq)

lemma fm_node_total:
  assumes "utf8_valid s" "good_span s r"
    and "\<forall>l \<in> set (lines (sub s (lo r) (extend_terminator s (hi r)))). ascii_indent l"
  shows "fm_node hash s r \<noteq> None"
proof -
  let ?r = "Span (lo r) (extend_terminator s (hi r))"
  have g: "good_span s ?r" using assms(1,2) by (rule extend_terminator_good)
  then have "utf8_valid (sub s (lo ?r) (hi ?r))"
    using assms(1) by (intro utf8_sub) (auto simp: good_span_def span_in_def)
  then have "parse_frontmatter s ?r \<noteq> None"
    unfolding parse_frontmatter_def str_slice_good [OF g] Let_def option.case
    using assms(3) by (intro fm_pairs_total) (auto dest: lines_valid)
  then show ?thesis using leaf_node_total [OF g] by (auto simp: fm_node_def Let_def bind_eq_None_conv)
qed

lemma leaf_span_total: "good_span s r \<Longrightarrow> leaf_span s hosts fm k r \<noteq> None"
  by (auto simp: leaf_span_def anchor_host_span_def good_span_def span_in_def Let_def split: node_kind.split)

lemma collect_total:
  assumes "utf8_valid s" "\<forall>h \<in> set hosts. good_span s h"
  shows "dialect_ok s ds \<Longrightarrow> block_indents_ascii s ds \<Longrightarrow> collect hash s hosts fm ds acc \<noteq> None"
proof (induction ds arbitrary: acc)
  case (Cons d ds)
  obtain k r where d: "d = Dialect k r" by (cases d)
  have r: "good_span s r" using Cons.prems(1) d by (simp add: dialect_ok_def)
  have IH: "collect hash s hosts fm ds acc \<noteq> None" for acc
    using Cons by (simp add: dialect_ok_def block_indents_ascii_def)
  show ?case
  proof (cases "leaf_kind k")
    case None
    then consider (fm) ks where "k = DFrontmatter ks" | (heading) lv t where "k = DHeading lv t"
      by (cases k) auto
    then show ?thesis
    proof cases
      case fm
      then have "fm_node hash s r \<noteq> None"
        using fm_node_total [OF assms(1) r] Cons.prems(2) d by (simp add: block_indents_ascii_def)
      then show ?thesis using fm d IH by (auto simp: bind_eq_None_conv)
    next
      case heading
      then show ?thesis using d IH by simp
    qed
  next
    case (Some nk)
    obtain r' where r': "leaf_span s hosts fm nk r = Some r'"
      using leaf_span_total [OF r] by blast
    have "leaf_node hash s nk r' \<noteq> None"
      using leaf_span_good [OF assms r r'] by (rule leaf_node_total)
    then show ?thesis unfolding d collect_leaf [OF Some] using r' IH by (auto simp: bind_eq_None_conv)
  qed
qed simp

text \<open>The headings come out in the order of the stream.\<close>

lemma collect_headings_eq:
  "collect hash s hosts fm ds acc = Some acc' \<Longrightarrow>
   map fst (acc_headings acc') = map fst (acc_headings acc) @
     map (\<lambda>d. lo (dspan d)) (filter (\<lambda>d. \<exists>lv t. dkind d = DHeading lv t) ds)"
proof (induction ds arbitrary: acc)
  case (Cons d ds)
  obtain k r where d: "d = Dialect k r" by (cases d)
  show ?case
  proof (cases "leaf_kind k")
    case None
    then consider (fm) ks where "k = DFrontmatter ks" | (heading) lv t where "k = DHeading lv t"
      by (cases k) auto
    then show ?thesis
    proof cases
      case fm
      with Cons.prems d obtain n where
        "collect hash s hosts fm ds (acc\<lparr>acc_fm := Some n\<rparr>) = Some acc'"
        by (auto simp: bind_eq_Some_conv)
      from Cons.IH [OF this] show ?thesis using fm d by simp
    next
      case heading
      with Cons.prems d have
        "collect hash s hosts fm ds (acc\<lparr>acc_headings := acc_headings acc @ [(lo r, lv, t)]\<rparr>) = Some acc'"
        by simp
      from Cons.IH [OF this] show ?thesis using heading d by simp
    qed
  next
    case (Some nk)
    then obtain n where
      "collect hash s hosts fm ds (acc\<lparr>acc_leaves := acc_leaves acc @ [n]\<rparr>) = Some acc'"
      using Cons.prems unfolding d collect_leaf [OF Some] by (auto simp: bind_eq_Some_conv)
    from Cons.IH [OF this] Some show ?thesis using d by (cases k) auto
  qed
qed simp

lemma section_nodes_total:
  "sorted (map fst hs) \<Longrightarrow> \<forall>h \<in> set hs. fst h \<le> length s \<Longrightarrow> section_nodes hash s hs \<noteq> None"
proof (induction hs)
  case (Cons h hs)
  obtain st l t where h: "h = (st, l, t)" by (cases h)
  have e: "st \<le> section_end (length s) l hs \<and> section_end (length s) l hs \<le> length s"
    using Cons.prems by (induction hs) (auto simp: h)
  then have "leaf_node hash s (Section t l) (Span st (section_end (length s) l hs)) \<noteq> None"
    by (simp add: leaf_node_Some span_in_def flip: not_Some_eq)
  moreover have "section_nodes hash s hs \<noteq> None" using Cons by simp
  ultimately show ?case by (auto simp: h bind_eq_None_conv)
qed simp

theorem build_total:
  assumes "utf8_valid s" "stream_ok s ds" "block_indents_ascii s ds"
  shows "build hash s ds \<noteq> None"
proof -
  define hosts where "hosts = map dspan (filter (\<lambda>d. is_host (dkind d)) ds)"
  define fm where "fm = map_option dspan (find (\<lambda>d. is_fm_dialect (dkind d)) ds)"
  have ok: "dialect_ok s ds" using assms(2) by (simp add: stream_ok_def)
  have hosts: "\<forall>h \<in> set hosts. good_span s h" using ok by (auto simp: hosts_def dialect_ok_def)
  obtain acc where acc: "collect hash s hosts fm ds \<lparr>acc_fm = None, acc_headings = [], acc_leaves = []\<rparr> = Some acc"
    using collect_total [OF assms(1) hosts ok assms(3)] by blast
  have "sorted (map (\<lambda>d. lo (dspan d)) (filter (\<lambda>d. \<exists>lv t. dkind d = DHeading lv t) ds))"
    using assms(2) by (simp add: stream_ok_def sorted_filter)
  then have "sorted (map fst (acc_headings acc))" using collect_headings_eq [OF acc] by simp
  moreover have "\<forall>h \<in> set (acc_headings acc). fst h \<le> length s"
    using collect_headings [OF acc] ok by (fastforce simp: dialect_ok_def good_span_def span_in_def)
  ultimately have "section_nodes hash s (acc_headings acc) \<noteq> None" by (rule section_nodes_total)
  then obtain items where "build_items hash s ds = Some items"
    using acc by (auto simp: build_items_def Let_def hosts_def fm_def)
  then show ?thesis
    by (auto simp: build_def node_rev_at_def byte_slice_def span_in_def Let_def simp del: sort_tree.simps)
qed

end
