(* ===== verification/Batch_Props.thy ===== *)
theory Batch_Props
  imports Splice_Props Build_Total
begin

text \<open>
  Further properties of the splice: validation never panics, the overlap verdict, the upsert
  door, the one-occurrence match, and the two losses the reparse guard misses or invents.
\<close>

section \<open>Validation does not panic\<close>

lemma collect_lost_total:
  assumes "doc_ok hash nd"
  shows "collect_lost hash ps nd n \<noteq> None"
proof (induction n)
  case (Node k r v h cs)
  have "resolve_full hash nd (Hpath (map seg_of p)) \<noteq> None" for p
    using resolve_full_total [OF assms, of "Hpath (map seg_of p)"] by auto
  then have "lost_here hash ps nd k r h \<noteq> None"
    by (auto simp: lost_here_def bind_eq_None_conv simp del: resolve_full.simps not_None_eq
        split: node_kind.split option.split)
  moreover have "each (collect_lost hash ps nd) cs \<noteq> None"
    using Node.IH by (intro each_no_panic)
  ultimately show ?case by auto
qed

lemma write_past_total:
  "doc_ok hash nd \<Longrightarrow> length gs \<le> length ps \<Longrightarrow> \<forall>p \<in> set ps. good_span s (region p) \<Longrightarrow>
   first_write_past_its_span hash s nd ps gs \<noteq> None"
proof (induction hash s nd ps gs rule: first_write_past_its_span.induct)
  case (4 hash s nd p ps t v gs)
  obtain found where f: "resolve_full hash nd t = Some found"
    using resolve_full_total [OF "4.prems"(1), of t] by blast
  have old: "str_slice s (region p) = Some (sub s (lo (region p)) (hi (region p)))"
    using "4.prems"(3) by (simp add: str_slice_good)
  have same: "sub s (lo (region p)) (hi (region p)) = new_text p \<Longrightarrow>
      first_write_past_its_span hash s nd ps gs \<noteq> None"
    using "4.IH"(1) [OF old] "4.prems" by simp
  have err: "sub s (lo (region p)) (hi (region p)) \<noteq> new_text p \<Longrightarrow> found = Inl x \<Longrightarrow>
      first_write_past_its_span hash s nd ps gs \<noteq> None" for x
    using "4.IH"(2) [OF old _ f] "4.prems" by simp
  have moved: "sub s (lo (region p)) (hi (region p)) \<noteq> new_text p \<Longrightarrow> found = Inr r \<Longrightarrow>
      res_rev r \<noteq> v \<Longrightarrow> first_write_past_its_span hash s nd ps gs \<noteq> None" for r
    using "4.IH"(3) [OF old _ f] "4.prems" by simp
  show ?case
    using old f same err moved by (cases found) (auto simp del: resolve_full.simps)
qed auto

lemma plan_batch_total: "doc_ok hash doc \<Longrightarrow> plan_batch hash doc live b \<noteq> None"
  using plan_edits_total by (auto simp: plan_batch_def attempt_None Let_def)

lemma reparse_guards_total:
  assumes "doc_ok hash doc"
    and parser: "\<And>s. apply_regions (raw doc) ps = Some s \<Longrightarrow>
      stream_ok s (parse s) \<and> block_indents_ascii s (parse s)"
    and "first_overlap ps = None" and "length gs \<le> length ps"
    and "\<forall>p \<in> set ps. good_span (raw doc) (region p) \<and> utf8_valid (new_text p)"
  shows "reparse_guards hash parse doc ps gs \<noteq> None"
proof -
  define es where "es = map region_pair (sort_key region_key ps)"
  define new_raw where "new_raw = spliced (raw doc) 0 es"
  have nr: "apply_regions (raw doc) ps = Some new_raw"
    unfolding new_raw_def es_def using assms by (intro apply_regions_total) auto
  have "utf8_valid new_raw"
    unfolding new_raw_def
  proof (rule spliced_hd)
    show "utf8_valid (raw doc)" using assms(1) by (simp add: doc_ok_def)
    show "good_pairs (raw doc) es" unfolding es_def using assms(5) by (intro ordered_good) auto
    show "chain_from 0 es" unfolding es_def using assms(3) by (rule ordered_chain)
    show "\<forall>e \<in> set es. utf8_valid (snd e)" using assms(5) by (auto simp: es_def region_pair_def)
  qed simp
  moreover note parser [OF nr]
  ultimately obtain nd where nd: "build hash new_raw (parse new_raw) = Some nd"
    using build_total [of new_raw "parse new_raw" hash] by blast
  have "doc_ok hash nd"
    using build_doc_ok(1) [OF _ _ nd] \<open>utf8_valid new_raw\<close> parser [OF nr] by (simp add: stream_ok_def)
  note nd = nd this
  obtain lost where lost: "collect_lost hash ps nd (root doc) = Some lost"
    using collect_lost_total [OF nd(2)] by blast
  obtain past where past: "first_write_past_its_span hash (raw doc) nd ps gs = Some past"
    using write_past_total [OF nd(2) assms(4)] assms(5) by blast
  show ?thesis
    using nr nd lost past
    by (cases lost; cases past) (auto simp: reparse_guards_def would_corrupt_def)
qed

text \<open>
  Claim C3. Validation returns a verdict on every batch, whatever its edits name: no slice of the
  planning, the splice, the reparse or the guards panics. This is under two conditions on the text the
  batch makes: the parser reports spans of whole characters in the order of their starts, and the lines
  of the frontmatter block it reports are indented by ASCII blanks only. The second one is needed:
  the block scalar of \<open>block_scalar_panics\<close> is cut inside a wider blank.
\<close>

theorem validate_batch_never_panics:
  assumes "doc_ok hash doc" and "request_ok b"
    and "\<And>ps gs s. plan_batch hash doc live b = Some (Inr (ps, gs)) \<Longrightarrow> apply_regions (raw doc) ps = Some s \<Longrightarrow>
      stream_ok s (parse s) \<and> block_indents_ascii s (parse s)"
  shows "\<exists>v. validate_batch hash parse doc live b receipt = Some v"
proof -
  obtain pb where pb: "plan_batch hash doc live b = Some pb"
    using plan_batch_total [OF assms(1)] by blast
  have "attempt (plan_batch hash doc live b) (\<lambda>(ps, guarded).
       attempt (reparse_guards hash parse doc ps guarded) (\<lambda>_. Some (Inr (seal ps receipt)))) \<noteq> None"
  proof (cases pb)
    case (Inr x)
    obtain ps gs where x: "x = (ps, gs)" by (cases x)
    note good = plan_batch_good [OF assms(1,2), of live ps gs]
    have "reparse_guards hash parse doc ps gs \<noteq> None"
      using good pb Inr x assms(3) by (intro reparse_guards_total assms(1)) simp_all
    with pb Inr x show ?thesis by (auto simp: attempt_None)
  qed (simp add: pb)
  then show ?thesis by (auto simp: validate_batch_def)
qed

theorem validate_batch_never_panics_witness:
  "\<exists>v. validate_batch sample_hash sample_parse sample_doc (Some ''r'') sample_request None = Some v"
proof (rule validate_batch_never_panics [OF sample_doc_ok sample_request_ok])
  fix ps gs s
  assume "plan_batch sample_hash sample_doc (Some ''r'') sample_request = Some (Inr (ps, gs))"
    and s: "apply_regions (raw sample_doc) ps = Some s"
  then have "ps = sample_planned" using sample_plan by simp
  moreover have "apply_regions (raw sample_doc) sample_planned = Some sample_new_text" by code_simp
  ultimately have "s = sample_new_text" using s by simp
  moreover have "stream_ok sample_new_text (sample_parse sample_new_text)" by code_simp
  moreover have "block_indents_ascii sample_new_text (sample_parse sample_new_text)" by code_simp
  ultimately show "stream_ok s (sample_parse s) \<and> block_indents_ascii s (sample_parse s)" by simp
qed

section \<open>Disjointness\<close>

text \<open>
  Claim C7. The overlap verdict is the pairwise one, whatever the order of the batch: regions
  pass exactly when every two of them are disjoint, touching ends and insertions at a shared
  byte included.
\<close>

theorem overlap_verdict_pairwise:
  assumes "\<forall>p \<in> set ps. lo (region p) \<le> hi (region p)"
  shows "first_overlap ps = None \<longleftrightarrow>
    (\<forall>i < length ps. \<forall>j < i. region_disjoint (region (ps ! j)) (region (ps ! i)))"
  using first_overlap_pairwise [of ps] assms
  by (auto simp: well_ranged_def pairwise_disjoint_def sorted_wrt_iff_nth_less)

theorem overlap_verdict_pairwise_witness:
  "first_overlap [\<lparr>region = Span 4 16, new_text = ''x''\<rparr>, \<lparr>region = Span 4 4, new_text = ''y''\<rparr>] = None"
  by (subst overlap_verdict_pairwise) (auto simp: region_disjoint_def less_Suc_eq nth_Cons')

lemma first_duplicate_from_None:
  "first_duplicate_from all ps i ks = None \<Longrightarrow> drop i all = ks \<Longrightarrow>
   j < length ks \<Longrightarrow> ks ! j = Some key \<Longrightarrow> Some key \<notin> set (take (i + j) all)"
proof (induction all ps i ks arbitrary: j rule: first_duplicate_from.induct)
  case (2 all ps i ks)
  have tl: "drop (Suc i) all = ks" using "2.prems"(2) by (simp add: drop_Suc tl_drop [symmetric])
  show ?case
  proof (cases j)
    case (Suc m)
    with "2.IH" [OF _ tl, of m] "2.prems" show ?thesis by simp
  qed (use "2.prems" in simp)
next
  case (3 all ps i k ks)
  have tl: "drop (Suc i) all = ks" using "3.prems"(2) by (simp add: drop_Suc tl_drop [symmetric])
  from "3.prems"(1) have none: "position (\<lambda>earlier. earlier = Some k) (take i all) = None"
    "first_duplicate_from all ps (Suc i) ks = None"
    by (auto split: option.splits)
  show ?case
  proof (cases j)
    case 0
    with none "3.prems"(4) show ?thesis by (auto simp: position_None)
  next
    case (Suc m)
    with "3.IH" [OF none(1) none(2) tl, of m] "3.prems" show ?thesis by simp
  qed
qed simp

text \<open>
  One key, one upsert: a validated batch never upserts a frontmatter key twice, whether
  or not the key existed before.
\<close>

theorem validated_upserts_distinct:
  assumes "validate_batch hash parse doc live b receipt = Some (Validated vb)"
    and "j < i" and "i < length (edits b)"
    and "fm_upsert_key (edits b ! i) = Some key"
  shows "fm_upsert_key (edits b ! j) \<noteq> Some key"
  using assms(1)
proof (rule validate_batch_Validated)
  fix ps gs
  assume "plan_batch hash doc live b = Some (Inr (ps, gs))"
  then show ?thesis
  proof (rule plan_batch_Inr)
    assume "first_duplicate_fm_upsert (map fm_upsert_key (edits b)) ps = None"
    then have "Some key \<notin> set (take i (map fm_upsert_key (edits b)))"
      using first_duplicate_from_None [of _ ps 0 _ i key] assms(3,4)
      by (simp add: first_duplicate_fm_upsert_def del: fm_upsert_key.simps)
    then show ?thesis
      using assms(2,3) by (auto simp: in_set_conv_nth simp del: fm_upsert_key.simps)
  qed
qed

theorem validated_upserts_distinct_witness:
  "fm_upsert_key (edits sample_request ! 0) \<noteq> Some ''k''"
  by (rule validated_upserts_distinct [OF sample_validated, of 0 1]) code_simp+

section \<open>The upsert door on a document without frontmatter\<close>

definition upsert_line :: "edit \<Rightarrow> str" where
  "upsert_line e =
     (case (edit_shape e, edit_target e) of (Put _ val, FmKey key) \<Rightarrow> key_line key val @ [lf] | _ \<Rightarrow> [])"

lemma plan_one_birth:
  assumes "find_frontmatter (root doc) = None" and "fm_upsert_key e \<noteq> None"
    and "plan_one hash doc n seen e = Some (Inr pg)"
  shows "region (fst pg) = Span 0 0 \<and>
    new_text (fst pg) = synth_text (synth_of n seen) (butlast (upsert_line e)) \<and>
    upsert_line e = butlast (upsert_line e) @ [lf]"
proof -
  obtain key val where e: "edit_shape e = Put AtUpsert val" "edit_target e = FmKey key"
    using assms(2) fm_upsert_key_Some by blast
  have "resolve_fm_key hash doc key = Some None"
    by (simp add: resolve_fm_key_def assms(1))
  then show ?thesis
    using assms e
    by (auto simp: plan_one_def plan_upsert_def bind_eq_Some_conv and_then_Inr plan_fm_upsert_def
        upsert_line_def)
qed

lemma birth_texts:
  assumes "find_frontmatter (root doc) = None"
  shows "plan_edits hash doc n seen es = Some (Inr pgs) \<Longrightarrow> \<forall>e \<in> set es. fm_upsert_key e \<noteq> None \<Longrightarrow>
    2 \<le> n \<Longrightarrow> 0 < seen \<Longrightarrow> seen + length es = n \<Longrightarrow>
    concat (map (\<lambda>pg. new_text (fst pg)) pgs) =
      concat (map upsert_line es) @ (if es = [] then [] else fm_fence) \<and>
    (\<forall>pg \<in> set pgs. region (fst pg) = Span 0 0)"
proof (induction es arbitrary: seen pgs)
  case (Cons e es)
  obtain p ps where p: "plan_one hash doc n seen e = Some (Inr p)"
    "plan_edits hash doc n (Suc seen) es = Some (Inr ps)" "pgs = p # ps"
    using Cons.prems(1-3) unfolding plan_edits_Cons by (auto simp: attempt_Inr)
  have IH: "concat (map (\<lambda>pg. new_text (fst pg)) ps) =
      concat (map upsert_line es) @ (if es = [] then [] else fm_fence) \<and>
    (\<forall>pg \<in> set ps. region (fst pg) = Span 0 0)"
    by (rule Cons.IH [OF p(2)]) (use Cons.prems in \<open>simp_all del: fm_upsert_key.simps\<close>)
  have b: "region (fst p) = Span 0 0"
    "new_text (fst p) = synth_text (synth_of n seen) (butlast (upsert_line e))"
    "upsert_line e = butlast (upsert_line e) @ [lf]"
    using plan_one_birth [OF assms _ p(1)] Cons.prems(2) by simp_all
  have "synth_of n seen = (if es = [] then Close else Mid)"
    using Cons.prems(3-5) by (cases es) (simp_all add: synth_of_def)
  moreover obtain l where "upsert_line e = l @ [lf]" using b(3) by blast
  ultimately have "new_text (fst p) = upsert_line e @ (if es = [] then fm_fence else [])"
    using b(2) by simp
  with b(1) IH p(3) show ?case by (cases "es = []") auto
qed simp

lemma block_synth:
  assumes "find_frontmatter (root doc) = None" and "\<forall>e \<in> set es. fm_upsert_key e \<noteq> None"
    and "es \<noteq> []" and "plan_edits hash doc (length es) 0 es = Some (Inr pgs)"
  shows "concat (map (\<lambda>pg. new_text (fst pg)) pgs) = fm_fence @ concat (map upsert_line es) @ fm_fence \<and>
    (\<forall>pg \<in> set pgs. region (fst pg) = Span 0 0)"
proof -
  obtain e es' where es: "es = e # es'" using assms(3) by (cases es) auto
  define seen where "seen = (if 2 \<le> length es then Suc 0 else 0)"
  obtain p ps where p: "plan_one hash doc (length es) 0 e = Some (Inr p)"
    "plan_edits hash doc (length es) seen es' = Some (Inr ps)" "pgs = p # ps"
    using assms(2,4) unfolding es plan_edits_Cons seen_def by (auto simp: attempt_Inr)
  have b: "region (fst p) = Span 0 0"
    "new_text (fst p) = synth_text (synth_of (length es) 0) (butlast (upsert_line e))"
    "upsert_line e = butlast (upsert_line e) @ [lf]"
    using plan_one_birth [OF assms(1) _ p(1)] assms(2) es by simp_all
  show ?thesis
  proof (cases "es' = []")
    case True
    then have "synth_of (length es) 0 = Whole" by (simp add: es synth_of_def)
    moreover obtain l where "upsert_line e = l @ [lf]" using b(3) by blast
    ultimately have "new_text (fst p) = fm_fence @ upsert_line e @ fm_fence"
      using b(2) by simp
    with True b(1) p es show ?thesis by simp
  next
    case False
    then have n: "2 \<le> length es" by (cases es') (simp_all add: es)
    then have "synth_of (length es) 0 = Open" by (simp add: synth_of_def)
    moreover obtain l where "upsert_line e = l @ [lf]" using b(3) by blast
    ultimately have o: "new_text (fst p) = fm_fence @ upsert_line e"
      using b(2) by simp
    have "concat (map (\<lambda>pg. new_text (fst pg)) ps) = concat (map upsert_line es') @ fm_fence \<and>
      (\<forall>pg \<in> set ps. region (fst pg) = Span 0 0)"
      using birth_texts [OF assms(1) p(2)] False n assms(2) by (simp add: seen_def es)
    with o b(1) p(3) es show ?thesis by simp
  qed
qed

lemma spliced_at_zero:
  "\<forall>e \<in> set es. fst e = Span 0 0 \<Longrightarrow> spliced s 0 es = concat (map snd es) @ s"
  by (induction es) auto

text \<open>
  One block: on a document without frontmatter a batch of key upserts lands as a single
  frontmatter block at the top, one line per upsert in request order, and the old text follows
  unchanged.
\<close>

theorem upserts_compose_one_block:
  assumes "doc_ok hash doc" and "request_ok b"
    and "validate_batch hash parse doc live b receipt = Some (Validated vb)"
    and "find_frontmatter (root doc) = None"
    and "\<forall>e \<in> set (edits b). fm_upsert_key e \<noteq> None" and "edits b \<noteq> []" and "engine b = None"
  shows "apply_spans (raw doc) (map ve_pair (vb_edits vb)) =
    Some (fm_fence @ concat (map upsert_line (edits b)) @ fm_fence @ raw doc)"
  using assms(3)
proof (rule validate_batch_Validated)
  fix ps gs
  assume ps: "plan_batch hash doc live b = Some (Inr (ps, gs))" and vb: "vb = seal ps receipt"
  obtain pgs eng where pgs: "plan_edits hash doc (synth_total doc (edits b)) 0 (edits b) = Some (Inr pgs)"
    and eng: "engine_plan (raw doc) (engine b) = Inr eng" and pseq: "ps = map fst pgs @ eng"
    using ps by (rule plan_batch_Inr)
  have st: "synth_total doc (edits b) = length (edits b)"
    using assms(4,5) by (simp add: synth_total_def del: fm_upsert_key.simps)
  have "eng = []" using eng assms(7) by (simp add: engine_plan_def)
  with pseq block_synth [OF assms(4,5,6)] pgs
  have t: "concat (map new_text ps) = fm_fence @ concat (map upsert_line (edits b)) @ fm_fence"
    and r: "\<forall>p \<in> set ps. region p = Span 0 0"
    by (auto simp: st comp_def)
  have "map region_key ps = map (\<lambda>p. (0, 0)) ps" using r by (simp add: region_key_def)
  then have "sorted (map region_key ps)" by (simp add: sorted_iff_nth_mono)
  then have "sort_key region_key ps = ps" by (simp add: sort_key_id_if_sorted)
  then have "map ve_pair (vb_edits vb) = map region_pair ps"
    by (simp add: vb seal_pairs)
  moreover have "spliced (raw doc) 0 (map region_pair ps) = concat (map new_text ps) @ raw doc"
    using r by (subst spliced_at_zero) (auto simp: region_pair_def comp_def)
  ultimately show ?thesis
    using validated_text(2) [OF assms(1,2) ps vb] t by simp
qed

text \<open>A document without frontmatter and its parse after the births.\<close>

definition bare_doc :: document where
  "bare_doc = \<lparr>raw = ''x'', root = Node (DocumentNode [] 1) (Span 0 1) (rev_of sample_hash ''x'') None []\<rparr>"

definition births :: splice_request where
  "births = \<lparr>if_root = None,
     edits = [\<lparr>edit_target = FmKey ''a'', edit_shape = Put AtUpsert ''1'', if_node_rev = None\<rparr>,
              \<lparr>edit_target = FmKey ''b'', edit_shape = Put AtUpsert ''2'', if_node_rev = None\<rparr>],
     engine = None\<rparr>"

definition births_planned :: "planned_edit list" where
  "births_planned =
     [\<lparr>region = Span 0 0, new_text = fm_fence @ ''a: 1'' @ [lf]\<rparr>,
      \<lparr>region = Span 0 0, new_text = ''b: 2'' @ [lf] @ fm_fence\<rparr>]"

lemma bare_build: "build sample_hash ''x'' [] = Some bare_doc"
proof -
  have "build_items sample_hash ''x'' [] = Some []" by code_simp
  moreover have "length (lines ''x'') = 1" by code_simp
  moreover have "assign_hpath (sort_tree (Node (DocumentNode [] 1) (Span 0 1)
      (rev_of sample_hash ''x'') None (nest_by_containment []))) = root bare_doc" by code_simp
  ultimately show ?thesis
    by (subst build_from_items) (simp_all add: u32_max_def bare_doc_def del: sort_tree.simps)
qed

lemma births_validated:
  "validate_batch sample_hash (\<lambda>_. []) bare_doc None births None = Some (Validated (seal births_planned None))"
proof -
  define s where "s = fm_fence @ ''a: 1'' @ [lf] @ ''b: 2'' @ [lf] @ fm_fence @ ''x''"
  obtain nd where nd: "build sample_hash s [] = Some nd"
  proof -
    have "utf8_valid s" unfolding s_def by code_simp
    moreover have "stream_ok s []" "block_indents_ascii s []"
      by (simp_all add: stream_ok_def dialect_ok_def block_indents_ascii_def)
    ultimately show ?thesis using build_total [of s "[]" sample_hash] that by blast
  qed
  show ?thesis
  proof (rule validate_from_rungs(1))
    show "plan_batch sample_hash bare_doc None births = Some (Inr (births_planned, [None, None]))"
      by code_simp
    show "apply_regions (raw bare_doc) births_planned = Some s" unfolding s_def by code_simp
    show "build sample_hash s [] = Some nd" by (rule nd)
    show "would_corrupt sample_hash bare_doc births_planned nd = Some None"
      by (simp add: would_corrupt_def bare_doc_def lost_here_def)
    show "first_write_past_its_span sample_hash (raw bare_doc) nd births_planned [None, None] = Some None"
      by (simp add: births_planned_def)
  qed simp
qed

theorem upserts_compose_one_block_witness:
  "apply_spans (raw bare_doc) (map ve_pair (vb_edits (seal births_planned None))) =
     Some (fm_fence @ concat (map upsert_line (edits births)) @ fm_fence @ ''x'')"
proof -
  have "doc_ok sample_hash bare_doc"
    by (rule build_doc_ok(1) [OF _ _ bare_build]) (code_simp, simp add: dialect_ok_def)
  moreover have "request_ok births" by code_simp
  ultimately have "apply_spans (raw bare_doc) (map ve_pair (vb_edits (seal births_planned None))) =
      Some (fm_fence @ concat (map upsert_line (edits births)) @ fm_fence @ raw bare_doc)"
    by (rule upserts_compose_one_block [OF _ _ births_validated])
      (simp_all add: bare_doc_def births_def)
  then show ?thesis by (simp add: bare_doc_def)
qed

section \<open>The exact match\<close>

lemma find_str_Some:
  "find_str p s = Some i \<Longrightarrow> i \<le> length s \<and> prefix p (drop i s) \<and> (\<forall>j < i. \<not> prefix p (drop j s))"
proof (induction p s arbitrary: i rule: find_str.induct)
  case (2 p x xs)
  show ?case
  proof (cases "prefix p (x # xs)")
    case False
    with 2 obtain k where k: "find_str p xs = Some k" "i = Suc k"
      by (auto simp: starts_with_prefix)
    with "2.IH" False show ?thesis by (auto simp: starts_with_prefix less_Suc_eq_0_disj)
  qed (use 2 in \<open>auto simp: starts_with_prefix\<close>)
qed (simp split: if_splits)

lemma find_str_None_at: "find_str p s = None \<Longrightarrow> j \<le> length s \<Longrightarrow> \<not> prefix p (drop j s)"
proof (induction p s arbitrary: j rule: find_str.induct)
  case (2 p x xs)
  then show ?case by (cases j) (auto simp: starts_with_prefix split: if_splits)
qed (simp split: if_splits)

lemma prefix_drop_sub:
  "i + length p \<le> length s \<Longrightarrow> prefix p (drop i s) \<longleftrightarrow> sub s i (i + length p) = p"
  by (auto simp: sub_def prefix_def) (metis append_take_drop_id)

text \<open>An occurrence of \<open>old\<close> inside a range.\<close>

definition occurs_at :: "str \<Rightarrow> span \<Rightarrow> str \<Rightarrow> nat \<Rightarrow> bool" where
  "occurs_at s r old i \<longleftrightarrow> lo r \<le> i \<and> i + length old \<le> hi r \<and> sub s i (i + length old) = old"

lemma occurs_at_hay:
  assumes "span_in s r" and "i + length old \<le> hi r - lo r"
  shows "occurs_at s r old (lo r + i) \<longleftrightarrow> prefix old (drop i (sub s (lo r) (hi r)))"
  using assms
  by (subst prefix_drop_sub)
    (auto simp: occurs_at_def span_in_def length_sub sub_sub add.assoc)

text \<open>
  Claim C8. An exact match replaces an occurrence of the text inside the target, and every other
  occurrence there overlaps it; it answers that nothing matched only if there is no occurrence.
\<close>

theorem match_region_exact:
  assumes "good_span s r"
  shows "case match_region s r old of
      None \<Rightarrow> False
    | Some (Inr reg) \<Rightarrow>
        occurs_at s r old (lo reg) \<and> hi reg = lo reg + length old \<and> old \<noteq> [] \<and>
        (\<forall>i. occurs_at s r old i \<longrightarrow> lo reg \<le> i \<and> i < hi reg)
    | Some (Inl v) \<Rightarrow> v = NoMatch 0 \<and> (\<forall>i. \<not> occurs_at s r old i) \<or> (\<exists>k \<ge> 2. v = NotUnique k)"
proof -
  define hay where "hay = sub s (lo r) (hi r)"
  have r: "span_in s r" "lo r \<le> hi r" "hi r \<le> length s"
    using assms by (auto simp: good_span_def span_in_def)
  have hay: "str_slice s r = Some hay" "length hay = hi r - lo r"
    using assms r by (simp_all add: str_slice_good hay_def length_sub)
  have occ: "occurs_at s r old i \<longleftrightarrow> lo r \<le> i \<and> i + length old \<le> hi r \<and> prefix old (drop (i - lo r) hay)" for i
    using occurs_at_hay [OF r(1), of "i - lo r" old] by (auto simp: hay_def occurs_at_def)
  show ?thesis
  proof (cases "find_str old hay")
    case None
    then have "\<not> occurs_at s r old i" for i
      using find_str_None_at [OF None, of "i - lo r"] hay(2) by (auto simp: occ)
    with None hay show ?thesis by (simp add: match_region_def)
  next
    case (Some first)
    define rest where "rest = drop (first + length old) hay"
    have f: "prefix old (drop first hay)" "\<forall>j < first. \<not> prefix old (drop j hay)"
      "first + length old \<le> length hay"
      using find_str_Some [OF Some] find_str_bound [OF Some] by simp_all
    show ?thesis
    proof (cases "count_matches old rest")
      case 0
      then have "old \<noteq> []" and none: "find_str old rest = None"
        by (auto simp: count_matches.simps [of old rest] split: if_splits option.splits)
      have "lo r + first \<le> i \<and> i < lo r + first + length old" if "occurs_at s r old i" for i
      proof -
        have i: "lo r \<le> i" "i + length old \<le> hi r" "prefix old (drop (i - lo r) hay)"
          using that by (simp_all add: occ)
        with f(2) have "first \<le> i - lo r" by (meson not_le_imp_less)
        moreover have "i - lo r < first + length old"
        proof (rule ccontr)
          assume "\<not> i - lo r < first + length old"
          then obtain d where d: "i - lo r = first + length old + d"
            by (metis le_Suc_ex not_less)
          then have "drop (i - lo r) hay = drop d rest"
            by (simp add: rest_def add.commute)
          with i(3) find_str_None_at [OF none, of d] d i(1,2) hay(2)
          show False by (simp add: rest_def)
        qed
        ultimately show ?thesis using i(1) by linarith
      qed
      with 0 Some hay f \<open>old \<noteq> []\<close> r show ?thesis
        by (simp add: match_region_def rest_def occ)
    next
      case (Suc k)
      with Some hay show ?thesis by (simp add: match_region_def rest_def)
    qed
  qed
qed

theorem match_region_exact_witness:
  "match_region ''aba'' (Span 0 3) ''b'' = Some (Inr (Span 1 2)) \<and>
   occurs_at ''aba'' (Span 0 3) ''b'' 1 \<and> \<not> occurs_at ''aba'' (Span 0 3) ''b'' 0"
proof -
  have m: "match_region ''aba'' (Span 0 3) ''b'' = Some (Inr (Span 1 2))" by code_simp
  have "good_span ''aba'' (Span 0 3)" by code_simp
  from match_region_exact [OF this, of "''b''"] m show ?thesis by auto
qed

end
