(* ===== verification/Loss_Props.thy ===== *)
theory Loss_Props
  imports Batch_Props
begin

text \<open>
  Where the splice and the frontmatter plane do not do what they mean to: closed inputs on which
  a guard refuses a harmless batch, passes a destructive one, or a reader panics.
\<close>

section \<open>A heading inside a callout\<close>

definition callout_text :: str where
  "callout_text = nl_join [''> [!n]'', ''> # A'', ''> # B'', ''# C'', ''body'']"

definition callout_stream :: "dialect_node list" where
  "callout_stream =
     [Dialect (DCallout ''n'' []) (Span 0 18), Dialect (DHeading 1 ''A'') (Span 9 12),
      Dialect (DHeading 1 ''B'') (Span 15 18), Dialect (DHeading 1 ''C'') (Span 19 22)]"

definition callout_items :: "node list" where
  "callout_items =
     [Node (Section ''A'' 1) (Span 9 15) (rev_of sample_hash (sub callout_text 9 15)) None [],
      Node (Section ''B'' 1) (Span 15 19) (rev_of sample_hash (sub callout_text 15 19)) None [],
      Node (Section ''C'' 1) (Span 19 28) (rev_of sample_hash (sub callout_text 19 28)) None [],
      Node (Callout ''n'' []) (Span 0 18) (rev_of sample_hash (sub callout_text 0 18)) None []]"

definition callout_doc :: document where
  "callout_doc = \<lparr>raw = callout_text, root = assign_hpath (sort_tree
     (Node (DocumentNode [] 5) (Span 0 28) (rev_of sample_hash callout_text) None
        (nest_by_containment callout_items)))\<rparr>"

lemma callout_build: "build sample_hash callout_text callout_stream = Some callout_doc"
proof -
  have "build_items sample_hash callout_text callout_stream = Some callout_items" by code_simp
  moreover have "length (lines callout_text) = 5" "length callout_text = 28" by code_simp+
  ultimately show ?thesis
    by (subst build_from_items) (simp_all add: u32_max_def callout_doc_def)
qed

text \<open>Replace a word of the last section by itself.\<close>

definition same_bytes :: splice_request where
  "same_bytes = \<lparr>if_root = None,
     edits = [\<lparr>edit_target = Hpath [seg_of ''C''], edit_shape = MatchEdit ''body'' ''body'',
               if_node_rev = None\<rparr>],
     engine = None\<rparr>"

definition same_planned :: "planned_edit list" where
  "same_planned = [\<lparr>region = Span 23 27, new_text = ''body''\<rparr>]"

definition same_slots :: "guard_slot list" where
  "same_slots = [Some (Hpath [seg_of ''C''], rev_of sample_hash (sub callout_text 19 28))]"

text \<open>
  Claim C11. The containment guard can refuse a harmless write: there is a document whose callout
  holds headings, its nodes built from its own parse, and a batch on it that lies past the callout
  and puts the same bytes back, which is refused as corrupting, as the section nested in the callout
  carries a heading path that does not resolve in the document as it was.
\<close>

theorem callout_section_blocks_writes:
  "build sample_hash callout_text callout_stream = Some callout_doc \<and>
   plan_batch sample_hash callout_doc None same_bytes = Some (Inr (same_planned, same_slots)) \<and>
   list_all (\<lambda>p. hi (dspan (callout_stream ! 0)) \<le> lo (region p)) same_planned \<and>
   apply_regions (raw callout_doc) same_planned = Some (raw callout_doc) \<and>
   resolve sample_hash callout_doc (Hpath [seg_of ''A'']) = Some (Inl NotFound) \<and>
   validate_batch sample_hash (\<lambda>_. callout_stream) callout_doc None same_bytes None =
     Some (WouldCorrupt [[''A'']] (Some Reparented))"
proof -
  have plan: "plan_batch sample_hash callout_doc None same_bytes = Some (Inr (same_planned, same_slots))"
    by code_simp
  have whole: "apply_regions (raw callout_doc) same_planned = Some callout_text" by code_simp
  have lost: "would_corrupt sample_hash callout_doc same_planned callout_doc =
      Some (Some ([[''A'']], Some Reparented))" by code_simp
  have "list_all (\<lambda>p. hi (dspan (callout_stream ! 0)) \<le> lo (region p)) same_planned" by code_simp
  moreover have "validate_batch sample_hash (\<lambda>_. callout_stream) callout_doc None same_bytes None =
     Some (WouldCorrupt [[''A'']] (Some Reparented))"
    by (rule validate_from_rungs(2) [OF plan whole _ lost refl]) (rule callout_build)
  moreover have "resolve sample_hash callout_doc (Hpath [seg_of ''A'']) = Some (Inl NotFound)" by code_simp
  ultimately show ?thesis using plan whole callout_build by (simp add: callout_doc_def)
qed

section \<open>Two sections of one heading\<close>

definition twin_text :: str where "twin_text = nl_join [''# A'', ''# A'']"

definition glued_text :: str where "glued_text = nl_join [''# A'', ''z# A'']"

definition twin_parse :: "str \<Rightarrow> dialect_node list" where
  "twin_parse s =
     (if s = twin_text then [Dialect (DHeading 1 ''A'') (Span 0 3), Dialect (DHeading 1 ''A'') (Span 4 7)]
      else [Dialect (DHeading 1 ''A'') (Span 0 3)])"

definition twin_items :: "node list" where
  "twin_items =
     [Node (Section ''A'' 1) (Span 0 4) (rev_of sample_hash (sub twin_text 0 4)) None [],
      Node (Section ''A'' 1) (Span 4 8) (rev_of sample_hash (sub twin_text 4 8)) None []]"

definition twin_doc :: document where
  "twin_doc = \<lparr>raw = twin_text, root = assign_hpath (sort_tree
     (Node (DocumentNode [] 2) (Span 0 8) (rev_of sample_hash twin_text) None
        (nest_by_containment twin_items)))\<rparr>"

definition glued_items :: "node list" where
  "glued_items = [Node (Section ''A'' 1) (Span 0 9) (rev_of sample_hash (sub glued_text 0 9)) None []]"

definition glued_doc :: document where
  "glued_doc = \<lparr>raw = glued_text, root = assign_hpath (sort_tree
     (Node (DocumentNode [] 2) (Span 0 9) (rev_of sample_hash glued_text) None
        (nest_by_containment glued_items)))\<rparr>"

lemma twin_build: "build sample_hash twin_text (twin_parse twin_text) = Some twin_doc"
proof -
  have "build_items sample_hash twin_text (twin_parse twin_text) = Some twin_items" by code_simp
  moreover have "length (lines twin_text) = 2" "length twin_text = 8" by code_simp+
  ultimately show ?thesis
    by (subst build_from_items) (simp_all add: u32_max_def twin_doc_def)
qed

lemma glued_build: "build sample_hash glued_text (twin_parse glued_text) = Some glued_doc"
proof -
  have "build_items sample_hash glued_text (twin_parse glued_text) = Some glued_items" by code_simp
  moreover have "length (lines glued_text) = 2" "length glued_text = 9" by code_simp+
  ultimately show ?thesis
    by (subst build_from_items) (simp_all add: u32_max_def glued_doc_def)
qed

text \<open>Append a letter to the first section: it lands in front of the second heading.\<close>

definition glue :: splice_request where
  "glue = \<lparr>if_root = None,
     edits = [\<lparr>edit_target = Hpath [nth_seg ''A'' 1], edit_shape = Put AtEnd ''z'', if_node_rev = None\<rparr>],
     engine = None\<rparr>"

definition glue_planned :: "planned_edit list" where
  "glue_planned = [\<lparr>region = Span 4 4, new_text = ''z''\<rparr>]"

definition glue_slots :: "guard_slot list" where
  "glue_slots = [Some (Hpath [nth_seg ''A'' 1], rev_of sample_hash (sub twin_text 0 4))]"

lemma glue_validated:
  "validate_batch sample_hash twin_parse twin_doc None glue None = Some (Validated (seal glue_planned None))"
proof (rule validate_from_rungs(1))
  show "plan_batch sample_hash twin_doc None glue = Some (Inr (glue_planned, glue_slots))"
    by code_simp
  show "apply_regions (raw twin_doc) glue_planned = Some glued_text" by code_simp
  show "build sample_hash glued_text (twin_parse glued_text) = Some glued_doc" by (rule glued_build)
  show "would_corrupt sample_hash twin_doc glue_planned glued_doc = Some None" by code_simp
  show "first_write_past_its_span sample_hash (raw twin_doc) glued_doc glue_planned glue_slots = Some None"
    by code_simp
qed simp

text \<open>
  Claim C12. The containment guard misses a loss: of two sections of the same heading, an append
  to the first can destroy the heading of the second, whose bytes it does not touch, and the batch
  still validates, because the heading path keeps resolving to the one that is left.
\<close>

theorem twin_heading_loss_undetected:
  "validate_batch sample_hash twin_parse twin_doc None glue None = Some (Validated (seal glue_planned None)) \<and>
   length (section_chain (root twin_doc) [''A'']) = 2 \<and>
   length (section_chain (root glued_doc) [''A'']) = 1 \<and>
   candidate_of_batch sample_hash twin_parse ''p'' (raw twin_doc) (seal glue_planned None) =
     Some (stamp_path ''p'' glued_doc)"
proof -
  have "replace_all (raw twin_doc) (rev (vb_edits (seal glue_planned None))) = Some glued_text"
    by code_simp
  then have "candidate_of_batch sample_hash twin_parse ''p'' (raw twin_doc) (seal glue_planned None) =
      Some (stamp_path ''p'' glued_doc)"
    by (simp add: candidate_of_batch_def candidate_of_body_def glued_build)
  moreover have "length (section_chain (root twin_doc) [''A'']) = 2" by code_simp
  moreover have "length (section_chain (root glued_doc) [''A'']) = 1" by code_simp
  ultimately show ?thesis using glue_validated by blast
qed

section \<open>Overlapping occurrences\<close>

text \<open>
  An exact match can land on a text that occurs twice: occurrences are counted without
  overlap, so a text that overlaps itself in the target counts once and is replaced.
\<close>

theorem match_accepts_overlapping:
  "match_region ''aaa'' (Span 0 3) ''aa'' = Some (Inr (Span 0 2)) \<and>
   occurs_at ''aaa'' (Span 0 3) ''aa'' 0 \<and> occurs_at ''aaa'' (Span 0 3) ''aa'' 1"
proof (intro conjI)
  show "match_region ''aaa'' (Span 0 3) ''aa'' = Some (Inr (Span 0 2))" by code_simp
qed code_simp+

section \<open>The block-scalar reader\<close>

definition wide_indent_text :: str where
  "wide_indent_text = nl_join [''---'', ''k: >1'', [CHR 0xC2, CHR 0xA0] @ ''x'', ''---'']"

text \<open>
  The frontmatter reader panics on a well-formed text: with an explicit indentation of
  one, a content line indented by a two-byte blank is cut inside that character.
\<close>

theorem block_scalar_panics:
  "utf8_valid wide_indent_text \<and>
   parse_frontmatter wide_indent_text (Span 0 (length wide_indent_text)) = None"
proof
  show "utf8_valid wide_indent_text" by code_simp
  show "parse_frontmatter wide_indent_text (Span 0 (length wide_indent_text)) = None" by code_simp
qed

end
