(* ===== verification/Uleb.thy ===== *)
theory Uleb
  imports Rust_Slice
begin

text \<open>
  Unsigned LEB128, the varint of every hash pre-image: \<^verbatim>\<open>write_uleb128\<close> of \<^verbatim>\<open>crates/model/src/lib.rs\<close>
  and, the same code, of \<^verbatim>\<open>crates/fs/src/radix.rs\<close>. It has no reader in the program; \<open>read_uleb128\<close>
  is the specification of one, and what a varint writes is read back from any longer text, so
  a pre-image that opens with a length determines where the counted bytes end.
\<close>

fun write_uleb128 :: "nat \<Rightarrow> str" where
  "write_uleb128 n =
     (if n div 128 = 0 then [char_of (n mod 128)]
      else char_of (n mod 128 + 128) # write_uleb128 (n div 128))"

declare write_uleb128.simps [simp del]

fun read_uleb128 :: "str \<Rightarrow> (nat \<times> str) option" where
  "read_uleb128 [] = None"
| "read_uleb128 (c # cs) =
     (if byte c < 128 then Some (byte c, cs)
      else map_option (\<lambda>(n, r). (byte c - 128 + 128 * n, r)) (read_uleb128 cs))"

lemma write_uleb128_small: "n < 128 \<Longrightarrow> write_uleb128 n = [char_of n]"
  by (subst write_uleb128.simps) simp

lemma write_uleb128_big:
  "\<not> n < 128 \<Longrightarrow> write_uleb128 n = char_of (n mod 128 + 128) # write_uleb128 (n div 128)"
  by (subst write_uleb128.simps) (simp add: div_eq_0_iff)

lemma byte_more: "byte (char_of (n mod 128 + 128)) = n mod 128 + (128::nat)"
proof -
  have "n mod 128 + 128 < (256::nat)" by simp
  then show ?thesis by (simp add: of_char_of)
qed

lemma read_write_uleb128: "read_uleb128 (write_uleb128 n @ r) = Some (n, r)"
proof (induction n rule: write_uleb128.induct)
  case (1 n)
  show ?case
  proof (cases "n < 128")
    case True
    then show ?thesis by (simp add: write_uleb128_small)
  next
    case False
    with "1.IH" have "read_uleb128 (write_uleb128 (n div 128) @ r) = Some (n div 128, r)"
      by (simp add: div_eq_0_iff)
    with False show ?thesis by (simp add: write_uleb128_big byte_more)
  qed
qed

lemma write_uleb128_prefix_free:
  "write_uleb128 m @ r = write_uleb128 n @ s \<Longrightarrow> m = n \<and> r = s"
  by (metis option.inject prod.inject read_write_uleb128)

lemma write_uleb128_length_pos: "0 < length (write_uleb128 n)"
  using write_uleb128_small [of n] write_uleb128_big [of n] by (cases "n < 128") simp_all

end
