(* ===== verification/Radix.thy ===== *)
theory Radix
  imports Uleb Keyed
begin

text \<open>
  The child map of one directory, \<^verbatim>\<open>crates/fs/src/radix.rs\<close>: a radix trie over name bytes whose
  vertices carry their hashes. A vertex owns the names below it: the operations take the
  part of the name that is left, where the code takes the name and a position. The counters
  of hash work are threaded as the code does, without the width of their words. A 32-byte hash is a string; BLAKE3 is the
  parameter \<open>hash\<close>.
\<close>

section \<open>Vertices\<close>

datatype child_kind = FileChild | DirChild

fun kind_byte :: "child_kind \<Rightarrow> char" where
  "kind_byte FileChild = CHR 0x00"
| "kind_byte DirChild = CHR 0x01"

datatype terminal = NoTerminal | One child_kind str | Both (both_file: str) (both_dir: str)

fun terminal_set :: "terminal \<Rightarrow> child_kind \<Rightarrow> str \<Rightarrow> terminal" where
  "terminal_set NoTerminal k h = One k h"
| "terminal_set (One FileChild f) FileChild h = One FileChild h"
| "terminal_set (One DirChild d) DirChild h = One DirChild h"
| "terminal_set (One FileChild f) DirChild h = Both f h"
| "terminal_set (Both f d) DirChild h = Both f h"
| "terminal_set (One DirChild d) FileChild h = Both h d"
| "terminal_set (Both f d) FileChild h = Both h d"

text \<open>The cleared terminal, or \<^const>\<open>None\<close> when the kind holds no value.\<close>

fun terminal_clear :: "terminal \<Rightarrow> child_kind \<Rightarrow> terminal option" where
  "terminal_clear NoTerminal k = None"
| "terminal_clear (One k0 h) k = (if k0 = k then Some NoTerminal else None)"
| "terminal_clear (Both f d) FileChild = Some (One DirChild d)"
| "terminal_clear (Both f d) DirChild = Some (One FileChild f)"

fun terminal_get :: "terminal \<Rightarrow> child_kind \<Rightarrow> str option" where
  "terminal_get NoTerminal k = None"
| "terminal_get (One k0 h) k = (if k0 = k then Some h else None)"
| "terminal_get (Both f d) FileChild = Some f"
| "terminal_get (Both f d) DirChild = Some d"

datatype vertex =
  Vertex (ext: str) (vterm: terminal) (slots: "(char \<times> vertex) list") (vhash: str)

record counters =
  vertex_hashes :: nat
  hashed_bytes :: nat

definition tag_vertex :: str where "tag_vertex = ''mrk2.vtx''"
definition tag_dir :: str where "tag_dir = ''mrk2.dir''"

fun terminal_frame :: "terminal \<Rightarrow> str" where
  "terminal_frame NoTerminal = [CHR 0x00]"
| "terminal_frame (One k h) = CHR 0x01 # kind_byte k # h"
| "terminal_frame (Both f d) = CHR 0x02 # f @ d"

definition vertex_preimage :: "str \<Rightarrow> terminal \<Rightarrow> (char \<times> vertex) list \<Rightarrow> str" where
  "vertex_preimage e t cs =
     tag_vertex @ write_uleb128 (length e) @ e @ terminal_frame t @
     write_uleb128 (length cs) @ concat (map (\<lambda>(b, c). b # vhash c) cs)"

text \<open>Recompute a vertex's hash and count the work.\<close>

definition rehash :: "(str \<Rightarrow> str) \<Rightarrow> str \<Rightarrow> terminal \<Rightarrow> (char \<times> vertex) list \<Rightarrow>
    counters \<Rightarrow> vertex \<times> counters" where
  "rehash hash e t cs ops =
     (let pre = vertex_preimage e t cs in
      (Vertex e t cs (hash pre),
       ops\<lparr>vertex_hashes := vertex_hashes ops + 1, hashed_bytes := hashed_bytes ops + length pre\<rparr>))"

definition new_leaf :: "(str \<Rightarrow> str) \<Rightarrow> str \<Rightarrow> child_kind \<Rightarrow> str \<Rightarrow> counters \<Rightarrow> vertex \<times> counters" where
  "new_leaf hash e k h ops = rehash hash e (One k h) [] ops"

fun lcp :: "str \<Rightarrow> str \<Rightarrow> nat" where
  "lcp (a # as) (b # bs) = (if a = b then Suc (lcp as bs) else 0)"
| "lcp _ _ = 0"

text \<open>
  \<^verbatim>\<open>binary_search_by_key\<close> on slots in ascending order: the place of the slot, else of the first
  greater one.
\<close>

fun slot_search :: "char \<Rightarrow> (char \<times> vertex) list \<Rightarrow> nat + nat" where
  "slot_search b [] = Inl 0"
| "slot_search b ((s, v) # cs) =
     (if s = b then Inr 0
      else if b < s then Inl 0
      else map_sum Suc Suc (slot_search b cs))"

lemma lcp_le: "lcp a b \<le> length a" "lcp a b \<le> length b"
  by (induction a b rule: lcp.induct) auto

section \<open>Lookup\<close>

function vertex_get :: "vertex \<Rightarrow> str \<Rightarrow> child_kind \<Rightarrow> str option" where
  "vertex_get (Vertex e t cs vh) rem k =
     (if lcp rem e < length e then None
      else if length rem = length e then terminal_get t k
      else case slot_search (rem ! length e) cs of
        Inl _ \<Rightarrow> None
      | Inr i \<Rightarrow> vertex_get (snd (cs ! i)) (drop (Suc (length e)) rem) k)"
  by pat_completeness auto
termination
proof (relation "measure (\<lambda>(v, rem, k). length rem)")
  fix e :: str and t :: terminal and cs :: "(char \<times> vertex) list" and vh rem :: str
    and k :: child_kind and i :: nat
  assume "\<not> lcp rem e < length e" "length rem \<noteq> length e"
  then have "length e < length rem" using lcp_le(1) [of rem e] by linarith
  then show "((snd (cs ! i), drop (Suc (length e)) rem, k), (Vertex e t cs vh, rem, k))
      \<in> measure (\<lambda>(v, rem, k). length rem)"
    by simp
qed simp

section \<open>Insertion\<close>

text \<open>The split of a vertex whose extension the name leaves at \<open>k\<close>.\<close>

definition split_vertex :: "(str \<Rightarrow> str) \<Rightarrow> str \<Rightarrow> terminal \<Rightarrow> (char \<times> vertex) list \<Rightarrow> nat \<Rightarrow>
    str \<Rightarrow> child_kind \<Rightarrow> str \<Rightarrow> counters \<Rightarrow> vertex \<times> counters" where
  "split_vertex hash e t cs k rem kind h ops =
     (let moved_slot = e ! k;
          (moved, ops1) = rehash hash (drop (Suc k) e) t cs ops
      in if length rem = k
         then rehash hash (take k e) (One kind h) [(moved_slot, moved)] ops1
         else
           let new_slot = rem ! k;
               (leaf, ops2) = new_leaf hash (drop (Suc k) rem) kind h ops1
           in rehash hash (take k e) NoTerminal
                (if new_slot < moved_slot then [(new_slot, leaf), (moved_slot, moved)]
                 else [(moved_slot, moved), (new_slot, leaf)]) ops2)"

definition insert_at :: "nat \<Rightarrow> 'a \<Rightarrow> 'a list \<Rightarrow> 'a list" where
  "insert_at i x xs = take i xs @ x # drop i xs"

function set_rec :: "(str \<Rightarrow> str) \<Rightarrow> vertex \<Rightarrow> str \<Rightarrow> child_kind \<Rightarrow> str \<Rightarrow> counters \<Rightarrow>
    vertex \<times> counters" where
  "set_rec hash (Vertex e t cs vh) rem kind h ops =
     (let k = lcp rem e in
      if k < length e then split_vertex hash e t cs k rem kind h ops
      else if length rem = length e then rehash hash e (terminal_set t kind h) cs ops
      else
        let slot = rem ! length e; below = drop (Suc (length e)) rem in
        (case slot_search slot cs of
           Inr i \<Rightarrow>
             (let (c, ops1) = set_rec hash (snd (cs ! i)) below kind h ops
              in rehash hash e t (cs[i := (fst (cs ! i), c)]) ops1)
         | Inl i \<Rightarrow>
             (let (leaf, ops1) = new_leaf hash below kind h ops
              in rehash hash e t (insert_at i (slot, leaf) cs) ops1)))"
  by pat_completeness auto
termination
proof (relation "measure (\<lambda>(hash, v, rem, kind, h, ops). length rem)")
  fix hash :: "str \<Rightarrow> str" and e :: str and t :: terminal and cs :: "(char \<times> vertex) list"
    and vh rem :: str and kind :: child_kind and h :: str and ops :: counters and i k :: nat
    and slot below
  assume "k = lcp rem e" "\<not> k < length e" "length rem \<noteq> length e"
    and below: "below = drop (Suc (length e)) rem"
  then have "length e < length rem" using lcp_le(1) [of rem e] by linarith
  then show "((hash, snd (cs ! i), below, kind, h, ops), (hash, Vertex e t cs vh, rem, kind, h, ops))
      \<in> measure (\<lambda>(hash, v, rem, kind, h, ops). length rem)"
    by (simp add: below)
qed simp

section \<open>Removal\<close>

datatype outcome = NotThere | Removed vertex | VertexDead

text \<open>A vertex with one child and no terminal takes the child's place, its extension in front.\<close>

definition merge_only_child :: "str \<Rightarrow> (char \<times> vertex) list \<Rightarrow> str \<times> terminal \<times> (char \<times> vertex) list" where
  "merge_only_child e cs =
     (case cs of
        [] \<Rightarrow> (e, NoTerminal, [])
      | (b, c) # _ \<Rightarrow> (e @ b # ext c, vterm c, slots c))"

definition delete_at :: "nat \<Rightarrow> 'a list \<Rightarrow> 'a list" where
  "delete_at i xs = take i xs @ drop (Suc i) xs"

definition recanonicalize :: "(str \<Rightarrow> str) \<Rightarrow> str \<Rightarrow> terminal \<Rightarrow> (char \<times> vertex) list \<Rightarrow> counters \<Rightarrow>
    vertex \<times> counters" where
  "recanonicalize hash e t cs ops =
     (if t = NoTerminal \<and> length cs = 1
      then (case merge_only_child e cs of (e', t', cs') \<Rightarrow> rehash hash e' t' cs' ops)
      else rehash hash e t cs ops)"

function remove_rec :: "(str \<Rightarrow> str) \<Rightarrow> vertex \<Rightarrow> str \<Rightarrow> child_kind \<Rightarrow> counters \<Rightarrow>
    outcome \<times> counters" where
  "remove_rec hash (Vertex e t cs vh) rem kind ops =
     (if lcp rem e < length e then (NotThere, ops)
      else if length rem = length e then
        (case terminal_clear t kind of
           None \<Rightarrow> (NotThere, ops)
         | Some t' \<Rightarrow>
             if t' = NoTerminal \<and> cs = [] then (VertexDead, ops)
             else (let (v, ops1) = recanonicalize hash e t' cs ops in (Removed v, ops1)))
      else
        (case slot_search (rem ! length e) cs of
           Inl _ \<Rightarrow> (NotThere, ops)
         | Inr i \<Rightarrow>
             (case remove_rec hash (snd (cs ! i)) (drop (Suc (length e)) rem) kind ops of
                (NotThere, ops1) \<Rightarrow> (NotThere, ops1)
              | (Removed c, ops1) \<Rightarrow>
                  (let (v, ops2) = rehash hash e t (cs[i := (fst (cs ! i), c)]) ops1 in (Removed v, ops2))
              | (VertexDead, ops1) \<Rightarrow>
                  (let (v, ops2) = recanonicalize hash e t (delete_at i cs) ops1 in (Removed v, ops2)))))"
  by pat_completeness auto
termination
proof (relation "measure (\<lambda>(hash, v, rem, kind, ops). length rem)")
  fix hash :: "str \<Rightarrow> str" and e :: str and t :: terminal and cs :: "(char \<times> vertex) list"
    and vh rem :: str and kind :: child_kind and ops :: counters and i :: nat
  assume "\<not> lcp rem e < length e" "length rem \<noteq> length e"
  then have "length e < length rem" using lcp_le(1) [of rem e] by linarith
  then show "((hash, snd (cs ! i), drop (Suc (length e)) rem, kind, ops), (hash, Vertex e t cs vh, rem, kind, ops))
      \<in> measure (\<lambda>(hash, v, rem, kind, ops). length rem)"
    by simp
qed simp

declare vertex_get.simps [simp del] set_rec.simps [simp del] remove_rec.simps [simp del]

section \<open>The map\<close>

record radix_map =
  rroot :: "vertex option"
  rops :: counters

definition radix_new :: radix_map where
  "radix_new = \<lparr>rroot = None, rops = \<lparr>vertex_hashes = 0, hashed_bytes = 0\<rparr>\<rparr>"

definition radix_is_empty :: "radix_map \<Rightarrow> bool" where
  "radix_is_empty m \<longleftrightarrow> rroot m = None"

definition radix_set :: "(str \<Rightarrow> str) \<Rightarrow> str \<Rightarrow> child_kind \<Rightarrow> str \<Rightarrow> radix_map \<Rightarrow> radix_map" where
  "radix_set hash name kind h m =
     (let (v, ops) = (case rroot m of
            Some r \<Rightarrow> set_rec hash r name kind h (rops m)
          | None \<Rightarrow> new_leaf hash name kind h (rops m))
      in \<lparr>rroot = Some v, rops = ops\<rparr>)"

definition radix_get :: "radix_map \<Rightarrow> str \<Rightarrow> child_kind \<Rightarrow> str option" where
  "radix_get m name kind = (case rroot m of None \<Rightarrow> None | Some r \<Rightarrow> vertex_get r name kind)"

definition radix_remove :: "(str \<Rightarrow> str) \<Rightarrow> str \<Rightarrow> child_kind \<Rightarrow> radix_map \<Rightarrow> bool \<times> radix_map" where
  "radix_remove hash name kind m =
     (case rroot m of
        None \<Rightarrow> (False, m)
      | Some r \<Rightarrow>
          (case remove_rec hash r name kind (rops m) of
             (NotThere, ops) \<Rightarrow> (False, m\<lparr>rops := ops\<rparr>)
           | (Removed v, ops) \<Rightarrow> (True, \<lparr>rroot = Some v, rops = ops\<rparr>)
           | (VertexDead, ops) \<Rightarrow> (True, \<lparr>rroot = None, rops = ops\<rparr>)))"

text \<open>The entries in the order of the visitor: File before Dir at a name that holds both.\<close>

definition terminal_entries :: "str \<Rightarrow> terminal \<Rightarrow> (str \<times> child_kind \<times> str) list" where
  "terminal_entries name t =
     (case t of
        NoTerminal \<Rightarrow> []
      | One k h \<Rightarrow> [(name, k, h)]
      | Both f d \<Rightarrow> [(name, FileChild, f), (name, DirChild, d)])"

fun walk_entries :: "str \<Rightarrow> vertex \<Rightarrow> (str \<times> child_kind \<times> str) list" where
  "walk_entries acc (Vertex e t cs vh) =
     terminal_entries (acc @ e) t @
     concat (map (\<lambda>(b, c). walk_entries (acc @ e @ [b]) c) cs)"

definition radix_entries :: "radix_map \<Rightarrow> (str \<times> child_kind \<times> str) list" where
  "radix_entries m = (case rroot m of None \<Rightarrow> [] | Some r \<Rightarrow> walk_entries [] r)"

definition dir_value :: "(str \<Rightarrow> str) \<Rightarrow> radix_map \<Rightarrow> str" where
  "dir_value hash m =
     hash (tag_dir @ (case rroot m of None \<Rightarrow> [] | Some r \<Rightarrow> vhash r))"

end
