(* ===== verification/Radix_Laws.thy ===== *)
theory Radix_Laws
  imports Radix
begin

text \<open>
  The laws of the child map: the invariant of its vertices, lookup by prefix, what an
  insertion and a removal do to every lookup, and that the contents determine the vertices.
\<close>

section \<open>The invariant\<close>

abbreviation slots_sorted :: "(char \<times> vertex) list \<Rightarrow> bool" where
  "slots_sorted cs \<equiv> sorted_wrt (<) (map fst cs)"

fun vertex_ok :: "(str \<Rightarrow> str) \<Rightarrow> vertex \<Rightarrow> bool" where
  "vertex_ok hash (Vertex e t cs vh) \<longleftrightarrow>
     vh = hash (vertex_preimage e t cs) \<and> slots_sorted cs \<and>
     (t = NoTerminal \<longrightarrow> 2 \<le> length cs) \<and> (\<forall>(b, c) \<in> set cs. vertex_ok hash c)"

text \<open>A vertex that \<^const>\<open>rehash\<close> may produce: all but the hash.\<close>

abbreviation body_ok :: "(str \<Rightarrow> str) \<Rightarrow> terminal \<Rightarrow> (char \<times> vertex) list \<Rightarrow> bool" where
  "body_ok hash t cs \<equiv> slots_sorted cs \<and> (t = NoTerminal \<longrightarrow> 2 \<le> length cs) \<and>
     (\<forall>(b, c) \<in> set cs. vertex_ok hash c)"

lemma fst_rehash [simp]: "fst (rehash hash e t cs ops) = Vertex e t cs (hash (vertex_preimage e t cs))"
  by (simp add: rehash_def Let_def)

lemma snd_rehash [simp]: "vertex_hashes (snd (rehash hash e t cs ops)) = vertex_hashes ops + 1"
  by (simp add: rehash_def Let_def)

lemma fst_new_leaf [simp]:
  "fst (new_leaf hash e k h ops) = Vertex e (One k h) [] (hash (vertex_preimage e (One k h) []))"
  by (simp add: new_leaf_def)

lemma snd_new_leaf [simp]: "vertex_hashes (snd (new_leaf hash e k h ops)) = vertex_hashes ops + 1"
  by (simp add: new_leaf_def)

lemma rehash_ok: "vertex_ok hash (fst (rehash hash e t cs ops)) \<longleftrightarrow> body_ok hash t cs"
  by auto

section \<open>Where a name leaves an extension\<close>

lemma lcp_append [simp]: "lcp (e @ r) e = length e"
  by (induction e) auto

lemma lcp_self [simp]: "lcp e e = length e"
  using lcp_append [of e "[]"] by simp

lemma lcp_stop [simp]: "lcp p (p @ a # q) = length p"
  by (induction p) auto

lemma lcp_branch [simp]: "a \<noteq> b \<Longrightarrow> lcp (p @ b # r) (p @ a # q) = length p"
  by (induction p) auto

lemma name_cases [case_names ends goes_on short branch]:
  obtains "n = e"
  | b r where "n = e @ b # r"
  | a q where "e = n @ a # q"
  | p a q b r where "e = p @ a # q" "n = p @ b # r" "a \<noteq> b"
proof (induction n arbitrary: e thesis)
  case Nil
  then show ?case by (cases e) auto
next
  case (Cons c n)
  note prems = Cons.prems and IH = Cons.IH
  show ?case
  proof (cases e)
    case Nil
    then show ?thesis using prems(2) by auto
  next
    case e: (Cons d e')
    show ?thesis
    proof (cases "c = d")
      case False
      then show ?thesis using prems(4) [of "[]" d e' c n] e by simp
    next
      case True
      show ?thesis
      proof (rule IH [of e'])
        show thesis if "n = e'" using that prems(1) e True by simp
        show thesis if "n = e' @ b # r" for b r using that prems(2) [of b r] e True by simp
        show thesis if "e' = n @ a # q" for a q using that prems(3) [of a q] e True by simp
        show thesis if "e' = p @ a # q" "n = p @ b # r" "a \<noteq> b" for p a q b r
          using that prems(4) [of "d # p" a q b r] e True by simp
      qed
    qed
  qed
qed

section \<open>Slots\<close>

lemma slots_distinct: "slots_sorted cs \<Longrightarrow> distinct (map fst cs)"
  by (induction cs) auto

lemma slots_append:
  "slots_sorted (p @ q) \<longleftrightarrow> slots_sorted p \<and> slots_sorted q \<and> (\<forall>x \<in> set p. \<forall>y \<in> set q. fst x < fst y)"
  by (simp add: sorted_wrt_append)

text \<open>The search finds the slot, or the place that keeps the order.\<close>

lemma slot_search_cases [consumes 1, case_names found opens]:
  assumes "slots_sorted cs"
  obtains p c q where "cs = p @ (b, c) # q" "slot_search b cs = Inr (length p)"
  | p q where "cs = p @ q" "slot_search b cs = Inl (length p)"
      "\<forall>x \<in> set p. fst x < b" "\<forall>x \<in> set q. b < fst x"
  using assms
proof (induction b cs arbitrary: thesis rule: slot_search.induct)
  case (1 b)
  then show ?case by simp
next
  case (2 b s v cs)
  note prems = "2.prems" and IH = "2.IH"
  show ?case
  proof (cases "s = b \<or> b < s")
    case True
    then consider "s = b" | "s \<noteq> b" "b < s" by auto
    then show ?thesis
    proof cases
      case 1
      then show ?thesis using prems(1) [of "[]" v cs] by simp
    next
      case 2
      then have "\<forall>x \<in> set cs. b < fst x" using prems(3) by auto
      then show ?thesis using prems(2) [of "[]" "(s, v) # cs"] 2 by simp
    qed
  next
    case False
    then have F: "s \<noteq> b" "\<not> b < s" by auto
    show ?thesis
    proof (rule IH [OF F])
      show thesis if "cs = p @ (b, c) # q" "slot_search b cs = Inr (length p)" for p c q
        using that prems(1) [of "(s, v) # p" c q] F by simp
      show thesis if "cs = p @ q" "slot_search b cs = Inl (length p)"
        "\<forall>x \<in> set p. fst x < b" "\<forall>x \<in> set q. b < fst x" for p q
        using that prems(2) [of "(s, v) # p" q] F by simp
      show "slots_sorted cs" using prems(3) by simp
    qed
  qed
qed

lemma map_of_found: "slots_sorted (p @ (b, c) # q) \<Longrightarrow> map_of (p @ (b, c) # q) b = Some c"
  by (rule map_of_is_SomeI [OF slots_distinct]) auto

lemma map_of_opens:
  "\<forall>x \<in> set p. fst x < b \<Longrightarrow> \<forall>x \<in> set q. b < fst x \<Longrightarrow> map_of (p @ q) (b :: char) = None"
  by (force simp: map_of_eq_None_iff)

section \<open>Lookup\<close>

definition below :: "(char \<times> vertex) list \<Rightarrow> char \<Rightarrow> str \<Rightarrow> child_kind \<Rightarrow> str option" where
  "below cs b r k = (case map_of cs b of None \<Rightarrow> None | Some c \<Rightarrow> vertex_get c r k)"

lemma get_ends [simp]: "vertex_get (Vertex e t cs vh) e k = terminal_get t k"
  by (simp add: vertex_get.simps)

lemma get_goes_on [simp]:
  assumes "slots_sorted cs"
  shows "vertex_get (Vertex e t cs vh) (e @ b # r) k = below cs b r k"
  using assms
proof (cases rule: slot_search_cases [where b = b])
  case (found p c q)
  then show ?thesis using assms by (simp add: vertex_get.simps below_def map_of_found del: map_of_append)
next
  case (opens p q)
  then show ?thesis by (simp add: vertex_get.simps below_def map_of_opens del: map_of_append)
qed

lemma get_short [simp]: "vertex_get (Vertex (p @ a # q) t cs vh) p k = None"
  by (simp add: vertex_get.simps)

lemma get_branch [simp]: "a \<noteq> b \<Longrightarrow> vertex_get (Vertex (p @ a # q) t cs vh) (p @ b # r) k = None"
  by (simp add: vertex_get.simps)

lemma get_prefix: "vertex_get v n k \<noteq> None \<Longrightarrow> slots_sorted (slots v) \<Longrightarrow> \<exists>r. n = ext v @ r"
  by (cases v, cases n "ext v" rule: name_cases) auto

lemma below_Cons [simp]:
  "below ((s, c) # cs) b r k = (if b = s then vertex_get c r k else below cs b r k)"
  by (simp add: below_def)

lemma below_Nil [simp]: "below [] b r k = None"
  by (simp add: below_def)

section \<open>Insertion\<close>

lemma set_ends: "set_rec hash (Vertex e t cs vh) e kind h ops = rehash hash e (terminal_set t kind h) cs ops"
  by (simp add: set_rec.simps)

lemma set_found:
  assumes "slot_search b (p @ (b, c) # q) = Inr (length p)"
  shows "set_rec hash (Vertex e t (p @ (b, c) # q) vh) (e @ b # r) kind h ops =
    (let (c', ops1) = set_rec hash c r kind h ops in rehash hash e t (p @ (b, c') # q) ops1)"
  using assms by (simp add: set_rec.simps Let_def)

lemma set_opens:
  assumes "slot_search b (p @ q) = Inl (length p)"
  shows "set_rec hash (Vertex e t (p @ q) vh) (e @ b # r) kind h ops =
    (let (leaf, ops1) = new_leaf hash r kind h ops in rehash hash e t (p @ (b, leaf) # q) ops1)"
  using assms by (simp add: set_rec.simps insert_at_def Let_def)

lemma set_short:
  "set_rec hash (Vertex (n @ a # q) t cs vh) n kind h ops =
    (let (moved, ops1) = rehash hash q t cs ops in rehash hash n (One kind h) [(a, moved)] ops1)"
  by (simp add: set_rec.simps split_vertex_def Let_def split_beta)

lemma set_branch:
  assumes "a \<noteq> b"
  shows "set_rec hash (Vertex (p @ a # q) t cs vh) (p @ b # r) kind h ops =
    (let (moved, ops1) = rehash hash q t cs ops;
         (leaf, ops2) = new_leaf hash r kind h ops1
     in rehash hash p NoTerminal (if b < a then [(b, leaf), (a, moved)] else [(a, moved), (b, leaf)]) ops2)"
  using assms by (simp add: set_rec.simps split_vertex_def Let_def split_beta)

lemma terminal_get_set: "terminal_get (terminal_set t kind h) k = (if k = kind then Some h else terminal_get t k)"
  by (induction t kind h rule: terminal_set.induct; cases k) auto

lemma terminal_set_not_None [simp]: "terminal_set t kind h \<noteq> NoTerminal"
  by (induction t kind h rule: terminal_set.induct) auto

lemma One_not_None: "terminal_get (One kind h) k = (if k = kind then Some h else None)"
  by simp

lemma below_append:
  "slots_sorted (p @ (b, c) # q) \<Longrightarrow>
   below (p @ (b, c) # q) d r k = (if d = b then vertex_get c r k else below (p @ q) d r k)"
proof (cases "d = b")
  case False
  then show ?thesis by (simp add: below_def map_add_def split: option.splits)
qed (simp add: below_def map_of_found del: map_of_append)

lemma slots_replace: "slots_sorted (p @ (b, c) # q) \<longleftrightarrow> slots_sorted (p @ (b, d) # q)"
  by simp

lemma slots_opened:
  "slots_sorted (p @ q) \<Longrightarrow> \<forall>x \<in> set p. fst x < b \<Longrightarrow> \<forall>x \<in> set q. b < fst x \<Longrightarrow>
   slots_sorted (p @ (b, c) # q)"
  by (auto simp: sorted_wrt_append)

lemma below_opens:
  "\<forall>x \<in> set p. fst x < b \<Longrightarrow> \<forall>x \<in> set q. b < fst x \<Longrightarrow> below (p @ q) b r k = None"
  by (simp add: below_def map_of_opens del: map_of_append)

theorem set_rec_ok: "vertex_ok hash v \<Longrightarrow> vertex_ok hash (fst (set_rec hash v n kind h ops))"
proof (induction v arbitrary: n ops)
  case (Vertex e t cs vh)
  then have ok: "body_ok hash t cs" by auto
  show ?case
  proof (cases n e rule: name_cases)
    case ends
    then show ?thesis using ok by (simp add: set_ends)
  next
    case (goes_on b r)
    from ok have "slots_sorted cs" by blast
    then show ?thesis
    proof (cases rule: slot_search_cases [where b = b])
      case (found p c q)
      have "vertex_ok hash (fst (set_rec hash c r kind h ops))"
        using Vertex.IH [of "(b, c)" c r ops] ok found(1) by auto
      then show ?thesis using ok found goes_on by (auto simp: set_found split_beta)
    next
      case (opens p q)
      then have "slots_sorted (p @ (b, c) # q)" for c
        using ok by (intro slots_opened) auto
      then show ?thesis using ok opens goes_on by (auto simp: set_opens split_beta)
    qed
  next
    case (short a q)
    then show ?thesis using ok by (auto simp: set_short split_beta)
  next
    case (branch p a q b r)
    then show ?thesis using ok by (auto simp: set_branch split_beta)
  qed
qed

text \<open>A split moves a vertex under its old continuation byte; it is found there.\<close>

lemma get_under:
  assumes "slots_sorted cs"
  shows "vertex_get (Vertex (p @ a # q) t cs vh) (p @ a # m) k = vertex_get (Vertex q t cs vh') m k"
proof (cases m q rule: name_cases)
  case (goes_on b r)
  then show ?thesis
    using assms get_goes_on [of cs "p @ a # q" t vh b r k] by simp
next
  case (short b r)
  then show ?thesis
    using get_short [of "p @ a # m" b r t cs vh k] by simp
next
  case (branch p' c q' b r)
  then show ?thesis
    using get_branch [of c b "p @ a # p'" q' t cs vh r k] by simp
qed (use get_ends [of "p @ a # q"] in simp)

lemma leaf_get:
  "vertex_get (fst (new_leaf hash r kind h ops)) m k = (if m = r \<and> k = kind then Some h else None)"
  by (cases m r rule: name_cases) auto

lemma set_rec_get:
  "vertex_ok hash v \<Longrightarrow>
   vertex_get (fst (set_rec hash v n kind h ops)) m k =
     (if m = n \<and> k = kind then Some h else vertex_get v m k)"
proof (induction v arbitrary: n m ops)
  case (Vertex e t cs vh)
  then have ok: "body_ok hash t cs" by auto
  show ?case
  proof (cases n e rule: name_cases)
    case ends
    then show ?thesis
      using ok by (cases m e rule: name_cases) (auto simp: set_ends terminal_get_set)
  next
    case (goes_on b r)
    from ok have "slots_sorted cs" by blast
    then show ?thesis
    proof (cases rule: slot_search_cases [where b = b])
      case (found p c q)
      have IH: "vertex_get (fst (set_rec hash c r kind h ops)) m' k =
          (if m' = r \<and> k = kind then Some h else vertex_get c m' k)" for m'
        using Vertex.IH [of "(b, c)" c r ops m'] ok found(1) by auto
      let ?cs = "p @ (b, fst (set_rec hash c r kind h ops)) # q"
      have E: "fst (set_rec hash (Vertex e t cs vh) n kind h ops) =
          Vertex e t ?cs (hash (vertex_preimage e t ?cs))"
        using found goes_on by (simp add: set_found split_beta)
      have "slots_sorted (p @ (b, d) # q)" for d using ok found(1) by simp
      then show ?thesis unfolding E using found(1) goes_on IH
        by (cases m e rule: name_cases) (auto simp: below_append)
    next
      case (opens p q)
      then have S: "slots_sorted (p @ (b, c) # q)" for c
        using ok by (intro slots_opened) auto
      let ?cs = "p @ (b, fst (new_leaf hash r kind h ops)) # q"
      have E: "fst (set_rec hash (Vertex e t cs vh) n kind h ops) =
          Vertex e t ?cs (hash (vertex_preimage e t ?cs))"
        using opens goes_on by (simp add: set_opens split_beta)
      have "slots_sorted (p @ q)" using ok opens by simp
      with S show ?thesis unfolding E using opens goes_on
        by (cases m e rule: name_cases) (auto simp: leaf_get below_append below_opens simp del: fst_new_leaf)
    qed
  next
    case (short a q)
    let ?cs = "[(a, Vertex q t cs (hash (vertex_preimage q t cs)))]"
    have E: "fst (set_rec hash (Vertex e t cs vh) n kind h ops) =
        Vertex n (One kind h) ?cs (hash (vertex_preimage n (One kind h) ?cs))"
      using short by (simp add: set_short split_beta)
    show ?thesis unfolding E unfolding short using ok get_under [of cs n a q t vh]
      by (cases m n rule: name_cases) auto
  next
    case (branch p a q b r)
    let ?moved = "Vertex q t cs (hash (vertex_preimage q t cs))"
    let ?leaf = "fst (new_leaf hash r kind h (snd (rehash hash q t cs ops)))"
    let ?cs = "if b < a then [(b, ?leaf), (a, ?moved)] else [(a, ?moved), (b, ?leaf)]"
    have E: "fst (set_rec hash (Vertex e t cs vh) n kind h ops) =
        Vertex p NoTerminal ?cs (hash (vertex_preimage p NoTerminal ?cs))"
      using branch by (simp add: set_branch split_beta)
    show ?thesis unfolding E unfolding branch using ok branch(3) get_under [of cs p a q t vh]
      by (cases m p rule: name_cases) (auto simp: leaf_get simp del: fst_new_leaf)
  qed
qed

section \<open>Removal\<close>

lemma terminal_get_clear:
  "terminal_clear t kind = Some t' \<Longrightarrow>
   terminal_get t kind \<noteq> None \<and> terminal_get t' k = (if k = kind then None else terminal_get t k)"
  by (induction t kind rule: terminal_clear.induct; cases k) (auto split: if_splits)

lemma terminal_clear_None: "terminal_clear t kind = None \<longleftrightarrow> terminal_get t kind = None"
  by (induction t kind rule: terminal_clear.induct) auto

lemma remove_short: "remove_rec hash (Vertex (n @ a # q) t cs vh) n kind ops = (NotThere, ops)"
  by (simp add: remove_rec.simps)

lemma remove_branch:
  "a \<noteq> b \<Longrightarrow> remove_rec hash (Vertex (p @ a # q) t cs vh) (p @ b # r) kind ops = (NotThere, ops)"
  by (simp add: remove_rec.simps)

lemma remove_ends:
  "remove_rec hash (Vertex e t cs vh) e kind ops =
     (case terminal_clear t kind of
        None \<Rightarrow> (NotThere, ops)
      | Some t' \<Rightarrow>
          if t' = NoTerminal \<and> cs = [] then (VertexDead, ops)
          else (let (v, ops1) = recanonicalize hash e t' cs ops in (Removed v, ops1)))"
  by (simp add: remove_rec.simps)

lemma remove_opens:
  "slot_search b (p @ q) = Inl (length p) \<Longrightarrow>
   remove_rec hash (Vertex e t (p @ q) vh) (e @ b # r) kind ops = (NotThere, ops)"
  by (simp add: remove_rec.simps)

lemma remove_found:
  assumes "slot_search b (p @ (b, c) # q) = Inr (length p)"
  shows "remove_rec hash (Vertex e t (p @ (b, c) # q) vh) (e @ b # r) kind ops =
     (case remove_rec hash c r kind ops of
        (NotThere, ops1) \<Rightarrow> (NotThere, ops1)
      | (Removed c', ops1) \<Rightarrow>
          (let (v, ops2) = rehash hash e t (p @ (b, c') # q) ops1 in (Removed v, ops2))
      | (VertexDead, ops1) \<Rightarrow>
          (let (v, ops2) = recanonicalize hash e t (p @ q) ops1 in (Removed v, ops2)))"
  using assms by (simp add: remove_rec.simps delete_at_def split: prod.split outcome.split)

text \<open>What re-canonicalizing keeps: the lookups of the body it is given, and the invariant.\<close>

lemma recanonicalize_ok:
  assumes "slots_sorted cs" "\<forall>(b, c) \<in> set cs. vertex_ok hash c" "t = NoTerminal \<longrightarrow> cs \<noteq> []"
  shows "vertex_ok hash (fst (recanonicalize hash e t cs ops))"
proof (cases "t = NoTerminal \<and> length cs = 1")
  case True
  then obtain b e' t' cs' vh' where "cs = [(b, Vertex e' t' cs' vh')]"
    by (metis One_nat_def length_0_conv length_Suc_conv surj_pair vertex.exhaust)
  with True assms show ?thesis
    by (auto simp: recanonicalize_def merge_only_child_def)
next
  case False
  then have "t = NoTerminal \<longrightarrow> 2 \<le> length cs"
    using assms(3) by (cases cs; cases "tl cs") auto
  with False assms show ?thesis by (auto simp: recanonicalize_def)
qed

lemma recanonicalize_get:
  assumes "slots_sorted cs" "\<forall>(b, c) \<in> set cs. vertex_ok hash c"
  shows "vertex_get (fst (recanonicalize hash e t cs ops)) m k = vertex_get (Vertex e t cs vh) m k"
proof (cases "t = NoTerminal \<and> length cs = 1")
  case True
  then obtain b e' t' cs' vh' where cs: "cs = [(b, Vertex e' t' cs' vh')]"
    by (metis One_nat_def length_0_conv length_Suc_conv surj_pair vertex.exhaust)
  then have "slots_sorted cs'" using assms by auto
  with cs True get_under [of cs' e b e' t' _ _ k] show ?thesis
    by (cases m e rule: name_cases) (auto simp: recanonicalize_def merge_only_child_def)
next
  case False
  then show ?thesis using assms
    by (cases m e rule: name_cases) (auto simp: recanonicalize_def)
qed

definition removal_right :: "(str \<Rightarrow> str) \<Rightarrow> vertex \<Rightarrow> str \<Rightarrow> child_kind \<Rightarrow> outcome \<Rightarrow> bool" where
  "removal_right hash v n kind out \<longleftrightarrow>
     (case out of
        NotThere \<Rightarrow> vertex_get v n kind = None
      | Removed v' \<Rightarrow> vertex_get v n kind \<noteq> None \<and> vertex_ok hash v' \<and>
          (\<forall>m k. vertex_get v' m k = (if m = n \<and> k = kind then None else vertex_get v m k))
      | VertexDead \<Rightarrow> vertex_get v n kind \<noteq> None \<and>
          (\<forall>m k. m \<noteq> n \<or> k \<noteq> kind \<longrightarrow> vertex_get v m k = None))"

lemma dead_ends:
  assumes "terminal_clear t kind = Some NoTerminal" "m \<noteq> e \<or> k \<noteq> kind"
  shows "vertex_get (Vertex e t [] vh) m k = None"
  using assms terminal_get_clear [OF assms(1), of k]
  by (cases m e rule: name_cases) (auto split: if_splits)

lemma remove_ends_right:
  assumes "vertex_ok hash (Vertex e t cs vh)"
  shows "removal_right hash (Vertex e t cs vh) e kind (fst (remove_rec hash (Vertex e t cs vh) e kind ops))"
proof (cases "terminal_clear t kind")
  case None
  then show ?thesis using terminal_clear_None [of t kind] by (simp add: remove_ends removal_right_def)
next
  case (Some t')
  note t' = terminal_get_clear [OF Some]
  have ok: "body_ok hash t cs" using assms by auto
  show ?thesis
  proof (cases "t' = NoTerminal \<and> cs = []")
    case True
    then show ?thesis
      using t' Some dead_ends [of t kind _ e] by (auto simp: remove_ends removal_right_def)
  next
    case False
    then have "vertex_ok hash (fst (recanonicalize hash e t' cs ops))"
      using ok by (intro recanonicalize_ok) auto
    moreover have "vertex_get (fst (recanonicalize hash e t' cs ops)) m k =
        (if m = e \<and> k = kind then None else vertex_get (Vertex e t cs vh) m k)" for m k
      using ok recanonicalize_get [of cs hash e t' ops m k vh] t'
      by (cases m e rule: name_cases) auto
    ultimately show ?thesis
      using False t' Some by (auto simp: remove_ends removal_right_def split_beta)
  qed
qed

lemma remove_found_right:
  assumes ok: "vertex_ok hash (Vertex e t (p @ (b, c) # q) vh)"
    and s: "slot_search b (p @ (b, c) # q) = Inr (length p)"
    and IH: "removal_right hash c r kind (fst (remove_rec hash c r kind ops))"
  shows "removal_right hash (Vertex e t (p @ (b, c) # q) vh) (e @ b # r) kind
    (fst (remove_rec hash (Vertex e t (p @ (b, c) # q) vh) (e @ b # r) kind ops))"
proof (cases "remove_rec hash c r kind ops")
  case (Pair out ops1)
  have sorted: "slots_sorted (p @ (b, d) # q)" for d using ok by simp
  then have pq: "slots_sorted (p @ q)" by (auto simp: sorted_wrt_append)
  have none: "below (p @ q) b m k = None" for m k
    using sorted by (intro below_opens) (auto simp: sorted_wrt_append)
  show ?thesis
  proof (cases out)
    case NotThere
    with IH Pair sorted show ?thesis
      by (simp add: remove_found [OF s] removal_right_def below_append)
  next
    case (Removed c')
    with IH Pair have c': "vertex_get c r kind \<noteq> None" "vertex_ok hash c'"
      "vertex_get c' m k = (if m = r \<and> k = kind then None else vertex_get c m k)" for m k
      by (auto simp: removal_right_def)
    let ?v = "fst (rehash hash e t (p @ (b, c') # q) ops1)"
    have "vertex_ok hash ?v" using ok c'(2) by auto
    moreover have "vertex_get ?v m k = (if m = e @ b # r \<and> k = kind then None
        else vertex_get (Vertex e t (p @ (b, c) # q) vh) m k)" for m k
      using sorted c'(3) by (cases m e rule: name_cases) (auto simp: below_append)
    ultimately show ?thesis using Removed Pair sorted c'(1)
      by (simp add: remove_found [OF s] removal_right_def below_append split_beta del: fst_rehash)
  next
    case VertexDead
    with IH Pair have c: "vertex_get c r kind \<noteq> None"
      "m \<noteq> r \<or> k \<noteq> kind \<Longrightarrow> vertex_get c m k = None" for m k
      by (auto simp: removal_right_def)
    let ?v = "fst (recanonicalize hash e t (p @ q) ops1)"
    have "t = NoTerminal \<longrightarrow> p @ q \<noteq> []" using ok by auto
    then have "vertex_ok hash ?v" using ok pq by (intro recanonicalize_ok) auto
    moreover have "vertex_get ?v m k = (if m = e @ b # r \<and> k = kind then None
        else vertex_get (Vertex e t (p @ (b, c) # q) vh) m k)" for m k
    proof -
      have "vertex_get ?v m k = vertex_get (Vertex e t (p @ q) vh) m k"
        using ok pq by (intro recanonicalize_get) auto
      then show ?thesis
        using pq sorted none c(2) by (cases m e rule: name_cases) (auto simp: below_append)
    qed
    ultimately show ?thesis using VertexDead Pair sorted c(1)
      by (simp add: remove_found [OF s] removal_right_def below_append split_beta)
  qed
qed

lemma remove_rec_right:
  "vertex_ok hash v \<Longrightarrow> removal_right hash v n kind (fst (remove_rec hash v n kind ops))"
proof (induction v arbitrary: n ops)
  case (Vertex e t cs vh)
  then have ok: "body_ok hash t cs" by auto
  show ?case
  proof (cases n e rule: name_cases)
    case ends
    then show ?thesis using remove_ends_right Vertex.prems by simp
  next
    case (goes_on b r)
    from ok have "slots_sorted cs" by blast
    then show ?thesis
    proof (cases rule: slot_search_cases [where b = b])
      case (found p c q)
      have "removal_right hash c r kind (fst (remove_rec hash c r kind ops))"
        using Vertex.IH [of "(b, c)" c r ops] ok found(1) by auto
      with found goes_on Vertex.prems show ?thesis by (simp only: remove_found_right)
    next
      case (opens p q)
      then show ?thesis using ok goes_on
        by (simp add: remove_opens removal_right_def below_opens)
    qed
  next
    case (short a q)
    then show ?thesis by (simp add: remove_short removal_right_def)
  next
    case (branch p a q b r)
    then show ?thesis by (simp add: remove_branch removal_right_def)
  qed
qed

end
