(* ===== verification/Radix_Canon.thy ===== *)
theory Radix_Canon
  imports Radix_Laws
begin

text \<open>
  The shape of a child map is a function of its contents: two well-formed vertices with the
  same lookups are the same vertex, hashes included. And the converse through the hashes:
  where the hash is injective on the pre-images involved, equal hashes give equal vertices.
\<close>

section \<open>A vertex holds something, and its extension is no longer than it must be\<close>

lemma terminal_some: "t \<noteq> NoTerminal \<Longrightarrow> \<exists>k. terminal_get t k \<noteq> None"
  by (cases t) (auto intro: exI [of _ FileChild])

lemma vertex_nonempty: "vertex_ok hash v \<Longrightarrow> \<exists>n k. vertex_get v n k \<noteq> None"
proof (induction v)
  case (Vertex e t cs vh)
  show ?case
  proof (cases "t = NoTerminal")
    case False
    then show ?thesis using terminal_some [of t] get_ends [of e t cs vh] by metis
  next
    case True
    then obtain b c cs' where cs: "cs = (b, c) # cs'" using Vertex.prems by (cases cs) auto
    then obtain r k where "vertex_get c r k \<noteq> None"
      using Vertex.IH [of "(b, c)" c] Vertex.prems by auto
    then have "vertex_get (Vertex e t cs vh) (e @ b # r) k \<noteq> None"
      using Vertex.prems cs by simp
    then show ?thesis by blast
  qed
qed

lemma child_nonempty:
  assumes "vertex_ok hash v" "(b, c) \<in> set (slots v)"
  obtains r k where "vertex_get v (ext v @ b # r) k \<noteq> None"
proof -
  obtain e t cs vh where v: "v = Vertex e t cs vh" by (cases v)
  with assms have "vertex_ok hash c" "slots_sorted cs" by auto
  then obtain r k where "vertex_get c r k \<noteq> None" using vertex_nonempty by blast
  moreover have "map_of cs b = Some c"
    using assms v \<open>slots_sorted cs\<close> by (intro map_of_is_SomeI slots_distinct) auto
  ultimately have "vertex_get v (ext v @ b # r) k \<noteq> None"
    using v \<open>slots_sorted cs\<close> by (simp add: below_def)
  then show thesis by (rule that)
qed

lemma vertex_fork:
  assumes "vertex_ok hash v"
  obtains k where "vertex_get v (ext v) k \<noteq> None"
  | b b' r r' k k' where "b \<noteq> b'" "vertex_get v (ext v @ b # r) k \<noteq> None"
      "vertex_get v (ext v @ b' # r') k' \<noteq> None"
proof (cases "vterm v = NoTerminal")
  case False
  then show thesis using terminal_some [of "vterm v"] that(1) by (cases v) auto
next
  case True
  then obtain b c b' c' cs where "slots v = (b, c) # (b', c') # cs"
    using assms by (cases v; cases "slots v"; cases "tl (slots v)") auto
  then have m: "(b, c) \<in> set (slots v)" "(b', c') \<in> set (slots v)" "b \<noteq> b'"
    using assms by (cases v; auto)+
  show thesis
    using child_nonempty [OF assms m(1)] child_nonempty [OF assms m(2)] m(3) that(2) by metis
qed

definition same_lookups :: "vertex \<Rightarrow> vertex \<Rightarrow> bool" where
  "same_lookups v w \<longleftrightarrow> (\<forall>n k. vertex_get v n k = vertex_get w n k)"

lemma ok_prefix: "vertex_ok hash v \<Longrightarrow> vertex_get v n k \<noteq> None \<Longrightarrow> \<exists>r. n = ext v @ r"
  by (rule get_prefix) (cases v; auto)+

lemma ext_no_longer:
  assumes "vertex_ok hash v" "vertex_ok hash w" "same_lookups v w"
  shows "ext v \<noteq> ext w @ b # r"
proof
  assume e: "ext v = ext w @ b # r"
  have p: "\<exists>q. n = ext w @ b # r @ q" if "vertex_get w n k \<noteq> None" for n k
    using ok_prefix [OF assms(1), of n k] that assms(3) e by (auto simp: same_lookups_def)
  show False
  proof (cases rule: vertex_fork [OF assms(2)])
    case (1 k)
    then show False using p by fastforce
  next
    case (2 c d s s' k k')
    then show False using p [of "ext w @ c # s" k] p [of "ext w @ d # s'" k'] by auto
  qed
qed

lemma ext_determined:
  assumes "vertex_ok hash v" "vertex_ok hash w" "same_lookups v w"
  shows "ext v = ext w"
proof (cases "ext v" "ext w" rule: name_cases)
  case (goes_on b r)
  then show ?thesis using ext_no_longer assms by blast
next
  case (short b r)
  moreover have "same_lookups w v" using assms(3) by (simp add: same_lookups_def)
  ultimately show ?thesis using ext_no_longer assms by blast
next
  case (branch p a q b r)
  obtain n k where n: "vertex_get v n k \<noteq> None" using vertex_nonempty assms(1) by blast
  then have "vertex_get w n k \<noteq> None" using assms(3) by (simp add: same_lookups_def)
  then show ?thesis
    using ok_prefix [OF assms(1) n] ok_prefix [OF assms(2), of n k] branch by auto
qed

section \<open>The contents determine the vertex\<close>

lemma terminal_determined: "(\<And>k. terminal_get t k = terminal_get t' k) \<Longrightarrow> t = t'"
proof -
  assume a: "\<And>k. terminal_get t k = terminal_get t' k"
  have "terminal_get t FileChild = terminal_get t' FileChild"
    "terminal_get t DirChild = terminal_get t' DirChild" by (simp_all add: a)
  then show "t = t'" by (cases t; cases t') (auto split: if_splits, (metis child_kind.exhaust)+)
qed

theorem vertex_determined:
  "vertex_ok hash v \<Longrightarrow> vertex_ok hash w \<Longrightarrow> same_lookups v w \<Longrightarrow> v = w"
proof (induction v arbitrary: w)
  case (Vertex e t cs vh)
  obtain e' t' ds wh where w: "w = Vertex e' t' ds wh" by (cases w)
  have e: "e' = e" using ext_determined [OF Vertex.prems] w by simp
  have get: "vertex_get (Vertex e t cs vh) n k = vertex_get (Vertex e t' ds wh) n k" for n k
    using Vertex.prems(3) w e by (simp add: same_lookups_def)
  have t: "t = t'" using get [of e] by (intro terminal_determined) simp
  have ok: "body_ok hash t cs" "body_ok hash t' ds" using Vertex.prems w by auto
  have below: "below cs b r k = below ds b r k" for b r k
    using get [of "e @ b # r" k] ok by simp
  have child: "vertex_ok hash c" if "map_of cs b = Some c \<or> map_of ds b = Some c" for b c
    using that ok by (auto dest: map_of_SomeD)
  have "map_of cs b = map_of ds b" for b
  proof (cases "map_of cs b")
    case None
    then have "map_of ds b = None"
      using below [of b] child vertex_nonempty by (cases "map_of ds b") (auto simp: below_def, metis option.distinct(1))
    with None show ?thesis by simp
  next
    case (Some c)
    then obtain d where d: "map_of ds b = Some d"
      using below [of b] child [of b c] vertex_nonempty [of hash c]
      by (cases "map_of ds b") (auto simp: below_def)
    have "same_lookups c d"
      using below [of b] Some d by (simp add: same_lookups_def below_def)
    then have "c = d"
      using Vertex.IH [of "(b, c)" c d] Some d child by (auto dest: map_of_SomeD)
    then show ?thesis using Some d by simp
  qed
  then have "map_of cs = map_of ds" by auto
  then have "cs = ds" using ok by (intro btree_determined) (simp_all add: btree_ok_def)
  then show ?case using Vertex.prems(1, 2) w e t by simp
qed

section \<open>The hash determines the vertex\<close>

text \<open>The pre-images of a vertex and of everything below it, and its stored hashes' width.\<close>

fun vertex_pres :: "vertex \<Rightarrow> str list" where
  "vertex_pres (Vertex e t cs vh) =
     vertex_preimage e t cs # concat (map (\<lambda>(b, c). vertex_pres c) cs)"

fun terminal_wide :: "terminal \<Rightarrow> bool" where
  "terminal_wide NoTerminal \<longleftrightarrow> True"
| "terminal_wide (One k h) \<longleftrightarrow> length h = 32"
| "terminal_wide (Both f d) \<longleftrightarrow> length f = 32 \<and> length d = 32"

fun vertex_wide :: "vertex \<Rightarrow> bool" where
  "vertex_wide (Vertex e t cs vh) \<longleftrightarrow> terminal_wide t \<and> (\<forall>(b, c) \<in> set cs. vertex_wide c)"

lemma terminal_frame_split:
  "terminal_frame t @ r = terminal_frame t' @ s \<Longrightarrow> terminal_wide t \<Longrightarrow> terminal_wide t' \<Longrightarrow>
   t = t' \<and> r = s"
proof (cases t; cases t')
  fix k h k' h'
  assume "terminal_frame t @ r = terminal_frame t' @ s" "terminal_wide t" "terminal_wide t'"
    "t = One k h" "t' = One k' h'"
  then show "t = t' \<and> r = s" by (cases k; cases k') auto
qed auto

lemma slots_split:
  "concat (map (\<lambda>(b, c). b # vhash c) cs) = concat (map (\<lambda>(b, c). b # vhash c) ds) \<Longrightarrow>
   length cs = length ds \<Longrightarrow> \<forall>(b, c) \<in> set cs. length (vhash c) = 32 \<Longrightarrow>
   \<forall>(b, c) \<in> set ds. length (vhash c) = 32 \<Longrightarrow>
   list_all2 (\<lambda>(b, c) (b', c'). b = b' \<and> vhash c = vhash c') cs ds"
proof (induction cs ds rule: list_induct2')
  case (4 x xs y ys)
  then show ?case by (cases x; cases y) auto
qed auto

lemma vertex_preimage_split:
  assumes "vertex_preimage e t cs = vertex_preimage e' t' ds"
    and "terminal_wide t" "terminal_wide t'"
    and "\<forall>(b, c) \<in> set cs. length (vhash c) = 32" "\<forall>(b, c) \<in> set ds. length (vhash c) = 32"
  shows "e = e' \<and> t = t' \<and> list_all2 (\<lambda>(b, c) (b', c'). b = b' \<and> vhash c = vhash c') cs ds"
proof -
  let ?kids = "\<lambda>cs. write_uleb128 (length cs) @ concat (map (\<lambda>(b, c). b # vhash c) cs)"
  have "length e = length e' \<and>
      e @ terminal_frame t @ ?kids cs = e' @ terminal_frame t' @ ?kids ds"
    using assms(1) by (intro write_uleb128_prefix_free) (simp add: vertex_preimage_def)
  then have e: "e = e'" and rest: "terminal_frame t @ ?kids cs = terminal_frame t' @ ?kids ds"
    by auto
  have t: "t = t'" and kids: "?kids cs = ?kids ds"
    using terminal_frame_split [OF rest assms(2, 3)] by auto
  show ?thesis
    using e t write_uleb128_prefix_free [OF kids] slots_split [OF _ _ assms(4, 5)] by blast
qed

lemma vertex_hash_determines:
  assumes len: "\<And>s. length (hash s) = 32"
  shows "vertex_ok hash v \<Longrightarrow> vertex_ok hash w \<Longrightarrow> vertex_wide v \<Longrightarrow> vertex_wide w \<Longrightarrow>
    inj_on hash (set (vertex_pres v) \<union> set (vertex_pres w)) \<Longrightarrow> vhash v = vhash w \<Longrightarrow> v = w"
proof (induction v arbitrary: w)
  case (Vertex e t cs vh)
  obtain e' t' ds wh where w: "w = Vertex e' t' ds wh" by (cases w)
  have hlen: "length (vhash c) = 32" if "vertex_ok hash c" for c using that len by (cases c) auto
  have "vertex_preimage e t cs = vertex_preimage e' t' ds"
  proof (rule inj_onD [OF Vertex.prems(5)])
    show "hash (vertex_preimage e t cs) = hash (vertex_preimage e' t' ds)"
      using Vertex.prems(1, 2, 6) w by (simp only: vertex_ok.simps vertex.sel)
  qed (simp_all add: w)
  moreover have "\<forall>(b, c) \<in> set cs. length (vhash c) = 32" "\<forall>(b, c) \<in> set ds. length (vhash c) = 32"
    "terminal_wide t" "terminal_wide t'"
    using Vertex.prems(1-4) w hlen by fastforce+
  ultimately have eq: "e = e'" "t = t'"
    and kids: "list_all2 (\<lambda>(b, c) (b', c'). b = b' \<and> vhash c = vhash c') cs ds"
    using vertex_preimage_split by blast+
  have "cs = ds"
  proof (rule list_all2_all_nthI [THEN list_all2_eq [THEN iffD2]])
    show "length cs = length ds" using kids by (rule list_all2_lengthD)
    fix i assume i: "i < length cs"
    obtain b c b' c' where nth: "cs ! i = (b, c)" "ds ! i = (b', c')" by fastforce
    with kids i have bc: "b = b'" "vhash c = vhash c'" by (auto dest: list_all2_nthD)
    have mem: "(b, c) \<in> set cs" "(b', c') \<in> set ds"
      using nth i kids by (metis list_all2_lengthD nth_mem)+
    have "set (vertex_pres c) \<union> set (vertex_pres c') \<subseteq>
        set (vertex_pres (Vertex e t cs vh)) \<union> set (vertex_pres w)"
      using mem w by auto
    then have inj: "inj_on hash (set (vertex_pres c) \<union> set (vertex_pres c'))"
      using Vertex.prems(5) inj_on_subset by blast
    have kid: "vertex_ok hash c" "vertex_ok hash c'" "vertex_wide c" "vertex_wide c'"
      using mem Vertex.prems(1-4) w by auto
    have "c \<in> Basic_BNFs.snds (b, c)" by simp
    then have "c = c'" by (rule Vertex.IH [OF mem(1) _ kid inj bc(2)])
    then show "cs ! i = ds ! i" using nth bc by simp
  qed
  then show ?case using eq w Vertex.prems(1, 2) by simp
qed

section \<open>The walk lists the contents in order\<close>

type_synonym entry = "str \<times> child_kind \<times> str"

definition entry_less :: "entry \<Rightarrow> entry \<Rightarrow> bool" where
  "entry_less = (\<lambda>(n, k, h) (m, j, g).
     ord_class.lexordp n m \<or> (n = m \<and> k = FileChild \<and> j = DirChild))"

lemma terminal_entries_set:
  "(m, k, h) \<in> set (terminal_entries n t) \<longleftrightarrow> m = n \<and> terminal_get t k = Some h"
  by (cases t; cases k) (auto simp: terminal_entries_def)

lemma terminal_entries_sorted: "sorted_wrt entry_less (terminal_entries n t)"
  by (cases t) (simp_all add: terminal_entries_def entry_less_def)

lemma walk_entries_set:
  "vertex_ok hash v \<Longrightarrow>
   (m, k, h) \<in> set (walk_entries acc v) \<longleftrightarrow> (\<exists>n. m = acc @ n \<and> vertex_get v n k = Some h)"
proof (induction v arbitrary: acc m)
  case (Vertex e t cs vh)
  then have ok: "body_ok hash t cs" by auto
  have IH: "(m, k, h) \<in> set (walk_entries (acc @ e @ [b]) c) \<longleftrightarrow>
      (\<exists>r. m = acc @ e @ b # r \<and> vertex_get c r k = Some h)"
    if "(b, c) \<in> set cs" for b c
    using Vertex.IH [of "(b, c)" c m "acc @ e @ [b]"] that ok by auto
  have some: "map_of cs b = Some c \<longleftrightarrow> (b, c) \<in> set cs" for b c
    using ok by (simp add: slots_distinct)
  have "(m, k, h) \<in> set (walk_entries acc (Vertex e t cs vh)) \<longleftrightarrow>
      (m = acc @ e \<and> terminal_get t k = Some h) \<or>
      (\<exists>(b, c) \<in> set cs. (m, k, h) \<in> set (walk_entries (acc @ e @ [b]) c))"
    by (auto simp: terminal_entries_set)
  also have "\<dots> \<longleftrightarrow>
      (m = acc @ e \<and> terminal_get t k = Some h) \<or>
      (\<exists>b c r. (b, c) \<in> set cs \<and> m = acc @ e @ b # r \<and> vertex_get c r k = Some h)"
    using IH by (simp only: Bex_def split_paired_Ex prod.case) blast
  also have "\<dots> \<longleftrightarrow> (\<exists>n. m = acc @ n \<and> vertex_get (Vertex e t cs vh) n k = Some h)"
    (is "?l \<longleftrightarrow> ?r")
  proof
    assume ?l
    then show ?r
    proof (elim disjE conjE exE)
      assume "m = acc @ e" "terminal_get t k = Some h"
      then show ?r by (intro exI [of _ e]) simp
    next
      fix b c r
      assume "(b, c) \<in> set cs" "m = acc @ e @ b # r" "vertex_get c r k = Some h"
      then show ?r using ok by (intro exI [of _ "e @ b # r"]) (simp add: below_def some [THEN iffD2])
    qed
  next
    assume ?r
    then obtain n where n: "m = acc @ n" "vertex_get (Vertex e t cs vh) n k = Some h" by blast
    then show ?l using ok
      by (cases n e rule: name_cases) (auto simp: below_def some [symmetric] split: option.splits)
  qed
  finally show ?case .
qed

lemma sorted_concat:
  "\<forall>x \<in> set xs. sorted_wrt R (f x) \<Longrightarrow>
   sorted_wrt (\<lambda>x y. \<forall>a \<in> set (f x). \<forall>b \<in> set (f y). R a b) xs \<Longrightarrow>
   sorted_wrt R (concat (map f xs))"
  by (induction xs) (auto simp: sorted_wrt_append)

lemma entry_less_names: "ord_class.lexordp (fst x) (fst y) \<Longrightarrow> entry_less x y"
  by (simp add: entry_less_def split_beta)

lemma terminal_entries_name: "x \<in> set (terminal_entries n t) \<Longrightarrow> fst x = n"
  by (cases t) (auto simp: terminal_entries_def)

lemma walk_entries_names:
  "vertex_ok hash v \<Longrightarrow> x \<in> set (walk_entries acc v) \<Longrightarrow> \<exists>n k h. x = (acc @ n, k, h)"
  by (cases x) (auto simp: walk_entries_set)

lemma walk_entries_sorted: "vertex_ok hash v \<Longrightarrow> sorted_wrt entry_less (walk_entries acc v)"
proof (induction v arbitrary: acc)
  case (Vertex e t cs vh)
  then have ok: "body_ok hash t cs" by auto
  let ?f = "\<lambda>(b, c). walk_entries (acc @ e @ [b]) c"
  have names: "\<exists>r k h. x = ((acc @ e) @ fst bc # r, k, h)"
    if "bc \<in> set cs" "x \<in> set (?f bc)" for bc x
    using walk_entries_names [of hash "snd bc" x "acc @ e @ [fst bc]"] that ok
    by (cases bc) auto
  have kids: "sorted_wrt entry_less (concat (map ?f cs))"
  proof (rule sorted_concat)
    show "\<forall>bc \<in> set cs. sorted_wrt entry_less (?f bc)"
      using Vertex.IH ok by fastforce
    have "sorted_wrt (\<lambda>x y. fst x < fst y) cs" using ok by (simp add: sorted_wrt_map)
    then show "sorted_wrt (\<lambda>x y. \<forall>a \<in> set (?f x). \<forall>b \<in> set (?f y). entry_less a b) cs"
    proof (rule sorted_wrt_mono_rel [rotated])
      fix x y assume xy: "x \<in> set cs" "y \<in> set cs" "fst x < fst y"
      show "\<forall>a \<in> set (?f x). \<forall>b \<in> set (?f y). entry_less a b"
      proof (intro ballI)
        fix a b assume ab: "a \<in> set (?f x)" "b \<in> set (?f y)"
        from names [OF xy(1) ab(1)] obtain r k h where a: "a = ((acc @ e) @ fst x # r, k, h)"
          by (elim exE)
        from names [OF xy(2) ab(2)] obtain r' k' h' where "b = ((acc @ e) @ fst y # r', k', h')"
          by (elim exE)
        with a show "entry_less a b"
          using lexordp_append_left_rightI [of "fst x" "fst y" "acc @ e" r r'] xy(3)
          by (intro entry_less_names) simp
      qed
    qed
  qed
  have "entry_less a b" if a: "a \<in> set (terminal_entries (acc @ e) t)"
    and b: "b \<in> set (concat (map ?f cs))" for a b
  proof -
    obtain bc where bc: "bc \<in> set cs" "b \<in> set (?f bc)" using b by auto
    from names [OF bc] obtain r k' h' where "b = ((acc @ e) @ fst bc # r, k', h')"
      by (elim exE)
    then show ?thesis
      using terminal_entries_name [OF a] lexordp_append_rightI [of "fst bc # r" "acc @ e"]
      by (intro entry_less_names) simp
  qed
  then show ?case using kids terminal_entries_sorted by (simp add: sorted_wrt_append)
qed

section \<open>What an operation costs\<close>

lemma set_rec_cost:
  "vertex_hashes (snd (set_rec hash v n kind h ops)) \<le> vertex_hashes ops + length n + 2"
proof (induction hash v n kind h ops rule: set_rec.induct)
  case (1 hash e t cs vh rem kind h ops)
  show ?case
  proof (cases "lcp rem e < length e \<or> length rem = length e")
    case True
    then show ?thesis using lcp_le(1) [of rem e]
      by (auto simp: set_rec.simps split_vertex_def Let_def split_beta)
  next
    case False
    then have lt: "length e < length rem" "lcp rem e = length e"
      using lcp_le(1) [of rem e] lcp_le(2) [of rem e] by linarith+
    show ?thesis
    proof (cases "slot_search (rem ! length e) cs")
      case (Inl i)
      then show ?thesis using lt by (simp add: set_rec.simps Let_def split_beta)
    next
      case (Inr i)
      then show ?thesis using lt "1.IH" [OF refl _ _ refl refl Inr]
        by (simp add: set_rec.simps Let_def split_beta)
    qed
  qed
qed

lemma recanonicalize_cost [simp]:
  "vertex_hashes (snd (recanonicalize hash e t cs ops)) = vertex_hashes ops + 1"
  by (simp add: recanonicalize_def split_beta)

lemma remove_rec_cost:
  "vertex_hashes (snd (remove_rec hash v n kind ops)) \<le> vertex_hashes ops + length n + 1"
proof (induction hash v n kind ops rule: remove_rec.induct)
  case (1 hash e t cs vh rem kind ops)
  show ?case
  proof (cases "lcp rem e < length e \<or> length rem = length e")
    case True
    then show ?thesis
      by (auto simp: remove_rec.simps Let_def split_beta split: option.splits)
  next
    case False
    then have lt: "length e < length rem" "lcp rem e = length e"
      using lcp_le(1) [of rem e] lcp_le(2) [of rem e] by linarith+
    show ?thesis
    proof (cases "slot_search (rem ! length e) cs")
      case (Inl i)
      then show ?thesis using lt by (simp add: remove_rec.simps)
    next
      case (Inr i)
      then show ?thesis using lt "1.IH" [OF _ _ Inr]
        by (auto simp: remove_rec.simps Let_def split_beta split: outcome.splits prod.splits)
    qed
  qed
qed

end
