(* ===== verification/Radix_Props.thy ===== *)
theory Radix_Props
  imports Radix_Canon Sample
begin

text \<open>
  The child map as a whole, over every history of insertions and removals: it is a map, its
  shape forgets the history, its hash identifies its contents, its walk lists them in order,
  and an operation hashes no more vertices than the name is long, plus two.
\<close>

section \<open>Histories\<close>

type_synonym entry_op = "(entry, str \<times> child_kind) table_op"

definition entry_key :: "entry \<Rightarrow> str \<times> child_kind" where
  "entry_key = (\<lambda>(n, k, h). (n, k))"

definition radix_put :: "(str \<Rightarrow> str) \<Rightarrow> entry \<Rightarrow> radix_map \<Rightarrow> radix_map" where
  "radix_put hash = (\<lambda>(n, k, h). radix_set hash n k h)"

definition radix_del :: "(str \<Rightarrow> str) \<Rightarrow> str \<times> child_kind \<Rightarrow> radix_map \<Rightarrow> radix_map" where
  "radix_del hash = (\<lambda>(n, k) m. snd (radix_remove hash n k m))"

definition radix_run :: "(str \<Rightarrow> str) \<Rightarrow> entry_op list \<Rightarrow> radix_map" where
  "radix_run hash xs = fold (table_step (radix_put hash) (radix_del hash)) xs radix_new"

definition radix_lookup :: "radix_map \<Rightarrow> str \<times> child_kind \<Rightarrow> entry option" where
  "radix_lookup m = (\<lambda>(n, k). map_option (\<lambda>h. (n, k, h)) (radix_get m n k))"

definition radix_ok :: "(str \<Rightarrow> str) \<Rightarrow> radix_map \<Rightarrow> bool" where
  "radix_ok hash m \<longleftrightarrow> (\<forall>v. rroot m = Some v \<longrightarrow> vertex_ok hash v)"

lemma radix_new_ok: "radix_ok hash radix_new"
  by (simp add: radix_ok_def radix_new_def)

lemma radix_set_ok: "radix_ok hash m \<Longrightarrow> radix_ok hash (radix_set hash n k h m)"
  using set_rec_ok [of hash "the (rroot m)" n k h "rops m"]
  by (auto simp: radix_ok_def radix_set_def split_beta split: option.splits)

lemma radix_get_set:
  "radix_ok hash m \<Longrightarrow>
   radix_get (radix_set hash n k h m) j i = (if j = n \<and> i = k then Some h else radix_get m j i)"
  using set_rec_get [of hash "the (rroot m)" n k h "rops m" j i] leaf_get [of hash n k h "rops m" j i]
  by (auto simp: radix_ok_def radix_get_def radix_set_def split_beta split: option.splits)

lemma radix_remove_right:
  assumes "radix_ok hash m"
  shows "radix_ok hash (snd (radix_remove hash n k m)) \<and>
    (fst (radix_remove hash n k m) \<longleftrightarrow> radix_get m n k \<noteq> None) \<and>
    radix_get (snd (radix_remove hash n k m)) j i = (if j = n \<and> i = k then None else radix_get m j i)"
proof (cases "rroot m")
  case None
  then show ?thesis using assms by (simp add: radix_remove_def radix_get_def)
next
  case (Some v)
  then have "removal_right hash v n k (fst (remove_rec hash v n k (rops m)))"
    using assms by (simp add: radix_ok_def remove_rec_right)
  with Some assms show ?thesis
    by (auto simp: radix_remove_def radix_get_def radix_ok_def removal_right_def
        split: prod.splits outcome.splits)
qed

interpretation children: erasable_table radix_lookup "radix_put hash" entry_key "radix_ok hash"
  "radix_del hash" for hash
proof unfold_locales
  fix s v k
  assume ok: "radix_ok hash s"
  show "radix_ok hash (radix_put hash v s)"
    using ok by (cases v) (simp add: radix_put_def radix_set_ok)
  show "radix_lookup (radix_put hash v s) k = (if k = entry_key v then Some v else radix_lookup s k)"
    using ok by (cases v; cases k) (auto simp: radix_lookup_def radix_put_def entry_key_def radix_get_set)
next
  fix s k j
  assume ok: "radix_ok hash s"
  show "radix_ok hash (radix_del hash k s)"
    using radix_remove_right [OF ok] by (cases k) (simp add: radix_del_def)
  show "radix_lookup (radix_del hash k s) j = (if j = k then None else radix_lookup s j)"
    using radix_remove_right [OF ok] by (cases k; cases j) (auto simp: radix_lookup_def radix_del_def)
qed

lemma radix_run_ok: "radix_ok hash (radix_run hash xs)"
  unfolding radix_run_def by (rule children.ok_run [OF radix_new_ok])

lemma radix_run_lookup: "radix_lookup (radix_run hash xs) = map_run entry_key xs"
  using children.get_run [OF radix_new_ok, of hash xs]
  by (simp add: radix_run_def map_run_def radix_lookup_def radix_get_def radix_new_def split_def)

lemma radix_run_get:
  "radix_get (radix_run hash xs) n k = map_option (\<lambda>(n, k, h). h) (map_run entry_key xs (n, k))"
  unfolding radix_run_lookup [symmetric, of _ hash] by (simp add: radix_lookup_def option.map_comp o_def option.map_ident)

lemma radix_get_determines:
  assumes "radix_ok hash m" "radix_ok hash m'" "\<And>n k. radix_get m n k = radix_get m' n k"
  shows "rroot m = rroot m'"
proof (cases "rroot m"; cases "rroot m'")
  fix v w
  assume "rroot m = Some v" "rroot m' = Some w"
  then show ?thesis
    using vertex_determined [of hash v w] assms by (simp add: radix_ok_def same_lookups_def radix_get_def)
next
  fix v
  assume "rroot m = Some v" "rroot m' = None"
  then show ?thesis using vertex_nonempty [of hash v] assms by (simp add: radix_ok_def radix_get_def)
next
  fix v
  assume "rroot m = None" "rroot m' = Some v"
  then show ?thesis using vertex_nonempty [of hash v] assms by (simp add: radix_ok_def radix_get_def)
qed simp

section \<open>The pre-images of a map\<close>

definition dir_preimage :: "radix_map \<Rightarrow> str" where
  "dir_preimage m = tag_dir @ (case rroot m of None \<Rightarrow> [] | Some r \<Rightarrow> vhash r)"

definition radix_pres :: "radix_map \<Rightarrow> str list" where
  "radix_pres m = dir_preimage m # (case rroot m of None \<Rightarrow> [] | Some r \<Rightarrow> vertex_pres r)"

lemma terminal_wide_get:
  assumes "\<And>k h. terminal_get t k = Some h \<Longrightarrow> length h = 32"
  shows "terminal_wide t"
proof (cases t)
  case (One k h)
  then show ?thesis using assms [of k h] by simp
next
  case (Both f d)
  then show ?thesis using assms [of FileChild f] assms [of DirChild d] by simp
qed simp

lemma wide_lookups:
  "vertex_ok hash v \<Longrightarrow> \<forall>n k h. vertex_get v n k = Some h \<longrightarrow> length h = 32 \<Longrightarrow> vertex_wide v"
proof (induction v)
  case (Vertex e t cs vh)
  have sorted: "slots_sorted cs" using Vertex.prems by simp
  have "terminal_get t k = Some h \<Longrightarrow> length h = 32" for k h
    using Vertex.prems(2) get_ends [of e t cs vh k] by metis
  then have "terminal_wide t" by (rule terminal_wide_get)
  moreover have "vertex_wide c" if m: "(b, c) \<in> set cs" for b c
  proof (rule Vertex.IH [OF m])
    show "c \<in> Basic_BNFs.snds (b, c)" by simp
    show "vertex_ok hash c" using Vertex.prems(1) m by auto
    have "vertex_get c r k = vertex_get (Vertex e t cs vh) (e @ b # r) k" for r k
      using m sorted by (simp add: below_def slots_distinct)
    then show "\<forall>n k h. vertex_get c n k = Some h \<longrightarrow> length h = 32" using Vertex.prems(2) by metis
  qed
  ultimately show ?case by auto
qed

lemma dir_preimage_inj:
  assumes "dir_preimage m = dir_preimage m'" "radix_ok hash m" "radix_ok hash m'"
    and len: "\<And>s. length (hash s) = 32"
    and wide: "\<And>v. rroot m = Some v \<or> rroot m' = Some v \<Longrightarrow> vertex_wide v"
    and inj: "inj_on hash (set (radix_pres m @ radix_pres m'))"
  shows "rroot m = rroot m'"
proof (cases "rroot m"; cases "rroot m'")
  fix v w
  assume vw: "rroot m = Some v" "rroot m' = Some w"
  then have ok: "vertex_ok hash v" "vertex_ok hash w" using assms(2, 3) by (auto simp: radix_ok_def)
  have "inj_on hash (set (vertex_pres v) \<union> set (vertex_pres w))"
    using inj by (rule inj_on_subset) (auto simp: radix_pres_def vw)
  then have "v = w"
    using ok wide vw assms(1) by (intro vertex_hash_determines [OF len]) (auto simp: dir_preimage_def)
  then show ?thesis using vw by simp
next
  fix v assume v: "rroot m = Some v" "rroot m' = None"
  then have "length (vhash v) = 32" using assms(2) len by (cases v) (simp add: radix_ok_def)
  then show ?thesis using v assms(1) by (auto simp: dir_preimage_def)
next
  fix v assume v: "rroot m = None" "rroot m' = Some v"
  then have "length (vhash v) = 32" using assms(3) len by (cases v) (simp add: radix_ok_def)
  then show ?thesis using v assms(1) by (auto simp: dir_preimage_def)
qed simp

section \<open>The properties\<close>

text \<open>
  Claim C13. The child map is a map from a name and a kind to a hash: after any history of
  insertions and removals a lookup answers what the same history leaves in a plain map, and a
  removal answers true exactly when its entry is there.
\<close>

theorem radix_refines_map:
  "radix_get (radix_run hash xs) n k = map_option (\<lambda>(n, k, h). h) (map_run entry_key xs (n, k)) \<and>
   (fst (radix_remove hash n k (radix_run hash xs)) \<longleftrightarrow> map_run entry_key xs (n, k) \<noteq> None)"
  using radix_remove_right [OF radix_run_ok, of hash n k xs] by (simp add: radix_run_get)

text \<open>
  Claim C14. The trie forgets its history: two histories that leave the same entries leave the
  same vertices, every stored hash included, so a removed entry leaves no trace and the
  directory's value depends on nothing but its entries.
\<close>

theorem radix_history_independent:
  assumes "map_run entry_key xs = map_run entry_key ys"
  shows "rroot (radix_run hash xs) = rroot (radix_run hash ys)"
  by (rule radix_get_determines [OF radix_run_ok radix_run_ok]) (simp add: radix_run_get assms)

theorem radix_history_independent_witness:
  "rroot (radix_run sample_hash
      [Enter (''note'', FileChild, ''1''), Enter (''notes'', DirChild, ''2''), Erase (''note'', FileChild)]) =
   rroot (radix_run sample_hash [Enter (''notes'', DirChild, ''2'')])"
  by (rule radix_history_independent) (auto simp: map_run_def entry_key_def)

text \<open>
  Claim C15. The directory's value identifies its entries: with 32-byte hashes and no collision
  among the pre-images of the two maps, two histories give the same directory value exactly
  when they leave the same entries.
\<close>

theorem dir_value_identifies:
  assumes len: "\<And>s. length (hash s) = 32"
    and wide: "\<And>n k h. Enter (n, k, h) \<in> set (xs @ ys) \<Longrightarrow> length h = 32"
    and inj: "inj_on hash (set (radix_pres (radix_run hash xs) @ radix_pres (radix_run hash ys)))"
  shows "dir_value hash (radix_run hash xs) = dir_value hash (radix_run hash ys) \<longleftrightarrow>
    map_run entry_key xs = map_run entry_key ys"
proof
  assume "dir_value hash (radix_run hash xs) = dir_value hash (radix_run hash ys)"
  then have "hash (dir_preimage (radix_run hash xs)) = hash (dir_preimage (radix_run hash ys))"
    by (simp only: dir_value_def dir_preimage_def)
  then have eq: "dir_preimage (radix_run hash xs) = dir_preimage (radix_run hash ys)"
    by (rule inj_onD [OF inj]) (simp_all add: radix_pres_def)
  have run: "length h = 32" if "radix_get (radix_run hash zs) n k = Some h" "set zs \<subseteq> set (xs @ ys)" for zs n k h
    using that wide map_run_Enter [of entry_key zs "(n, k)"] by (fastforce simp: radix_run_get)
  have "vertex_wide v" if "rroot (radix_run hash zs) = Some v" "set zs \<subseteq> set (xs @ ys)" for v zs
    using that run [of zs] radix_run_ok [of hash zs] wide_lookups [of hash v]
    by (simp add: radix_ok_def radix_get_def)
  then have "rroot (radix_run hash xs) = rroot (radix_run hash ys)"
    by (intro dir_preimage_inj [OF eq radix_run_ok radix_run_ok len _ inj]) auto
  then show "map_run entry_key xs = map_run entry_key ys"
    unfolding radix_run_lookup [symmetric, of _ hash]
    by (simp add: radix_lookup_def radix_get_def split_def)
next
  assume "map_run entry_key xs = map_run entry_key ys"
  then have "rroot (radix_run hash xs) = rroot (radix_run hash ys)"
    by (intro radix_get_determines [OF radix_run_ok radix_run_ok]) (simp add: radix_run_get)
  then show "dir_value hash (radix_run hash xs) = dir_value hash (radix_run hash ys)"
    by (simp add: dir_value_def)
qed

definition wide_hash :: "str \<Rightarrow> str" where
  "wide_hash s = take 32 (drop 12 s @ replicate 32 (CHR 0x00))"

lemma wide_hash_length: "length (wide_hash s) = 32"
  by (simp add: wide_hash_def)

theorem dir_value_identifies_witness:
  "dir_value wide_hash (radix_run wide_hash [Enter (''a'', FileChild, replicate 32 (CHR ''x''))]) \<noteq>
   dir_value wide_hash (radix_run wide_hash [Enter (''a'', FileChild, replicate 32 (CHR ''y''))])"
proof -
  let ?xs = "[Enter (''a'', FileChild, replicate 32 (CHR ''x''))] :: entry_op list"
  let ?ys = "[Enter (''a'', FileChild, replicate 32 (CHR ''y''))] :: entry_op list"
  have "distinct (map wide_hash (radix_pres (radix_run wide_hash ?xs) @ radix_pres (radix_run wide_hash ?ys)))"
    by code_simp
  then have "inj_on wide_hash (set (radix_pres (radix_run wide_hash ?xs) @ radix_pres (radix_run wide_hash ?ys)))"
    by (simp only: distinct_map)
  then have "dir_value wide_hash (radix_run wide_hash ?xs) = dir_value wide_hash (radix_run wide_hash ?ys) \<longleftrightarrow>
      map_run entry_key ?xs = map_run entry_key ?ys"
    by (rule dir_value_identifies [OF wide_hash_length, rotated]) auto
  moreover have "map_run entry_key ?xs (''a'', FileChild) \<noteq> map_run entry_key ?ys (''a'', FileChild)"
    by (simp add: map_run_def entry_key_def)
  ultimately show ?thesis by metis
qed

text \<open>
  The walk visits exactly the entries, names strictly ascending in byte order and,
  at a name that holds both kinds, the file before the directory.
\<close>

theorem radix_entries_exact:
  "sorted_wrt entry_less (radix_entries (radix_run hash xs)) \<and>
   set (radix_entries (radix_run hash xs)) = {e. map_run entry_key xs (entry_key e) = Some e}"
proof -
  have lookup: "map_run entry_key xs (entry_key e) = Some e \<longleftrightarrow>
      radix_get (radix_run hash xs) (fst e) (fst (snd e)) = Some (snd (snd e))" for e
    unfolding radix_run_lookup [symmetric, of _ hash]
    by (cases e) (auto simp: radix_lookup_def entry_key_def)
  show ?thesis
  proof (cases "rroot (radix_run hash xs)")
    case None
    then show ?thesis by (simp add: radix_entries_def lookup radix_get_def)
  next
    case (Some v)
    then have "vertex_ok hash v" using radix_run_ok [of hash xs] by (simp add: radix_ok_def)
    with Some show ?thesis
      by (auto simp: radix_entries_def lookup radix_get_def walk_entries_sorted walk_entries_set)
  qed
qed

text \<open>
  Claim C16. The cost law: an operation recomputes at most as many vertex hashes as its name
  has bytes, plus two, whatever the directory's width.
\<close>

theorem radix_cost_bound:
  "vertex_hashes (rops (radix_set hash n k h m)) \<le> vertex_hashes (rops m) + length n + 2 \<and>
   vertex_hashes (rops (snd (radix_remove hash n k m))) \<le> vertex_hashes (rops m) + length n + 1"
  using set_rec_cost [of hash "the (rroot m)" n k h "rops m"]
    remove_rec_cost [of hash "the (rroot m)" n k "rops m"]
  by (auto simp: radix_set_def radix_remove_def split_beta split: option.splits outcome.splits prod.splits)

end
