(* ===== verification/Ring.thy ===== *)
theory Ring
  imports Rust_Str
begin

text \<open>
  The root-history ring, \<^verbatim>\<open>crates/wire-serve/src/ring.rs\<close>, over the delta frames of
  \<^verbatim>\<open>crates/wire/src/lib.rs\<close>: the retained window, the one point that issues sequence numbers,
  the anchor law, the replay between two roots and the frame a session of either revision is
  sent; with one turn of the push loop of \<^verbatim>\<open>crates/registry/src/server.rs\<close>, which delivers what
  a subscriber has not seen. A root is its spelling, compared for equality. A sequence number is
  a natural number below \<open>2 ^ 64\<close>; the one sum of the code that can leave that range wraps, as it
  does in a release build. Serialisation and the heap accounting are left out.
\<close>

section \<open>Frames\<close>

record hpath_segment =
  seg_h :: str
  seg_n :: "nat option"

datatype sec_ref = SecHpath "hpath_segment list" | SecAnchor str | SecFmKey str

datatype file_change = Created | Modified | Deleted | Renamed | Unattested
datatype node_change = NodeAdded | NodeEdited | NodeAnchored | NodeRemoved

record delta_node =
  dn_target :: sec_ref
  dn_change :: node_change
  dn_rev_before :: "str option"
  dn_rev_after :: "str option"
  dn_span_after :: "(nat \<times> nat) option"

record delta_file =
  df_path :: str
  df_change :: file_change
  df_from_path :: "str option"
  df_rev_before :: "str option"
  df_rev_after :: "str option"
  df_nodes :: "delta_node list"

record delta =
  d_seq :: nat
  d_root_before :: str
  d_root_after :: str
  d_actor :: "str option"
  d_now :: "str option"
  d_files :: "delta_file list"

record effect_intent =
  in_rule_id :: str
  in_seq :: nat
  in_action :: str
  in_target :: "str option"
  in_severity :: "str option"
  in_payload :: "str option"
  in_receipt :: str

datatype effect_finding = BudgetExceeded str nat nat | ArmedFault "str option" str

record effect_envelope =
  ee_intents :: "effect_intent list"
  ee_narrowed :: "effect_intent list"
  ee_findings :: "effect_finding list"
  ee_how :: str

record rescope =
  rs_cause :: str
  rs_unattested :: nat
  rs_attested :: nat

record delta_frame =
  fr_delta :: delta
  fr_effects :: "effect_envelope list"
  fr_rescope :: "rescope option"
  fr_overflow :: "nat option"

abbreviation seq_of :: "delta_frame \<Rightarrow> nat" where "seq_of f \<equiv> d_seq (fr_delta f)"
abbreviation root_before :: "delta_frame \<Rightarrow> str" where "root_before f \<equiv> d_root_before (fr_delta f)"
abbreviation root_after :: "delta_frame \<Rightarrow> str" where "root_after f \<equiv> d_root_after (fr_delta f)"

section \<open>The ring\<close>

definition ring_bound :: nat where "ring_bound = 256"

record cursor =
  cur_instance :: str
  cur_seq :: nat

datatype anchor = Anchored | DeadInstance | OutsideHistory

record ring =
  frames :: "delta_frame list"
  tree_instance :: str
  reserved :: nat

definition ring_new :: "str \<Rightarrow> ring" where
  "ring_new i = \<lparr>frames = [], tree_instance = i, reserved = 0\<rparr>"

definition ring_seq :: "ring \<Rightarrow> nat" where
  "ring_seq r = (if frames r = [] then 0 else seq_of (last (frames r)))"

definition oldest_seq :: "ring \<Rightarrow> nat option" where
  "oldest_seq r = (case frames r of [] \<Rightarrow> None | f # _ \<Rightarrow> Some (seq_of f))"

definition tip_root :: "ring \<Rightarrow> str option" where
  "tip_root r = (if frames r = [] then None else Some (root_after (last (frames r))))"

text \<open>One undisturbed allocation; the loop under competition is a step relation below.\<close>

definition u64_values :: nat where "u64_values = 2 ^ 64"

definition next_seq :: "nat \<Rightarrow> nat \<Rightarrow> nat" where
  "next_seq seen tip = (max seen tip + 1) mod u64_values"

definition allocate_seq :: "ring \<Rightarrow> nat \<times> ring" where
  "allocate_seq r =
     (let n = next_seq (reserved r) (ring_seq r) in (n, r\<lparr>reserved := n\<rparr>))"

definition advance :: "delta_frame \<Rightarrow> ring \<Rightarrow> ring" where
  "advance f r =
     r\<lparr>frames := (if length (frames r) = ring_bound then tl (frames r) else frames r) @ [f]\<rparr>"

fun chain_walk :: "str \<Rightarrow> str \<Rightarrow> delta_frame list \<Rightarrow> bool" where
  "chain_walk from to [] = False"
| "chain_walk from to (f # fs) =
     (if root_after f \<noteq> to then False
      else if root_before f = from then True
      else chain_walk from (root_before f) fs)"

definition chains :: "ring \<Rightarrow> str \<Rightarrow> str \<Rightarrow> bool" where
  "chains r from to \<longleftrightarrow> tip_root r = Some to \<and> chain_walk from to (rev (frames r))"

definition frames_after :: "ring \<Rightarrow> nat \<Rightarrow> delta_frame list" where
  "frames_after r after = filter (\<lambda>f. after < seq_of f) (frames r)"

definition can_anchor :: "ring \<Rightarrow> cursor \<Rightarrow> anchor" where
  "can_anchor r c =
     (if cur_instance c \<noteq> tree_instance r then DeadInstance
      else if cur_seq c = ring_seq r \<or>
          (cur_seq c < ring_seq r \<and>
           (case oldest_seq r of None \<Rightarrow> False | Some oldest \<Rightarrow> oldest - 1 \<le> cur_seq c))
      then Anchored
      else OutsideHistory)"

fun index_of :: "str \<Rightarrow> str list \<Rightarrow> nat option" where
  "index_of x [] = None"
| "index_of x (y # ys) = (if y = x then Some 0 else map_option Suc (index_of x ys))"

definition root_chain :: "ring \<Rightarrow> str \<Rightarrow> str list" where
  "root_chain r current =
     (case frames r of [] \<Rightarrow> [current] | f # _ \<Rightarrow> root_before f # map root_after (frames r))"

definition batches_between :: "ring \<Rightarrow> str \<Rightarrow> str \<Rightarrow> str \<Rightarrow> delta_frame list option" where
  "batches_between r from to current =
     (case index_of from (root_chain r current) of
        None \<Rightarrow> None
      | Some i \<Rightarrow>
          (case index_of to (root_chain r current) of
             None \<Rightarrow> None
           | Some j \<Rightarrow> if j < i then None else Some (take (j - i) (drop i (frames r)))))"

section \<open>The frame a session is sent\<close>

text \<open>The rows of \<^verbatim>\<open>V2_RESERVED_FIELDS\<close> at the notification root.\<close>

definition notification_reserved :: "str list" where
  "notification_reserved = [''effects'', ''rescope'', ''overflow'']"

definition v2_demotable :: "delta_frame \<Rightarrow> bool" where
  "v2_demotable f \<longleftrightarrow>
     (''effects'' \<in> set notification_reserved \<and> fr_effects f \<noteq> []) \<or>
     (''rescope'' \<in> set notification_reserved \<and> fr_rescope f \<noteq> None) \<or>
     (''overflow'' \<in> set notification_reserved \<and> fr_overflow f \<noteq> None) \<or>
     (\<exists>df \<in> set (d_files (fr_delta f)).
        df_change df = Unattested \<or> (\<exists>n \<in> set (df_nodes df). dn_change n = NodeAnchored))"

definition demote_node :: "delta_node \<Rightarrow> delta_node" where
  "demote_node n = (if dn_change n = NodeAnchored then n\<lparr>dn_change := NodeEdited\<rparr> else n)"

definition demote_file :: "delta_file \<Rightarrow> delta_file" where
  "demote_file df =
     (if df_change df = Unattested then df\<lparr>df_change := Deleted\<rparr> else df)
       \<lparr>df_nodes := map demote_node (df_nodes df)\<rparr>"

definition demote_frame :: "delta_frame \<Rightarrow> delta_frame" where
  "demote_frame f =
     \<lparr>fr_delta = (fr_delta f)\<lparr>d_files := map demote_file (d_files (fr_delta f))\<rparr>,
      fr_effects = [], fr_rescope = None, fr_overflow = None\<rparr>"

definition session_frame :: "bool \<Rightarrow> delta_frame \<Rightarrow> delta_frame" where
  "session_frame v3 f = (if v3 then f else if v2_demotable f then demote_frame f else f)"

section \<open>The push loop's turn\<close>

definition push_turn :: "bool \<Rightarrow> ring \<Rightarrow> nat \<Rightarrow> delta_frame list \<times> nat" where
  "push_turn v3 r delivered =
     (let fs = frames_after r delivered in
      (map (session_frame v3) fs, fold (\<lambda>f _. seq_of f) fs delivered))"

section \<open>Histories\<close>

datatype ring_op = Allocate | Advance delta_frame

fun ring_step :: "ring_op \<Rightarrow> ring \<Rightarrow> ring" where
  "ring_step Allocate r = snd (allocate_seq r)"
| "ring_step (Advance f) r = advance f r"

definition ring_run :: "ring_op list \<Rightarrow> ring \<Rightarrow> ring" where
  "ring_run ops r = fold ring_step ops r"

definition recorded :: "ring_op list \<Rightarrow> delta_frame list" where
  "recorded ops = concat (map (\<lambda>x. case x of Allocate \<Rightarrow> [] | Advance f \<Rightarrow> [f]) ops)"

text \<open>A subscriber's life: before each turn of its loop the ring takes some steps.\<close>

fun push_run :: "bool \<Rightarrow> ring \<Rightarrow> nat \<Rightarrow> ring_op list list \<Rightarrow> delta_frame list" where
  "push_run v3 r delivered [] = []"
| "push_run v3 r delivered (ops # rest) =
     (let r' = ring_run ops r; (out, delivered') = push_turn v3 r' delivered
      in out @ push_run v3 r' delivered' rest)"

section \<open>Competing allocations\<close>

text \<open>
  \<^verbatim>\<open>allocate_seq\<close> runs in any number of threads at once. A thread reads the tip, loads a
  possibly old value of the high-water mark, and then tries to exchange it; the exchange fails
  when the value moved or for no reason at all, and the thread goes on with the value it was
  told. A frame is recorded through an exclusive borrow, so only while no allocation runs.
  \<open>issued\<close> lists the numbers handed out and \<open>landed\<close> those of the recorded frames, in order.
\<close>

datatype alloc_pc = Outside | Trying nat nat

record alloc_state =
  the_ring :: ring
  pcs :: "nat \<Rightarrow> alloc_pc"
  issued :: "nat list"
  landed :: "nat list"

definition alloc_init :: "str \<Rightarrow> alloc_state" where
  "alloc_init i = \<lparr>the_ring = ring_new i, pcs = (\<lambda>_. Outside), issued = [], landed = []\<rparr>"

inductive alloc_step :: "alloc_state \<Rightarrow> alloc_state \<Rightarrow> bool" where
  load: "pcs s t = Outside \<Longrightarrow> seen \<le> reserved (the_ring s) \<Longrightarrow>
    alloc_step s (s\<lparr>pcs := (pcs s)(t := Trying (ring_seq (the_ring s)) seen)\<rparr>)"
| exchange: "pcs s t = Trying tip seen \<Longrightarrow> seen = reserved (the_ring s) \<Longrightarrow>
    alloc_step s \<lparr>the_ring = (the_ring s)\<lparr>reserved := next_seq seen tip\<rparr>,
                 pcs = (pcs s)(t := Outside), issued = issued s @ [next_seq seen tip], landed = landed s\<rparr>"
| refused: "pcs s t = Trying tip seen \<Longrightarrow>
    alloc_step s (s\<lparr>pcs := (pcs s)(t := Trying tip (reserved (the_ring s)))\<rparr>)"
| record_frame: "\<forall>t. pcs s t = Outside \<Longrightarrow> seq_of f < u64_values \<Longrightarrow>
    alloc_step s (s\<lparr>the_ring := advance f (the_ring s), landed := landed s @ [seq_of f]\<rparr>)"

inductive_cases alloc_stepE: "alloc_step s s'"

end
