(* ===== verification/Ring_Props.thy ===== *)
theory Ring_Props
  imports Ring
begin

text \<open>
  What the ring promises: sequence numbers are never issued twice under any interleaving, a
  resumed subscriber misses nothing while its backlog fits the window, and a replay is a chain
  of frames from one root to the other. And where the push loop, which checks its position
  only once, leaves frames out.
\<close>

section \<open>Allocation\<close>

text \<open>While the counter cannot wrap: \<open>k\<close> bounds the frames that landed.\<close>

definition no_wrap :: "nat \<Rightarrow> alloc_state \<Rightarrow> bool" where
  "no_wrap k s \<longleftrightarrow> (\<forall>n \<in> set (landed s). n \<le> k) \<and> k + length (issued s) < u64_values"

definition alloc_inv :: "nat \<Rightarrow> alloc_state \<Rightarrow> bool" where
  "alloc_inv k s \<longleftrightarrow> sorted_wrt (<) (issued s) \<and> (\<forall>n \<in> set (issued s). n \<le> reserved (the_ring s)) \<and>
     reserved (the_ring s) \<le> k + length (issued s) \<and> ring_seq (the_ring s) \<le> k \<and>
     (\<forall>t tip seen. pcs s t = Trying tip seen \<longrightarrow> tip \<le> k)"

lemma alloc_inv_init: "alloc_inv k (alloc_init i)"
  by (simp add: alloc_inv_def alloc_init_def ring_new_def ring_seq_def)

lemma no_wrap_step: "alloc_step s s' \<Longrightarrow> no_wrap k s' \<Longrightarrow> no_wrap k s"
  by (induction rule: alloc_step.induct) (simp_all add: no_wrap_def)

lemma alloc_inv_step: "alloc_step s s' \<Longrightarrow> no_wrap k s' \<Longrightarrow> alloc_inv k s \<Longrightarrow> alloc_inv k s'"
proof (induction rule: alloc_step.induct)
  case (exchange s t tip seen)
  have tip: "tip \<le> k" using exchange.prems(2) exchange.hyps(1) by (auto simp: alloc_inv_def)
  have seen: "seen \<le> k + length (issued s)" using exchange by (simp add: alloc_inv_def)
  have "k + length (issued s) + 1 < u64_values" using exchange.prems(1) by (simp add: no_wrap_def)
  with tip seen have n: "next_seq seen tip = max seen tip + 1" by (simp add: next_seq_def)
  have "max seen tip + 1 \<le> k + (length (issued s) + 1)" using tip seen by simp
  with exchange n show ?case
    by (auto simp: alloc_inv_def sorted_wrt_append ring_seq_def le_imp_less_Suc
        intro: le_SucI max.coboundedI1)
next
  case (record_frame s f)
  then show ?case by (auto simp: alloc_inv_def no_wrap_def advance_def ring_seq_def)
qed (auto simp: alloc_inv_def)

lemma alloc_inv_reach: "alloc_step\<^sup>*\<^sup>* s s' \<Longrightarrow> no_wrap k s' \<Longrightarrow> alloc_inv k s \<Longrightarrow> alloc_inv k s'"
proof (induction rule: rtranclp_induct)
  case (step y z)
  then show ?case using no_wrap_step [OF step.hyps(2) step.prems(1)] alloc_inv_step [OF step.hyps(2) step.prems(1)]
    by blast
qed

section \<open>The window\<close>

lemma ring_seq_nonempty: "frames r \<noteq> [] \<Longrightarrow> ring_seq r = seq_of (last (frames r))"
  by (simp add: ring_seq_def)

lemma recorded_simps [simp]:
  "recorded [] = []" "recorded (Allocate # ops) = recorded ops"
  "recorded (Advance f # ops) = f # recorded ops" "recorded (xs @ ys) = recorded xs @ recorded ys"
  by (simp_all add: recorded_def)

text \<open>The ring holds the last frames of its history, as many as the bound allows.\<close>

definition retains :: "ring \<Rightarrow> delta_frame list \<Rightarrow> bool" where
  "retains r hist \<longleftrightarrow> frames r = drop (length hist - ring_bound) hist"

lemma retains_new: "retains (ring_new i) []"
  by (simp add: retains_def ring_new_def)

lemma retains_advance: "retains r hist \<Longrightarrow> retains (advance f r) (hist @ [f])"
proof -
  assume r: "retains r hist"
  have pos: "0 < ring_bound" by (simp add: ring_bound_def)
  show ?thesis
  proof (cases "ring_bound \<le> length hist")
    case True
    then have "length (frames r) = ring_bound" using r by (simp add: retains_def)
    moreover have "tl (drop (length hist - ring_bound) hist) = drop (Suc (length hist) - ring_bound) hist"
      using True pos by (simp add: tl_drop drop_Suc Suc_diff_le)
    ultimately show ?thesis using r True pos by (simp add: retains_def advance_def)
  next
    case False
    then show ?thesis using r by (simp add: retains_def advance_def)
  qed
qed

lemma retains_step: "retains r hist \<Longrightarrow> retains (ring_step x r) (hist @ recorded [x])"
  by (cases x) (simp_all add: retains_advance, simp add: retains_def allocate_seq_def Let_def)

lemma retains_run: "retains r hist \<Longrightarrow> retains (ring_run ops r) (hist @ recorded ops)"
proof (induction ops arbitrary: r hist)
  case (Cons x ops)
  then have "retains (ring_run ops (ring_step x r)) ((hist @ recorded [x]) @ recorded ops)"
    using retains_step by blast
  then show ?case by (cases x) (simp_all add: ring_run_def)
qed (simp add: ring_run_def)

lemma instance_run: "tree_instance (ring_run ops r) = tree_instance r"
proof (induction ops arbitrary: r)
  case (Cons x ops)
  then show ?case by (cases x) (simp_all add: ring_run_def allocate_seq_def advance_def Let_def)
qed (simp add: ring_run_def)

abbreviation ascending :: "delta_frame list \<Rightarrow> bool" where
  "ascending fs \<equiv> sorted_wrt (\<lambda>f g. seq_of f < seq_of g) fs"

lemma filter_take_none:
  "(\<And>f. f \<in> set (take n fs) \<Longrightarrow> \<not> P f) \<Longrightarrow> filter P (drop n fs) = filter P fs"
  by (metis append_Nil append_take_drop_id filter_append filter_False)

lemma frames_after_all:
  assumes r: "retains r hist" and asc: "ascending hist"
    and fit: "length (filter (\<lambda>f. n < seq_of f) hist) \<le> ring_bound"
  shows "frames_after r n = filter (\<lambda>f. n < seq_of f) hist"
proof -
  let ?k = "length hist - ring_bound"
  have "\<not> n < seq_of f" if f: "f \<in> set (take ?k hist)" for f
  proof
    assume n: "n < seq_of f"
    obtain i where i: "i < ?k" "f = hist ! i" using f by (auto simp: in_set_conv_nth)
    have "n < seq_of (hist ! j)" if "j \<in> {i..<length hist}" for j
      using that i n sorted_wrt_nth_less [OF asc, of i j] by (cases "j = i") auto
    then have "{i..<length hist} \<subseteq> {j. j < length hist \<and> n < seq_of (hist ! j)}" by auto
    then have "card {i..<length hist} \<le> card {j. j < length hist \<and> n < seq_of (hist ! j)}"
      by (rule card_mono [rotated]) simp
    then have "length hist - i \<le> ring_bound"
      using fit by (simp add: length_filter_conv_card)
    then show False using i by simp
  qed
  then show ?thesis using r by (simp add: frames_after_def retains_def filter_take_none)
qed

lemma anchored_all:
  assumes r: "retains r hist" and asc: "ascending hist" and a: "can_anchor r c = Anchored"
  shows "frames_after r (cur_seq c) = filter (\<lambda>f. cur_seq c < seq_of f) hist"
proof (cases "length hist \<le> ring_bound")
  case True
  then show ?thesis using r by (simp add: retains_def frames_after_def)
next
  case False
  let ?k = "length hist - ring_bound"
  have k: "?k < length hist" using False by (simp add: ring_bound_def)
  then have ne: "frames r \<noteq> []" and old: "oldest_seq r = Some (seq_of (hist ! ?k))"
    using r by (auto simp: retains_def oldest_seq_def Cons_nth_drop_Suc [symmetric])
  have tip: "ring_seq r = seq_of (last hist)"
    using r ne k by (simp add: retains_def ring_seq_def)
  have last: "last hist = hist ! (length hist - 1)" using k by (intro last_conv_nth) auto
  have le: "seq_of (hist ! ?k) - 1 \<le> cur_seq c"
  proof -
    have "seq_of (hist ! ?k) \<le> seq_of (last hist)"
    proof (cases "?k = length hist - 1")
      case False
      with k have "seq_of (hist ! ?k) < seq_of (hist ! (length hist - 1))"
        by (intro sorted_wrt_nth_less [OF asc]) auto
      then show ?thesis using last by simp
    qed (use last in simp)
    then show ?thesis using a old tip by (auto simp: can_anchor_def split: if_splits)
  qed
  have "\<not> cur_seq c < seq_of f" if f: "f \<in> set (take ?k hist)" for f
  proof -
    obtain i where i: "i < ?k" "f = hist ! i" using f by (auto simp: in_set_conv_nth)
    then have "seq_of f < seq_of (hist ! ?k)" using k sorted_wrt_nth_less [OF asc] by auto
    then show ?thesis using le by simp
  qed
  then show ?thesis using r by (simp add: frames_after_def retains_def filter_take_none)
qed

section \<open>Delivery\<close>

fun keeps_up :: "nat \<Rightarrow> delta_frame list \<Rightarrow> ring_op list list \<Rightarrow> bool" where
  "keeps_up n hist [] = True"
| "keeps_up n hist (ops # rest) =
     (let hist' = hist @ recorded ops; fs = filter (\<lambda>f. n < seq_of f) hist' in
      length fs \<le> ring_bound \<and> keeps_up (if fs = [] then n else seq_of (last fs)) hist' rest)"

lemma fold_position: "fold (\<lambda>f _. seq_of f) fs n = (if fs = [] then n else seq_of (last fs))"
  by (induction fs arbitrary: n) auto

text \<open>Past a turn's position only later frames are left.\<close>

lemma filter_after_turn:
  fixes n :: nat
  assumes asc: "ascending (hist @ new)"
  defines "fs \<equiv> filter (\<lambda>f. n < seq_of f) hist"
  defines "m \<equiv> if fs = [] then n else seq_of (last fs)"
  shows "filter (\<lambda>f. n < seq_of f) (hist @ new) = fs @ filter (\<lambda>f. m < seq_of f) (hist @ new)"
proof (cases "fs = []")
  case False
  have m: "last fs \<in> set hist" "n < seq_of (last fs)"
    using last_in_set [OF False] by (auto simp: fs_def)
  have "\<not> seq_of (last fs) < seq_of f" if f: "f \<in> set hist" for f
  proof
    assume lt: "seq_of (last fs) < seq_of f"
    then have "f \<in> set fs" using f m by (simp add: fs_def)
    then obtain i where i: "i < length fs" "f = fs ! i" by (auto simp: in_set_conv_nth)
    have "ascending fs" using asc by (auto simp: fs_def sorted_wrt_append intro: sorted_wrt_filter)
    then have "i \<noteq> length fs - 1 \<Longrightarrow> seq_of (fs ! i) < seq_of (fs ! (length fs - 1))"
      using i by (intro sorted_wrt_nth_less [of "\<lambda>f g. seq_of f < seq_of g"]) auto
    then show False using lt i False by (auto simp: last_conv_nth)
  qed
  moreover have "seq_of (last fs) < seq_of f" if "f \<in> set new" for f
    using that asc m by (auto simp: sorted_wrt_append)
  ultimately have "filter (\<lambda>f. m < seq_of f) hist = []" "filter (\<lambda>f. m < seq_of f) new = new"
    "filter (\<lambda>f. n < seq_of f) new = new"
    using False m(2) by (auto simp: m_def filter_empty_conv filter_id_conv intro: less_trans)
  then show ?thesis by (simp add: fs_def)
qed (simp add: m_def fs_def)

lemma push_run_all:
  "retains r hist \<Longrightarrow> ascending (hist @ recorded (concat bursts)) \<Longrightarrow> keeps_up n hist bursts \<Longrightarrow>
   filter (\<lambda>f. n < seq_of f) hist = [] \<or> bursts \<noteq> [] \<Longrightarrow>
   push_run v3 r n bursts =
     map (session_frame v3) (filter (\<lambda>f. n < seq_of f) (hist @ recorded (concat bursts)))"
proof (induction bursts arbitrary: r hist n)
  case (Cons ops rest)
  let ?hist = "hist @ recorded ops" and ?r = "ring_run ops r"
  let ?fs = "filter (\<lambda>f. n < seq_of f) ?hist"
  let ?m = "if ?fs = [] then n else seq_of (last ?fs)"
  have r: "retains ?r ?hist" using Cons.prems(1) by (rule retains_run)
  have asc: "ascending (?hist @ recorded (concat rest))" using Cons.prems(2) by simp
  have fs: "frames_after ?r n = ?fs"
    using Cons.prems(2, 3)
    by (intro frames_after_all [OF r]) (auto simp: Let_def sorted_wrt_append)
  have split: "filter (\<lambda>f. n < seq_of f) (?hist @ recorded (concat rest)) =
      ?fs @ filter (\<lambda>f. ?m < seq_of f) (?hist @ recorded (concat rest))"
    by (rule filter_after_turn [OF asc])
  have none: "filter (\<lambda>f. ?m < seq_of f) ?hist = []"
    using filter_after_turn [of ?hist "[]" n] asc by (simp add: sorted_wrt_append)
  have rest: "push_run v3 ?r ?m rest =
      map (session_frame v3) (filter (\<lambda>f. ?m < seq_of f) (?hist @ recorded (concat rest)))"
    using Cons.prems(3) none by (intro Cons.IH [OF r asc]) (simp_all add: Let_def)
  have turn: "push_turn v3 ?r n = (map (session_frame v3) ?fs, ?m)"
    unfolding push_turn_def Let_def fs fold_position ..
  show ?case
    unfolding push_run.simps Let_def turn prod.case rest concat.simps recorded_simps
      append_assoc [symmetric] split map_append ..
qed simp

section \<open>Chains\<close>

fun leads :: "str \<Rightarrow> delta_frame list \<Rightarrow> str \<Rightarrow> bool" where
  "leads a [] b \<longleftrightarrow> a = b"
| "leads a (f # fs) b \<longleftrightarrow> root_before f = a \<and> leads (root_after f) fs b"

abbreviation linked :: "delta_frame list \<Rightarrow> bool" where
  "linked fs \<equiv> successively (\<lambda>f g. root_after f = root_before g) fs"

lemma leads_append: "leads a (xs @ ys) b \<longleftrightarrow> (\<exists>c. leads a xs c \<and> leads c ys b)"
  by (induction xs arbitrary: a) auto

lemma leads_take:
  "linked fs \<Longrightarrow> fs \<noteq> [] \<Longrightarrow> n \<le> length fs \<Longrightarrow>
   leads (root_before (hd fs)) (take n fs) ((root_before (hd fs) # map root_after fs) ! n)"
proof (induction fs arbitrary: n)
  case (Cons f fs)
  show ?case
  proof (cases n)
    case (Suc m)
    show ?thesis
    proof (cases fs)
      case Nil
      then show ?thesis using Cons.prems Suc by (cases m) auto
    next
      case fs: (Cons g gs)
      have "leads (root_before g) (take m fs) ((root_before g # map root_after fs) ! m)"
        using Cons.IH [of m] Cons.prems Suc fs by simp
      then show ?thesis using Cons.prems Suc fs by (simp add: successively_Cons)
    qed
  qed simp
qed simp

lemma index_of_nth: "index_of x ys = Some i \<Longrightarrow> i < length ys \<and> ys ! i = x"
  by (induction ys arbitrary: i) (auto split: if_splits)

lemma linked_drop: "linked fs \<Longrightarrow> linked (drop n fs)"
  by (metis append_take_drop_id successively_append_iff)

lemma linked_run: "retains r hist \<Longrightarrow> linked hist \<Longrightarrow> linked (frames r)"
  by (simp add: retains_def linked_drop)

lemma batches_lead:
  assumes "linked (frames r)" and "batches_between r from to current = Some fs"
  shows "leads from fs to \<and> (\<exists>pre post. frames r = pre @ fs @ post)"
proof -
  obtain i j where ij: "index_of from (root_chain r current) = Some i"
    "index_of to (root_chain r current) = Some j" "i \<le> j" "fs = take (j - i) (drop i (frames r))"
    using assms(2) by (auto simp: batches_between_def split: option.splits if_splits)
  have part: "frames r = take i (frames r) @ fs @ drop (j - i) (drop i (frames r))"
    by (simp only: ij(4) append_take_drop_id)
  have "leads from fs to"
  proof (cases "frames r")
    case Nil
    then show ?thesis using ij index_of_nth [OF ij(1)] index_of_nth [OF ij(2)]
      by (auto simp: root_chain_def split: if_splits)
  next
    case (Cons f gs)
    let ?chain = "root_before f # map root_after (frames r)"
    have nth: "?chain ! i = from" "?chain ! j = to" "j \<le> length (frames r)"
      using index_of_nth [OF ij(1)] index_of_nth [OF ij(2)] Cons by (auto simp: root_chain_def)
    have "leads (root_before f) (take j (frames r)) to"
      using leads_take [of "frames r" j] assms(1) nth Cons by simp
    moreover have "take j (frames r) = take i (frames r) @ fs"
      using ij(3, 4) by (metis le_add_diff_inverse take_add)
    moreover have "leads (root_before f) (take i (frames r)) from"
      using leads_take [of "frames r" i] assms(1) nth ij(3) Cons by simp
    moreover have "c = d" if "leads a xs c" "leads a xs d" for a xs c d
      using that by (induction xs arbitrary: a) auto
    ultimately show ?thesis by (metis leads_append)
  qed
  then show ?thesis using part by blast
qed

lemma chain_walk_iff:
  "chain_walk from to (rev fs) \<longleftrightarrow> (\<exists>pre suf. fs = pre @ suf \<and> suf \<noteq> [] \<and> leads from suf to)"
proof (induction fs arbitrary: to rule: rev_induct)
  case (snoc f fs)
  have "(\<exists>pre suf. fs @ [f] = pre @ suf \<and> suf \<noteq> [] \<and> leads from suf to) \<longleftrightarrow>
      (\<exists>pre suf. fs = pre @ suf \<and> leads from (suf @ [f]) to)"
    (is "?l \<longleftrightarrow> ?r")
  proof
    assume ?l
    then obtain pre suf where s: "fs @ [f] = pre @ suf" "suf \<noteq> []" "leads from suf to" by blast
    then obtain us x where u: "suf = us @ [x]" by (cases suf rule: rev_cases) auto
    with s(1) have "(pre @ us) @ [x] = fs @ [f]" by simp
    then have "pre @ us = fs" "x = f" by (simp_all only: append1_eq_conv)
    with s(3) u show ?r by blast
  next
    assume ?r
    then obtain pre suf where "fs = pre @ suf" "leads from (suf @ [f]) to" by blast
    then show ?l by (intro exI [of _ pre] exI [of _ "suf @ [f]"]) simp
  qed
  also have "\<dots> \<longleftrightarrow> root_after f = to \<and> (\<exists>pre suf. fs = pre @ suf \<and> leads from suf (root_before f))"
    by (auto simp: leads_append)
  also have "\<dots> \<longleftrightarrow> root_after f = to \<and>
      (root_before f = from \<or> (\<exists>pre suf. fs = pre @ suf \<and> suf \<noteq> [] \<and> leads from suf (root_before f)))"
    by (metis append_Nil2 leads.simps(1))
  also have "\<dots> \<longleftrightarrow> chain_walk from to (rev (fs @ [f]))" by (simp add: snoc.IH)
  finally show ?case by simp
qed simp

section \<open>Sample frames\<close>

text \<open>The frame numbered \<open>n\<close> of an epoch whose roots are numbered alike.\<close>

definition root_name :: "nat \<Rightarrow> str" where
  "root_name n = replicate n (CHR ''r'')"

definition tick :: "nat \<Rightarrow> delta_frame" where
  "tick n =
     \<lparr>fr_delta = \<lparr>d_seq = n, d_root_before = root_name (n - 1), d_root_after = root_name n,
        d_actor = None, d_now = None, d_files = []\<rparr>,
      fr_effects = [], fr_rescope = None, fr_overflow = None\<rparr>"

lemma tick_sel [simp]:
  "seq_of (tick n) = n" "root_before (tick n) = root_name (n - 1)" "root_after (tick n) = root_name n"
  by (simp_all add: tick_def)

lemma session_frame_seq [simp]: "seq_of (session_frame v3 f) = seq_of f"
  by (simp add: session_frame_def demote_frame_def)

lemma demoted_node: "dn_change (demote_node n) \<noteq> NodeAnchored"
  by (simp add: demote_node_def)

lemma demoted_file: "df_change (demote_file df) \<noteq> Unattested" "df_nodes (demote_file df) = map demote_node (df_nodes df)"
  by (simp_all add: demote_file_def)

lemma demoted_clean: "\<not> v2_demotable (demote_frame f)"
  by (simp add: v2_demotable_def demote_frame_def demoted_file demoted_node)

section \<open>The properties\<close>

text \<open>
  Claim C21. No sequence number is issued twice: under every interleaving of allocating threads,
  failed exchanges and recorded frames the numbers handed out are strictly ascending, as long as the
  largest number among the recorded frames and the count of allocations together stay below
  \<open>2 ^ 64\<close>. Past that the counter wraps, and \<open>wrapped_counter_reissues\<close> shows the number it hands out twice.
\<close>

theorem seq_never_reissued:
  assumes "alloc_step\<^sup>*\<^sup>* (alloc_init i) s"
    and "\<forall>n \<in> set (landed s). n \<le> k" and "k + length (issued s) < u64_values"
  shows "sorted_wrt (<) (issued s)"
  using alloc_inv_reach [OF assms(1) _ alloc_inv_init] assms(2,3) by (simp add: alloc_inv_def no_wrap_def)

text \<open>Two threads over one ring.\<close>

definition two_threads :: "ring \<Rightarrow> nat \<Rightarrow> alloc_pc \<Rightarrow> alloc_pc \<Rightarrow> nat list \<Rightarrow> nat list \<Rightarrow> alloc_state" where
  "two_threads r res p q out land = \<lparr>the_ring = r\<lparr>reserved := res\<rparr>,
    pcs = (\<lambda>t. if t = 0 then p else if t = 1 then q else Outside), issued = out, landed = land\<rparr>"

lemma step_to: "alloc_step s s' \<Longrightarrow> s' = s'' \<Longrightarrow> alloc_step s s''"
  by simp

lemmas two_sel = two_threads_def ring_new_def ring_seq_def next_seq_def fun_eq_iff u64_values_def

theorem seq_never_reissued_witness:
  "\<exists>s. alloc_step\<^sup>*\<^sup>* (alloc_init ''i'') s \<and> issued s = [1, 2] \<and> landed s = [1] \<and> sorted_wrt (<) (issued s)"
proof -
  let ?S = "two_threads (ring_new ''i'')" and ?T = "two_threads (advance (tick 1) (ring_new ''i''))"
  have a: "alloc_step (?S 0 Outside Outside [] []) (?S 0 (Trying 0 0) Outside [] [])"
    by (rule step_to [OF alloc_step.load [of _ 0 0]]) (simp_all add: two_sel)
  have b: "alloc_step (?S 0 (Trying 0 0) Outside [] []) (?S 0 (Trying 0 0) (Trying 0 0) [] [])"
    by (rule step_to [OF alloc_step.load [of _ 1 0]]) (simp_all add: two_sel)
  have c: "alloc_step (?S 0 (Trying 0 0) (Trying 0 0) [] []) (?S 1 Outside (Trying 0 0) [1] [])"
    by (rule step_to [OF alloc_step.exchange [of _ 0 0 0]]) (simp_all add: two_sel)
  have d: "alloc_step (?S 1 Outside (Trying 0 0) [1] []) (?S 1 Outside (Trying 0 1) [1] [])"
    by (rule step_to [OF alloc_step.refused [of _ 1 0 0]]) (simp_all add: two_sel)
  have e: "alloc_step (?S 1 Outside (Trying 0 1) [1] []) (?S 2 Outside Outside [1, 2] [])"
    by (rule step_to [OF alloc_step.exchange [of _ 1 0 1]]) (simp_all add: two_sel)
  have f: "alloc_step (?S 2 Outside Outside [1, 2] []) (?T 2 Outside Outside [1, 2] [1])"
    by (rule step_to [OF alloc_step.record_frame [of _ "tick 1"]]) (simp_all add: two_sel advance_def)
  note step = converse_rtranclp_into_rtranclp [where r = alloc_step]
  have run: "alloc_step\<^sup>*\<^sup>* (?S 0 Outside Outside [] []) (?T 2 Outside Outside [1, 2] [1])"
    by (rule step [OF a step [OF b step [OF c step [OF d step [OF e step [OF f rtranclp.rtrancl_refl]]]]]])
  have init: "?S 0 Outside Outside [] [] = alloc_init ''i''"
    by (simp add: two_sel alloc_init_def)
  have "sorted_wrt (<) (issued (?T 2 Outside Outside [1, 2] [1]))"
    by (rule seq_never_reissued [OF run [unfolded init], of 1]) (simp_all add: two_sel)
  then show ?thesis using run unfolding init
    by (intro exI [of _ "?T 2 Outside Outside [1, 2] [1]"]) (simp add: two_threads_def)
qed

lemma wrapped_counter_reissues: "\<exists>s. alloc_step\<^sup>*\<^sup>* (alloc_init ''i'') s \<and> issued s = [0, 0]"
proof -
  let ?m = "18446744073709551615 :: nat"
  let ?S = "two_threads (ring_new ''i'')" and ?T = "two_threads (advance (tick 18446744073709551615) (ring_new ''i''))"
  have a: "alloc_step (?S 0 Outside Outside [] []) (?T 0 Outside Outside [] [?m])"
    by (rule step_to [OF alloc_step.record_frame [of _ "tick ?m"]]) (simp_all add: two_sel advance_def)
  have seq: "ring_seq (advance (tick ?m) (ring_new ''i'')\<lparr>reserved := 0\<rparr>) = ?m"
    by (simp add: ring_seq_def advance_def ring_new_def)
  have b: "alloc_step (?T 0 Outside Outside out [?m]) (?T 0 (Trying ?m 0) Outside out [?m])" for out
    by (rule step_to [OF alloc_step.load [of _ 0 0]])
      (simp_all add: two_threads_def fun_eq_iff ring_seq_def advance_def ring_new_def)
  have c: "alloc_step (?T 0 (Trying ?m 0) Outside out [?m]) (?T 0 Outside Outside (out @ [0]) [?m])" for out
    by (rule step_to [OF alloc_step.exchange [of _ 0 ?m 0]]) (simp_all add: two_sel)
  note step = converse_rtranclp_into_rtranclp [where r = alloc_step]
  have "alloc_step\<^sup>*\<^sup>* (?S 0 Outside Outside [] []) (?T 0 Outside Outside [0, 0] [?m])"
    using step [OF a step [OF b step [OF c step [OF b step [OF c rtranclp.rtrancl_refl]]]]] by simp
  moreover have "?S 0 Outside Outside [] [] = alloc_init ''i''"
    by (simp add: two_sel alloc_init_def)
  ultimately show ?thesis
    by (intro exI [of _ "?T 0 Outside Outside [0, 0] [?m]"]) (simp add: two_threads_def)
qed

text \<open>
  Claim C22. The anchor law keeps its promise: when a cursor anchors, its instance is the ring's
  and the frames the ring answers are all the frames of the epoch past the cursor, none
  evicted.
\<close>

theorem anchored_misses_nothing:
  assumes "ascending (recorded ops)"
    and "can_anchor (ring_run ops (ring_new i)) c = Anchored"
  shows "cur_instance c = i \<and>
    frames_after (ring_run ops (ring_new i)) (cur_seq c) =
      filter (\<lambda>f. cur_seq c < seq_of f) (recorded ops)"
proof -
  have "retains (ring_run ops (ring_new i)) ([] @ recorded ops)"
    by (rule retains_run [OF retains_new])
  then have "retains (ring_run ops (ring_new i)) (recorded ops)" by simp
  moreover have "cur_instance c = i"
    using assms(2) by (auto simp: can_anchor_def instance_run ring_new_def split: if_splits)
  ultimately show ?thesis using anchored_all assms by blast
qed

theorem anchored_misses_nothing_witness:
  "frames_after (ring_run [Allocate, Advance (tick 1), Allocate, Advance (tick 2)] (ring_new ''i'')) 1 =
     [tick 2]"
  using anchored_misses_nothing [of "[Allocate, Advance (tick 1), Allocate, Advance (tick 2)]" "''i''"
      "\<lparr>cur_instance = ''i'', cur_seq = 1\<rparr>"]
  by (simp add: ring_run_def can_anchor_def ring_new_def allocate_seq_def advance_def Let_def
      ring_seq_def oldest_seq_def ring_bound_def)

text \<open>
  Claim C20. The push loop delivers: while a subscriber's backlog fits the window at every turn,
  what it is sent over its whole life is every frame past its starting position, once and in
  order, in its session's form.
\<close>

theorem push_delivers_everything:
  assumes "ascending (recorded (start @ concat turns))"
    and "keeps_up n (recorded start) turns" and "turns \<noteq> []"
  shows "push_run v3 (ring_run start (ring_new i)) n turns =
    map (session_frame v3) (filter (\<lambda>f. n < seq_of f) (recorded (start @ concat turns)))"
proof -
  have "retains (ring_run start (ring_new i)) ([] @ recorded start)"
    by (rule retains_run [OF retains_new])
  then show ?thesis using assms push_run_all [of _ "recorded start" turns n v3] by simp
qed

theorem push_delivers_everything_witness:
  "push_run True (ring_run [Advance (tick 1)] (ring_new ''i'')) 0
     [[], [Advance (tick 2), Advance (tick 3)], []] = [tick 1, tick 2, tick 3]"
  using push_delivers_everything [of "[Advance (tick 1)]" "[[], [Advance (tick 2), Advance (tick 3)], []]"
      0 True "''i''"]
  by (simp add: ring_bound_def session_frame_def)

text \<open>
  A replay never answers wrong data: when the epoch's frames link root to root, the
  frames between two roots are a contiguous part of the window that leads from the one root to
  the other.
\<close>

theorem replay_leads_between_roots:
  assumes "linked (recorded ops)"
    and "batches_between (ring_run ops (ring_new i)) from to current = Some fs"
  shows "leads from fs to \<and> (\<exists>pre post. frames (ring_run ops (ring_new i)) = pre @ fs @ post)"
proof -
  have "retains (ring_run ops (ring_new i)) ([] @ recorded ops)"
    by (rule retains_run [OF retains_new])
  then have "linked (frames (ring_run ops (ring_new i)))" using linked_run assms(1) by simp
  then show ?thesis using batches_lead assms(2) by blast
qed

theorem replay_leads_between_roots_witness: "leads (root_name 1) [tick 2, tick 3] (root_name 3)"
proof -
  let ?ops = "[Advance (tick 1), Advance (tick 2), Advance (tick 3)]"
  have "batches_between (ring_run ?ops (ring_new ''i'')) (root_name 1) (root_name 3) [] =
      Some [tick 2, tick 3]"
    by (simp add: ring_run_def ring_new_def advance_def ring_bound_def batches_between_def
        root_chain_def root_name_def numeral_3_eq_3 numeral_2_eq_2)
  then show ?thesis using replay_leads_between_roots [of ?ops] by fastforce
qed

text \<open>
  The watcher's commit check is exact: it answers yes when and only when the window's
  last frames, at least one of them, lead from the baseline to the tip.
\<close>

theorem chains_exact:
  "chains r from to \<longleftrightarrow> (\<exists>pre suf. frames r = pre @ suf \<and> suf \<noteq> [] \<and> leads from suf to)"
proof -
  have "tip_root r = Some to" if "chain_walk from to (rev (frames r))"
    using that by (cases "frames r" rule: rev_cases) (auto simp: tip_root_def split: if_splits)
  then show ?thesis unfolding chains_def using chain_walk_iff by metis
qed

text \<open>A frame in the vocabulary of a frozen session: no reserved field, no later change word.\<close>

definition frozen_vocabulary :: "delta_frame \<Rightarrow> bool" where
  "frozen_vocabulary f \<longleftrightarrow>
     fr_effects f = [] \<and> fr_rescope f = None \<and> fr_overflow f = None \<and>
     (\<forall>df \<in> set (d_files (fr_delta f)). df_change df \<in> {Created, Modified, Deleted, Renamed} \<and>
        (\<forall>n \<in> set (df_nodes df). dn_change n \<in> {NodeAdded, NodeEdited, NodeRemoved}))"

lemma frozen_iff: "frozen_vocabulary f \<longleftrightarrow> \<not> v2_demotable f"
proof -
  have "dn_change n \<in> {NodeAdded, NodeEdited, NodeRemoved} \<longleftrightarrow> dn_change n \<noteq> NodeAnchored" for n
    by (cases "dn_change n") auto
  moreover have "df_change df \<in> {Created, Modified, Deleted, Renamed} \<longleftrightarrow> df_change df \<noteq> Unattested" for df
    by (cases "df_change df") auto
  ultimately show ?thesis
    by (simp add: frozen_vocabulary_def v2_demotable_def notification_reserved_def) blast
qed

text \<open>
  Claim C23. A frozen session sees only its own vocabulary: the frame it is sent has no effects, no
  rescope and no overflow count, its files are created, modified, deleted or renamed and its nodes
  added, edited or removed. It has the number, the roots and the paths of the frame in the ring, and is
  that frame exactly when this was in the vocabulary already.
\<close>

theorem v2_frame_clean:
  "frozen_vocabulary (session_frame False f) \<and> (session_frame False f = f \<longleftrightarrow> frozen_vocabulary f) \<and>
   seq_of (session_frame False f) = seq_of f \<and>
   root_before (session_frame False f) = root_before f \<and>
   root_after (session_frame False f) = root_after f \<and>
   map df_path (d_files (fr_delta (session_frame False f))) = map df_path (d_files (fr_delta f))"
proof -
  have clean: "frozen_vocabulary (session_frame False f)"
    by (simp add: frozen_iff session_frame_def demoted_clean)
  have "session_frame False f = f" if "frozen_vocabulary f"
    using that by (simp add: frozen_iff session_frame_def)
  then have "session_frame False f = f \<longleftrightarrow> frozen_vocabulary f" using clean by metis
  then show ?thesis using clean by (simp add: session_frame_def demote_frame_def demote_file_def)
qed

text \<open>
  Claim C24. The push loop can leave a frame out without a word: a subscriber that anchored at a
  full window misses the window's first frame when one more is recorded before its first turn.
\<close>

theorem push_drops_frame_silently:
  "\<exists>ops f c g. ascending (recorded (ops @ [Advance f])) \<and>
     can_anchor (ring_run ops (ring_new i)) c = Anchored \<and>
     g \<in> set (recorded ops) \<and> cur_seq c < seq_of g \<and>
     session_frame v3 g \<notin> set (push_run v3 (ring_run ops (ring_new i)) (cur_seq c) [[Advance f], []])"
proof -
  define N where "N = ring_bound"
  let ?ops = "map (\<lambda>n. Advance (tick n)) [1..<Suc N]" and ?last = "Advance (tick (Suc N))"
  let ?c = "\<lparr>cur_instance = i, cur_seq = 0\<rparr>" and ?r = "ring_run (map (\<lambda>n. Advance (tick n)) [1..<Suc N]) (ring_new i)"
  have pos: "0 < N" by (simp add: N_def ring_bound_def)
  have rec: "recorded (map (\<lambda>n. Advance (tick n)) ns) = map tick ns" for ns
    by (induction ns) simp_all
  have asc: "ascending (recorded (?ops @ [?last]))"
    by (simp only: recorded_simps rec) (simp add: sorted_wrt_append sorted_wrt_map less_Suc_eq)
  have r: "retains ?r (map tick [1..<Suc N])"
    using retains_run [OF retains_new [of i], of ?ops] by (simp only: rec append_Nil)
  then have fr: "frames ?r = map tick [1..<Suc N]"
    by (simp add: retains_def N_def del: upt_Suc)
  have cons: "[1..<Suc N] = 1 # [2..<Suc N]"
    using pos upt_conv_Cons [of 1 "Suc N"] by (simp add: numeral_2_eq_2 del: upt_Suc)
  have "oldest_seq ?r = Some 1"
    unfolding oldest_seq_def fr unfolding cons by simp
  moreover have "ring_seq ?r = N"
    unfolding ring_seq_def fr using pos by (simp add: last_map)
  moreover have "tree_instance ?r = i" unfolding instance_run by (simp add: ring_new_def)
  ultimately have anchor: "can_anchor ?r ?c = Anchored"
    using pos by (simp add: can_anchor_def del: upt_Suc)
  have one: "frames (ring_run [?last] r) =
      (if length (frames r) = ring_bound then tl (frames r) else frames r) @ [tick (Suc N)]" for r
    by (simp add: ring_run_def advance_def)
  have after: "frames (ring_run [?last] ?r) = map tick ([2..<Suc N] @ [Suc N])"
    unfolding one fr unfolding cons using pos by (simp add: N_def [symmetric] del: upt_Suc)
  have nil: "ring_run [] r = r" for r by (simp add: ring_run_def)
  have fs: "frames_after (ring_run [?last] ?r) 0 = map tick ([2..<Suc N] @ [Suc N])"
    unfolding frames_after_def after by (simp add: filter_id_conv del: upt_Suc)
  have t1: "push_turn v3 (ring_run [?last] ?r) 0 =
      (map (session_frame v3) (map tick ([2..<Suc N] @ [Suc N])), Suc N)"
    unfolding push_turn_def fs fold_position Let_def by (simp del: upt_Suc)
  have none: "frames_after (ring_run [?last] ?r) (Suc N) = []"
    unfolding frames_after_def after by (simp add: filter_empty_conv del: upt_Suc)
  have t2: "push_turn v3 (ring_run [?last] ?r) (Suc N) = ([], Suc N)"
    unfolding push_turn_def none fold_position Let_def by simp
  have "push_run v3 ?r 0 [[?last], []] = map (session_frame v3) (map tick ([2..<Suc N] @ [Suc N]))"
    by (simp only: push_run.simps Let_def t1 t2 nil prod.case append_Nil2)
  then have "session_frame v3 (tick 1) \<notin> set (push_run v3 ?r 0 [[?last], []])"
    using pos by (auto simp del: upt_Suc push_run.simps dest: arg_cong [of _ _ seq_of])
  then show ?thesis using asc anchor pos
    by (intro exI [of _ ?ops] exI [of _ "tick (Suc N)"] exI [of _ ?c] exI [of _ "tick 1"])
      (simp add: rec del: upt_Suc push_run.simps)
qed

end
