(* ===== verification/Root_Token.thy ===== *)
theory Root_Token
  imports Doc_Tree "HOL-Library.Word"
begin

text \<open>
  The root tokens of \<^verbatim>\<open>crates/model/src/lib.rs\<close> and their two-dimensional version: the prefix
  ladder in bijective base 26, the strict reader of a token, and the classification of a held
  token against the identity that serves. Versions and positions are 32-bit words, whose sums
  wrap as in a release build.
\<close>

type_synonym u32 = "32 word"

section \<open>The prefix ladder\<close>

lemma pred_div_less: "n \<noteq> 0 \<Longrightarrow> unat ((n - 1) div 26 :: u32) < unat n"
proof -
  assume n: "n \<noteq> 0"
  then have "unat (n - 1) = unat n - 1" by (simp add: unat_minus_one)
  moreover have "0 < unat n" using n by (simp add: unat_gt_0)
  moreover have "unat ((n - 1) div 26) \<le> unat (n - 1)" by (simp add: unat_div)
  ultimately show ?thesis by linarith
qed

text \<open>The letters the loop pushes, least significant first.\<close>

function suffix_letters :: "u32 \<Rightarrow> str" where
  "suffix_letters n =
     (if n = 0 then []
      else char_of (97 + unat ((n - 1) mod 26)) # suffix_letters ((n - 1) div 26))"
  by auto

termination
  by (relation "measure unat") (auto intro: pred_div_less)

declare suffix_letters.simps [simp del]

definition root_prefix :: "u32 \<Rightarrow> str" where
  "root_prefix version = ''b3'' @ rev (suffix_letters version) @ '':''"

section \<open>Version identities\<close>

definition hash_law_flat :: u32 where "hash_law_flat = 1"
definition hash_law_radix :: u32 where "hash_law_radix = 2"

record root_version =
  hash_law :: u32
  domain :: u32

definition law1 :: "u32 \<Rightarrow> root_version" where
  "law1 d = \<lparr>hash_law = hash_law_flat, domain = d\<rparr>"

definition law2 :: "u32 \<Rightarrow> root_version" where
  "law2 d = \<lparr>hash_law = hash_law_radix, domain = d\<rparr>"

definition ladder_position :: "root_version \<Rightarrow> u32" where
  "ladder_position v = domain v + (hash_law v - 1)"

definition version_prefix :: "root_version \<Rightarrow> str" where
  "version_prefix v = root_prefix (ladder_position v)"

definition token :: "root_version \<Rightarrow> str \<Rightarrow> str" where
  "token v value = version_prefix v @ to_hex value"

section \<open>Reading a token\<close>

record parsed_root =
  pr_position :: u32
  pr_digest :: str

definition checked_mul :: "u32 \<Rightarrow> u32 \<Rightarrow> u32 option" where
  "checked_mul a b = (if unat a * unat b < 2 ^ 32 then Some (a * b) else None)"

definition checked_add :: "u32 \<Rightarrow> u32 \<Rightarrow> u32 option" where
  "checked_add a b = (if unat a + unat b < 2 ^ 32 then Some (a + b) else None)"

definition hex_lower :: "char \<Rightarrow> bool" where
  "hex_lower c \<longleftrightarrow> ascii_digit c \<or> (97 \<le> byte c \<and> byte c \<le> 102)"

fun read_suffix :: "u32 \<Rightarrow> str \<Rightarrow> u32 option" where
  "read_suffix p [] = Some p"
| "read_suffix p (c # cs) =
     (if \<not> ascii_lower c then None
      else case checked_mul p 26 of
        None \<Rightarrow> None
      | Some m \<Rightarrow>
          (case checked_add m (of_nat (byte c - 97) + 1) of
             None \<Rightarrow> None
           | Some q \<Rightarrow> read_suffix q cs))"

definition parse_root :: "str \<Rightarrow> parsed_root option" where
  "parse_root s =
     (if take 2 s \<noteq> ''b3'' then None
      else case split_once (CHR '':'') (drop 2 s) of
        None \<Rightarrow> None
      | Some (letters, digest) \<Rightarrow>
          if length digest \<noteq> 64 \<or> \<not> list_all hex_lower digest then None
          else map_option (\<lambda>p. \<lparr>pr_position = p, pr_digest = digest\<rparr>) (read_suffix 0 letters))"

section \<open>Classification\<close>

datatype token_verdict = Current | DomainMoved | Retired | UnsupportedFuture | Malformed

record serving_version =
  current :: root_version
  law_boundary :: u32

definition serving_law1 :: "u32 \<Rightarrow> serving_version" where
  "serving_law1 d = \<lparr>current = law1 d, law_boundary = 0\<rparr>"

definition law2_cutover :: "u32 \<Rightarrow> serving_version" where
  "law2_cutover d = \<lparr>current = law2 d, law_boundary = ladder_position (law2 d)\<rparr>"

definition classify :: "serving_version \<Rightarrow> str \<Rightarrow> token_verdict" where
  "classify sv tok =
     (case parse_root tok of
        None \<Rightarrow> Malformed
      | Some parsed \<Rightarrow>
          if ladder_position (current sv) < pr_position parsed then UnsupportedFuture
          else if pr_position parsed < law_boundary sv then Retired
          else if pr_position parsed = ladder_position (current sv) then Current
          else DomainMoved)"

definition decode_position :: "serving_version \<Rightarrow> u32 \<Rightarrow> root_version option" where
  "decode_position sv p =
     (if ladder_position (current sv) < p then None
      else
        let law = (if law_boundary sv \<le> p then hash_law (current sv) else hash_law (current sv) - 1)
        in Some \<lparr>hash_law = law, domain = p - (law - 1)\<rparr>)"

section \<open>The prefix is read back, and nothing else is\<close>

lemma suffix_letters_0: "suffix_letters 0 = []"
  by (simp add: suffix_letters.simps)

lemma suffix_letters_pos:
  "n \<noteq> 0 \<Longrightarrow> suffix_letters n = char_of (97 + unat ((n - 1) mod 26)) # suffix_letters ((n - 1) div 26)"
  by (subst suffix_letters.simps) simp

text \<open>What the letters spell, without a bound.\<close>

definition spelled :: "nat \<Rightarrow> str \<Rightarrow> nat" where
  "spelled n cs = foldl (\<lambda>n c. n * 26 + (byte c - 97) + 1) n cs"

lemma spelled_simps [simp]:
  "spelled n [] = n" "spelled n (c # cs) = spelled (n * 26 + (byte c - 97) + 1) cs"
  "spelled n (cs @ [c]) = spelled n cs * 26 + (byte c - 97) + 1"
  by (simp_all add: spelled_def)

lemma spelled_grows: "n \<le> spelled n cs"
proof (induction cs arbitrary: n)
  case (Cons c cs)
  have "n \<le> n * 26 + (byte c - 97) + 1" by simp
  also have "\<dots> \<le> spelled (n * 26 + (byte c - 97) + 1) cs" by (rule Cons.IH)
  finally show ?case by simp
qed simp

lemma unat_fits: "n < 2 ^ 32 \<Longrightarrow> unat (of_nat n :: u32) = n"
  by (simp add: unat_of_nat take_bit_nat_eq_self)

lemma unat_bound: "unat (p :: u32) < 2 ^ 32"
  using unsigned_less [of p] by simp

lemma checked_mul_nat:
  "checked_mul a b = (if unat a * unat b < 2 ^ 32 then Some (of_nat (unat a * unat b)) else None)"
  by (simp add: checked_mul_def)

lemma checked_add_nat:
  "checked_add a b = (if unat a + unat b < 2 ^ 32 then Some (of_nat (unat a + unat b)) else None)"
  by (simp add: checked_add_def)

lemma read_suffix_Cons:
  assumes "ascii_lower c"
  shows "read_suffix p (c # cs) =
    (let n = unat p * 26 + (byte c - 97) + 1 in
     if n < 2 ^ 32 then read_suffix (of_nat n) cs else None)"
proof -
  let ?d = "byte c - 97"
  have "?d < 26" using assms by (auto simp: ascii_lower_def)
  then have d: "?d + 1 < 2 ^ 32" by simp
  have "of_nat ?d + 1 = (of_nat (?d + 1) :: u32)" by simp
  then have ud: "unat (of_nat ?d + 1 :: u32) = ?d + 1" using unat_fits [OF d] by (simp only:)
  have u26: "unat (26 :: u32) = 26" by simp
  show ?thesis
  proof (cases "unat p * 26 < 2 ^ 32")
    case True
    then have um: "unat (of_nat (unat p * 26) :: u32) = unat p * 26" by (rule unat_fits)
    have "97 \<le> byte c" using assms by (simp add: ascii_lower_def)
    then show ?thesis
      using assms True um ud
      by (simp add: checked_mul_nat checked_add_nat u26 Let_def del: of_nat_mult of_nat_add)
  next
    case False
    then show ?thesis using assms by (simp add: checked_mul_nat u26)
  qed
qed

lemma read_suffix_spelled:
  "read_suffix p cs =
     (if list_all ascii_lower cs \<and> spelled (unat p) cs < 2 ^ 32
      then Some (of_nat (spelled (unat p) cs)) else None)"
proof (induction cs arbitrary: p)
  case (Cons c cs)
  show ?case
  proof (cases "ascii_lower c")
    case True
    let ?n = "unat p * 26 + (byte c - 97) + 1"
    show ?thesis
    proof (cases "?n < 2 ^ 32")
      case n: True
      then show ?thesis using True Cons.IH [of "of_nat ?n"]
        by (simp only: read_suffix_Cons [OF True] Let_def unat_fits [OF n] spelled_simps list.pred_inject
            if_True simp_thms)
    next
      case False
      then have "\<not> spelled ?n cs < 2 ^ 32" using spelled_grows [of ?n cs] by linarith
      then show ?thesis using False
        by (simp only: read_suffix_Cons [OF True] Let_def spelled_simps if_False simp_thms)
    qed
  qed simp
qed (use unat_bound in simp)

lemma suffix_letters_spelled: "spelled 0 (rev (suffix_letters n)) = unat n"
proof (induction n rule: suffix_letters.induct)
  case (1 n)
  show ?case
  proof (cases "n = 0")
    case False
    let ?m = "(n - 1) mod 26"
    have "unat ?m = unat (n - 1) mod 26" by (simp add: unat_mod)
    then have m: "unat ?m < 26" by simp
    have "unat ((n - 1) div 26) * 26 + unat ?m = unat (n - 1)" by (simp add: unat_div unat_mod)
    moreover have "unat (n - 1) + 1 = unat n"
      using False by (simp add: unat_minus_one unat_gt_0 Suc_pred)
    ultimately show ?thesis
      using False "1.IH" m by (simp add: suffix_letters_pos)
  qed (simp add: suffix_letters_0)
qed

lemma suffix_letters_lower: "list_all ascii_lower (suffix_letters n)"
proof (induction n rule: suffix_letters.induct)
  case (1 n)
  have "unat ((n - 1) mod 26) < 26" by (simp add: unat_mod)
  then show ?case using "1.IH"
    by (cases "n = 0") (simp_all add: suffix_letters_0 suffix_letters_pos ascii_lower_def)
qed

lemma spelled_suffix_letters:
  "list_all ascii_lower cs \<Longrightarrow> spelled 0 cs < 2 ^ 32 \<Longrightarrow> rev (suffix_letters (of_nat (spelled 0 cs))) = cs"
proof (induction cs rule: rev_induct)
  case (snoc c cs)
  define s d where "s = spelled 0 cs" and "d = byte c - 97"
  have d: "d < 26" "byte c = 97 + d" unfolding d_def using snoc.prems(1) by (auto simp: ascii_lower_def)
  have lt: "s * 26 + d + 1 < 2 ^ 32" using snoc.prems(2) by (simp add: s_def d_def)
  define n :: u32 where "n = of_nat (s * 26 + d + 1)"
  have un: "unat n = s * 26 + d + 1" unfolding n_def by (rule unat_fits [OF lt])
  then have n0: "n \<noteq> 0" by auto
  then have pred: "unat (n - 1) = s * 26 + d" using un by (simp add: unat_minus_one)
  then have "unat ((n - 1) mod 26) = d" "unat ((n - 1) div 26) = s"
    using d by (simp_all add: unat_mod unat_div)
  moreover have "unat (of_nat s :: u32) = s" using lt by (intro unat_fits) linarith
  ultimately have "unat ((n - 1) mod 26) = d" "(n - 1) div 26 = of_nat s"
    by (simp_all only: word_unat_eq_iff)
  then have "suffix_letters n = c # suffix_letters (of_nat s)"
    using n0 d(2) by (simp only: suffix_letters_pos [OF n0]) (metis char_of_byte)
  moreover have "rev (suffix_letters (of_nat s)) = cs"
    using snoc.IH snoc.prems(1) lt by (simp add: s_def)
  moreover have "n = of_nat (spelled 0 (cs @ [c]))"
    by (simp only: n_def spelled_simps s_def [symmetric] d_def [symmetric])
  ultimately show ?case by (simp only: rev.simps)
qed (simp add: suffix_letters_0)

text \<open>Minted tokens are read back, and a token that is read is the one minted.\<close>

lemma read_suffix_letters: "read_suffix 0 (rev (suffix_letters n)) = Some n"
  using unat_bound [of n] suffix_letters_lower [of n]
  by (simp add: read_suffix_spelled suffix_letters_spelled list_all_iff)

lemma read_suffix_exact: "read_suffix 0 cs = Some p \<Longrightarrow> cs = rev (suffix_letters p)"
  using spelled_suffix_letters [of cs] by (auto simp: read_suffix_spelled split: if_splits)

lemma hex_nibble_lower: "n < 16 \<Longrightarrow> hex_lower (hex_nibble n)"
  by (auto simp: hex_nibble_def hex_lower_def ascii_digit_def)

lemma to_hex_lower: "list_all hex_lower (to_hex bs)"
  by (induction bs) (simp_all add: to_hex_def hex_nibble_lower byte_less_256 less_mult_imp_div_less)

lemma to_hex_length: "length (to_hex bs) = 2 * length bs"
  by (induction bs) (simp_all add: to_hex_def)

lemma hex_nibble_inject: "m < 16 \<Longrightarrow> n < 16 \<Longrightarrow> hex_nibble m = hex_nibble n \<longleftrightarrow> m = n"
proof
  assume *: "m < 16" "n < 16" "hex_nibble m = hex_nibble n"
  then have "byte (hex_nibble m) = byte (hex_nibble n)" by simp
  then show "m = n" using * by (simp add: hex_nibble_def split: if_splits)
qed simp

lemma byte_nibbles: "byte a div 16 = byte b div 16 \<Longrightarrow> byte a mod 16 = byte b mod 16 \<Longrightarrow> a = b"
  by (metis byte_inject div_mult_mod_eq)

lemma to_hex_inject: "to_hex a = to_hex b \<longleftrightarrow> a = b"
proof
  show "to_hex a = to_hex b \<Longrightarrow> a = b"
  proof (induction a b rule: list_induct2')
    case (4 x xs y ys)
    have lt: "byte c div 16 < 16" "byte c mod 16 < 16" for c
      using byte_less_256 [of c] by (simp_all add: less_mult_imp_div_less)
    from 4 have "x = y" using lt by (auto simp: to_hex_def hex_nibble_inject intro: byte_nibbles)
    moreover from 4 have "xs = ys" by (simp add: to_hex_def)
    ultimately show ?case by simp
  qed (simp_all add: to_hex_def)
qed simp

lemma parse_root_prefix:
  "parse_root (root_prefix p @ digest) =
     (if length digest = 64 \<and> list_all hex_lower digest
      then Some \<lparr>pr_position = p, pr_digest = digest\<rparr> else None)"
proof -
  have "CHR '':'' \<notin> set (suffix_letters p)"
    using suffix_letters_lower [of p] by (auto simp: list_all_iff ascii_lower_def byte_def)
  then have "split_once (CHR '':'') (rev (suffix_letters p) @ CHR '':'' # digest) =
      Some (rev (suffix_letters p), digest)"
    by (simp add: split_once_Some)
  then show ?thesis by (simp add: parse_root_def root_prefix_def read_suffix_letters)
qed

lemma parse_root_exact:
  assumes "parse_root s = Some r"
  shows "s = root_prefix (pr_position r) @ pr_digest r \<and> length (pr_digest r) = 64 \<and>
    list_all hex_lower (pr_digest r)"
proof -
  obtain cs where "take 2 s = ''b3''" "split_once (CHR '':'') (drop 2 s) = Some (cs, pr_digest r)"
    "read_suffix 0 cs = Some (pr_position r)" "length (pr_digest r) = 64" "list_all hex_lower (pr_digest r)"
    using assms by (auto simp: parse_root_def split: if_splits option.splits)
  moreover from this have "s = ''b3'' @ cs @ CHR '':'' # pr_digest r"
    by (metis append_take_drop_id split_once_Some)
  ultimately show ?thesis
    using read_suffix_exact by (simp add: root_prefix_def)
qed

end
