(* ===== verification/Merkle.thy ===== *)
theory Merkle
  imports Root_Token Uleb
begin

text \<open>
  The corpus root of \<^verbatim>\<open>crates/model/src/lib.rs\<close>: the flat Merkle tree over the domain's files,
  its fold to the workspace's root token, and the staleness witness over base members. A
  directory is its ordered map of entries. A digest is a string of 32 bytes; BLAKE3 is the
  parameter \<open>hash\<close>.
\<close>

section \<open>The tree\<close>

datatype merkle_entry = MFile str | MDir "(str \<times> merkle_entry) list"

type_synonym merkle_dir = "(str \<times> merkle_entry) list"

text \<open>\<^verbatim>\<open>path.split('/')\<close> without the empty segments.\<close>

definition path_segs :: "str \<Rightarrow> str list" where
  "path_segs p = filter (\<lambda>s. s \<noteq> []) (split_chr (CHR ''/'') p)"

fun merkle_insert :: "str list \<Rightarrow> str \<Rightarrow> merkle_dir \<Rightarrow> merkle_dir" where
  "merkle_insert [] h d = d"
| "merkle_insert [name] h d =
     (case map_of d name of
        Some (MDir ds) \<Rightarrow> d
      | _ \<Rightarrow> btree_insert (name, MFile h) d)"
| "merkle_insert (seg # next # rest) h d =
     (case map_of d seg of
        None \<Rightarrow> btree_insert (seg, MDir (merkle_insert (next # rest) h [])) d
      | Some (MDir ds) \<Rightarrow> btree_insert (seg, MDir (merkle_insert (next # rest) h ds)) d
      | Some (MFile _) \<Rightarrow> d)"

text \<open>One child record of an encoding: varint length, name, type byte, hash.\<close>

definition child_record :: "str \<Rightarrow> bool \<Rightarrow> str \<Rightarrow> str" where
  "child_record name tagged h =
     write_uleb128 (length name) @ name @ [if tagged then CHR 0x01 else CHR 0x00] @ h"

text \<open>What an entry contributes to its directory's encoding; an empty directory nothing.\<close>

fun entry_bytes :: "(str \<Rightarrow> str) \<Rightarrow> str \<times> merkle_entry \<Rightarrow> str" where
  "entry_bytes hash (name, MFile h) = child_record name False h"
| "entry_bytes hash (name, MDir ds) =
     (if ds = [] then []
      else child_record name True (hash (concat (map (entry_bytes hash) ds))))"

definition merkle_fold :: "(str \<Rightarrow> str) \<Rightarrow> merkle_dir \<Rightarrow> str" where
  "merkle_fold hash d = hash (concat (map (entry_bytes hash) d))"

definition merkle_tree :: "(str \<times> str) list \<Rightarrow> merkle_dir" where
  "merkle_tree leaves = fold (\<lambda>(path, digest). merkle_insert (path_segs path) digest) leaves []"

definition merkle_root_of_leaves :: "(str \<Rightarrow> str) \<Rightarrow> (str \<times> str) list \<Rightarrow> u32 \<Rightarrow> str" where
  "merkle_root_of_leaves hash leaves version =
     token (law1 version) (merkle_fold hash (merkle_tree leaves))"

definition leaf_digest :: "(str \<Rightarrow> str) \<Rightarrow> str \<Rightarrow> str" where
  "leaf_digest hash bytes = hash bytes"

definition merkle_root :: "(str \<Rightarrow> str) \<Rightarrow> (str \<times> str) list \<Rightarrow> u32 \<Rightarrow> str" where
  "merkle_root hash files version =
     merkle_root_of_leaves hash (map (\<lambda>(path, bytes). (path, leaf_digest hash bytes)) files) version"

section \<open>The base fold\<close>

record base_member =
  bm_path :: str
  bm_leaf :: "str option"

definition member_bytes :: "base_member \<Rightarrow> str" where
  "member_bytes m =
     child_record (bm_path m) (bm_leaf m = None)
       (case bm_leaf m of Some h \<Rightarrow> h | None \<Rightarrow> replicate 32 (CHR 0x00))"

definition base_fold :: "(str \<Rightarrow> str) \<Rightarrow> base_member list \<Rightarrow> str" where
  "base_fold hash members =
     ''bf:'' @ to_hex (hash (concat (map member_bytes (sort_key bm_path members))))"

section \<open>Lookup and the invariant\<close>

fun merkle_file :: "merkle_dir \<Rightarrow> str list \<Rightarrow> str option" where
  "merkle_file d [] = None"
| "merkle_file d [name] = (case map_of d name of Some (MFile h) \<Rightarrow> Some h | _ \<Rightarrow> None)"
| "merkle_file d (seg # next # rest) =
     (case map_of d seg of Some (MDir ds) \<Rightarrow> merkle_file ds (next # rest) | _ \<Rightarrow> None)"

fun entry_ok :: "merkle_entry \<Rightarrow> bool" where
  "entry_ok (MFile h) \<longleftrightarrow> True"
| "entry_ok (MDir ds) \<longleftrightarrow> ds \<noteq> [] \<and> btree_ok ds \<and> (\<forall>(n, e) \<in> set ds. entry_ok e)"

definition dir_ok :: "merkle_dir \<Rightarrow> bool" where
  "dir_ok d \<longleftrightarrow> btree_ok d \<and> (\<forall>(n, e) \<in> set d. entry_ok e)"

lemma dir_ok_sub: "dir_ok d \<Longrightarrow> map_of d n = Some (MDir ds) \<Longrightarrow> dir_ok ds \<and> ds \<noteq> []"
proof -
  assume d: "dir_ok d" "map_of d n = Some (MDir ds)"
  have "\<forall>x \<in> set d. entry_ok (snd x)" using d(1) by (auto simp: dir_ok_def)
  then have "entry_ok (MDir ds)" using map_of_SomeD [OF d(2)] by fastforce
  then show "dir_ok ds \<and> ds \<noteq> []" by (simp add: dir_ok_def)
qed

lemma dir_ok_Nil [simp]: "dir_ok []"
  by (simp add: dir_ok_def)

lemma dir_ok_insert: "dir_ok d \<Longrightarrow> entry_ok e \<Longrightarrow> dir_ok (btree_insert (n, e) d)"
  using set_btree_insert_sub [of "(n, e)" d] by (force simp: dir_ok_def btree_insert_ok)

lemma btree_insert_not_Nil [simp]: "btree_insert kv m \<noteq> []"
  by (cases m) auto

lemma map_of_insert [simp]:
  "dir_ok d \<Longrightarrow> map_of (btree_insert (n, e) d) m = (if m = n then Some e else map_of d m)"
  by (simp add: dir_ok_def map_of_btree_insert)

lemma merkle_insert_ok:
  "dir_ok d \<Longrightarrow> dir_ok (merkle_insert segs h d) \<and> (segs \<noteq> [] \<longrightarrow> merkle_insert segs h d \<noteq> [])"
proof (induction segs h d rule: merkle_insert.induct)
  case (1 h d)
  then show ?case by simp
next
  case (2 name h d)
  then show ?case
    by (auto split: option.splits merkle_entry.splits intro: dir_ok_insert dest: map_of_SomeD)
next
  case (3 seg nxt rest h d)
  show ?case
  proof (cases "map_of d seg")
    case None
    then have "entry_ok (MDir (merkle_insert (nxt # rest) h []))"
      using "3.IH"(1) by (simp add: dir_ok_def)
    then show ?thesis using 3 None by (auto intro: dir_ok_insert)
  next
    case (Some e)
    show ?thesis
    proof (cases e)
      case (MFile g)
      then show ?thesis using 3 Some by (auto dest: map_of_SomeD)
    next
      case (MDir ds)
      then have "entry_ok (MDir (merkle_insert (nxt # rest) h ds))"
        using "3.IH"(2) [OF Some] dir_ok_sub [OF "3.prems"] Some by (auto simp: dir_ok_def)
      then show ?thesis using 3 Some MDir by (auto intro: dir_ok_insert)
    qed
  qed
qed

text \<open>Two paths collide when one is a proper prefix of the other.\<close>

definition collides :: "str list \<Rightarrow> str list \<Rightarrow> bool" where
  "collides p q \<longleftrightarrow> p \<noteq> q \<and> ((\<exists>r. q = p @ r) \<or> (\<exists>r. p = q @ r))"

lemma collides_Cons [simp]: "collides (a # p) (b # q) \<longleftrightarrow> a = b \<and> collides p q"
  by (auto simp: collides_def)

lemma collides_Nil [simp]: "collides [] q \<longleftrightarrow> q \<noteq> []" "collides p [] \<longleftrightarrow> p \<noteq> []"
  by (auto simp: collides_def)

lemma merkle_file_Cons:
  "merkle_file d (n # r) =
     (case map_of d n of
        None \<Rightarrow> None
      | Some (MFile h) \<Rightarrow> if r = [] then Some h else None
      | Some (MDir ds) \<Rightarrow> if r = [] then None else merkle_file ds r)"
  by (cases r) (auto split: option.splits merkle_entry.splits)

lemma entry_ok_dir: "entry_ok (MDir ds) \<longleftrightarrow> ds \<noteq> [] \<and> dir_ok ds"
  by (auto simp: dir_ok_def)

lemma dir_ok_entry: "dir_ok d \<Longrightarrow> (n, e) \<in> set d \<Longrightarrow> entry_ok e"
  by (auto simp: dir_ok_def)

lemma entry_nonempty:
  "entry_ok e \<Longrightarrow> case e of MFile h \<Rightarrow> True | MDir ds \<Rightarrow> \<exists>q. merkle_file ds q \<noteq> None"
proof (induction e)
  case (MDir ds)
  then obtain n e ds' where ds: "ds = (n, e) # ds'" by (cases ds) auto
  show ?case
  proof (cases e)
    case (MFile h)
    then have "merkle_file ds [n] \<noteq> None" using ds by simp
    then have "\<exists>q. merkle_file ds q \<noteq> None" by blast
    then show ?thesis by simp
  next
    case (MDir es)
    then obtain q where q: "merkle_file es q \<noteq> None"
      using MDir.IH [of "(n, e)" e] MDir.prems ds by auto
    then have "merkle_file ds (n # q) \<noteq> None" using ds MDir by (cases q) auto
    then have "\<exists>q. merkle_file ds q \<noteq> None" by blast
    then show ?thesis by simp
  qed
qed simp

lemma merkle_nonempty: "dir_ok d \<Longrightarrow> d \<noteq> [] \<Longrightarrow> \<exists>q. merkle_file d q \<noteq> None"
  using entry_nonempty [of "MDir d"] by (simp add: entry_ok_dir del: entry_ok.simps)

section \<open>What an insertion does\<close>

definition blocked :: "merkle_dir \<Rightarrow> str list \<Rightarrow> bool" where
  "blocked d p \<longleftrightarrow> (\<exists>q. merkle_file d q \<noteq> None \<and> collides q p)"

lemma blocked_Nil_dir [simp]: "\<not> blocked [] p"
  by (simp add: blocked_def merkle_file_Cons split: list.splits)
    (metis list.exhaust merkle_file.simps(1) merkle_file_Cons map_of.simps(1) option.simps(4))

lemma blocked_Cons:
  assumes "dir_ok d"
  shows "blocked d (n # r) \<longleftrightarrow>
    (case map_of d n of
       None \<Rightarrow> False
     | Some (MFile h) \<Rightarrow> r \<noteq> []
     | Some (MDir ds) \<Rightarrow> r = [] \<or> blocked ds r)"
proof -
  have step: "blocked d (n # r) \<longleftrightarrow> (\<exists>q. merkle_file d (n # q) \<noteq> None \<and> collides q r)"
  proof
    assume "blocked d (n # r)"
    then obtain q where q: "merkle_file d q \<noteq> None" "collides q (n # r)" by (auto simp: blocked_def)
    then show "\<exists>q. merkle_file d (n # q) \<noteq> None \<and> collides q r" by (cases q) auto
  next
    assume "\<exists>q. merkle_file d (n # q) \<noteq> None \<and> collides q r"
    then obtain q where "merkle_file d (n # q) \<noteq> None" "collides (n # q) (n # r)" by auto
    then show "blocked d (n # r)" unfolding blocked_def by blast
  qed
  show ?thesis
  proof (cases "map_of d n")
    case None
    then show ?thesis by (simp add: step merkle_file_Cons)
  next
    case (Some e)
    show ?thesis
    proof (cases e)
      case (MFile h)
      then show ?thesis using Some by (auto simp: step merkle_file_Cons split: if_splits)
    next
      case (MDir ds)
      obtain q where q: "merkle_file ds q \<noteq> None"
        using dir_ok_sub [OF assms] Some MDir merkle_nonempty by blast
      have ne: "merkle_file ds q \<noteq> None \<Longrightarrow> q \<noteq> []" for q by auto
      have "(\<exists>q. merkle_file d (n # q) \<noteq> None \<and> collides q r) \<longleftrightarrow>
          (\<exists>q. merkle_file ds q \<noteq> None \<and> collides q r)"
        using Some MDir ne by (auto simp: merkle_file_Cons)
      also have "\<dots> \<longleftrightarrow> r = [] \<or> blocked ds r"
        using q ne unfolding blocked_def by auto
      finally show ?thesis unfolding step using Some MDir by simp
    qed
  qed
qed

lemma merkle_file_put_dir:
  "dir_ok d \<Longrightarrow> merkle_file (btree_insert (n, MDir ds) d) q =
     (case q of
        [] \<Rightarrow> None
      | m # r \<Rightarrow> if m = n then (if r = [] then None else merkle_file ds r) else merkle_file d q)"
  by (cases q) (simp_all add: merkle_file_Cons)

lemma merkle_file_insert:
  "dir_ok d \<Longrightarrow> p \<noteq> [] \<Longrightarrow>
   merkle_file (merkle_insert p h d) q =
     (if q = p \<and> \<not> blocked d p then Some h else merkle_file d q)"
proof (induction p h d arbitrary: q rule: merkle_insert.induct)
  case (1 h d)
  then show ?case by simp
next
  case (2 name h d)
  then show ?case
    by (cases q) (auto simp: merkle_file_Cons blocked_Cons split: option.splits merkle_entry.splits)
next
  case (3 seg nxt rest h d)
  let ?r = "nxt # rest"
  show ?case
  proof (cases "map_of d seg")
    case None
    have "merkle_file [] q' = None" for q' by (cases q') (auto simp: merkle_file_Cons)
    then have "merkle_file (merkle_insert ?r h []) q' = (if q' = ?r then Some h else None)" for q'
      using "3.IH"(1) [OF None, of q'] by simp
    then show ?thesis using 3 None
      by (simp add: merkle_file_put_dir blocked_Cons merkle_file_Cons [of d] split: list.split)
  next
    case (Some e)
    show ?thesis
    proof (cases e)
      case (MFile g)
      then show ?thesis using 3 Some by (auto simp: blocked_Cons)
    next
      case (MDir ds)
      then have "merkle_file (merkle_insert ?r h ds) q' =
          (if q' = ?r \<and> \<not> blocked ds ?r then Some h else merkle_file ds q')" for q'
        using "3.IH"(2) [OF Some] dir_ok_sub [OF "3.prems"(1)] Some by auto
      then show ?thesis using 3 Some MDir
        by (auto simp: merkle_file_put_dir blocked_Cons merkle_file_Cons [of d] split: list.split)
    qed
  qed
qed

end
