(* ===== verification/Root_Props.thy ===== *)
theory Root_Props
  imports Root_Token
begin

text \<open>
  What the root tokens promise: the reader is the exact inverse of the minting, and through
  every history of domain edits and the one law cutover a held token is classified by what
  really moved.
\<close>

section \<open>Histories of a serving identity\<close>

text \<open>
  A workspace starts under the first law. A domain edit raises the domain version, the cutover
  changes the law at the domain it finds. Neither is taken past the last 32-bit position.
\<close>

inductive serving_step :: "serving_version \<times> root_version list \<Rightarrow> serving_version \<times> root_version list \<Rightarrow> bool" where
  edit: "domain (current sv) < d \<Longrightarrow> unat d + unat (hash_law (current sv)) \<le> 2 ^ 32 \<Longrightarrow>
    serving_step (sv, minted)
      (sv\<lparr>current := (current sv)\<lparr>domain := d\<rparr>\<rparr>, minted @ [(current sv)\<lparr>domain := d\<rparr>])"
| cutover: "hash_law (current sv) = hash_law_flat \<Longrightarrow> unat (domain (current sv)) + 2 \<le> 2 ^ 32 \<Longrightarrow>
    serving_step (sv, minted)
      (law2_cutover (domain (current sv)), minted @ [law2 (domain (current sv))])"

definition serving_start :: "u32 \<Rightarrow> serving_version \<times> root_version list" where
  "serving_start d = (serving_law1 d, [law1 d])"

fun serving_ok :: "serving_version \<times> root_version list \<Rightarrow> bool" where
  "serving_ok (sv, minted) \<longleftrightarrow>
     minted \<noteq> [] \<and> last minted = current sv \<and>
     sorted_wrt (\<lambda>v w. ladder_position v < ladder_position w) minted \<and>
     hash_law (current sv) \<in> {1, 2} \<and>
     (hash_law (current sv) = 1 \<longrightarrow> law_boundary sv = 0) \<and>
     (\<forall>v \<in> set minted. unat (domain v) + unat (hash_law v) \<le> 2 ^ 32 \<and>
        (hash_law v = hash_law (current sv) \<and> law_boundary sv \<le> ladder_position v \<or>
         hash_law (current sv) = 2 \<and> hash_law v = 1 \<and> ladder_position v < law_boundary sv))"

lemma position_law1: "hash_law v = 1 \<Longrightarrow> ladder_position v = domain v"
  by (simp add: ladder_position_def)

lemma position_law2:
  "hash_law v = 2 \<Longrightarrow> unat (domain v) + unat (hash_law v) \<le> 2 ^ 32 \<Longrightarrow>
   unat (ladder_position v) = unat (domain v) + 1"
proof -
  assume law: "hash_law v = 2" and fits: "unat (domain v) + unat (hash_law v) \<le> 2 ^ 32"
  have "unat (domain v) + 1 < 2 ^ 32" using law fits by simp
  then have "unat (of_nat (unat (domain v) + 1) :: u32) = unat (domain v) + 1" by (rule unat_fits)
  then show ?thesis using law by (simp add: ladder_position_def add.commute)
qed

lemma position_mono:
  assumes "hash_law v \<in> {1, 2}" "hash_law w = hash_law v" "domain v < domain w"
    and "unat (domain w) + unat (hash_law w) \<le> 2 ^ 32"
  shows "ladder_position v < ladder_position w"
proof (cases "hash_law v = 1")
  case True
  then show ?thesis using assms by (simp add: position_law1)
next
  case False
  then have "hash_law v = 2" using assms(1) by simp
  moreover have "unat (domain v) < unat (domain w)" using assms(3) by (simp add: word_less_nat_alt)
  ultimately show ?thesis
    using assms position_law2 [of v] position_law2 [of w] by (simp add: word_less_nat_alt)
qed

lemma serving_start_ok: "serving_ok (serving_start d)"
  using unat_bound [of d] by (simp add: serving_start_def serving_law1_def law1_def hash_law_flat_def)

lemma last_is_max:
  "sorted_wrt (\<lambda>v w. ladder_position v < ladder_position w) minted \<Longrightarrow> v \<in> set minted \<Longrightarrow>
   v = last minted \<or> ladder_position v < ladder_position (last minted)"
  by (induction minted) auto

lemma serving_step_ok: "serving_step s s' \<Longrightarrow> serving_ok s \<Longrightarrow> serving_ok s'"
proof (induction rule: serving_step.induct)
  case (edit sv d minted)
  let ?w = "(current sv)\<lparr>domain := d\<rparr>"
  have up: "ladder_position (current sv) < ladder_position ?w"
    using edit by (intro position_mono) auto
  have "ladder_position v < ladder_position ?w" if "v \<in> set minted" for v
    using last_is_max [of minted v] that edit.prems up by (auto intro: less_trans)
  moreover have "law_boundary sv \<le> ladder_position ?w"
    using edit.prems up last_in_set [of minted] by auto
  ultimately show ?case using edit by (auto simp: sorted_wrt_append)
next
  case (cutover sv minted)
  let ?d = "domain (current sv)"
  have law: "hash_law (current sv) = 1" using cutover.hyps by (simp add: hash_law_flat_def)
  have two: "unat (ladder_position (law2 ?d)) = unat ?d + 1"
    using cutover.hyps by (subst position_law2) (simp_all add: law2_def hash_law_radix_def)
  have "ladder_position (current sv) < ladder_position (law2 ?d)"
    using two law by (simp add: word_less_nat_alt position_law1)
  then have "ladder_position v < ladder_position (law2 ?d)" if "v \<in> set minted" for v
    using last_is_max [of minted v] that cutover.prems by (auto intro: less_trans)
  then show ?case
    using cutover law by (auto simp: sorted_wrt_append law2_cutover_def law2_def hash_law_radix_def)
qed

lemma serving_reach_ok: "serving_step\<^sup>*\<^sup>* s s' \<Longrightarrow> serving_ok s \<Longrightarrow> serving_ok s'"
  by (induction rule: rtranclp_induct) (auto intro: serving_step_ok simp del: serving_ok.simps)

section \<open>The properties\<close>

text \<open>
  Claim C19. The token reader is the exact inverse of the minting: a spelling reads as a
  position and a digest exactly when it is the prefix of that position followed by that digest
  of 64 lower-case hex characters.
\<close>

theorem root_token_exact:
  "parse_root s = Some r \<longleftrightarrow>
     s = root_prefix (pr_position r) @ pr_digest r \<and> length (pr_digest r) = 64 \<and>
     list_all hex_lower (pr_digest r)"
proof
  assume "s = root_prefix (pr_position r) @ pr_digest r \<and> length (pr_digest r) = 64 \<and>
     list_all hex_lower (pr_digest r)"
  then show "parse_root s = Some r" by (simp add: parse_root_prefix)
qed (rule parse_root_exact)

text \<open>
  Claim C18. A held token is classified by what moved: whatever domain edits and law cutover a
  workspace went through, a token it ever minted is retired exactly when the law moved, is
  current exactly under the identity that minted it, and is otherwise a moved domain; and its
  position decodes to the identity that minted it.
\<close>

theorem held_token_classified:
  assumes "serving_step\<^sup>*\<^sup>* (serving_start d) (sv, minted)"
    and "v \<in> set minted" and "length value = 32"
  shows "classify sv (token v value) =
      (if hash_law v \<noteq> hash_law (current sv) then Retired
       else if v = current sv then Current else DomainMoved) \<and>
    decode_position sv (ladder_position v) = Some v"
proof -
  have ok: "serving_ok (sv, minted)" using serving_reach_ok [OF assms(1) serving_start_ok] .
  then have v: "v = current sv \<or> ladder_position v < ladder_position (current sv)"
    using last_is_max [of minted v] assms(2) by auto
  then have le: "\<not> ladder_position (current sv) < ladder_position v" by auto
  have parse: "parse_root (token v value) = Some \<lparr>pr_position = ladder_position v, pr_digest = to_hex value\<rparr>"
    using assms(3) by (simp add: token_def version_prefix_def parse_root_prefix to_hex_lower to_hex_length)
  have cls: "hash_law v = hash_law (current sv) \<and> law_boundary sv \<le> ladder_position v \<or>
      hash_law (current sv) = 2 \<and> hash_law v = 1 \<and> ladder_position v < law_boundary sv"
    using ok assms(2) by auto
  have dom: "ladder_position v - (hash_law v - 1) = domain v" by (simp add: ladder_position_def)
  show ?thesis
    using cls v le parse dom
    by (auto simp: classify_def decode_position_def Let_def)
qed

theorem held_token_classified_witness:
  "classify (law2_cutover 3) (token (law1 0) (replicate 32 (CHR ''h''))) = Retired"
proof -
  have "serving_step (serving_start 0)
      ((serving_law1 0)\<lparr>current := law1 3\<rparr>, [law1 0, law1 3])"
    using serving_step.edit [of "serving_law1 0" 3 "[law1 0]"]
    by (simp add: serving_start_def serving_law1_def law1_def hash_law_flat_def)
  moreover have "serving_step ((serving_law1 0)\<lparr>current := law1 3\<rparr>, [law1 0, law1 3])
      (law2_cutover 3, [law1 0, law1 3, law2 3])"
    using serving_step.cutover [of "(serving_law1 0)\<lparr>current := law1 3\<rparr>" "[law1 0, law1 3]"]
    by (simp add: serving_law1_def law1_def hash_law_flat_def)
  ultimately have "serving_step\<^sup>*\<^sup>* (serving_start 0) (law2_cutover 3, [law1 0, law1 3, law2 3])"
    by (meson converse_rtranclp_into_rtranclp r_into_rtranclp)
  then have "classify (law2_cutover 3) (token (law1 0) (replicate 32 (CHR ''h''))) =
      (if hash_law (law1 0) \<noteq> hash_law (current (law2_cutover 3)) then Retired
       else if law1 0 = current (law2_cutover 3) then Current else DomainMoved)"
    using held_token_classified [of 0 "law2_cutover 3" "[law1 0, law1 3, law2 3]" "law1 0"
        "replicate 32 (CHR ''h'')"] by simp
  then show ?thesis
    by (simp add: law1_def law2_def law2_cutover_def hash_law_flat_def hash_law_radix_def)
qed

end
