(* ===== verification/Merkle_Props.thy ===== *)
theory Merkle_Props
  imports Merkle Root_Props Sample
begin

text \<open>
  What the corpus root and the base fold attest: the tree holds the leaves it was given, its
  shape is a function of them, and, where the hash does not collide on the encodings involved,
  the root identifies them.
\<close>

section \<open>The tree holds its leaves\<close>

definition leaf_map :: "(str \<times> str) list \<Rightarrow> str list \<Rightarrow> str option" where
  "leaf_map leaves q = map_of (map (\<lambda>(p, h). (path_segs p, h)) leaves) q"

text \<open>
  A hash domain: every path names something, no path runs through a file, and one path has
  one digest.
\<close>

definition leaves_ok :: "(str \<times> str) list \<Rightarrow> bool" where
  "leaves_ok leaves \<longleftrightarrow>
     (\<forall>(p, h) \<in> set leaves. path_segs p \<noteq> []) \<and>
     (\<forall>(p, h) \<in> set leaves. \<forall>(q, g) \<in> set leaves.
        \<not> collides (path_segs p) (path_segs q) \<and> (path_segs p = path_segs q \<longrightarrow> h = g))"

lemma leaf_map_iff:
  assumes "leaves_ok leaves"
  shows "leaf_map leaves q = Some h \<longleftrightarrow> (\<exists>p. (p, h) \<in> set leaves \<and> path_segs p = q)"
proof
  assume "leaf_map leaves q = Some h"
  then show "\<exists>p. (p, h) \<in> set leaves \<and> path_segs p = q"
    by (auto simp: leaf_map_def dest!: map_of_SomeD)
next
  assume "\<exists>p. (p, h) \<in> set leaves \<and> path_segs p = q"
  then obtain p where p: "(p, h) \<in> set leaves" "path_segs p = q" by blast
  then have "q \<in> fst ` set (map (\<lambda>(p, h). (path_segs p, h)) leaves)" by force
  then have "leaf_map leaves q \<noteq> None" unfolding leaf_map_def map_of_eq_None_iff by blast
  then obtain g where g: "leaf_map leaves q = Some g" by blast
  then obtain p' where "(p', g) \<in> set leaves" "path_segs p' = q"
    by (auto simp: leaf_map_def dest!: map_of_SomeD)
  then show "leaf_map leaves q = Some h" using assms p g unfolding leaves_ok_def by fastforce
qed

lemma merkle_tree_snoc:
  "merkle_tree (leaves @ [(p, h)]) = merkle_insert (path_segs p) h (merkle_tree leaves)"
  by (simp add: merkle_tree_def)

lemma merkle_tree_ok: "dir_ok (merkle_tree leaves)"
proof (induction leaves rule: rev_induct)
  case (snoc l leaves)
  then show ?case using merkle_insert_ok by (cases l) (simp add: merkle_tree_snoc)
qed (simp add: merkle_tree_def)

lemma merkle_file_Nil_dir [simp]: "merkle_file [] q = None"
  by (cases q) (auto simp: merkle_file_Cons)

lemma merkle_file_tree: "leaves_ok leaves \<Longrightarrow> merkle_file (merkle_tree leaves) q = leaf_map leaves q"
proof (induction leaves arbitrary: q rule: rev_induct)
  case Nil
  then show ?case by (simp add: merkle_tree_def leaf_map_def)
next
  case (snoc l leaves)
  obtain p h where l: "l = (p, h)" by (cases l)
  have ok: "leaves_ok leaves" using snoc.prems by (auto simp: leaves_ok_def)
  note IH = snoc.IH [OF ok]
  have "\<not> blocked (merkle_tree leaves) (path_segs p)"
  proof
    assume "blocked (merkle_tree leaves) (path_segs p)"
    then obtain r g where "leaf_map leaves r = Some g" "collides r (path_segs p)"
      by (auto simp: blocked_def IH)
    then obtain p' where "(p', g) \<in> set leaves" "collides (path_segs p') (path_segs p)"
      by (auto simp: leaf_map_iff [OF ok])
    then show False using snoc.prems l by (fastforce simp: leaves_ok_def)
  qed
  moreover have "path_segs p \<noteq> []" using snoc.prems l by (auto simp: leaves_ok_def)
  ultimately have written: "merkle_file (merkle_tree (leaves @ [l])) q =
      (if q = path_segs p then Some h else leaf_map leaves q)"
    using merkle_file_insert [OF merkle_tree_ok] l by (simp add: merkle_tree_snoc IH)
  show ?case
  proof (cases "q = path_segs p")
    case True
    then have "leaf_map (leaves @ [l]) q = Some h"
      using l by (subst leaf_map_iff [OF snoc.prems]) auto
    then show ?thesis using written True by simp
  next
    case False
    then have "leaf_map (leaves @ [l]) q = leaf_map leaves q"
      using l by (simp add: leaf_map_def map_add_def split: option.splits)
    then show ?thesis using written False by simp
  qed
qed

section \<open>The contents determine the tree\<close>

lemma map_of_dir_file: "merkle_file d [n] = Some h \<longleftrightarrow> map_of d n = Some (MFile h)"
  by (auto split: option.splits merkle_entry.splits)

lemma map_of_dir_below:
  "merkle_file d (n # q) \<noteq> None \<Longrightarrow> q \<noteq> [] \<Longrightarrow> \<exists>ds. map_of d n = Some (MDir ds)"
  by (auto simp: merkle_file_Cons split: option.splits merkle_entry.splits if_splits)

lemma dir_inhabited:
  assumes "dir_ok d" "map_of d n = Some (MDir ds)"
  obtains q where "q \<noteq> []" "merkle_file d (n # q) \<noteq> None"
proof -
  obtain q where q: "merkle_file ds q \<noteq> None" using dir_ok_sub assms merkle_nonempty by blast
  then have "q \<noteq> []" by auto
  with q assms(2) show thesis by (intro that [of q]) (auto simp: merkle_file_Cons)
qed

lemma entry_determined:
  "entry_ok e \<Longrightarrow> e = MDir d \<Longrightarrow> dir_ok d' \<Longrightarrow> (\<And>q. merkle_file d q = merkle_file d' q) \<Longrightarrow> d = d'"
proof (induction e arbitrary: d d')
  case (MDir ds)
  note same = MDir.prems(4)
  have ok: "dir_ok d" using MDir.prems(1, 2) by (simp add: entry_ok_dir del: entry_ok.simps)
  have "map_of d n = map_of d' n" for n
  proof (cases "map_of d n")
    case None
    have "map_of d' n = None"
    proof (cases "map_of d' n")
      case (Some e)
      show ?thesis
      proof (cases e)
        case (MFile h)
        then have "merkle_file d' [n] = Some h" using Some by simp
        then show ?thesis using same [of "[n]"] None by simp
      next
        case (MDir es)
        then obtain q where "merkle_file d' (n # q) \<noteq> None" using dir_inhabited MDir.prems(3) Some by blast
        then show ?thesis using same [of "n # q"] None by (simp add: merkle_file_Cons)
      qed
    qed
    then show ?thesis using None by simp
  next
    case (Some e)
    show ?thesis
    proof (cases e)
      case (MFile h)
      then have "merkle_file d [n] = Some h" using Some by simp
      then show ?thesis using same [of "[n]"] Some MFile by (simp only: map_of_dir_file)
    next
      case e: (MDir es)
      then obtain q where q: "q \<noteq> []" "merkle_file d (n # q) \<noteq> None" using dir_inhabited ok Some by blast
      then obtain es' where es': "map_of d' n = Some (MDir es')"
        using same [of "n # q"] map_of_dir_below [of d' n q] by auto
      have "merkle_file es r = merkle_file es' r" for r
        using same [of "n # r"] Some e es' by (cases "r = []") (simp_all add: merkle_file_Cons)
      moreover have mem: "(n, MDir es) \<in> set ds"
        using Some e MDir.prems(2) by (auto dest: map_of_SomeD)
      moreover have "entry_ok (MDir es)"
        using dir_ok_entry [OF ok] mem MDir.prems(2) by (simp only: merkle_entry.inject)
      ultimately have "es = es'"
        using MDir.IH [of "(n, MDir es)" "MDir es" es es'] dir_ok_sub [OF MDir.prems(3) es']
        by simp
      then show ?thesis using Some e es' by simp
    qed
  qed
  then show ?case using ok MDir.prems(3) by (intro btree_determined) (auto simp: dir_ok_def)
qed simp

lemma dir_determined:
  assumes "dir_ok d" "dir_ok d'" "\<And>q. merkle_file d q = merkle_file d' q"
  shows "d = d'"
proof (cases "d = []")
  case True
  then show ?thesis using merkle_nonempty [OF assms(2)] assms(3) by auto
next
  case False
  then show ?thesis
    using entry_determined [of "MDir d" d d'] assms by (simp add: entry_ok_dir del: entry_ok.simps)
qed

section \<open>The encodings are read one way\<close>

abbreviation record_of :: "str \<times> bool \<times> str \<Rightarrow> str" where
  "record_of \<equiv> \<lambda>(n, t, h). child_record n t h"

abbreviation wide_record :: "str \<times> bool \<times> str \<Rightarrow> bool" where
  "wide_record \<equiv> \<lambda>(n, t, h). length h = 32"

lemma child_record_split:
  assumes "child_record n t h @ r = child_record n' t' h' @ s" "length h = 32" "length h' = 32"
  shows "n = n' \<and> t = t' \<and> h = h' \<and> r = s"
proof -
  let ?tag = "\<lambda>t. if t then CHR 0x01 else CHR 0x00"
  have "length n = length n' \<and> n @ ?tag t # h @ r = n' @ ?tag t' # h' @ s"
    using assms(1) by (intro write_uleb128_prefix_free) (simp add: child_record_def)
  then show ?thesis using assms(2, 3) by (auto split: if_splits)
qed

lemma child_record_not_Nil: "child_record n t h \<noteq> []"
  by (simp add: child_record_def)

lemma records_split:
  "concat (map record_of xs) = concat (map record_of ys) \<Longrightarrow> list_all wide_record xs \<Longrightarrow>
   list_all wide_record ys \<Longrightarrow> xs = ys"
proof (induction xs ys rule: list_induct2')
  case (4 x xs y ys)
  obtain n t h where x: "x = (n, t, h)" by (cases x)
  obtain n' t' h' where y: "y = (n', t', h')" by (cases y)
  have "n = n' \<and> t = t' \<and> h = h' \<and> concat (map record_of xs) = concat (map record_of ys)"
    using 4 x y by (intro child_record_split) auto
  then show ?case using 4 x y by simp
qed (auto simp: child_record_not_Nil)

section \<open>The hash determines the tree\<close>

fun entry_pres :: "(str \<Rightarrow> str) \<Rightarrow> merkle_entry \<Rightarrow> str list" where
  "entry_pres hash (MFile h) = []"
| "entry_pres hash (MDir ds) =
     concat (map (entry_bytes hash) ds) # concat (map (\<lambda>(n, e). entry_pres hash e) ds)"

fun entry_wide :: "merkle_entry \<Rightarrow> bool" where
  "entry_wide (MFile h) \<longleftrightarrow> length h = 32"
| "entry_wide (MDir ds) \<longleftrightarrow> (\<forall>(n, e) \<in> set ds. entry_wide e)"

text \<open>The record an entry of a well-formed tree writes.\<close>

fun entry_record :: "(str \<Rightarrow> str) \<Rightarrow> str \<times> merkle_entry \<Rightarrow> str \<times> bool \<times> str" where
  "entry_record hash (n, MFile h) = (n, False, h)"
| "entry_record hash (n, MDir ds) = (n, True, merkle_fold hash ds)"

lemma entry_bytes_record:
  "entry_ok e \<Longrightarrow> entry_bytes hash (n, e) = record_of (entry_record hash (n, e))"
  by (cases e) (auto simp: merkle_fold_def)

lemma dir_bytes_records:
  "dir_ok d \<Longrightarrow> concat (map (entry_bytes hash) d) = concat (map record_of (map (entry_record hash) d))"
proof -
  assume d: "dir_ok d"
  have "map (entry_bytes hash) d = map record_of (map (entry_record hash) d)"
    using dir_ok_entry [OF d] entry_bytes_record by (auto simp del: entry_bytes.simps entry_record.simps)
  then show ?thesis by (simp only:)
qed

lemma entry_record_wide:
  "(\<And>s. length (hash s) = 32) \<Longrightarrow> entry_wide e \<Longrightarrow> wide_record (entry_record hash (n, e))"
  by (cases e) (simp_all add: merkle_fold_def)

lemma records_wide:
  assumes "\<And>s. length (hash s) = 32" "\<forall>(n, e) \<in> set d. entry_wide e"
  shows "list_all wide_record (map (entry_record hash) d)"
  unfolding list_all_iff
proof
  fix x assume "x \<in> set (map (entry_record hash) d)"
  then obtain n e where ne: "(n, e) \<in> set d" and x: "x = entry_record hash (n, e)" by auto
  from ne have "entry_wide e" using assms(2) by auto
  then show "wide_record x" unfolding x by (rule entry_record_wide [OF assms(1)])
qed

lemma entry_record_eq:
  "entry_record hash (n, e) = entry_record hash (m, e') \<Longrightarrow>
   n = m \<and> (case (e, e') of
     (MFile h, MFile h') \<Rightarrow> h = h'
   | (MDir ds, MDir ds') \<Rightarrow> merkle_fold hash ds = merkle_fold hash ds'
   | _ \<Rightarrow> False)"
  by (cases e; cases e') auto

lemma entry_pres_member: "(n, e) \<in> set ds \<Longrightarrow> set (entry_pres hash e) \<subseteq> set (entry_pres hash (MDir ds))"
proof
  fix x assume "(n, e) \<in> set ds" "x \<in> set (entry_pres hash e)"
  then have "x \<in> set (concat (map (\<lambda>(n, e). entry_pres hash e) ds))"
    by (simp only: set_concat set_map) blast
  then show "x \<in> set (entry_pres hash (MDir ds))" by simp
qed

lemma entry_wide_member: "(n, e) \<in> set ds \<Longrightarrow> entry_wide (MDir ds) \<Longrightarrow> entry_wide e"
  by auto

lemma fold_determines:
  assumes len: "\<And>s. length (hash s) = 32"
  shows "e = MDir d \<Longrightarrow> dir_ok d \<Longrightarrow> dir_ok d' \<Longrightarrow> entry_wide e \<Longrightarrow> entry_wide (MDir d') \<Longrightarrow>
    inj_on hash (set (entry_pres hash e) \<union> set (entry_pres hash (MDir d'))) \<Longrightarrow>
    merkle_fold hash d = merkle_fold hash d' \<Longrightarrow> d = d'"
proof (induction e arbitrary: d d')
  case (MDir ds)
  have ds: "ds = d" using MDir.prems(1) by simp
  have "concat (map (entry_bytes hash) d) = concat (map (entry_bytes hash) d')"
    using MDir.prems(7) unfolding merkle_fold_def
    by (rule inj_onD [OF MDir.prems(6)]) (simp_all add: ds)
  then have recs: "map (entry_record hash) d = map (entry_record hash) d'"
    using MDir.prems(4, 5) ds
    unfolding dir_bytes_records [OF MDir.prems(2)] dir_bytes_records [OF MDir.prems(3)]
    by (intro records_split records_wide [OF len]) simp_all
  show ?case
  proof (rule nth_equalityI)
    show "length d = length d'" using recs map_eq_imp_length_eq by blast
    fix i assume i: "i < length d"
    then have i': "i < length d'" using recs map_eq_imp_length_eq by metis
    obtain n e m e' where nth: "d ! i = (n, e)" "d' ! i = (m, e')" by fastforce
    have "entry_record hash (d ! i) = entry_record hash (d' ! i)"
      using recs i i' by (metis nth_map)
    then have eq: "n = m \<and> (case (e, e') of
        (MFile h, MFile h') \<Rightarrow> h = h'
      | (MDir ds, MDir ds') \<Rightarrow> merkle_fold hash ds = merkle_fold hash ds'
      | _ \<Rightarrow> False)"
      unfolding nth by (rule entry_record_eq)
    have mem: "(n, e) \<in> set d" "(m, e') \<in> set d'" using nth i i' nth_mem by metis+
    have "e = e'"
    proof (cases e)
      case (MFile h)
      then show ?thesis using eq by (auto split: merkle_entry.splits)
    next
      case e: (MDir es)
      then obtain es' where e': "e' = MDir es'" and fold: "merkle_fold hash es = merkle_fold hash es'"
        using eq by (auto split: merkle_entry.splits)
      have pres: "set (entry_pres hash e) \<union> set (entry_pres hash (MDir es')) \<subseteq>
          set (entry_pres hash (MDir ds)) \<union> set (entry_pres hash (MDir d'))"
        using entry_pres_member [OF mem(1)] entry_pres_member [OF mem(2)] ds e' by (intro Un_mono) simp_all
      have "entry_wide e" "entry_wide (MDir es')" using mem MDir.prems(4, 5) ds e' entry_wide_member by metis+
      moreover have "dir_ok es" "dir_ok es'"
        using dir_ok_entry [OF MDir.prems(2) mem(1)] dir_ok_entry [OF MDir.prems(3) mem(2)] e e'
        by (simp_all add: entry_ok_dir del: entry_ok.simps)
      ultimately have "es = es'"
        using MDir.IH [of "(n, e)" e es es'] mem(1) ds e fold inj_on_subset [OF MDir.prems(6) pres]
        by simp
      then show ?thesis using e e' by simp
    qed
    then show "d ! i = d' ! i" using nth eq by simp
  qed
qed simp

lemma wide_entry:
  "entry_ok e \<Longrightarrow> (case e of
      MFile h \<Rightarrow> length h = 32
    | MDir d \<Rightarrow> \<forall>q h. merkle_file d q = Some h \<longrightarrow> length h = 32) \<Longrightarrow> entry_wide e"
proof (induction e)
  case (MDir ds)
  have ok: "dir_ok ds" using MDir.prems(1) by (simp add: entry_ok_dir del: entry_ok.simps)
  have wide: "merkle_file ds q = Some h \<Longrightarrow> length h = 32" for q h using MDir.prems(2) by simp
  have "entry_wide e" if m: "(n, e) \<in> set ds" for n e
  proof (rule MDir.IH [OF m])
    show "e \<in> Basic_BNFs.snds (n, e)" by simp
    show "entry_ok e" using dir_ok_entry [OF ok m] .
    have at: "map_of ds n = Some e" using m ok by (simp add: dir_ok_def btree_distinct)
    show "case e of MFile h \<Rightarrow> length h = 32
        | MDir d \<Rightarrow> \<forall>q h. merkle_file d q = Some h \<longrightarrow> length h = 32"
    proof (cases e)
      case (MFile h)
      then show ?thesis using wide [of "[n]" h] at by simp
    next
      case e: (MDir d)
      have "length h = 32" if "merkle_file d q = Some h" for q h
        using wide [of "n # q" h] that at e by (cases q) auto
      then show ?thesis using e by simp
    qed
  qed
  then show ?case by auto
qed simp

lemma token_inject:
  assumes "length x = 32" "length y = 32" "token v x = token w y"
  shows "ladder_position v = ladder_position w \<and> x = y"
proof -
  have "parse_root (token v x) = parse_root (token w y)" using assms(3) by simp
  then show ?thesis
    using assms(1, 2)
    by (simp add: token_def version_prefix_def parse_root_prefix to_hex_lower to_hex_length to_hex_inject)
qed

section \<open>The base members\<close>

definition member_record :: "base_member \<Rightarrow> str \<times> bool \<times> str" where
  "member_record m = (bm_path m, bm_leaf m = None,
     case bm_leaf m of Some h \<Rightarrow> h | None \<Rightarrow> replicate 32 (CHR 0x00))"

lemma member_bytes_record: "member_bytes m = record_of (member_record m)"
  by (simp add: member_bytes_def member_record_def)

lemma member_record_inject: "member_record m = member_record m' \<longleftrightarrow> m = m'"
  by (cases m; cases m') (auto simp: member_record_def split: option.splits)

lemma map_inj_eq: "(\<And>x y. f x = f y \<longleftrightarrow> x = y) \<Longrightarrow> map f xs = map f ys \<longleftrightarrow> xs = ys"
  by (induction xs ys rule: list_induct2') auto

lemma sort_key_determined:
  assumes "distinct (map f xs)" "distinct (map f ys)"
  shows "sort_key f xs = sort_key f ys \<longleftrightarrow> set xs = set ys"
proof
  assume "set xs = set ys"
  then show "sort_key f xs = sort_key f ys"
    using assms by (intro map_sorted_distinct_set_unique [where f = f])
      (auto simp: distinct_map distinct_sort)
qed (metis set_sort)

section \<open>The properties\<close>

text \<open>
  The corpus root does not depend on the order its leaves come in: two listings of
  the same hash domain give the same root, whatever their order and repetitions.
\<close>

theorem merkle_root_order_irrelevant:
  assumes "leaves_ok xs" and "set xs = set ys"
  shows "merkle_root_of_leaves hash xs version = merkle_root_of_leaves hash ys version"
proof -
  have "leaves_ok ys" using assms by (simp add: leaves_ok_def)
  then have "leaf_map xs q = Some h \<longleftrightarrow> leaf_map ys q = Some h" for q h
    using leaf_map_iff assms by simp
  then have "leaf_map xs q = leaf_map ys q" for q by (metis option.exhaust)
  then have "merkle_tree xs = merkle_tree ys"
    using merkle_file_tree assms(1) \<open>leaves_ok ys\<close> by (intro dir_determined merkle_tree_ok) simp
  then show ?thesis by (simp add: merkle_root_of_leaves_def)
qed

theorem merkle_root_order_irrelevant_witness:
  "merkle_root_of_leaves sample_hash [(''b/x'', ''1''), (''a'', ''2''), (''b/y'', ''3'')] 0 =
   merkle_root_of_leaves sample_hash [(''a'', ''2''), (''b/y'', ''3''), (''b/x'', ''1''), (''b/x'', ''1'')] 0"
  by (rule merkle_root_order_irrelevant) (auto simp: leaves_ok_def path_segs_def)

text \<open>
  Claim C17. The corpus root identifies the corpus: with 32-byte digests and no collision among
  the encodings of the two trees, two hash domains have the same root token exactly when they
  hold the same digest at every path and stand under the same domain version.
\<close>

theorem merkle_root_identifies:
  assumes len: "\<And>s. length (hash s) = 32"
    and wide: "\<And>p h. (p, h) \<in> set (xs @ ys) \<Longrightarrow> length h = 32"
    and ok: "leaves_ok xs" "leaves_ok ys"
    and inj: "inj_on hash (set (entry_pres hash (MDir (merkle_tree xs))) \<union>
      set (entry_pres hash (MDir (merkle_tree ys))))"
  shows "merkle_root_of_leaves hash xs v = merkle_root_of_leaves hash ys w \<longleftrightarrow>
    leaf_map xs = leaf_map ys \<and> v = w"
proof
  assume same: "merkle_root_of_leaves hash xs v = merkle_root_of_leaves hash ys w"
  then have "v = w" and fold: "merkle_fold hash (merkle_tree xs) = merkle_fold hash (merkle_tree ys)"
    using token_inject [of "merkle_fold hash (merkle_tree xs)" "merkle_fold hash (merkle_tree ys)"
        "law1 v" "law1 w"] len
    by (auto simp: merkle_root_of_leaves_def merkle_fold_def ladder_position_def law1_def
        hash_law_flat_def)
  have w: "entry_wide (MDir (merkle_tree zs))" if "leaves_ok zs" "set zs \<subseteq> set (xs @ ys)" for zs
  proof (cases "merkle_tree zs = []")
    case False
    have "length h = 32" if "merkle_file (merkle_tree zs) q = Some h" for q h
      using that wide \<open>set zs \<subseteq> set (xs @ ys)\<close>
      by (auto simp: merkle_file_tree [OF \<open>leaves_ok zs\<close>] leaf_map_iff [OF \<open>leaves_ok zs\<close>])
    then show ?thesis
      using False merkle_tree_ok by (intro wide_entry) (simp_all add: entry_ok_dir del: entry_ok.simps)
  qed simp
  have "merkle_tree xs = merkle_tree ys"
    by (rule fold_determines [OF len refl merkle_tree_ok merkle_tree_ok w w inj fold]) (use ok in auto)
  then have "leaf_map xs q = leaf_map ys q" for q using merkle_file_tree ok by metis
  with \<open>v = w\<close> show "leaf_map xs = leaf_map ys \<and> v = w" by blast
next
  assume *: "leaf_map xs = leaf_map ys \<and> v = w"
  then have "merkle_tree xs = merkle_tree ys"
    using merkle_file_tree ok by (intro dir_determined merkle_tree_ok) simp
  with * show "merkle_root_of_leaves hash xs v = merkle_root_of_leaves hash ys w"
    by (simp add: merkle_root_of_leaves_def)
qed

definition tail_hash :: "str \<Rightarrow> str" where
  "tail_hash s = take 32 (drop 3 s @ replicate 32 (CHR 0x00))"

lemma tail_hash_length: "length (tail_hash s) = 32"
  by (simp add: tail_hash_def)

theorem merkle_root_identifies_witness:
  "merkle_root_of_leaves tail_hash [(''a'', replicate 32 (CHR ''x''))] 0 \<noteq>
   merkle_root_of_leaves tail_hash [(''a'', replicate 32 (CHR ''y''))] 0"
proof -
  let ?xs = "[(''a'', replicate 32 (CHR ''x''))]" and ?ys = "[(''a'', replicate 32 (CHR ''y''))]"
  have "distinct (map tail_hash (entry_pres tail_hash (MDir (merkle_tree ?xs)) @
      entry_pres tail_hash (MDir (merkle_tree ?ys))))"
    by code_simp
  then have inj: "inj_on tail_hash (set (entry_pres tail_hash (MDir (merkle_tree ?xs))) \<union>
      set (entry_pres tail_hash (MDir (merkle_tree ?ys))))"
    by (simp only: distinct_map set_append)
  have "leaves_ok [(''a'', h)]" for h by (simp add: leaves_ok_def path_segs_def)
  then have "merkle_root_of_leaves tail_hash ?xs 0 = merkle_root_of_leaves tail_hash ?ys 0 \<longleftrightarrow>
      leaf_map ?xs = leaf_map ?ys \<and> (0 :: u32) = 0"
    by (intro merkle_root_identifies [OF tail_hash_length _ _ _ inj]) auto
  moreover have "leaf_map ?xs [''a''] \<noteq> leaf_map ?ys [''a'']"
    by (simp add: leaf_map_def path_segs_def)
  ultimately show ?thesis by metis
qed

text \<open>
  The staleness witness tells base sets apart: with 32-byte leaves and no collision
  between the two encodings, two sets of members with distinct paths fold alike exactly when
  they are the same set, an unreadable member being none of the readable or absent ones.
\<close>

theorem base_fold_identifies:
  assumes "\<And>m h. m \<in> set (xs @ ys) \<Longrightarrow> bm_leaf m = Some h \<Longrightarrow> length h = 32"
    and "distinct (map bm_path xs)" "distinct (map bm_path ys)"
    and inj: "inj_on hash {concat (map member_bytes (sort_key bm_path xs)),
      concat (map member_bytes (sort_key bm_path ys))}"
  shows "base_fold hash xs = base_fold hash ys \<longleftrightarrow> set xs = set ys"
proof -
  let ?sx = "sort_key bm_path xs" and ?sy = "sort_key bm_path ys"
  have bytes: "map member_bytes zs = map record_of (map member_record zs)" for zs
    by (simp add: member_bytes_record)
  have wide: "list_all wide_record (map member_record (sort_key bm_path zs))"
    if "set zs \<subseteq> set (xs @ ys)" for zs
    using that assms(1) by (auto simp: list_all_iff member_record_def split: option.splits)
  have "base_fold hash xs = base_fold hash ys \<longleftrightarrow>
      concat (map member_bytes ?sx) = concat (map member_bytes ?sy)"
    using inj by (auto simp: base_fold_def to_hex_inject)
  also have "\<dots> \<longleftrightarrow> map member_record ?sx = map member_record ?sy"
    unfolding bytes using records_split [OF _ wide [of xs] wide [of ys]] by (metis Un_upper1 Un_upper2 set_append)
  also have "\<dots> \<longleftrightarrow> ?sx = ?sy" by (rule map_inj_eq [OF member_record_inject])
  also have "\<dots> \<longleftrightarrow> set xs = set ys" by (rule sort_key_determined [OF assms(2, 3)])
  finally show ?thesis .
qed

theorem base_fold_identifies_witness:
  "base_fold (\<lambda>s. s) [\<lparr>bm_path = ''m'', bm_leaf = None\<rparr>] \<noteq>
   base_fold (\<lambda>s. s) [\<lparr>bm_path = ''m'', bm_leaf = Some (replicate 32 (CHR 0x00))\<rparr>]"
proof -
  let ?xs = "[\<lparr>bm_path = ''m'', bm_leaf = None\<rparr>]"
    and ?ys = "[\<lparr>bm_path = ''m'', bm_leaf = Some (replicate 32 (CHR 0x00))\<rparr>]"
  have "base_fold (\<lambda>s. s) ?xs = base_fold (\<lambda>s. s) ?ys \<longleftrightarrow> set ?xs = set ?ys"
    by (rule base_fold_identifies) auto
  then show ?thesis by simp
qed

end
