(* ===== verification/Crash_Io.thy ===== *)
theory Crash_Io
  imports Rust_Str
begin

text \<open>
  The third prelude: programs that change files, on a disk where every system call may fail and
  the process may die at any of them.

  A disk holds the files and a schedule of faults, one per system call to come; where the
  schedule is used up, calls go through. A failing call returns an error, a dying one ends the
  run. Either may leave the part of its effect that is not atomic: a prefix of the bytes of a
  write, some of the entries of a directory being removed. A theorem that holds for every
  schedule holds for every point at which the run can be cut off.

  Paths are the lists of their components. Directories have no entry of their own, so creating
  or syncing one changes nothing that is modelled but can still fail. \<open>triple\<close> is a Hoare triple
  with three outcomes, on the contents of the disk; its mode says which schedules it is about.
\<close>

section \<open>Disks, faults and replies\<close>

type_synonym path = "str list"
type_synonym entries = "(path \<times> str) list"

datatype io_error = NotFound | AlreadyExists | InvalidInput | OtherError | WriteConflict path
  | RolledBack io_error str path "path list" "(path \<times> io_error) list"

datatype fault = Go | Fail nat "path list" | Die nat "path list"

record disk =
  files :: entries
  faults :: "fault list"

datatype 'a reply = Done 'a | Failed io_error | Halted

type_synonym 'a io = "disk \<Rightarrow> 'a reply \<times> disk"

definition look :: "disk \<Rightarrow> path \<Rightarrow> str option" where
  "look d = map_of (files d)"

definition drop_file :: "path \<Rightarrow> entries \<Rightarrow> entries" where
  "drop_file p f = filter (\<lambda>e. fst e \<noteq> p) f"

definition put_file :: "path \<Rightarrow> str \<Rightarrow> entries \<Rightarrow> entries" where
  "put_file p b f = (p, b) # drop_file p f"

lemma map_of_filter_key: "map_of (filter (\<lambda>e. K (fst e)) f) p = (if K p then map_of f p else None)"
  by (induction f) auto

lemma map_of_drop_file: "map_of (drop_file p f) = (map_of f)(p := None)"
  by (rule ext) (simp add: drop_file_def map_of_filter_key [where K = "\<lambda>q. q \<noteq> p"])

lemma map_of_put_file: "map_of (put_file p b f) = (map_of f)(p \<mapsto> b)"
  by (rule ext) (simp add: put_file_def map_of_drop_file)

lemma distinct_filter_keys: "distinct (map fst f) \<Longrightarrow> distinct (map fst (filter K f))"
  by (induction f) auto

lemma distinct_drop_file: "distinct (map fst f) \<Longrightarrow> distinct (map fst (drop_file p f))"
  by (simp add: drop_file_def distinct_filter_keys)

lemma distinct_put_file: "distinct (map fst f) \<Longrightarrow> distinct (map fst (put_file p b f))"
  by (auto simp: put_file_def drop_file_def distinct_filter_keys)

section \<open>System calls\<close>

text \<open>\<open>act\<close> is the call, \<open>part\<close> what an interrupted call leaves.\<close>

definition syscall :: "(entries \<Rightarrow> io_error + 'a \<times> entries) \<Rightarrow> (nat \<Rightarrow> path list \<Rightarrow> entries \<Rightarrow> entries) \<Rightarrow> 'a io" where
  "syscall act part d =
     (let run = (\<lambda>rest. case act (files d) of
                   Inl e \<Rightarrow> (Failed e, d\<lparr>faults := rest\<rparr>)
                 | Inr (a, f) \<Rightarrow> (Done a, d\<lparr>files := f, faults := rest\<rparr>)) in
      case faults d of
        [] \<Rightarrow> run []
      | Go # rest \<Rightarrow> run rest
      | Fail n ps # rest \<Rightarrow> (Failed OtherError, d\<lparr>files := part n ps (files d), faults := rest\<rparr>)
      | Die n ps # rest \<Rightarrow> (Halted, d\<lparr>files := part n ps (files d), faults := rest\<rparr>))"

definition untouched :: "nat \<Rightarrow> path list \<Rightarrow> entries \<Rightarrow> entries" where
  "untouched n ps f = f"

text \<open>\<^verbatim>\<open>fs::read\<close>.\<close>

definition read_file :: "path \<Rightarrow> str io" where
  "read_file p = syscall
     (\<lambda>f. case map_of f p of None \<Rightarrow> Inl NotFound | Some b \<Rightarrow> Inr (b, f)) untouched"

text \<open>\<^verbatim>\<open>File::create\<close> makes the file or empties it.\<close>

definition create_file :: "path \<Rightarrow> unit io" where
  "create_file p = syscall (\<lambda>f. Inr ((), put_file p [] f)) untouched"

text \<open>\<^verbatim>\<open>OpenOptions::create_new\<close>.\<close>

definition create_new :: "path \<Rightarrow> unit io" where
  "create_new p = syscall
     (\<lambda>f. if map_of f p = None then Inr ((), put_file p [] f) else Inl AlreadyExists) untouched"

text \<open>\<^verbatim>\<open>write_all\<close> on a handle that was just created: the file holds a prefix until it returns.\<close>

definition write_all :: "path \<Rightarrow> str \<Rightarrow> unit io" where
  "write_all p b = syscall (\<lambda>f. Inr ((), put_file p b f)) (\<lambda>n ps. put_file p (take n b))"

text \<open>Syncing an open handle or a directory, and \<^verbatim>\<open>create_dir_all\<close>.\<close>

definition sync_handle :: "unit io" where
  "sync_handle = syscall (\<lambda>f. Inr ((), f)) untouched"

definition create_dirs :: "path \<Rightarrow> unit io" where
  "create_dirs p = syscall (\<lambda>f. Inr ((), f)) untouched"

text \<open>Opening a file by its path and syncing it.\<close>

definition sync_file :: "path \<Rightarrow> unit io" where
  "sync_file p = syscall
     (\<lambda>f. if map_of f p = None then Inl NotFound else Inr ((), f)) untouched"

text \<open>\<^verbatim>\<open>fs::symlink_metadata\<close>.\<close>

definition stat_file :: "path \<Rightarrow> unit io" where
  "stat_file p = syscall
     (\<lambda>f. if map_of f p = None then Inl NotFound else Inr ((), f)) untouched"

definition rename_file :: "path \<Rightarrow> path \<Rightarrow> unit io" where
  "rename_file p q = syscall
     (\<lambda>f. case map_of f p of None \<Rightarrow> Inl NotFound
          | Some b \<Rightarrow> Inr ((), put_file q b (drop_file p f))) untouched"

definition remove_file :: "path \<Rightarrow> unit io" where
  "remove_file p = syscall
     (\<lambda>f. if map_of f p = None then Inl NotFound else Inr ((), drop_file p f)) untouched"

definition remove_tree :: "path \<Rightarrow> unit io" where
  "remove_tree p = syscall
     (\<lambda>f. Inr ((), filter (\<lambda>e. \<not> prefix p (fst e)) f))
     (\<lambda>n ps. filter (\<lambda>e. \<not> (prefix p (fst e) \<and> fst e \<in> set ps)))"

definition list_dir :: "path \<Rightarrow> path list io" where
  "list_dir p = syscall
     (\<lambda>f. Inr (filter (\<lambda>q. q \<noteq> [] \<and> butlast q = p) (map fst f), f)) untouched"

section \<open>Sequencing\<close>

definition return :: "'a \<Rightarrow> 'a io" where
  "return a d = (Done a, d)"

definition fail_with :: "io_error \<Rightarrow> 'a io" where
  "fail_with e d = (Failed e, d)"

definition halt :: "'a io" where
  "halt d = (Halted, d)"

definition bind :: "'a io \<Rightarrow> ('a \<Rightarrow> 'b io) \<Rightarrow> 'b io" where
  "bind m k d =
     (case m d of
        (Done a, d') \<Rightarrow> k a d'
      | (Failed e, d') \<Rightarrow> (Failed e, d')
      | (Halted, d') \<Rightarrow> (Halted, d'))"

definition andthen :: "unit io \<Rightarrow> 'b io \<Rightarrow> 'b io" where
  "andthen m k = bind m (\<lambda>_. k)"

text \<open>The result as a value, for a \<^verbatim>\<open>match\<close> on it.\<close>

definition attempted :: "'a io \<Rightarrow> (io_error + 'a) io" where
  "attempted m d =
     (case m d of
        (Done a, d') \<Rightarrow> (Done (Inr a), d')
      | (Failed e, d') \<Rightarrow> (Done (Inl e), d')
      | (Halted, d') \<Rightarrow> (Halted, d'))"

text \<open>A step that only passes over a missing file; and \<^verbatim>\<open>let _ = m\<close>.\<close>

definition unless_missing :: "unit io \<Rightarrow> unit io" where
  "unless_missing m = bind (attempted m)
     (\<lambda>r. case r of Inr _ \<Rightarrow> return () | Inl NotFound \<Rightarrow> return () | Inl e \<Rightarrow> fail_with e)"

definition ignored :: "unit io \<Rightarrow> unit io" where
  "ignored m = bind (attempted m) (\<lambda>_. return ())"

text \<open>Loops over a list: collecting results, and for effect.\<close>

fun gather :: "('a \<Rightarrow> 'b io) \<Rightarrow> 'a list \<Rightarrow> 'b list io" where
  "gather m [] = return []"
| "gather m (x # xs) = bind (m x) (\<lambda>y. bind (gather m xs) (\<lambda>ys. return (y # ys)))"

fun each_do :: "('a \<Rightarrow> unit io) \<Rightarrow> 'a list \<Rightarrow> unit io" where
  "each_do m [] = return ()"
| "each_do m (x # xs) = andthen (m x) (each_do m xs)"

lemma bind_assoc: "bind (bind m g) h = bind m (\<lambda>a. bind (g a) h)"
  by (rule ext) (simp add: bind_def split: prod.splits reply.splits)

lemma bind_return [simp]: "bind (return a) g = g a"
  by (rule ext) (simp add: bind_def return_def)

lemma bind_fail [simp]: "bind (fail_with e) g = fail_with e"
  by (rule ext) (simp add: bind_def fail_with_def)

section \<open>Triples\<close>

text \<open>
  \<open>triple k P m Q E C\<close>: run on a disk whose contents satisfy \<open>P\<close>, \<open>m\<close> ends in contents that
  satisfy \<open>Q\<close> with its value, \<open>E\<close> with its error, or \<open>C\<close> where it was cut off. \<open>k\<close> says
  which schedules count: those without faults, those in which the process may die but no call
  fails, or all.
\<close>

type_synonym contents = "path \<rightharpoonup> str"

datatype mode = Calm | Crashing | Failing

fun quiet :: "mode \<Rightarrow> bool" where
  "quiet Calm = True"
| "quiet Crashing = False"
| "quiet Failing = False"

fun admits :: "mode \<Rightarrow> fault \<Rightarrow> bool" where
  "admits _ Go = True"
| "admits k (Fail _ _) = (k = Failing)"
| "admits k (Die _ _) = (\<not> quiet k)"

definition sane :: "mode \<Rightarrow> disk \<Rightarrow> bool" where
  "sane k d \<longleftrightarrow> distinct (map fst (files d)) \<and> list_all (admits k) (faults d)"

lemma admits_all [simp]: "admits Failing g" "list_all (admits Failing) fs"
proof -
  show "admits Failing g" for g by (cases g) simp_all
  then show "list_all (admits Failing) fs" by (simp add: list_all_iff)
qed

fun outcome_ok :: "('a \<Rightarrow> contents \<Rightarrow> bool) \<Rightarrow> (io_error \<Rightarrow> contents \<Rightarrow> bool) \<Rightarrow> (contents \<Rightarrow> bool) \<Rightarrow>
    'a reply \<Rightarrow> contents \<Rightarrow> bool" where
  "outcome_ok Q E C (Done a) f = Q a f"
| "outcome_ok Q E C (Failed e) f = E e f"
| "outcome_ok Q E C Halted f = C f"

definition triple :: "mode \<Rightarrow> (contents \<Rightarrow> bool) \<Rightarrow> 'a io \<Rightarrow> ('a \<Rightarrow> contents \<Rightarrow> bool) \<Rightarrow>
    (io_error \<Rightarrow> contents \<Rightarrow> bool) \<Rightarrow> (contents \<Rightarrow> bool) \<Rightarrow> bool" where
  "triple k P m Q E C \<longleftrightarrow>
     (\<forall>d. sane k d \<and> P (look d) \<longrightarrow>
        sane k (snd (m d)) \<and> outcome_ok Q E C (fst (m d)) (look (snd (m d))))"

lemma tripleD:
  "triple k P m Q E C \<Longrightarrow> sane k d \<Longrightarrow> P (look d) \<Longrightarrow>
   sane k (snd (m d)) \<and> outcome_ok Q E C (fst (m d)) (look (snd (m d)))"
  by (simp add: triple_def)

lemma tripleI:
  "(\<And>d. sane k d \<Longrightarrow> P (look d) \<Longrightarrow>
      sane k (snd (m d)) \<and> outcome_ok Q E C (fst (m d)) (look (snd (m d)))) \<Longrightarrow> triple k P m Q E C"
  by (simp add: triple_def)

lemma triple_conseq:
  assumes "triple k P' m Q' E' C'" and "\<And>f. P f \<Longrightarrow> P' f"
    and "\<And>a f. Q' a f \<Longrightarrow> Q a f" and "\<And>e f. E' e f \<Longrightarrow> E e f" and "\<And>f. C' f \<Longrightarrow> C f"
  shows "triple k P m Q E C"
proof (rule tripleI)
  fix d assume "sane k d" "P (look d)"
  with assms(1,2) have "sane k (snd (m d)) \<and> outcome_ok Q' E' C' (fst (m d)) (look (snd (m d)))"
    by (intro tripleD)
  then show "sane k (snd (m d)) \<and> outcome_ok Q E C (fst (m d)) (look (snd (m d)))"
    using assms(3-5) by (cases "fst (m d)") auto
qed

lemma triple_pre: "triple k P' m Q E C \<Longrightarrow> (\<And>f. P f \<Longrightarrow> P' f) \<Longrightarrow> triple k P m Q E C"
  by (simp add: triple_def)

lemma triple_fact: "(F \<Longrightarrow> triple k P m Q E C) \<Longrightarrow> triple k (\<lambda>f. F \<and> P f) m Q E C"
  by (simp add: triple_def)

lemma triple_some: "(\<And>x. triple k (P x) m Q E C) \<Longrightarrow> triple k (\<lambda>f. \<exists>x. P x f) m Q E C"
  by (auto simp: triple_def)

lemma triple_return: "(\<And>f. P f \<Longrightarrow> Q a f) \<Longrightarrow> triple k P (return a) Q E C"
  by (simp add: triple_def return_def)

lemma triple_fail: "(\<And>f. P f \<Longrightarrow> E e f) \<Longrightarrow> triple k P (fail_with e) Q E C"
  by (simp add: triple_def fail_with_def)

lemma triple_halt: "(\<And>f. P f \<Longrightarrow> C f) \<Longrightarrow> triple k P halt Q E C"
  by (simp add: triple_def halt_def)

lemma triple_bind:
  assumes "triple k P m R E C" and "\<And>a. triple k (R a) (g a) Q E C"
  shows "triple k P (bind m g) Q E C"
proof (rule tripleI)
  fix d assume "sane k d" "P (look d)"
  with assms(1) have m: "sane k (snd (m d)) \<and> outcome_ok R E C (fst (m d)) (look (snd (m d)))"
    by (rule tripleD)
  show "sane k (snd (bind m g d)) \<and> outcome_ok Q E C (fst (bind m g d)) (look (snd (bind m g d)))"
  proof (cases "m d")
    case (Pair r d')
    with m assms(2) show ?thesis by (cases r) (auto simp: bind_def dest: tripleD)
  qed
qed

lemma triple_andthen:
  "triple k P m (\<lambda>_. R) E C \<Longrightarrow> triple k R g Q E C \<Longrightarrow> triple k P (andthen m g) Q E C"
  unfolding andthen_def by (rule triple_bind)

lemma triple_attempted:
  assumes "triple k P m (\<lambda>a. Q (Inr a)) (\<lambda>e. Q (Inl e)) C"
  shows "triple k P (attempted m) Q E C"
proof (rule tripleI)
  fix d assume "sane k d" "P (look d)"
  with assms have m: "sane k (snd (m d)) \<and>
      outcome_ok (\<lambda>a. Q (Inr a)) (\<lambda>e. Q (Inl e)) C (fst (m d)) (look (snd (m d)))"
    by (rule tripleD)
  show "sane k (snd (attempted m d)) \<and>
    outcome_ok Q E C (fst (attempted m d)) (look (snd (attempted m d)))"
  proof (cases "m d")
    case (Pair r d')
    with m show ?thesis by (cases r) (auto simp: attempted_def)
  qed
qed

lemma triple_ignored:
  "triple k P m (\<lambda>_. Q ()) (\<lambda>_. Q ()) C \<Longrightarrow> triple k P (ignored m) Q E C"
  unfolding ignored_def
  by (rule triple_bind [where R = "\<lambda>_. Q ()"]) (auto intro: triple_attempted triple_return)

lemma triple_unless_missing:
  assumes "triple k P m (\<lambda>_. Q ()) (\<lambda>e f. if e = NotFound then Q () f else E e f) C"
  shows "triple k P (unless_missing m) Q E C"
proof -
  let ?R = "\<lambda>r f. case r of Inr _ \<Rightarrow> Q () f | Inl e \<Rightarrow> if e = NotFound then Q () f else E e f"
  have "triple k P (attempted m) ?R E C"
    by (rule triple_attempted) (use assms in simp)
  moreover have "triple k (?R r)
      (case r of Inr _ \<Rightarrow> return () | Inl NotFound \<Rightarrow> return () | Inl e \<Rightarrow> fail_with e) Q E C" for r
  proof (cases r)
    case (Inl e)
    then show ?thesis by (cases e) (auto intro: triple_return triple_fail)
  qed (auto intro: triple_return)
  ultimately show ?thesis
    unfolding unless_missing_def by (rule triple_bind)
qed

lemma triple_each_do:
  assumes "\<And>ys x zs. xs = ys @ x # zs \<Longrightarrow> triple k (I ys) (m x) (\<lambda>_. I (ys @ [x])) E C"
  shows "triple k (I []) (each_do m xs) (\<lambda>_. I xs) E C"
proof -
  have run: "triple k (I ys) (each_do m zs) (\<lambda>_. I xs) E C" if "xs = ys @ zs" for ys zs
    using that
  proof (induction zs arbitrary: ys)
    case (Cons x zs)
    have "triple k (I (ys @ [x])) (each_do m zs) (\<lambda>_. I xs) E C" by (rule Cons.IH) (simp add: Cons.prems)
    with assms [OF Cons.prems] show ?case by (auto intro: triple_andthen)
  qed (auto intro: triple_return)
  show ?thesis by (rule run) simp
qed

lemma triple_gather:
  assumes "\<And>ys rs x zs. xs = ys @ x # zs \<Longrightarrow> length rs = length ys \<Longrightarrow>
      triple k (I ys rs) (m x) (\<lambda>r. I (ys @ [x]) (rs @ [r])) E C"
  shows "triple k (I [] []) (gather m xs) (\<lambda>rs f. length rs = length xs \<and> I xs rs f) E C"
proof -
  have run: "triple k (I ys rs) (gather m zs) (\<lambda>ts f. length ts = length zs \<and> I xs (rs @ ts) f) E C"
    if "xs = ys @ zs" "length rs = length ys" for ys rs zs
    using that
  proof (induction zs arbitrary: ys rs)
    case (Cons x zs)
    have ih: "triple k (I (ys @ [x]) (rs @ [r])) (gather m zs)
        (\<lambda>ts f. length ts = length zs \<and> I xs (rs @ r # ts) f) E C" for r
      using Cons.IH [of "ys @ [x]" "rs @ [r]"] Cons.prems by simp
    show ?case
      unfolding gather.simps
    proof (rule triple_bind [OF assms [OF Cons.prems]])
      fix r
      show "triple k (I (ys @ [x]) (rs @ [r])) (bind (gather m zs) (\<lambda>ys. return (r # ys)))
          (\<lambda>ts f. length ts = length (x # zs) \<and> I xs (rs @ ts) f) E C"
        by (rule triple_bind [OF ih]) (rule triple_return, simp)
    qed
  qed (auto intro: triple_return)
  show ?thesis using run [of "[]" xs "[]"] by simp
qed

section \<open>Rules of the system calls\<close>

text \<open>The last premise of each is vacuous for runs without faults; a call fails only where calls may.\<close>

lemma triple_syscall:
  assumes "\<And>f a f'. distinct (map fst f) \<Longrightarrow> P (map_of f) \<Longrightarrow> act f = Inr (a, f') \<Longrightarrow>
      distinct (map fst f') \<and> Q a (map_of f')"
    and "\<And>f e. P (map_of f) \<Longrightarrow> act f = Inl e \<Longrightarrow> E e (map_of f)"
    and "\<And>f n ps. \<not> quiet k \<Longrightarrow> distinct (map fst f) \<Longrightarrow> P (map_of f) \<Longrightarrow> distinct (map fst (part n ps f)) \<and>
      (k = Failing \<longrightarrow> E OtherError (map_of (part n ps f))) \<and> C (map_of (part n ps f))"
  shows "triple k P (syscall act part) Q E C"
proof (rule tripleI)
  fix d assume d: "sane k d" "P (look d)"
  have run: "sane k (snd (case act (files d) of Inl e \<Rightarrow> (Failed e, d\<lparr>faults := rest\<rparr>)
        | Inr (a, f) \<Rightarrow> (Done a, d\<lparr>files := f, faults := rest\<rparr>))) \<and>
      outcome_ok Q E C (fst (case act (files d) of Inl e \<Rightarrow> (Failed e, d\<lparr>faults := rest\<rparr>)
        | Inr (a, f) \<Rightarrow> (Done a, d\<lparr>files := f, faults := rest\<rparr>)))
      (look (snd (case act (files d) of Inl e \<Rightarrow> (Failed e, d\<lparr>faults := rest\<rparr>)
        | Inr (a, f) \<Rightarrow> (Done a, d\<lparr>files := f, faults := rest\<rparr>))))"
    if "list_all (admits k) rest" for rest
    using d that assms(1) [of "files d"] assms(2) [of "files d"]
    by (auto simp: sane_def look_def split: sum.splits prod.splits)
  show "sane k (snd (syscall act part d)) \<and>
    outcome_ok Q E C (fst (syscall act part d)) (look (snd (syscall act part d)))"
  proof (cases "faults d")
    case Nil
    with run [of "[]"] show ?thesis unfolding syscall_def Let_def by simp
  next
    case (Cons g rest)
    with d have "admits k g" "list_all (admits k) rest" by (simp_all add: sane_def)
    show ?thesis
    proof (cases g)
      case Go
      with Cons run [of rest] \<open>list_all (admits k) rest\<close> show ?thesis unfolding syscall_def Let_def by simp
    qed (use Cons \<open>admits k g\<close> d assms(3) [of "files d"] in
        \<open>auto simp: syscall_def Let_def sane_def look_def\<close>)
  qed
qed

lemma read_rule:
  assumes "\<And>f b. P f \<Longrightarrow> f p = Some b \<Longrightarrow> Q b f"
    and "\<And>f. P f \<Longrightarrow> f p = None \<Longrightarrow> E NotFound f" and "\<And>f. \<not> quiet k \<Longrightarrow> P f \<Longrightarrow> (k = Failing \<longrightarrow> E OtherError f) \<and> C f"
  shows "triple k P (read_file p) Q E C"
  unfolding read_file_def
  by (rule triple_syscall) (use assms in \<open>auto simp: untouched_def split: option.splits\<close>)

lemma create_rule:
  assumes "\<And>f. P f \<Longrightarrow> Q () (f(p \<mapsto> []))" and "\<And>f. \<not> quiet k \<Longrightarrow> P f \<Longrightarrow> (k = Failing \<longrightarrow> E OtherError f) \<and> C f"
  shows "triple k P (create_file p) Q E C"
  unfolding create_file_def
  by (rule triple_syscall) (use assms in \<open>auto simp: untouched_def map_of_put_file distinct_put_file\<close>)

lemma create_new_rule:
  assumes "\<And>f. P f \<Longrightarrow> f p = None \<Longrightarrow> Q () (f(p \<mapsto> []))"
    and "\<And>f b. P f \<Longrightarrow> f p = Some b \<Longrightarrow> E AlreadyExists f" and "\<And>f. \<not> quiet k \<Longrightarrow> P f \<Longrightarrow> (k = Failing \<longrightarrow> E OtherError f) \<and> C f"
  shows "triple k P (create_new p) Q E C"
  unfolding create_new_def
  by (rule triple_syscall)
    (use assms in \<open>auto simp: untouched_def map_of_put_file distinct_put_file split: if_splits\<close>)

lemma write_rule:
  assumes "\<And>f. P f \<Longrightarrow> Q () (f(p \<mapsto> b))"
    and "\<And>f n. \<not> quiet k \<Longrightarrow> P f \<Longrightarrow> (k = Failing \<longrightarrow> E OtherError (f(p \<mapsto> take n b))) \<and> C (f(p \<mapsto> take n b))"
  shows "triple k P (write_all p b) Q E C"
  unfolding write_all_def
  by (rule triple_syscall) (use assms in \<open>auto simp: map_of_put_file distinct_put_file\<close>)

lemma no_effect_rules:
  assumes "\<And>f. P f \<Longrightarrow> Q () f" and "\<And>f. \<not> quiet k \<Longrightarrow> P f \<Longrightarrow> (k = Failing \<longrightarrow> E OtherError f) \<and> C f"
  shows "triple k P sync_handle Q E C" "triple k P (create_dirs p) Q E C"
  unfolding sync_handle_def create_dirs_def
  by (rule triple_syscall; use assms in \<open>auto simp: untouched_def\<close>)+

lemma look_up_rules:
  assumes "\<And>f b. P f \<Longrightarrow> f p = Some b \<Longrightarrow> Q () f" and "\<And>f. P f \<Longrightarrow> f p = None \<Longrightarrow> E NotFound f"
    and "\<And>f. \<not> quiet k \<Longrightarrow> P f \<Longrightarrow> (k = Failing \<longrightarrow> E OtherError f) \<and> C f"
  shows "triple k P (sync_file p) Q E C" "triple k P (stat_file p) Q E C"
  unfolding sync_file_def stat_file_def
  by (rule triple_syscall; use assms in \<open>auto simp: untouched_def split: if_splits\<close>)+

lemma rename_rule:
  assumes "\<And>f b. P f \<Longrightarrow> f p = Some b \<Longrightarrow> Q () ((f(p := None))(q \<mapsto> b))"
    and "\<And>f. P f \<Longrightarrow> f p = None \<Longrightarrow> E NotFound f" and "\<And>f. \<not> quiet k \<Longrightarrow> P f \<Longrightarrow> (k = Failing \<longrightarrow> E OtherError f) \<and> C f"
  shows "triple k P (rename_file p q) Q E C"
  unfolding rename_file_def
proof (rule triple_syscall)
  fix f :: entries and a f'
  assume f: "distinct (map fst f)" "P (map_of f)"
    "(case map_of f p of None \<Rightarrow> Inl NotFound | Some b \<Rightarrow> Inr ((), put_file q b (drop_file p f))) = Inr (a, f')"
  then obtain b where b: "map_of f p = Some b" "f' = put_file q b (drop_file p f)"
    by (auto split: option.splits)
  have "distinct (map fst f')"
    unfolding b(2) using f(1) by (intro distinct_put_file distinct_drop_file)
  with b f(2) assms(1) show "distinct (map fst f') \<and> Q a (map_of f')"
    by (simp add: map_of_put_file map_of_drop_file)
qed (use assms in \<open>auto simp: untouched_def split: option.splits\<close>)

lemma remove_rule:
  assumes "\<And>f b. P f \<Longrightarrow> f p = Some b \<Longrightarrow> Q () (f(p := None))"
    and "\<And>f. P f \<Longrightarrow> f p = None \<Longrightarrow> E NotFound f" and "\<And>f. \<not> quiet k \<Longrightarrow> P f \<Longrightarrow> (k = Failing \<longrightarrow> E OtherError f) \<and> C f"
  shows "triple k P (remove_file p) Q E C"
  unfolding remove_file_def
  by (rule triple_syscall)
    (use assms in \<open>auto simp: untouched_def map_of_drop_file distinct_drop_file split: if_splits\<close>)

lemma remove_tree_rule:
  assumes "\<And>f. P f \<Longrightarrow> Q () (\<lambda>q. if prefix p q then None else f q)"
    and "\<And>f S. \<not> quiet k \<Longrightarrow> P f \<Longrightarrow>
      (k = Failing \<longrightarrow> E OtherError (\<lambda>q. if prefix p q \<and> q \<in> S then None else f q)) \<and>
      C (\<lambda>q. if prefix p q \<and> q \<in> S then None else f q)"
  shows "triple k P (remove_tree p) Q E C"
proof -
  have 1: "map_of (filter (\<lambda>e. \<not> prefix p (fst e)) f) = (\<lambda>q. if prefix p q then None else map_of f q)"
    for f :: entries by (rule ext) (simp add: map_of_filter_key [where K = "\<lambda>q. \<not> prefix p q"])
  have 2: "map_of (filter (\<lambda>e. \<not> (prefix p (fst e) \<and> fst e \<in> set ps)) f) =
      (\<lambda>q. if prefix p q \<and> q \<in> set ps then None else map_of f q)" for f :: entries and ps
    by (rule ext) (subst map_of_filter_key [where K = "\<lambda>q. \<not> (prefix p q \<and> q \<in> set ps)"], auto)
  show ?thesis
    unfolding remove_tree_def
    by (rule triple_syscall) (use assms in \<open>auto simp: 1 2 distinct_filter_keys simp del: de_Morgan_conj\<close>)
qed

lemma list_rule:
  assumes "\<And>f qs. P f \<Longrightarrow> distinct qs \<Longrightarrow> set qs = {q \<in> dom f. q \<noteq> [] \<and> butlast q = p} \<Longrightarrow> Q qs f"
    and "\<And>f. \<not> quiet k \<Longrightarrow> P f \<Longrightarrow> (k = Failing \<longrightarrow> E OtherError f) \<and> C f"
  shows "triple k P (list_dir p) Q E C"
  unfolding list_dir_def
proof (rule triple_syscall)
  fix f :: entries and a f'
  assume f: "distinct (map fst f)" "P (map_of f)"
    "Inr (filter (\<lambda>q. q \<noteq> [] \<and> butlast q = p) (map fst f), f) = (Inr (a, f') :: io_error + _)"
  then have a: "a = filter (\<lambda>q. q \<noteq> [] \<and> butlast q = p) (map fst f)" by auto
  have "set a = {q \<in> dom (map_of f). q \<noteq> [] \<and> butlast q = p}"
    unfolding a dom_map_of_conv_image_fst by (simp only: set_filter set_map)
  with f assms(1) show "distinct (map fst f') \<and> Q a (map_of f')" by auto
qed (use assms in \<open>auto simp: untouched_def\<close>)

end
