(* ===== verification/Intent.thy ===== *)
theory Intent
  imports Rust_Slice Crash_Io
begin

text \<open>
  The transaction intent of \<^verbatim>\<open>crates/fs/src/intent.rs\<close>: the checksummed record that says, from
  before the first destination changes, which files a commit replaces, and the operations on
  disk that recovery is made of. \<open>hash\<close> is BLAKE3, whose values have 32 bytes.

  A \<^verbatim>\<open>PathBuf\<close> is the list of its components, an absolute one starting with the component
  \<open>''/''\<close>; a name that is not Unicode is outside the model. \<open>root\<close> is the workspace's own path.
\<close>

section \<open>The record\<close>

datatype phase = Decided | Applied

datatype policy = Restore | Forward

record intent_member =
  im_rel :: path
  im_old :: str
  im_new :: str
  im_tmp :: path
  im_old_store :: path
  im_new_store :: path

record intent =
  it_epoch :: str
  it_txn :: str
  it_phase :: phase
  it_policy :: policy
  it_members :: "intent_member list"

datatype dest_class = Old | New | Neither | AbsentOld

record group_manifest =
  gm_gid :: str
  gm_members :: "str list"

definition intents_dir :: path where "intents_dir = [''.meridian'', ''intents'']"
definition intent_format :: str where "intent_format = ''MRD-INTENT/1''"
definition group_format :: str where "group_format = ''MRD-GROUP/1''"

section \<open>Paths as text\<close>

definition display :: "path \<Rightarrow> str" where
  "display p = (case p of
     [] \<Rightarrow> []
   | c # cs \<Rightarrow> if c = ''/'' then ''/'' @ join ''/'' cs else join ''/'' p)"

text \<open>\<^verbatim>\<open>PathBuf::from\<close>: empty components and dots inside the path are no components.\<close>

definition path_of :: "str \<Rightarrow> path" where
  "path_of s =
     (let cs = split_chr CHR ''/'' s in
      (if starts_with ''/'' s then [''/''] else if hd cs = ''.'' then [''.''] else []) @
      filter (\<lambda>c. c \<noteq> [] \<and> c \<noteq> ''.'') cs)"

text \<open>
  \<^verbatim>\<open>file_stem\<close>, \<^verbatim>\<open>extension\<close> and \<^verbatim>\<open>with_extension\<close>: the name is cut at its last dot, unless that dot
  starts it.
\<close>

definition name_parts :: "str \<Rightarrow> str \<times> str option" where
  "name_parts n =
     (if n = ''..'' then (n, None)
      else case rsplit_once CHR ''.'' n of
        Some (l, r) \<Rightarrow> if l = [] then (n, None) else (l, Some r)
      | None \<Rightarrow> (n, None))"

definition path_extension :: "path \<Rightarrow> str option" where
  "path_extension p = (if p = [] then None else snd (name_parts (last p)))"

definition file_stem :: "path \<Rightarrow> str option" where
  "file_stem p = (if p = [] then None else Some (fst (name_parts (last p))))"

definition with_extension :: "path \<Rightarrow> str \<Rightarrow> path" where
  "with_extension p ext =
     (if p = [] then [] else butlast p @ [fst (name_parts (last p)) @ ''.'' @ ext])"

definition intent_path :: "path \<Rightarrow> str \<Rightarrow> path" where
  "intent_path root txn = root @ intents_dir @ [txn @ ''.intent'']"

definition intent_dir :: "path \<Rightarrow> str \<Rightarrow> path" where
  "intent_dir root txn = root @ intents_dir @ [txn]"

section \<open>The codec\<close>

definition hex_table :: str where "hex_table = ''0123456789abcdef''"

definition hex32 :: "str \<Rightarrow> str" where
  "hex32 bs = concat (map (\<lambda>b. [hex_table ! (byte b div 16), hex_table ! (byte b mod 16)]) bs)"

definition unhex32 :: "str \<Rightarrow> str option" where
  "unhex32 s =
     (if length s \<noteq> 64 then None
      else each (\<lambda>i. case str_slice s (Span (i * 2) (i * 2 + 2)) of
                       None \<Rightarrow> None
                     | Some t \<Rightarrow> map_option char_of (parse_uint 16 255 t)) [0..<32])"

definition phase_word :: "phase \<Rightarrow> str" where
  "phase_word p = (case p of Decided \<Rightarrow> ''decided'' | Applied \<Rightarrow> ''applied'')"

definition policy_word :: "policy \<Rightarrow> str" where
  "policy_word p = (case p of Restore \<Rightarrow> ''restore'' | Forward \<Rightarrow> ''forward'')"

definition member_key :: "nat \<Rightarrow> str \<Rightarrow> str" where
  "member_key i field = ''m'' @ to_dec i @ ''.'' @ field"

definition member_lines :: "nat \<Rightarrow> intent_member \<Rightarrow> str list" where
  "member_lines i m =
     [member_key i ''path'' @ ''='' @ display (im_rel m),
      member_key i ''old'' @ ''='' @ hex32 (im_old m),
      member_key i ''new'' @ ''='' @ hex32 (im_new m),
      member_key i ''tmp'' @ ''='' @ display (im_tmp m),
      member_key i ''old_store'' @ ''='' @ display (im_old_store m),
      member_key i ''new_store'' @ ''='' @ display (im_new_store m)]"

fun members_lines :: "nat \<Rightarrow> intent_member list \<Rightarrow> str list" where
  "members_lines i [] = []"
| "members_lines i (m # ms) = member_lines i m @ members_lines (Suc i) ms"

definition intent_lines :: "intent \<Rightarrow> str list" where
  "intent_lines r =
     [intent_format,
      ''epoch='' @ it_epoch r,
      ''txn='' @ it_txn r,
      ''phase='' @ phase_word (it_phase r),
      ''policy='' @ policy_word (it_policy r),
      ''n='' @ to_dec (length (it_members r))] @ members_lines 0 (it_members r)"

text \<open>The body and its checksum line, in both records.\<close>

definition sealed :: "(str \<Rightarrow> str) \<Rightarrow> str \<Rightarrow> str" where
  "sealed hash body = body @ ''checksum='' @ hex32 (hash body) @ [CHR 0x0A]"

definition encode_intent :: "(str \<Rightarrow> str) \<Rightarrow> intent \<Rightarrow> str" where
  "encode_intent hash r = sealed hash (terminated (intent_lines r))"

definition unsealed :: "(str \<Rightarrow> str) \<Rightarrow> str \<Rightarrow> str option" where
  "unsealed hash bytes =
     (if \<not> utf8_valid bytes then None
      else case rsplit_str ''checksum='' bytes of
        None \<Rightarrow> None
      | Some (body, checksum_line) \<Rightarrow>
          if hex32 (hash body) = trim checksum_line then Some body else None)"

record reading =
  rd_epoch :: str
  rd_txn :: str
  rd_phase :: phase
  rd_policy :: policy
  rd_n :: nat
  rd_fields :: "str \<rightharpoonup> str"

definition usize_max :: nat where "usize_max = 18446744073709551615"

definition read_line :: "reading \<Rightarrow> str \<Rightarrow> reading option" where
  "read_line rd line =
     (case split_once CHR ''='' line of
        None \<Rightarrow> None
      | Some (k, v) \<Rightarrow>
          if k = ''epoch'' then Some (rd\<lparr>rd_epoch := v\<rparr>)
          else if k = ''txn'' then Some (rd\<lparr>rd_txn := v\<rparr>)
          else if k = ''phase'' then
            (if v = ''decided'' then Some (rd\<lparr>rd_phase := Decided\<rparr>)
             else if v = ''applied'' then Some (rd\<lparr>rd_phase := Applied\<rparr>) else None)
          else if k = ''policy'' then
            (if v = ''restore'' then Some (rd\<lparr>rd_policy := Restore\<rparr>)
             else if v = ''forward'' then Some (rd\<lparr>rd_policy := Forward\<rparr>) else None)
          else if k = ''n'' then map_option (\<lambda>n. rd\<lparr>rd_n := n\<rparr>) (parse_uint 10 usize_max v)
          else Some (rd\<lparr>rd_fields := (rd_fields rd)(k \<mapsto> v)\<rparr>))"

fun read_lines :: "reading \<Rightarrow> str list \<Rightarrow> reading option" where
  "read_lines rd [] = Some rd"
| "read_lines rd (l # ls) = (case read_line rd l of None \<Rightarrow> None | Some rd' \<Rightarrow> read_lines rd' ls)"

definition field_path :: "(str \<rightharpoonup> str) \<Rightarrow> nat \<Rightarrow> str \<Rightarrow> path option" where
  "field_path kv i name = map_option path_of (kv (member_key i name))"

definition field_digest :: "(str \<rightharpoonup> str) \<Rightarrow> nat \<Rightarrow> str \<Rightarrow> str option" where
  "field_digest kv i name = Option.bind (kv (member_key i name)) unhex32"

definition read_member :: "(str \<rightharpoonup> str) \<Rightarrow> nat \<Rightarrow> intent_member option" where
  "read_member kv i = do {
     rel \<leftarrow> field_path kv i ''path'';
     old \<leftarrow> field_digest kv i ''old'';
     new \<leftarrow> field_digest kv i ''new'';
     tmp \<leftarrow> field_path kv i ''tmp'';
     old_store \<leftarrow> field_path kv i ''old_store'';
     new_store \<leftarrow> field_path kv i ''new_store'';
     Some \<lparr>im_rel = rel, im_old = old, im_new = new, im_tmp = tmp,
           im_old_store = old_store, im_new_store = new_store\<rparr> }"

definition fresh_reading :: reading where
  "fresh_reading = \<lparr>rd_epoch = [], rd_txn = [], rd_phase = Decided, rd_policy = Restore,
     rd_n = 0, rd_fields = Map.empty\<rparr>"

definition read_body :: "str \<Rightarrow> intent option" where
  "read_body body =
     (case lines body of
        [] \<Rightarrow> None
      | first # rest \<Rightarrow>
          if first \<noteq> intent_format then None
          else case read_lines fresh_reading rest of
            None \<Rightarrow> None
          | Some rd \<Rightarrow>
              if rd_epoch rd = [] \<or> rd_txn rd = [] then None
              else map_option (\<lambda>ms. \<lparr>it_epoch = rd_epoch rd, it_txn = rd_txn rd,
                     it_phase = rd_phase rd, it_policy = rd_policy rd, it_members = ms\<rparr>)
                   (each (read_member (rd_fields rd)) [0..<rd_n rd]))"

definition decode_intent :: "(str \<Rightarrow> str) \<Rightarrow> str \<Rightarrow> intent option" where
  "decode_intent hash bytes = Option.bind (unsealed hash bytes) read_body"

section \<open>The group manifest\<close>

definition encode_group :: "(str \<Rightarrow> str) \<Rightarrow> group_manifest \<Rightarrow> str" where
  "encode_group hash g = sealed hash (terminated
     [group_format, ''gid='' @ gm_gid g, ''members='' @ join '','' (gm_members g)])"

fun read_group_lines :: "str \<Rightarrow> str list \<Rightarrow> str list \<Rightarrow> (str \<times> str list) option" where
  "read_group_lines gid ms [] = Some (gid, ms)"
| "read_group_lines gid ms (l # ls) =
     (case split_once CHR ''='' l of
        None \<Rightarrow> None
      | Some (k, v) \<Rightarrow>
          if k = ''gid'' then read_group_lines v ms ls
          else if k = ''members'' then
            read_group_lines gid (if v = [] then [] else split_chr CHR '','' v) ls
          else read_group_lines gid ms ls)"

definition decode_group :: "(str \<Rightarrow> str) \<Rightarrow> str \<Rightarrow> group_manifest option" where
  "decode_group hash bytes =
     (case unsealed hash bytes of
        None \<Rightarrow> None
      | Some body \<Rightarrow>
          (case lines body of
             [] \<Rightarrow> None
           | first # rest \<Rightarrow>
               if first \<noteq> group_format then None
               else case read_group_lines [] [] rest of
                 None \<Rightarrow> None
               | Some (gid, ms) \<Rightarrow> if gid = [] then None else Some \<lparr>gm_gid = gid, gm_members = ms\<rparr>))"

section \<open>Operations on disk\<close>

definition write_honest :: "path \<Rightarrow> str \<Rightarrow> unit io" where
  "write_honest p bytes =
     (let tmp = with_extension p ''tmp-intent'' in
      andthen (create_dirs (butlast p))
      (andthen (create_file tmp)
      (andthen (write_all tmp bytes)
      (andthen sync_handle
      (andthen (rename_file tmp p)
               sync_handle)))))"

definition create_decided :: "(str \<Rightarrow> str) \<Rightarrow> path \<Rightarrow> intent \<Rightarrow> unit io" where
  "create_decided hash root r =
     andthen (create_dirs (intent_dir root (it_txn r)))
     (andthen (create_new (intent_path root (it_txn r)))
     (andthen (write_all (intent_path root (it_txn r)) (encode_intent hash r))
     (andthen sync_handle
              sync_handle)))"

definition finalize :: "(str \<Rightarrow> str) \<Rightarrow> path \<Rightarrow> intent \<Rightarrow> unit io" where
  "finalize hash root r =
     write_honest (intent_path root (it_txn r)) (encode_intent hash (r\<lparr>it_phase := Applied\<rparr>))"

definition reclaim :: "path \<Rightarrow> str \<Rightarrow> unit io" where
  "reclaim root txn =
     andthen (unless_missing (remove_file (intent_path root txn)))
             (unless_missing (remove_tree (intent_dir root txn)))"

datatype found = FoundIntent intent | Indeterminate path

definition txn_key :: "found \<Rightarrow> str" where
  "txn_key x = (case x of
     FoundIntent r \<Rightarrow> it_txn r
   | Indeterminate p \<Rightarrow> (case file_stem p of None \<Rightarrow> [] | Some s \<Rightarrow> s))"

definition scan_entry :: "(str \<Rightarrow> str) \<Rightarrow> path \<Rightarrow> found io" where
  "scan_entry hash p = bind (attempted (read_file p))
     (\<lambda>r. return (case r of
        Inl _ \<Rightarrow> Indeterminate p
      | Inr bytes \<Rightarrow> (case decode_intent hash bytes of
          Some i \<Rightarrow> FoundIntent i | None \<Rightarrow> Indeterminate p)))"

definition scan :: "(str \<Rightarrow> str) \<Rightarrow> path \<Rightarrow> found list io" where
  "scan hash root = bind (list_dir (root @ intents_dir))
     (\<lambda>ps. bind (gather (scan_entry hash) (filter (\<lambda>p. path_extension p = Some ''intent'') ps))
     (\<lambda>out. return (sort_key txn_key out)))"

definition classify_dest :: "(str \<Rightarrow> str) \<Rightarrow> path \<Rightarrow> intent_member \<Rightarrow> dest_class io" where
  "classify_dest hash root m = bind (attempted (read_file (root @ im_rel m)))
     (\<lambda>r. case r of
        Inr bytes \<Rightarrow>
          return (if hash bytes = im_old m then Old
                  else if hash bytes = im_new m then New else Neither)
      | Inl NotFound \<Rightarrow> return (if im_old m = hash [] then AbsentOld else Neither)
      | Inl e \<Rightarrow> fail_with e)"

definition restore_member :: "(str \<Rightarrow> str) \<Rightarrow> path \<Rightarrow> intent_member \<Rightarrow> unit io" where
  "restore_member hash root m =
     (if im_old m = hash []
      then andthen (unless_missing (remove_file (root @ im_rel m))) sync_handle
      else bind (read_file (root @ im_old_store m)) (write_honest (root @ im_rel m)))"

definition forward_member :: "path \<Rightarrow> intent_member \<Rightarrow> unit io" where
  "forward_member root m =
     bind (read_file (root @ im_new_store m)) (write_honest (root @ im_rel m))"

definition store_path :: "str \<Rightarrow> nat \<Rightarrow> str \<Rightarrow> path" where
  "store_path txn i side = intents_dir @ [txn, to_dec i @ ''.'' @ side]"

definition store_images :: "path \<Rightarrow> str \<Rightarrow> nat \<Rightarrow> str \<Rightarrow> str \<Rightarrow> (path \<times> path) io" where
  "store_images root txn i old new =
     andthen (write_honest (root @ store_path txn i ''old'') old)
     (andthen (write_honest (root @ store_path txn i ''new'') new)
      (return (store_path txn i ''old'', store_path txn i ''new'')))"

definition create_group :: "(str \<Rightarrow> str) \<Rightarrow> path \<Rightarrow> group_manifest \<Rightarrow> unit io" where
  "create_group hash root g =
     (let dir = root @ intents_dir @ [''groups'']; p = dir @ [gm_gid g @ ''.manifest''] in
      andthen (create_dirs dir)
      (andthen (create_new p)
      (andthen (write_all p (encode_group hash g))
      (andthen sync_handle
               sync_handle))))"

definition scan_group :: "(str \<Rightarrow> str) \<Rightarrow> path \<Rightarrow> group_manifest list io" where
  "scan_group hash p = bind (attempted (read_file p))
     (\<lambda>r. return (case r of
        Inl _ \<Rightarrow> []
      | Inr bytes \<Rightarrow> (case decode_group hash bytes of None \<Rightarrow> [] | Some g \<Rightarrow> [g])))"

definition scan_groups :: "(str \<Rightarrow> str) \<Rightarrow> path \<Rightarrow> group_manifest list io" where
  "scan_groups hash root = bind (list_dir (root @ intents_dir @ [''groups'']))
     (\<lambda>ps. bind (gather (scan_group hash) ps) (\<lambda>gs. return (concat gs)))"

definition quarantine :: "path \<Rightarrow> str \<Rightarrow> path list \<Rightarrow> unit io" where
  "quarantine root txn ps =
     write_honest (root @ intents_dir @ [txn @ ''.ambiguous''])
       (terminated (''recovery_ambiguous'' # map display ps))"

end
