(* ===== verification/Atomic_Write.thy ===== *)
theory Atomic_Write
  imports Crash_Io
begin

text \<open>
  The contract of a writer that never writes in place: it puts the bytes into a file set aside
  for them and renames that one. \<open>atomic_writer\<close> states it as a rule for the logic of the
  preceding theory. The writer of the intents and the writer of the staged commits both meet it;
  what follows from it is proved here once.
\<close>

text \<open>Cut off anywhere, the file holds its old contents or the new, and only the file set aside differs.\<close>

definition half_written :: "path \<Rightarrow> path \<Rightarrow> str \<Rightarrow> contents \<Rightarrow> contents \<Rightarrow> bool" where
  "half_written tmp p b f0 f \<longleftrightarrow>
     (\<forall>q. q \<noteq> p \<and> q \<noteq> tmp \<longrightarrow> f q = f0 q) \<and> (f p = f0 p \<or> f p = Some b)"

locale atomic_writer =
  fixes writes :: "path \<Rightarrow> str \<Rightarrow> unit io" and aside :: "path \<Rightarrow> path"
  assumes writes_rule:
    "(\<And>f x. J f \<Longrightarrow> J (f(aside p := x))) \<Longrightarrow> (\<And>f. J f \<Longrightarrow> Q ((f(aside p := None))(p \<mapsto> b))) \<Longrightarrow>
     (\<And>f. \<not> quiet k \<Longrightarrow> J f \<Longrightarrow> (k = Failing \<longrightarrow> E OtherError f) \<and> C f) \<Longrightarrow>
     (\<And>f. \<not> quiet k \<Longrightarrow> Q f \<Longrightarrow> (k = Failing \<longrightarrow> E OtherError f) \<and> C f) \<Longrightarrow>
     triple k J (writes p b) (\<lambda>_. Q) E C"
begin

lemma old_or_new:
  assumes "aside p \<noteq> p"
  shows "triple k (\<lambda>f. f = f0) (writes p b)
    (\<lambda>_ f. half_written (aside p) p b f0 f \<and> f p = Some b)
    (\<lambda>e f. k = Failing \<and> e = OtherError \<and> half_written (aside p) p b f0 f)
    (\<lambda>f. \<not> quiet k \<and> half_written (aside p) p b f0 f)"
  by (rule triple_pre [OF writes_rule [where
        J = "\<lambda>f. half_written (aside p) p b f0 f \<and> f p = f0 p" and
        Q = "\<lambda>f. half_written (aside p) p b f0 f \<and> f p = Some b"]])
    (use assms in \<open>auto simp: half_written_def\<close>)

text \<open>A writer whose bytes depend on what was there: the reading changes nothing.\<close>

lemma writes_after:
  assumes "aside p \<noteq> p"
    and "triple k (\<lambda>f. f = f0) m (\<lambda>a f. f = f0 \<and> R a) (\<lambda>e f. f = f0 \<and> (k = Failing \<and> e = OtherError))
      (\<lambda>f. \<not> quiet k \<and> f = f0)"
  shows "triple k (\<lambda>f. f = f0) (bind m (\<lambda>a. writes p (g a)))
    (\<lambda>_ f. \<exists>a. R a \<and> half_written (aside p) p (g a) f0 f \<and> f p = Some (g a))
    (\<lambda>e f. k = Failing \<and> e = OtherError \<and> (f = f0 \<or> (\<exists>a. R a \<and> half_written (aside p) p (g a) f0 f)))
    (\<lambda>f. f = f0 \<or> (\<exists>a. R a \<and> half_written (aside p) p (g a) f0 f))"
proof (rule triple_bind)
  show "triple k (\<lambda>f. f = f0) m (\<lambda>a f. R a \<and> f = f0)
      (\<lambda>e f. k = Failing \<and> e = OtherError \<and> (f = f0 \<or> (\<exists>a. R a \<and> half_written (aside p) p (g a) f0 f)))
      (\<lambda>f. f = f0 \<or> (\<exists>a. R a \<and> half_written (aside p) p (g a) f0 f))"
    by (rule triple_conseq [OF assms(2)]) auto
  fix a
  show "triple k (\<lambda>f. R a \<and> f = f0) (writes p (g a))
    (\<lambda>_ f. \<exists>a. R a \<and> half_written (aside p) p (g a) f0 f \<and> f p = Some (g a))
    (\<lambda>e f. k = Failing \<and> e = OtherError \<and> (f = f0 \<or> (\<exists>a. R a \<and> half_written (aside p) p (g a) f0 f)))
    (\<lambda>f. f = f0 \<or> (\<exists>a. R a \<and> half_written (aside p) p (g a) f0 f))"
    by (rule triple_fact, rule triple_conseq [OF old_or_new [OF assms(1)]]) auto
qed

end

end
