(* ===== verification/Intent_Laws.thy ===== *)
theory Intent_Laws
  imports Intent Atomic_Write
begin

text \<open>
  The intent's codec: the reader inverts the writer on every record whose paths can be written
  on a line, and reads a record that was cut off while it was written as no record at all.
\<close>

section \<open>Hexadecimal\<close>

definition hex_digit :: "char \<Rightarrow> bool" where
  "hex_digit c \<longleftrightarrow> 48 \<le> byte c \<and> byte c \<le> 57 \<or> 97 \<le> byte c \<and> byte c \<le> 102"

lemma hex_table_digit:
  assumes "n < 16"
  shows "hex_digit (hex_table ! n) \<and> digit_val (hex_table ! n) = Some n"
proof -
  have "\<forall>n \<in> set [0..<16]. hex_digit (hex_table ! n) \<and> digit_val (hex_table ! n) = Some n"
    by code_simp
  with assms show ?thesis by simp
qed

lemma nibbles: "byte b div 16 < 16" "byte b mod 16 < 16"
  using byte_less_256 [of b] by auto

lemma hex32_simps [simp]:
  "hex32 [] = []"
  "hex32 (b # bs) = hex_table ! (byte b div 16) # hex_table ! (byte b mod 16) # hex32 bs"
  by (simp_all add: hex32_def)

lemma hex32_digits: "c \<in> set (hex32 bs) \<Longrightarrow> hex_digit c"
  using nibbles hex_table_digit by (induction bs) auto

lemma length_hex32 [simp]: "length (hex32 bs) = 2 * length bs"
  by (induction bs) simp_all

lemma digit_byte: "hex_digit c \<Longrightarrow> byte c < 128 \<and> c \<noteq> CHR 0x0A \<and> c \<noteq> CHR 0x0D \<and> c \<noteq> CHR ''='' \<and> c \<noteq> CHR ''+''"
  by (auto simp: hex_digit_def byte_def)

lemma sub_hex32: "i < length bs \<Longrightarrow>
    sub (hex32 bs) (i * 2) (i * 2 + 2) = [hex_table ! (byte (bs ! i) div 16), hex_table ! (byte (bs ! i) mod 16)]"
proof (induction bs arbitrary: i)
  case (Cons b bs)
  then show ?case by (cases i) (auto simp: sub_def)
qed simp

lemma parse_byte:
  "parse_uint 16 255 [hex_table ! (byte b div 16), hex_table ! (byte b mod 16)] = Some (byte b)"
proof -
  let ?c = "hex_table ! (byte b div 16)" and ?d = "hex_table ! (byte b mod 16)"
  have c: "digit_val ?c = Some (byte b div 16)" "?c \<noteq> CHR ''+''" "byte b div 16 < 16"
    using hex_table_digit [OF nibbles(1)] digit_byte nibbles(1) by blast+
  have d: "digit_val ?d = Some (byte b mod 16)" "byte b mod 16 < 16"
    using hex_table_digit [OF nibbles(2)] nibbles(2) by blast+
  have b: "byte b div 16 * 16 + byte b mod 16 = byte b" "byte b \<le> 255"
    using byte_less_256 [of b] by auto
  show ?thesis using c d b by (simp add: parse_uint_def)
qed

lemma unhex32_hex32:
  assumes "length bs = 32"
  shows "unhex32 (hex32 bs) = Some bs"
proof -
  let ?s = "hex32 bs"
  have bound: "is_char_boundary ?s i" if "i \<le> 64" for i
  proof (cases "i < 64")
    case True
    then have "?s ! i \<in> set ?s" using assms by (intro nth_mem) simp
    then have "hex_digit (?s ! i)" by (rule hex32_digits)
    then show ?thesis using True assms digit_byte by (force simp: is_char_boundary_def cont_byte_def)
  qed (use that assms in \<open>simp add: is_char_boundary_def\<close>)
  have "(case str_slice ?s (Span (i * 2) (i * 2 + 2)) of None \<Rightarrow> None
      | Some t \<Rightarrow> map_option char_of (parse_uint 16 255 t)) = Some (bs ! i)" if "i \<in> set [0..<32]" for i
  proof -
    have i: "i < 32" using that by simp
    then have "str_slice ?s (Span (i * 2) (i * 2 + 2)) = Some (sub ?s (i * 2) (i * 2 + 2))"
      using assms bound by (simp add: str_slice_def span_in_def)
    then show ?thesis using sub_hex32 [of i bs] i assms parse_byte [of "bs ! i"] by simp
  qed
  then have "each (\<lambda>i. case str_slice ?s (Span (i * 2) (i * 2 + 2)) of None \<Rightarrow> None
      | Some t \<Rightarrow> map_option char_of (parse_uint 16 255 t)) [0..<32] = Some (map (\<lambda>i. bs ! i) [0..<32])"
    by (rule each_total)
  moreover have "map (\<lambda>i. bs ! i) [0..<32] = bs" using assms by (metis map_nth)
  ultimately show ?thesis using assms by (simp add: unhex32_def)
qed

section \<open>Trimming a checksum line\<close>

lemma strip_any_none: "(\<And>p. p \<in> set ps \<Longrightarrow> p = [] \<or> hd p \<noteq> hd s) \<Longrightarrow> strip_any ps s = None"
proof (induction ps)
  case (Cons p ps)
  have "strip_prefix p s = None" if "p \<noteq> []"
  proof -
    obtain x xs where "p = x # xs" "x \<noteq> hd s" using Cons.prems [of p] \<open>p \<noteq> []\<close> by (cases p) auto
    then show ?thesis by (cases s) auto
  qed
  with Cons show ?case by simp
qed simp

lemma hex_not_space:
  assumes "hex_digit c"
  shows "\<forall>p \<in> set ws_chars. hd p \<noteq> c" "\<forall>p \<in> set (map rev ws_chars). hd p \<noteq> c"
proof -
  have "\<forall>p \<in> set ws_chars. \<not> hex_digit (hd p) \<and> \<not> hex_digit (hd (rev p))" by code_simp
  with assms show "\<forall>p \<in> set ws_chars. hd p \<noteq> c" "\<forall>p \<in> set (map rev ws_chars). hd p \<noteq> c" by auto
qed

lemma trim_hex:
  assumes "\<forall>c \<in> set s. hex_digit c"
  shows "trim s = s"
proof (cases "s = []")
  case True
  have "strip_any ps [] = None" for ps by (induction ps) (auto simp: strip_prefix_Some split: option.splits)
  with True show ?thesis by (simp add: trim_def trim_start_def trim_end_def trim_any_id)
next
  case False
  have h: "hex_digit (hd s)" "hex_digit (last s)" using assms False by simp_all
  have "strip_any ws_chars s = None" by (rule strip_any_none) (use h(1) hex_not_space in blast)
  moreover have "strip_any (map rev ws_chars) (rev s) = None"
    by (rule strip_any_none) (use h(2) hex_not_space False in \<open>metis hd_rev\<close>)
  ultimately show ?thesis by (simp add: trim_def trim_start_def trim_end_def trim_any_id)
qed

lemma trim_hex_line:
  assumes "\<forall>c \<in> set s. hex_digit c" "s \<noteq> []"
  shows "trim (s @ [CHR 0x0A]) = s"
proof -
  have h: "hex_digit (hd s)" "hex_digit (last s)" using assms by simp_all
  have "strip_any ws_chars (s @ [CHR 0x0A]) = None"
    by (rule strip_any_none) (use h(1) hex_not_space assms(2) in \<open>metis hd_append2\<close>)
  moreover have "strip_any (map rev ws_chars) (CHR 0x0A # rev s) = Some (rev s)"
    by (simp add: ws_chars_def)
  moreover have "strip_any (map rev ws_chars) (rev s) = None"
    by (rule strip_any_none) (use h(2) hex_not_space assms(2) in \<open>metis hd_rev\<close>)
  ultimately show ?thesis
    by (simp add: trim_def trim_start_def trim_end_def trim_any_id trim_any.simps [of _ "CHR 0x0A # rev s"])
qed

section \<open>Sealing\<close>

definition unit_digests :: "(str \<Rightarrow> str) \<Rightarrow> bool" where
  "unit_digests hash \<longleftrightarrow> (\<forall>x. length (hash x) = 32)"

lemma checksum_split: "rsplit_str ''checksum='' (l @ ''checksum='' @ r) = Some (l, r)" if "CHR ''='' \<notin> set r"
  using rsplit_str_append [OF that, of "''checksum''" l] by simp

lemma hex_no_equals: "CHR ''='' \<notin> set (hex32 bs)"
  using hex32_digits digit_byte by blast

lemma utf8_hex: "\<forall>c \<in> set s. hex_digit c \<Longrightarrow> utf8_valid s"
  using digit_byte by (intro utf8_valid_ascii_all) blast

lemma utf8_seal: "utf8_valid body \<Longrightarrow> \<forall>c \<in> set s. hex_digit c \<Longrightarrow> utf8_valid (body @ ''checksum='' @ s)"
proof -
  have "utf8_valid ''checksum=''" by code_simp
  then show "utf8_valid body \<Longrightarrow> \<forall>c \<in> set s. hex_digit c \<Longrightarrow> utf8_valid (body @ ''checksum='' @ s)"
    using utf8_append [of body "''checksum='' @ s"] utf8_append [of "''checksum=''" s] utf8_hex by blast
qed

lemma unsealed_sealed:
  assumes "unit_digests hash" "utf8_valid body"
  shows "unsealed hash (sealed hash body) = Some body"
proof -
  let ?h = "hex32 (hash body)"
  have hex: "\<forall>c \<in> set ?h. hex_digit c" using hex32_digits by blast
  have "length (hash body) = 32" using assms(1) by (simp add: unit_digests_def)
  then have "length ?h = 64" by simp
  then have ne: "?h \<noteq> []" by (metis list.size(3) zero_neq_numeral)
  have "utf8_valid [CHR 0x0A]" by code_simp
  with utf8_seal [OF assms(2) hex] have "utf8_valid (sealed hash body)"
    using utf8_append [of "body @ ''checksum='' @ ?h" "[CHR 0x0A]"] by (simp add: sealed_def)
  moreover have "rsplit_str ''checksum='' (sealed hash body) = Some (body, ?h @ [CHR 0x0A])"
    unfolding sealed_def by (rule checksum_split) (simp add: hex_no_equals)
  ultimately show ?thesis
    using trim_hex_line [OF hex ne] by (simp add: unsealed_def)
qed

text \<open>What is left of a sealed text cut short does not unseal, unless only the last newline is gone.\<close>

lemma sublist_first: "sublist (c # p) (u @ v) \<Longrightarrow> c \<notin> set u \<Longrightarrow> sublist (c # p) v"
  by (induction u) (auto simp: sublist_Cons_right)

lemma sublist_last: "sublist (p @ [c]) (l @ q) \<Longrightarrow> c \<notin> set q \<Longrightarrow> sublist (p @ [c]) l"
  using sublist_first [of c "rev p" "rev q" "rev l"] sublist_rev [of "p @ [c]" "l @ q"]
    sublist_rev [of "p @ [c]" l] by simp

lemma torn_unsealed:
  assumes "unit_digests hash" "\<not> sublist ''checksum='' body" "k < length (sealed hash body)"
  shows "unsealed hash (take k (sealed hash body)) \<in> {None, Some body}"
proof -
  let ?h = "hex32 (hash body)" and ?t = "take k (sealed hash body)"
  have "length (hash body) = 32" using assms(1) by (simp add: unit_digests_def)
  then have len: "length ?h = 64" by simp
  have hex: "\<forall>c \<in> set (take j ?h). hex_digit c" for j using hex32_digits by (meson in_set_takeD)
  show ?thesis
  proof (cases "k < length body + 9")
    case True
    then have "?t = take k body @ take (k - length body) ''checksum''"
      by (cases "k - length body \<le> 8") (auto simp: sealed_def take_Cons')
    moreover have "\<not> sublist ''checksum='' (take k body)"
      using assms(2) sublist_order.order_trans sublist_take by blast
    moreover have "CHR ''='' \<notin> set (take (k - length body) ''checksum'')"
      by (auto dest: in_set_takeD)
    ultimately have "\<not> sublist ''checksum='' ?t"
      using sublist_last [of "''checksum''" "CHR ''=''" "take k body"] by auto
    then show ?thesis by (auto simp: unsealed_def rsplit_str_None [symmetric] split: option.splits)
  next
    case False
    define j where "j = k - (length body + 9)"
    have k: "k = length body + 9 + j" using False by (simp add: j_def)
    have j: "j \<le> 64" using assms(3) k len by (simp add: sealed_def)
    have t: "?t = body @ ''checksum='' @ take j ?h"
    proof -
      have cut: "take (length a + j) (a @ b) = a @ take j b" for a b :: str by simp
      have "take k (sealed hash body) = take (length (body @ ''checksum='') + j)
          ((body @ ''checksum='') @ ?h @ [CHR 0x0A])" using k by (simp add: sealed_def)
      then show ?thesis unfolding cut using j len by simp
    qed
    have "rsplit_str ''checksum='' ?t = Some (body, take j ?h)"
      unfolding t by (rule checksum_split) (use hex_no_equals in_set_takeD in fast)
    then show ?thesis by (simp add: unsealed_def)
  qed
qed

section \<open>Paths\<close>

definition line_text :: "str \<Rightarrow> bool" where
  "line_text s \<longleftrightarrow> CHR 0x0A \<notin> set s \<and> no_trailing_cr s \<and> utf8_valid s"

text \<open>A relative path whose text can stand on a line of the record.\<close>

definition storable :: "path \<Rightarrow> bool" where
  "storable p \<longleftrightarrow> p \<noteq> [] \<and> (\<forall>c \<in> set p. c \<noteq> [] \<and> c \<noteq> ''.'' \<and> CHR ''/'' \<notin> set c) \<and> line_text (join ''/'' p)"

lemma display_storable: "storable p \<Longrightarrow> display p = join ''/'' p"
  by (cases p) (auto simp: display_def storable_def)

lemma path_of_display:
  assumes "storable p"
  shows "path_of (display p) = p"
proof -
  obtain c cs where p: "p = c # cs" using assms by (cases p) (auto simp: storable_def)
  have comps: "\<forall>c \<in> set p. c \<noteq> [] \<and> c \<noteq> ''.'' \<and> CHR ''/'' \<notin> set c" "p \<noteq> []"
    using assms by (auto simp: storable_def)
  then have split: "split_chr CHR ''/'' (join ''/'' p) = p" by (intro split_chr_join) auto
  have "join ''/'' p = c @ concat (map (\<lambda>c. ''/'' @ c) cs)"
    unfolding p by (induction cs arbitrary: c) auto
  then have "\<not> starts_with ''/'' (join ''/'' p)"
    using comps p by (cases c) (auto simp: starts_with_prefix)
  moreover have "filter (\<lambda>c. c \<noteq> [] \<and> c \<noteq> ''.'') p = p" using comps(1) by (auto simp: filter_id_conv)
  ultimately show ?thesis
    using comps p unfolding path_of_def Let_def display_storable [OF assms] split by simp
qed

section \<open>Reading the lines back\<close>

lemma member_key_inject [simp]: "member_key i a = member_key j b \<longleftrightarrow> i = j \<and> a = b"
proof
  assume eq: "member_key i a = member_key j b"
  have dot: "CHR ''.'' \<notin> set (to_dec n)" for n
    by (rule to_dec_no) (simp add: ascii_digit_def byte_def)
  have "split_once CHR ''.'' (to_dec i @ CHR ''.'' # a) = split_once CHR ''.'' (to_dec j @ CHR ''.'' # b)"
    using eq by (simp add: member_key_def)
  then show "i = j \<and> a = b" by (simp add: split_once_append dot)
qed simp

lemma member_key_plain:
  "member_key i a \<noteq> ''epoch''" "member_key i a \<noteq> ''txn''" "member_key i a \<noteq> ''phase''"
  "member_key i a \<noteq> ''policy''" "member_key i a \<noteq> ''n''"
  by (simp_all add: member_key_def)

lemma member_key_equals: "CHR ''='' \<notin> set a \<Longrightarrow> CHR ''='' \<notin> set (member_key i a)"
  using to_dec_no [of "CHR ''=''" i] by (simp add: member_key_def ascii_digit_def byte_def)

lemma read_line_field:
  assumes "CHR ''='' \<notin> set a"
  shows "read_line rd (member_key i a @ CHR ''='' # v) =
    Some (rd\<lparr>rd_fields := (rd_fields rd)(member_key i a \<mapsto> v)\<rparr>)"
proof -
  have "split_once CHR ''='' (member_key i a @ CHR ''='' # v) = Some (member_key i a, v)"
    using member_key_equals [OF assms, of i] by (simp add: split_once_append)
  then show ?thesis by (simp add: read_line_def member_key_plain)
qed

text \<open>The fields a list of members writes, as one map.\<close>

definition member_fields :: "nat \<Rightarrow> intent_member \<Rightarrow> (str \<times> str) list" where
  "member_fields i m =
     [(member_key i ''path'', display (im_rel m)), (member_key i ''old'', hex32 (im_old m)),
      (member_key i ''new'', hex32 (im_new m)), (member_key i ''tmp'', display (im_tmp m)),
      (member_key i ''old_store'', display (im_old_store m)),
      (member_key i ''new_store'', display (im_new_store m))]"

fun put_fields :: "nat \<Rightarrow> intent_member list \<Rightarrow> (str \<rightharpoonup> str) \<Rightarrow> (str \<rightharpoonup> str)" where
  "put_fields i [] kv = kv"
| "put_fields i (m # ms) kv = put_fields (Suc i) ms (kv ++ map_of (rev (member_fields i m)))"

lemma read_member_lines:
  "read_lines rd (member_lines i m @ ls) =
   read_lines (rd\<lparr>rd_fields := rd_fields rd ++ map_of (rev (member_fields i m))\<rparr>) ls"
proof -
  have fields: "rd_fields rd ++ map_of (rev (member_fields i m)) =
    (rd_fields rd)(member_key i ''path'' \<mapsto> display (im_rel m), member_key i ''old'' \<mapsto> hex32 (im_old m),
      member_key i ''new'' \<mapsto> hex32 (im_new m), member_key i ''tmp'' \<mapsto> display (im_tmp m),
      member_key i ''old_store'' \<mapsto> display (im_old_store m),
      member_key i ''new_store'' \<mapsto> display (im_new_store m))"
    by (simp add: member_fields_def)
  show ?thesis unfolding fields by (simp add: member_lines_def read_line_field)
qed

lemma read_members_lines:
  "read_lines rd (members_lines i ms) = Some (rd\<lparr>rd_fields := put_fields i ms (rd_fields rd)\<rparr>)"
  by (induction ms arbitrary: i rd) (simp_all add: read_member_lines)

lemma put_fields_other:
  "(\<And>j a. i \<le> j \<Longrightarrow> k \<noteq> member_key j a) \<Longrightarrow> put_fields i ms kv k = kv k"
proof (induction ms arbitrary: i kv)
  case (Cons m ms)
  have "put_fields (Suc i) ms (kv ++ map_of (rev (member_fields i m))) k =
      (kv ++ map_of (rev (member_fields i m))) k"
    by (rule Cons.IH) (simp add: Cons.prems)
  also have "\<dots> = kv k" using Cons.prems [of i] by (simp add: member_fields_def)
  finally show ?case by simp
qed simp

lemma put_fields_member:
  assumes "j < length ms" "(member_key (i + j) a, v) \<in> set (member_fields (i + j) (ms ! j))"
  shows "put_fields i ms kv (member_key (i + j) a) = Some v"
  using assms
proof (induction ms arbitrary: i j kv)
  case (Cons m ms)
  show ?case
  proof (cases j)
    case 0
    have "put_fields (Suc i) ms (kv ++ map_of (rev (member_fields i m))) (member_key i a) =
        (kv ++ map_of (rev (member_fields i m))) (member_key i a)"
      by (rule put_fields_other) simp
    then show ?thesis using 0 Cons.prems(2) by (auto simp: member_fields_def)
  next
    case (Suc j')
    with Cons show ?thesis using Cons.IH [of j' "Suc i"] by simp
  qed
qed simp

definition sound_member :: "intent_member \<Rightarrow> bool" where
  "sound_member m \<longleftrightarrow> storable (im_rel m) \<and> length (im_old m) = 32 \<and> length (im_new m) = 32 \<and>
     storable (im_tmp m) \<and> storable (im_old_store m) \<and> storable (im_new_store m)"

definition sound_intent :: "intent \<Rightarrow> bool" where
  "sound_intent r \<longleftrightarrow> line_text (it_epoch r) \<and> it_epoch r \<noteq> [] \<and> line_text (it_txn r) \<and> it_txn r \<noteq> [] \<and>
     length (it_members r) \<le> usize_max \<and> (\<forall>m \<in> set (it_members r). sound_member m)"

lemma read_member_back:
  assumes "j < length ms" "sound_member (ms ! j)"
  shows "read_member (put_fields 0 ms kv) j = Some (ms ! j)"
proof -
  have at: "(member_key j a, v) \<in> set (member_fields j (ms ! j)) \<Longrightarrow>
      put_fields 0 ms kv (member_key j a) = Some v" for a v
    using put_fields_member [of j ms 0 a v kv] assms(1) by simp
  note at [of "''path''", simplified member_fields_def, simplified, simp]
    at [of "''old''", simplified member_fields_def, simplified, simp]
    at [of "''new''", simplified member_fields_def, simplified, simp]
    at [of "''tmp''", simplified member_fields_def, simplified, simp]
    at [of "''old_store''", simplified member_fields_def, simplified, simp]
    at [of "''new_store''", simplified member_fields_def, simplified, simp]
  show ?thesis
    using assms(2) by (simp add: read_member_def field_path_def field_digest_def sound_member_def
        path_of_display unhex32_hex32)
qed

section \<open>The whole record\<close>

lemma line_text_prefixed: "line_text v \<Longrightarrow> v \<noteq> [] \<Longrightarrow> \<forall>c \<in> set k. byte c < 128 \<and> c \<noteq> CHR 0x0A \<Longrightarrow>
    line_text (k @ v)"
  using utf8_append [OF utf8_valid_ascii_all, of k v] by (auto simp: line_text_def no_trailing_cr_def)

lemma line_text_plain: "\<forall>c \<in> set k. byte c < 128 \<and> c \<noteq> CHR 0x0A \<and> c \<noteq> CHR 0x0D \<Longrightarrow> line_text k"
proof -
  assume k: "\<forall>c \<in> set k. byte c < 128 \<and> c \<noteq> CHR 0x0A \<and> c \<noteq> CHR 0x0D"
  then have "utf8_valid k" by (intro utf8_valid_ascii_all) blast
  moreover have "CHR 0x0A \<notin> set k" using k by blast
  moreover have "no_trailing_cr k" using k last_in_set [of k] unfolding no_trailing_cr_def by blast
  ultimately show "line_text k" unfolding line_text_def by blast
qed

lemma plain_dec: "c \<in> set (to_dec n) \<Longrightarrow> byte c < 128 \<and> c \<noteq> CHR 0x0A \<and> c \<noteq> CHR 0x0D"
  using to_dec_digits [of c n] by (auto simp: ascii_digit_def byte_def)

lemma line_text_hex: "line_text (hex32 bs)"
proof (rule line_text_plain, rule ballI)
  fix c assume "c \<in> set (hex32 bs)"
  then have "hex_digit c" by (rule hex32_digits)
  then show "byte c < 128 \<and> c \<noteq> CHR 0x0A \<and> c \<noteq> CHR 0x0D" using digit_byte by blast
qed

lemma display_line: "storable p \<Longrightarrow> line_text (display p) \<and> display p \<noteq> []"
proof -
  assume p: "storable p"
  then obtain c cs where "p = c # cs" "c \<noteq> []" by (cases p) (auto simp: storable_def)
  then have "join ''/'' p \<noteq> []" by (cases cs) auto
  with p show ?thesis by (simp add: display_storable storable_def)
qed

lemma member_lines_text:
  assumes "sound_member m" "l \<in> set (member_lines i m)"
  shows "line_text l"
proof -
  have hexne: "hex32 bs \<noteq> []" if "length bs = 32" for bs
    using that length_hex32 [of bs] by (metis list.size(3) mult_eq_0_iff zero_neq_numeral)
  have key: "\<forall>c \<in> set (member_key i a @ ''=''). byte c < 128 \<and> c \<noteq> CHR 0x0A"
    if "\<forall>c \<in> set a. byte c < 128 \<and> c \<noteq> CHR 0x0A" for a
    using that plain_dec [of _ i] by (auto simp: member_key_def byte_def)
  have "line_text ((member_key i a @ ''='') @ v)"
    if "line_text v" "v \<noteq> []" "\<forall>c \<in> set a. byte c < 128 \<and> c \<noteq> CHR 0x0A" for a v
    using line_text_prefixed [OF that(1,2) key [OF that(3)]] .
  note field = this
  have names: "\<forall>a \<in> {''path'', ''old'', ''new'', ''tmp'', ''old_store'', ''new_store''}.
      \<forall>c \<in> set a. byte c < 128 \<and> c \<noteq> CHR 0x0A" by (simp add: byte_def)
  have "\<exists>a \<in> {''path'', ''old'', ''new'', ''tmp'', ''old_store'', ''new_store''}. \<exists>v.
      l = (member_key i a @ ''='') @ v \<and> line_text v \<and> v \<noteq> []"
    using assms hexne display_line line_text_hex
    by (auto simp: member_lines_def sound_member_def)
  then show ?thesis using field names by blast
qed

lemma members_lines_text:
  "\<forall>m \<in> set ms. sound_member m \<Longrightarrow> l \<in> set (members_lines i ms) \<Longrightarrow> line_text l"
  by (induction ms arbitrary: i) (auto dest: member_lines_text)

lemma intent_lines_text:
  assumes "sound_intent r" "l \<in> set (intent_lines r)"
  shows "line_text l"
proof -
  have "line_text (phase_word p)" "line_text (''phase='' @ phase_word p)" for p
    by (cases p; rule line_text_plain; simp add: phase_word_def byte_def)+
  moreover have "line_text (''policy='' @ policy_word p)" for p
    by (cases p; rule line_text_plain; simp add: policy_word_def byte_def)
  moreover have "line_text intent_format" by (rule line_text_plain) (simp add: intent_format_def byte_def)
  moreover have "line_text (''n='' @ to_dec n)" for n
    using plain_dec by (intro line_text_plain) (auto simp: byte_def)
  moreover have "line_text (''epoch='' @ it_epoch r)" "line_text (''txn='' @ it_txn r)"
    using assms(1) unfolding sound_intent_def by (intro line_text_prefixed; simp add: byte_def)+
  ultimately show ?thesis
    using assms members_lines_text [of "it_members r" l 0] unfolding sound_intent_def intent_lines_def by auto
qed

lemma intent_body_utf8: "sound_intent r \<Longrightarrow> utf8_valid (terminated (intent_lines r))"
proof -
  have "utf8_valid (terminated ls)" if "\<forall>l \<in> set ls. utf8_valid l" for ls
    using that
  proof (induction ls)
    case (Cons l ls)
    have "utf8_valid [CHR 0x0A]" by code_simp
    moreover have "utf8_valid (terminated ls)" using Cons by simp
    ultimately have "utf8_valid ([CHR 0x0A] @ terminated ls)" by (rule utf8_append)
    with Cons.prems show ?case using utf8_append [of l "[CHR 0x0A] @ terminated ls"] by simp
  qed simp
  then show "sound_intent r \<Longrightarrow> utf8_valid (terminated (intent_lines r))"
    using intent_lines_text by (auto simp: line_text_def)
qed

lemma read_body_written:
  assumes "sound_intent r"
  shows "read_body (terminated (intent_lines r)) = Some r"
proof -
  let ?ms = "it_members r"
  have "lines (terminated (intent_lines r)) = intent_lines r"
    using intent_lines_text [OF assms] by (intro lines_terminated) (auto simp: line_text_def)
  moreover have head: "read_lines fresh_reading (tl (intent_lines r)) =
      Some (fresh_reading\<lparr>rd_epoch := it_epoch r, rd_txn := it_txn r, rd_phase := it_phase r,
        rd_policy := it_policy r, rd_n := length ?ms, rd_fields := put_fields 0 ?ms Map.empty\<rparr>)"
    using assms by (cases "it_phase r"; cases "it_policy r")
      (simp_all add: intent_lines_def read_line_def phase_word_def policy_word_def fresh_reading_def
        parse_uint_to_dec sound_intent_def read_members_lines)
  moreover have "each (read_member (put_fields 0 ?ms Map.empty)) [0..<length ?ms] = Some ?ms"
  proof -
    have "each (read_member (put_fields 0 ?ms Map.empty)) [0..<length ?ms] = Some (map (\<lambda>j. ?ms ! j) [0..<length ?ms])"
      using assms by (intro each_total read_member_back) (auto simp: sound_intent_def)
    then show ?thesis by (simp add: map_nth)
  qed
  ultimately show ?thesis
    using assms by (simp add: read_body_def intent_lines_def fresh_reading_def sound_intent_def)
qed

lemma decode_encode_intent:
  "sound_intent r \<Longrightarrow> unit_digests hash \<Longrightarrow> decode_intent hash (encode_intent hash r) = Some r"
  by (simp add: decode_intent_def encode_intent_def unsealed_sealed intent_body_utf8 read_body_written)

lemma decode_torn_intent:
  assumes "sound_intent r" "unit_digests hash" "\<not> sublist ''checksum='' (terminated (intent_lines r))"
  shows "decode_intent hash (take k (encode_intent hash r)) \<in> {None, Some r}"
proof (cases "k < length (encode_intent hash r)")
  case True
  with assms torn_unsealed [of hash "terminated (intent_lines r)" k] show ?thesis
    by (auto simp: decode_intent_def encode_intent_def read_body_written)
qed (use assms decode_encode_intent in simp)

section \<open>The honest write\<close>

abbreviation scratch :: "path \<Rightarrow> path" where "scratch p \<equiv> with_extension p ''tmp-intent''"

lemma write_honest_rule:
  assumes "\<And>f x. J f \<Longrightarrow> J (f(scratch p := x))"
    and "\<And>f. J f \<Longrightarrow> Q ((f(scratch p := None))(p \<mapsto> b))"
    and "\<And>f. \<not> quiet k \<Longrightarrow> J f \<Longrightarrow> (k = Failing \<longrightarrow> E OtherError f) \<and> C f" and "\<And>f. \<not> quiet k \<Longrightarrow> Q f \<Longrightarrow> (k = Failing \<longrightarrow> E OtherError f) \<and> C f"
  shows "triple k J (write_honest p b) (\<lambda>_. Q) E C"
  unfolding write_honest_def Let_def
proof (rule triple_andthen)
  let ?W = "\<lambda>f. J f \<and> f (scratch p) = Some b"
  show "triple k J (create_dirs (butlast p)) (\<lambda>_. J) E C" by (rule no_effect_rules(2)) (use assms in auto)
  have sync: "triple k J' sync_handle (\<lambda>_. J') E C" if "\<And>f. \<not> quiet k \<Longrightarrow> J' f \<Longrightarrow> (k = Failing \<longrightarrow> E OtherError f) \<and> C f" for J'
    by (rule no_effect_rules(1)) (use that in auto)
  have "triple k ?W (rename_file (scratch p) p) (\<lambda>_. Q) E C"
    by (rule rename_rule) (use assms in auto)
  then have "triple k ?W (andthen (rename_file (scratch p) p) sync_handle) (\<lambda>_. Q) E C"
    by (rule triple_andthen) (rule sync, use assms in auto)
  with sync [of ?W] assms(3)
  have 1: "triple k ?W (andthen sync_handle (andthen (rename_file (scratch p) p) sync_handle)) (\<lambda>_. Q) E C"
    by (auto intro: triple_andthen)
  have "triple k J (write_all (scratch p) b) (\<lambda>_. ?W) E C"
    by (rule write_rule) (use assms in auto)
  from this 1 have 2: "triple k J (andthen (write_all (scratch p) b)
      (andthen sync_handle (andthen (rename_file (scratch p) p) sync_handle))) (\<lambda>_. Q) E C"
    by (rule triple_andthen)
  have "triple k J (create_file (scratch p)) (\<lambda>_. J) E C"
    by (rule create_rule) (use assms in auto)
  from this 2 show "triple k J (andthen (create_file (scratch p)) (andthen (write_all (scratch p) b)
      (andthen sync_handle (andthen (rename_file (scratch p) p) sync_handle)))) (\<lambda>_. Q) E C"
    by (rule triple_andthen)
qed

interpretation honest: atomic_writer write_honest scratch
  by unfold_locales (rule write_honest_rule)

end
