(* ===== verification/Regions.thy ===== *)
theory Regions
  imports Ring
begin

text \<open>
  Who may publish at the same time, \<^verbatim>\<open>crates/wire-serve/src/publish.rs\<close>: the regions a
  transaction reads and writes, the reservation table that admits it, and the state owner that
  chains the roots. Both are values behind a mutex in the code; here they are states that the
  operations take and return, one operation at a time, which is what the mutex makes of them.
  A reservation that has to wait is no step.
\<close>

section \<open>Regions\<close>

datatype region_kind = ReadRegion | WriteRegion

datatype spatial = RootExtent | Folder str | FileAt str | Absence str str

record region =
  rg_corpus :: str
  rg_kind :: region_kind
  rg_spatial :: spatial

definition under_or_eq :: "str \<Rightarrow> str \<Rightarrow> bool" where
  "under_or_eq path pre \<longleftrightarrow> path = pre \<or>
     (starts_with pre path \<and> length pre < length path \<and> path ! length pre = CHR ''/'')"

definition join_edge :: "str \<Rightarrow> str \<Rightarrow> str" where
  "join_edge parent name = (if parent = [] then name else parent @ ''/'' @ name)"

fun spatial_intersect :: "spatial \<Rightarrow> spatial \<Rightarrow> bool" where
  "spatial_intersect RootExtent _ = True"
| "spatial_intersect _ RootExtent = True"
| "spatial_intersect (Folder p) (Folder q) = (under_or_eq p q \<or> under_or_eq q p)"
| "spatial_intersect (Folder p) (FileAt f) = under_or_eq f p"
| "spatial_intersect (FileAt f) (Folder p) = under_or_eq f p"
| "spatial_intersect (Folder p) (Absence parent name) =
     (under_or_eq (join_edge parent name) p \<or> under_or_eq parent p)"
| "spatial_intersect (Absence parent name) (Folder p) =
     (under_or_eq (join_edge parent name) p \<or> under_or_eq parent p)"
| "spatial_intersect (FileAt f) (FileAt g) = (f = g)"
| "spatial_intersect (FileAt f) (Absence parent name) = (f = join_edge parent name)"
| "spatial_intersect (Absence parent name) (FileAt f) = (f = join_edge parent name)"
| "spatial_intersect (Absence p1 n1) (Absence p2 n2) = (p1 = p2 \<and> n1 = n2)"

definition conflicts :: "region \<Rightarrow> region \<Rightarrow> bool" where
  "conflicts a b =
     (if rg_corpus a \<noteq> rg_corpus b then False
      else if rg_kind a = ReadRegion \<and> rg_kind b = ReadRegion then False
      else spatial_intersect (rg_spatial a) (rg_spatial b))"

section \<open>The reservation table\<close>

text \<open>\<open>None\<close> is the caller that waits. A transaction is named by its 128-bit id.\<close>

type_synonym 'x table = "('x \<times> region list) list"

definition blocked :: "'x table \<Rightarrow> region list \<Rightarrow> bool" where
  "blocked held regions \<longleftrightarrow> (\<exists>h \<in> set held. \<exists>a \<in> set (snd h). \<exists>b \<in> set regions. conflicts a b)"

definition reserve :: "'x \<Rightarrow> region list \<Rightarrow> region list \<Rightarrow> 'x table \<Rightarrow> 'x table option" where
  "reserve txn reads writes held =
     (let regions = reads @ writes in
      if blocked held regions then None else Some (held @ [(txn, regions)]))"

definition release :: "'x \<Rightarrow> 'x table \<Rightarrow> 'x table" where
  "release txn held = filter (\<lambda>h. fst h \<noteq> txn) held"

text \<open>Any number of callers, in any order.\<close>

inductive table_step :: "'x table \<Rightarrow> 'x table \<Rightarrow> bool" where
  acquire: "reserve txn reads writes held = Some held' \<Longrightarrow> table_step held held'"
| drop: "table_step held (release txn held)"

inductive_cases table_stepE [elim!]: "table_step held held'"

section \<open>The state owner\<close>

record owner =
  ow_instance :: str
  ow_tip :: str
  ow_seq :: nat
  ow_frames :: "delta_frame list"

definition owner_new :: "str \<Rightarrow> str \<Rightarrow> owner" where
  "owner_new epoch tip = \<lparr>ow_instance = epoch, ow_tip = tip, ow_seq = 0, ow_frames = []\<rparr>"

definition assemble_delta :: "nat \<Rightarrow> str \<Rightarrow> str \<Rightarrow> str option \<Rightarrow> str option \<Rightarrow> delta_file list \<Rightarrow> delta_frame" where
  "assemble_delta seq before after actor now fs =
     \<lparr>fr_delta = \<lparr>d_seq = seq, d_root_before = before, d_root_after = after, d_actor = actor,
        d_now = now, d_files = fs\<rparr>, fr_effects = [], fr_rescope = None, fr_overflow = None\<rparr>"

definition owner_apply :: "delta_file list \<Rightarrow> str option \<Rightarrow> str option \<Rightarrow> (str \<Rightarrow> str) \<Rightarrow> owner \<Rightarrow>
    delta_frame \<times> owner" where
  "owner_apply fs actor now refold o1 =
     (let before = ow_tip o1; after = refold before; seq = ow_seq o1 + 1;
          frame = assemble_delta seq before after actor now fs in
      (frame, o1\<lparr>ow_seq := seq, ow_tip := after, ow_frames := ow_frames o1 @ [frame]\<rparr>))"

fun chain_is_contiguous :: "delta_frame list \<Rightarrow> bool" where
  "chain_is_contiguous (f # g # fs) = (root_before g = root_after f \<and> chain_is_contiguous (g # fs))"
| "chain_is_contiguous fs = True"

section \<open>What a region claims\<close>

text \<open>
  The paths an extent is about, by their components: those below a folder start with the components
  of the folder, that of an absent entry has the components of the parent and then the name.
\<close>

abbreviation components :: "str \<Rightarrow> str list" where
  "components path \<equiv> split_chr CHR ''/'' path"

fun extent :: "spatial \<Rightarrow> str \<Rightarrow> bool" where
  "extent RootExtent path = True"
| "extent (Folder p) path = prefix (components p) (components path)"
| "extent (FileAt f) path = (path = f)"
| "extent (Absence parent name) path =
     (components path = (if parent = [] then [] else components parent) @ [name])"

definition proper :: "spatial \<Rightarrow> bool" where
  "proper s = (case s of Folder p \<Rightarrow> p \<noteq> [] | Absence parent name \<Rightarrow> name \<noteq> [] \<and> CHR ''/'' \<notin> set name
     | _ \<Rightarrow> True)"

lemma intersect_sym: "spatial_intersect a b = spatial_intersect b a"
  by (cases a; cases b) auto

lemma conflicts_sym: "conflicts a b = conflicts b a"
  using intersect_sym by (auto simp: conflicts_def)

lemma under_or_eq_iff: "under_or_eq path p \<longleftrightarrow> path = p \<or> (\<exists>r. path = p @ CHR ''/'' # r)"
proof
  assume "under_or_eq path p"
  then consider "path = p" | "prefix p path" "length p < length path" "path ! length p = CHR ''/''"
    by (auto simp: under_or_eq_def starts_with_prefix)
  then show "path = p \<or> (\<exists>r. path = p @ CHR ''/'' # r)"
  proof cases
    case 2
    then obtain t where t: "path = p @ t" by (auto simp: prefix_def)
    with 2 show ?thesis by (cases t) auto
  qed simp
qed (auto simp: under_or_eq_def starts_with_prefix)

lemma under_trans: "under_or_eq x y \<Longrightarrow> under_or_eq y z \<Longrightarrow> under_or_eq x z"
  by (auto simp: under_or_eq_iff)

lemma under_join: "name \<noteq> [] \<Longrightarrow> parent \<noteq> [] \<Longrightarrow> under_or_eq (join_edge parent name) parent"
  by (auto simp: under_or_eq_iff join_edge_def)

text \<open>Two folders that share a path are one below the other.\<close>

lemma under_comparable:
  assumes "under_or_eq x p" "under_or_eq x q"
  shows "under_or_eq p q \<or> under_or_eq q p"
proof -
  have "under_or_eq p q \<or> under_or_eq q p"
    if "p @ CHR ''/'' # r = q @ CHR ''/'' # s" for p q r s :: str
    using that
  proof (induction p arbitrary: q)
    case Nil
    then show ?case by (cases q) (auto simp: under_or_eq_iff)
  next
    case (Cons a p)
    then show ?case by (cases q) (auto simp: under_or_eq_iff)
  qed
  with assms show ?thesis by (auto simp: under_or_eq_iff)
qed

lemma join_edge_inject:
  assumes "CHR ''/'' \<notin> set m" "CHR ''/'' \<notin> set n"
  shows "join_edge p m = join_edge q n \<longleftrightarrow> p = q \<and> m = n"
proof -
  have "rsplit_once CHR ''/'' (join_edge p m) = (if p = [] then None else Some (p, m))"
    "rsplit_once CHR ''/'' (join_edge q n) = (if q = [] then None else Some (q, n))"
    using assms by (simp_all add: join_edge_def rsplit_once_None rsplit_once_Some)
  then have "join_edge p m = join_edge q n \<Longrightarrow>
      (if p = [] then None else Some (p, m)) = (if q = [] then None else Some (q, n))" by metis
  then show ?thesis by (auto simp: join_edge_def split: if_splits)
qed

lemma components_inject: "components x = components y \<longleftrightarrow> x = y"
  by (metis join_split_chr)

lemma components_append: "components (p @ CHR ''/'' # r) = components p @ components r"
proof (induction p)
  case (Cons a p)
  obtain q qs where "components p = q # qs" by (cases "components p") auto
  then show ?case using Cons by simp
qed simp

lemma join_components: "ps \<noteq> [] \<Longrightarrow> qs \<noteq> [] \<Longrightarrow> join sep (ps @ qs) = join sep ps @ sep @ join sep qs"
proof (induction ps)
  case (Cons a ps)
  then show ?case by (cases "ps = []") (simp_all add: join_Cons)
qed simp

lemma extent_folder: "extent (Folder p) path \<longleftrightarrow> under_or_eq path p"
proof
  assume "extent (Folder p) path"
  then obtain qs where qs: "components path = components p @ qs" by (auto simp: prefix_def)
  show "under_or_eq path p"
  proof (cases "qs = []")
    case True
    then show ?thesis using qs by (simp add: components_inject under_or_eq_iff)
  next
    case False
    have "path = join ''/'' (components p @ qs)" using qs join_split_chr [of "CHR ''/''" path] by simp
    also have "\<dots> = p @ ''/'' @ join ''/'' qs"
      using False join_split_chr [of "CHR ''/''" p] by (simp add: join_components)
    finally show ?thesis by (auto simp: under_or_eq_iff)
  qed
qed (auto simp: under_or_eq_iff components_append)

lemma extent_absence:
  assumes "CHR ''/'' \<notin> set name"
  shows "extent (Absence parent name) path \<longleftrightarrow> path = join_edge parent name"
proof -
  have "components (join_edge parent name) = (if parent = [] then [] else components parent) @ [name]"
    using assms components_append [of parent name] by (simp add: join_edge_def split_chr_none)
  then have "extent (Absence parent name) path \<longleftrightarrow> components path = components (join_edge parent name)" by simp
  then show ?thesis by (simp only: components_inject)
qed

lemma intersect_iff_shared:
  assumes "proper a" "proper b"
  shows "spatial_intersect a b \<longleftrightarrow> (\<exists>path. extent a path \<and> extent b path)"
proof -
  have folders: "(under_or_eq p q \<or> under_or_eq q p) \<longleftrightarrow> (\<exists>x. under_or_eq x p \<and> under_or_eq x q)" for p q
    using under_comparable under_or_eq_iff by blast
  have edge: "under_or_eq (join_edge parent name) p" if "under_or_eq parent p" "p \<noteq> []" "name \<noteq> []"
    for parent name p
    using that under_trans [OF under_join that(1)] by (cases "parent = []") (auto simp: under_or_eq_iff)
  have some: "\<exists>x. under_or_eq x p" for p by (auto simp: under_or_eq_iff)
  show ?thesis
    using assms some folders edge join_edge_inject
    by (cases a; cases b)
      (auto simp: proper_def extent_folder extent_absence simp del: extent.simps(2,4))
qed

section \<open>The table excludes\<close>

definition clear_of :: "region list \<Rightarrow> region list \<Rightarrow> bool" where
  "clear_of xs ys \<longleftrightarrow> (\<forall>a \<in> set xs. \<forall>b \<in> set ys. \<not> conflicts a b)"

definition exclusive :: "'x table \<Rightarrow> bool" where
  "exclusive held \<longleftrightarrow> sorted_wrt (\<lambda>h g. clear_of (snd h) (snd g)) held"

lemma reserve_exclusive: "exclusive held \<Longrightarrow> reserve txn reads writes held = Some held' \<Longrightarrow> exclusive held'"
  by (auto simp: exclusive_def reserve_def blocked_def clear_of_def Let_def sorted_wrt_append
      simp del: set_append split: if_splits)

lemma release_exclusive: "exclusive held \<Longrightarrow> exclusive (release txn held)"
  by (simp add: exclusive_def release_def sorted_wrt_filter)

lemma steps_exclusive: "table_step\<^sup>*\<^sup>* held held' \<Longrightarrow> exclusive held \<Longrightarrow> exclusive held'"
  by (induction rule: rtranclp_induct) (auto intro: reserve_exclusive release_exclusive)

lemma exclusive_pair:
  assumes "exclusive held" "i < length held" "j < length held" "i \<noteq> j"
  shows "clear_of (snd (held ! i)) (snd (held ! j))"
proof -
  have "clear_of (snd (held ! i)) (snd (held ! j))" if "i < j" "j < length held" for i j
    using assms(1) that unfolding exclusive_def by (rule sorted_wrt_nth_less)
  note at = this
  show ?thesis
  proof (cases "i < j")
    case False
    with assms(4) have "j < i" by simp
    from at [OF this assms(2)] show ?thesis unfolding clear_of_def using conflicts_sym by blast
  qed (use at assms in blast)
qed

section \<open>Properties\<close>

text \<open>
  Claim C27. Two regions conflict exactly when they are of one corpus, one of them is written, and
  some path belongs to both extents, a folder's extent being every path that starts with its
  components. This is for proper regions: a folder is not the empty prefix, which claims nothing
  (\<open>top_folder_claims_nothing\<close>), and the name of an absent entry is one component.
\<close>

theorem conflicts_iff_shared_path:
  assumes "proper (rg_spatial a)" "proper (rg_spatial b)"
  shows "conflicts a b \<longleftrightarrow>
    rg_corpus a = rg_corpus b \<and> (rg_kind a = WriteRegion \<or> rg_kind b = WriteRegion) \<and>
    (\<exists>path. extent (rg_spatial a) path \<and> extent (rg_spatial b) path)"
  using intersect_iff_shared [OF assms] region_kind.exhaust by (auto simp: conflicts_def)

definition sample_folder :: region where
  "sample_folder = \<lparr>rg_corpus = ''c'', rg_kind = WriteRegion, rg_spatial = Folder ''a''\<rparr>"

definition sample_absence :: region where
  "sample_absence = \<lparr>rg_corpus = ''c'', rg_kind = ReadRegion, rg_spatial = Absence ''a/b'' ''x.md''\<rparr>"

theorem conflicts_iff_shared_path_witness:
  "conflicts sample_folder sample_absence =
     (\<exists>path. extent (Folder ''a'') path \<and> extent (Absence ''a/b'' ''x.md'') path)"
  using conflicts_iff_shared_path [of sample_folder sample_absence]
  by (simp add: sample_folder_def sample_absence_def proper_def)

text \<open>
  Claim C26. Under every interleaving of reservations and releases that starts from the empty
  table, two proper regions of one corpus that belong to transactions admitted together, the one
  written and the other read or written, never share a path. A region is proper unless it is a
  folder spelled with the empty prefix or an absent entry whose name is not one component.
\<close>

theorem admitted_are_disjoint:
  assumes "table_step\<^sup>*\<^sup>* [] held" "i < length held" "j < length held" "i \<noteq> j"
    and "a \<in> set (snd (held ! i))" "b \<in> set (snd (held ! j))" "rg_corpus a = rg_corpus b"
    and "rg_kind a = WriteRegion" "proper (rg_spatial a)" "proper (rg_spatial b)"
  shows "\<not> (extent (rg_spatial a) path \<and> extent (rg_spatial b) path)"
proof -
  have "exclusive held" using assms(1) by (rule steps_exclusive) (simp add: exclusive_def)
  then have "clear_of (snd (held ! i)) (snd (held ! j))" using assms(2-4) by (rule exclusive_pair)
  then have "\<not> conflicts a b" using assms(5,6) unfolding clear_of_def by blast
  with assms show ?thesis
    using intersect_iff_shared [OF assms(9,10)] by (auto simp: conflicts_def)
qed

definition sample_file :: "str \<Rightarrow> region" where
  "sample_file p = \<lparr>rg_corpus = ''c'', rg_kind = WriteRegion, rg_spatial = FileAt p\<rparr>"

theorem admitted_are_disjoint_witness:
  "\<not> (extent (rg_spatial (sample_file ''a.md'')) ''a.md'' \<and> extent (rg_spatial (sample_file ''b.md'')) ''a.md'')"
proof (rule admitted_are_disjoint [where i = 0 and j = 1 and
      held = "[(1 :: nat, [sample_file ''a.md'']), (2, [sample_file ''b.md''])]"])
  have "table_step [] [(1 :: nat, [sample_file ''a.md''])]"
    by (rule table_step.acquire [where txn = 1 and reads = "[]" and writes = "[sample_file ''a.md'']"])
      (simp add: reserve_def blocked_def)
  moreover have "table_step [(1 :: nat, [sample_file ''a.md''])]
      [(1, [sample_file ''a.md'']), (2, [sample_file ''b.md''])]"
    by (rule table_step.acquire [where txn = 2 and reads = "[]" and writes = "[sample_file ''b.md'']"])
      (simp add: reserve_def blocked_def conflicts_def sample_file_def)
  ultimately show "table_step\<^sup>*\<^sup>* [] [(1 :: nat, [sample_file ''a.md'']), (2, [sample_file ''b.md''])]"
    by auto
qed (simp_all add: sample_file_def proper_def)

text \<open>A region of the top folder, spelled with the empty prefix, claims nothing inside it.\<close>

lemma top_folder_claims_nothing:
  "\<not> conflicts \<lparr>rg_corpus = c, rg_kind = WriteRegion, rg_spatial = Folder []\<rparr>
       \<lparr>rg_corpus = c, rg_kind = WriteRegion, rg_spatial = FileAt ''a.md''\<rparr>"
  by (simp add: conflicts_def under_or_eq_def)

text \<open>A run of the owner, one call after another.\<close>

type_synonym apply_call = "delta_file list \<times> str option \<times> str option \<times> (str \<Rightarrow> str)"

definition owner_run :: "apply_call list \<Rightarrow> owner \<Rightarrow> owner" where
  "owner_run calls o1 = fold (\<lambda>(fs, actor, now, g) o2. snd (owner_apply fs actor now g o2)) calls o1"

definition owner_ok :: "str \<Rightarrow> owner \<Rightarrow> bool" where
  "owner_ok birth o1 \<longleftrightarrow>
     chain_is_contiguous (ow_frames o1) \<and> map seq_of (ow_frames o1) = [1..<Suc (ow_seq o1)] \<and>
     (if ow_frames o1 = [] then ow_tip o1 = birth
      else root_before (hd (ow_frames o1)) = birth \<and> root_after (last (ow_frames o1)) = ow_tip o1)"

lemma chain_snoc: "chain_is_contiguous (fs @ [g]) \<longleftrightarrow>
    chain_is_contiguous fs \<and> (fs \<noteq> [] \<longrightarrow> root_before g = root_after (last fs))"
  by (induction fs rule: chain_is_contiguous.induct) auto

lemma owner_apply_ok: "owner_ok birth o1 \<Longrightarrow> owner_ok birth (snd (owner_apply fs actor now g o1))"
  by (auto simp: owner_ok_def owner_apply_def Let_def assemble_delta_def chain_snoc hd_append split: if_splits)

text \<open>
  Whatever the folds do, the frames an owner assigns are numbered from one without a
  gap and form one chain of roots from the root it was born at to its tip.
\<close>

theorem owner_chain:
  "let o1 = owner_run calls (owner_new epoch tip) in
   chain_is_contiguous (ow_frames o1) \<and> map seq_of (ow_frames o1) = [1..<Suc (length calls)] \<and>
   ow_tip o1 = foldl (\<lambda>r (fs, actor, now, g). g r) tip calls"
proof -
  have "owner_ok tip (owner_run calls o2) \<and> ow_seq (owner_run calls o2) = ow_seq o2 + length calls \<and>
      ow_tip (owner_run calls o2) = foldl (\<lambda>r (fs, actor, now, g). g r) (ow_tip o2) calls"
    if "owner_ok tip o2" for o2
    using that
  proof (induction calls arbitrary: o2)
    case (Cons c calls)
    obtain fs actor now g where c: "c = (fs, actor, now, g)" by (cases c)
    have "owner_ok tip (snd (owner_apply fs actor now g o2))" using Cons.prems by (rule owner_apply_ok)
    from Cons.IH [OF this] show ?case
      by (simp add: c owner_run_def owner_apply_def Let_def)
  qed (simp add: owner_run_def)
  from this [of "owner_new epoch tip"] show ?thesis
    by (simp add: owner_ok_def owner_new_def Let_def)
qed

end
