(* ===== verification/Publish.thy ===== *)
theory Publish
  imports Intent_Laws Regions "HOL-Library.Word"
begin

text \<open>
  The publish path and the recovery of \<^verbatim>\<open>crates/wire-serve/src/publish.rs\<close>: a staged transaction
  is admitted, its destinations are verified against what was planned, the decision is made
  durable by an intent, the staged files are renamed into place, the owner assigns the frame and
  the intent is finalized and reclaimed; recovery finishes or takes back what a crash cut off.
  The clock readings of a receipt are left out. A crash loses the owner and the table, so a run
  that is cut off returns neither.
\<close>

section \<open>Transaction ids\<close>

type_synonym txn_id = "128 word"

text \<open>\<^verbatim>\<open>{:032x}\<close>: the last \<open>n\<close> hexadecimal digits.\<close>

fun hex_digits :: "nat \<Rightarrow> txn_id \<Rightarrow> str" where
  "hex_digits 0 t = []"
| "hex_digits (Suc n) t = hex_digits n (t div 16) @ [hex_table ! unat (t mod 16)]"

definition txn_hex :: "txn_id \<Rightarrow> str" where
  "txn_hex t = hex_digits 32 t"

definition txn_from_hex :: "str \<Rightarrow> txn_id option" where
  "txn_from_hex s =
     (if length s \<noteq> 32 then None
      else map_option of_nat (parse_uint 16 (2 ^ 128 - 1) s))"

section \<open>Staged transactions\<close>

record dest_image =
  de_rel :: path
  de_old :: str
  de_new :: str
  de_tmp :: path

record staged_txn =
  st_txn :: txn_id
  st_epoch :: txn_id
  st_reads :: "region list"
  st_writes :: "region list"
  st_dests :: "dest_image list"
  st_files :: "delta_file list"
  st_actor :: "str option"
  st_now :: "str option"
  st_policy :: policy
  st_drop_tmp :: bool

record publish_receipt =
  pr_txn :: txn_id
  pr_frame :: delta_frame

datatype publish_error = Conflict path | IoFailed io_error | CommitUnknown txn_id io_error

text \<open>\<^verbatim>\<open>path.strip_prefix(root)\<close> with the path itself where it is not below the root.\<close>

definition strip_root :: "path \<Rightarrow> path \<Rightarrow> path" where
  "strip_root root p = (if prefix root p then drop (length root) p else p)"

section \<open>The publish path\<close>

fun reverify :: "path \<Rightarrow> dest_image list \<Rightarrow> (publish_error + unit) io" where
  "reverify root [] = return (Inr ())"
| "reverify root (d # ds) = bind (attempted (read_file (root @ de_rel d)))
     (\<lambda>r. case (case r of Inr b \<Rightarrow> Inr b | Inl NotFound \<Rightarrow> Inr [] | Inl e \<Rightarrow> Inl e) of
        Inl e \<Rightarrow> return (Inl (IoFailed e))
      | Inr live \<Rightarrow>
          if live \<noteq> de_old d then return (Inl (Conflict (de_rel d))) else reverify root ds)"

definition decide_member :: "(str \<Rightarrow> str) \<Rightarrow> path \<Rightarrow> str \<Rightarrow> nat \<times> dest_image \<Rightarrow> intent_member io" where
  "decide_member hash root txn = (\<lambda>(i, d).
     andthen (sync_file (de_tmp d))
     (bind (store_images root txn i (de_old d) (de_new d))
     (\<lambda>(old_store, new_store). return
       \<lparr>im_rel = de_rel d, im_old = hash (de_old d), im_new = hash (de_new d),
        im_tmp = strip_root root (de_tmp d), im_old_store = old_store, im_new_store = new_store\<rparr>)))"

definition decide :: "(str \<Rightarrow> str) \<Rightarrow> path \<Rightarrow> staged_txn \<Rightarrow> intent io" where
  "decide hash root t =
     (let txn = txn_hex (st_txn t) in
      bind (gather (decide_member hash root txn) (enumerate 0 (st_dests t)))
      (\<lambda>ms. let r = \<lparr>it_epoch = txn_hex (st_epoch t), it_txn = txn, it_phase = Decided,
                    it_policy = st_policy t, it_members = ms\<rparr> in
       andthen (create_decided hash root r) (return r)))"

definition rename_dest :: "path \<Rightarrow> dest_image \<Rightarrow> unit io" where
  "rename_dest root d =
     andthen (create_dirs (butlast (root @ de_rel d)))
     (andthen (rename_file (de_tmp d) (root @ de_rel d))
              sync_handle)"

definition rename_all :: "path \<Rightarrow> dest_image list \<Rightarrow> unit io" where
  "rename_all root ds = each_do (rename_dest root) ds"

definition drop_temps :: "dest_image list \<Rightarrow> unit io" where
  "drop_temps ds = each_do (\<lambda>d. ignored (remove_file (de_tmp d))) ds"

type_synonym published = "(publish_error + publish_receipt) \<times> owner \<times> txn_id table"

text \<open>From the durable decision on: no error is a refusal any more.\<close>

definition carry_out :: "(str \<Rightarrow> str) \<Rightarrow> path \<Rightarrow> owner \<Rightarrow> staged_txn \<Rightarrow> (str \<Rightarrow> str) \<Rightarrow> intent \<Rightarrow>
    ((publish_error + publish_receipt) \<times> owner) io" where
  "carry_out hash root ow t refold r =
     andthen (if st_drop_tmp t then drop_temps (st_dests t) else return ())
     (bind (attempted (rename_all root (st_dests t)))
     (\<lambda>renamed. case renamed of
        Inl e \<Rightarrow> return (Inl (CommitUnknown (st_txn t) e), ow)
      | Inr _ \<Rightarrow>
          (let (frame, ow') = owner_apply (st_files t) (st_actor t) (st_now t) refold ow in
           bind (attempted (finalize hash root r))
           (\<lambda>finalized. case finalized of
              Inl e \<Rightarrow> return (Inl (CommitUnknown (st_txn t) e), ow')
            | Inr _ \<Rightarrow> andthen (ignored (reclaim root (txn_hex (st_txn t))))
                (return (Inr \<lparr>pr_txn = st_txn t, pr_frame = frame\<rparr>, ow'))))))"

definition publish_admitted :: "(str \<Rightarrow> str) \<Rightarrow> path \<Rightarrow> owner \<Rightarrow> staged_txn \<Rightarrow> (str \<Rightarrow> str) \<Rightarrow>
    ((publish_error + publish_receipt) \<times> owner) io" where
  "publish_admitted hash root ow t refold =
     bind (reverify root (st_dests t))
     (\<lambda>verified. case verified of
        Inl e \<Rightarrow> return (Inl e, ow)
      | Inr _ \<Rightarrow>
          bind (attempted (decide hash root t))
          (\<lambda>decided. case decided of
             Inl e \<Rightarrow> return (Inl (IoFailed e), ow)
           | Inr r \<Rightarrow> carry_out hash root ow t refold r))"

text \<open>The reservation is released on every way out. A caller that has to wait does not go on.\<close>

definition publish :: "(str \<Rightarrow> str) \<Rightarrow> path \<Rightarrow> txn_id table \<Rightarrow> owner \<Rightarrow> staged_txn \<Rightarrow> (str \<Rightarrow> str) \<Rightarrow>
    published io" where
  "publish hash root held ow t refold =
     (case reserve (st_txn t) (st_reads t) (st_writes t) held of
        None \<Rightarrow> halt
      | Some held' \<Rightarrow>
          bind (publish_admitted hash root ow t refold)
          (\<lambda>(res, ow'). return (res, ow', release (st_txn t) held')))"

fun publish_members :: "(str \<Rightarrow> str) \<Rightarrow> path \<Rightarrow> txn_id table \<Rightarrow> owner \<Rightarrow> (str \<Rightarrow> str) \<Rightarrow> staged_txn list \<Rightarrow>
    ((publish_error + publish_receipt) list \<times> owner \<times> txn_id table) io" where
  "publish_members hash root held ow refold [] = return ([], ow, held)"
| "publish_members hash root held ow refold (m # ms) =
     bind (publish hash root held ow m refold)
     (\<lambda>(res, ow', held'). bind (publish_members hash root held' ow' refold ms)
     (\<lambda>(rs, ow'', held''). return (res # rs, ow'', held'')))"

definition publish_group :: "(str \<Rightarrow> str) \<Rightarrow> path \<Rightarrow> txn_id table \<Rightarrow> owner \<Rightarrow> txn_id \<Rightarrow> (str \<Rightarrow> str) \<Rightarrow>
    staged_txn list \<Rightarrow> ((publish_error + publish_receipt) list \<times> owner \<times> txn_id table) io" where
  "publish_group hash root held ow gid refold ms =
     bind (attempted (create_group hash root
       \<lparr>gm_gid = txn_hex gid, gm_members = map (\<lambda>m. txn_hex (st_txn m)) ms\<rparr>))
     (\<lambda>r. case r of
        Inl e \<Rightarrow> return (map (\<lambda>_. Inl (IoFailed e)) ms, ow, held)
      | Inr _ \<Rightarrow> publish_members hash root held ow refold ms)"

section \<open>Recovery\<close>

datatype recovery_outcome = Clean | Aborted | Restored | Completed | Unknown | Ambiguous "path list"

record member_recovery =
  mr_txn :: str
  mr_outcome :: recovery_outcome

definition recover_decided :: "(str \<Rightarrow> str) \<Rightarrow> path \<Rightarrow> intent \<Rightarrow> dest_class list \<Rightarrow> member_recovery io" where
  "recover_decided hash root r classes =
     (let neither = map im_rel (map fst (filter (\<lambda>(m, c). c = Neither) (zip (it_members r) classes)));
          outcome = (\<lambda>o1. return \<lparr>mr_txn = it_txn r, mr_outcome = o1\<rparr>) in
      if neither \<noteq> [] then
        andthen (quarantine root (it_txn r) neither) (outcome (Ambiguous neither))
      else if list_all (\<lambda>c. c = Old \<or> c = AbsentOld) classes then
        andthen (ignored (reclaim root (it_txn r))) (outcome Aborted)
      else case it_policy r of
        Restore \<Rightarrow>
          andthen (each_do (restore_member hash root) (it_members r))
          (andthen (ignored (reclaim root (it_txn r))) (outcome Restored))
      | Forward \<Rightarrow>
          andthen (each_do (forward_member root) (it_members r))
          (andthen (finalize hash root r)
          (andthen (ignored (reclaim root (it_txn r))) (outcome Completed))))"

definition recover_one :: "(str \<Rightarrow> str) \<Rightarrow> path \<Rightarrow> intent \<Rightarrow> member_recovery io" where
  "recover_one hash root r =
     (if it_phase r = Applied then
        andthen (ignored (reclaim root (it_txn r))) (return \<lparr>mr_txn = it_txn r, mr_outcome = Clean\<rparr>)
      else bind (gather (classify_dest hash root) (it_members r)) (recover_decided hash root r))"

definition recover_row :: "(str \<Rightarrow> str) \<Rightarrow> path \<Rightarrow> found \<Rightarrow> member_recovery io" where
  "recover_row hash root row =
     (case row of
        Indeterminate p \<Rightarrow> return
          \<lparr>mr_txn = (case file_stem p of None \<Rightarrow> ''indeterminate'' | Some s \<Rightarrow> s), mr_outcome = Unknown\<rparr>
      | FoundIntent r \<Rightarrow> recover_one hash root r)"

definition recover :: "(str \<Rightarrow> str) \<Rightarrow> path \<Rightarrow> member_recovery list io" where
  "recover hash root = bind (scan hash root) (gather (recover_row hash root))"

end
