(* ===== verification/Publish_Laws.thy ===== *)
theory Publish_Laws
  imports Publish
begin

text \<open>
  Laws of publication: where the files of a transaction lie, the states its destinations and its
  intent can be in, and what each step of the publish path and of recovery does to them, cut off
  or not.
\<close>

section \<open>Names of files\<close>

abbreviation dest :: "path \<Rightarrow> dest_image \<Rightarrow> path" where "dest root d \<equiv> root @ de_rel d"

definition ipath :: "path \<Rightarrow> staged_txn \<Rightarrow> path" where
  "ipath root t = intent_path root (txn_hex (st_txn t))"

definition home :: "path \<Rightarrow> staged_txn \<Rightarrow> path" where
  "home root t = intent_dir root (txn_hex (st_txn t))"

definition store :: "path \<Rightarrow> staged_txn \<Rightarrow> nat \<Rightarrow> str \<Rightarrow> path" where
  "store root t i side = root @ store_path (txn_hex (st_txn t)) i side"

lemma length_hex_digits: "length (hex_digits n t) = n"
  by (induction n arbitrary: t) simp_all

lemma length_txn_hex: "length (txn_hex t) = 32"
  by (simp add: txn_hex_def length_hex_digits)

lemma hex_digits_digits: "c \<in> set (hex_digits n t) \<Longrightarrow> hex_digit c"
proof (induction n arbitrary: t)
  case (Suc n)
  have "unat (t mod 16) < 16" by (simp add: unat_mod)
  then show ?case using Suc hex_table_digit by auto
qed simp

lemma txn_hex_digits: "c \<in> set (txn_hex t) \<Longrightarrow> hex_digit c"
  unfolding txn_hex_def by (rule hex_digits_digits)

lemma txn_hex_nonempty: "txn_hex t \<noteq> []"
  using length_txn_hex [of t] by (metis list.size(3) zero_neq_numeral)

lemma no_dot: "CHR ''.'' \<notin> set (txn_hex t)" "CHR ''.'' \<notin> set (to_dec n)"
  using txn_hex_digits [of "CHR ''.''" t] to_dec_no [of "CHR ''.''" n]
  by (auto simp: hex_digit_def ascii_digit_def byte_def)

lemma name_parts_dot:
  "l \<noteq> [] \<Longrightarrow> CHR ''.'' \<notin> set r \<Longrightarrow> l @ ''.'' @ r \<noteq> ''..'' \<Longrightarrow> name_parts (l @ ''.'' @ r) = (l, Some r)"
  by (simp add: name_parts_def rsplit_once_Some [of _ _ l r, THEN iffD2])

lemma scratch_snoc:
  "l \<noteq> [] \<Longrightarrow> CHR ''.'' \<notin> set l \<Longrightarrow> CHR ''.'' \<notin> set r \<Longrightarrow>
   with_extension (p @ [l @ ''.'' @ r]) e = p @ [l @ ''.'' @ e]"
  using name_parts_dot [of l r] by (cases l) (auto simp: with_extension_def)

lemma scratch_ipath: "scratch (ipath root t) = root @ intents_dir @ [txn_hex (st_txn t) @ ''.tmp-intent'']"
  using scratch_snoc [of "txn_hex (st_txn t)" "''intent''" "root @ intents_dir" "''tmp-intent''"]
    no_dot(1) txn_hex_nonempty by (simp add: ipath_def intent_path_def)

lemma scratch_store:
  "CHR ''.'' \<notin> set side \<Longrightarrow> scratch (store root t i side) = home root t @ [to_dec i @ ''.tmp-intent'']"
  using scratch_snoc [of "to_dec i" side "root @ intents_dir @ [txn_hex (st_txn t)]" "''tmp-intent''"]
    no_dot(2) [of i] by (simp add: store_def store_path_def home_def intent_dir_def)

lemma store_home: "store root t i side = home root t @ [to_dec i @ ''.'' @ side]"
  by (simp add: store_def store_path_def home_def intent_dir_def)

lemma store_inject:
  assumes "CHR ''.'' \<notin> set a" "CHR ''.'' \<notin> set b"
  shows "store root t i a = store root t j b \<longleftrightarrow> i = j \<and> a = b"
proof
  assume "store root t i a = store root t j b"
  then have "rsplit_once CHR ''.'' (to_dec i @ ''.'' @ a) = rsplit_once CHR ''.'' (to_dec j @ ''.'' @ b)"
    by (simp add: store_home)
  moreover have "rsplit_once CHR ''.'' (to_dec i @ ''.'' @ a) = Some (to_dec i, a)"
    "rsplit_once CHR ''.'' (to_dec j @ ''.'' @ b) = Some (to_dec j, b)"
    using assms by (simp_all add: rsplit_once_Some)
  ultimately show "i = j \<and> a = b" by simp
qed simp

lemma ipath_ext: "path_extension (ipath root t) = Some ''intent''"
  using name_parts_dot [of "txn_hex (st_txn t)" "''intent''"] txn_hex_nonempty
  by (simp add: path_extension_def ipath_def intent_path_def)

lemma ipath_inject: "ipath root t = ipath root t' \<longleftrightarrow> txn_hex (st_txn t) = txn_hex (st_txn t')"
  by (simp add: ipath_def intent_path_def)

lemma ipath_not_home: "\<not> prefix (home root t) (ipath root t')"
  using no_dot(1) [of "st_txn t"] length_txn_hex [of "st_txn t"] length_txn_hex [of "st_txn t'"]
  by (auto simp: home_def ipath_def intent_dir_def intent_path_def dest!: arg_cong [where f = length])

lemma scratch_ipath_not_home: "\<not> prefix (home root t) (scratch (ipath root t'))"
  using length_txn_hex [of "st_txn t"] length_txn_hex [of "st_txn t'"]
  by (auto simp: scratch_ipath home_def intent_dir_def dest!: arg_cong [where f = length])

lemma scratch_ipath_not_ipath: "scratch (ipath root t) \<noteq> ipath root t'"
  using length_txn_hex [of "st_txn t"] length_txn_hex [of "st_txn t'"]
  unfolding scratch_ipath
  by (auto simp: ipath_def intent_path_def dest!: arg_cong [where f = length])

lemma under_intents:
  "prefix (root @ intents_dir) (ipath root t)" "prefix (root @ intents_dir) (scratch (ipath root t))"
  "prefix (home root t) q \<Longrightarrow> prefix (root @ intents_dir) q"
  unfolding scratch_ipath
  by (auto simp: ipath_def intent_path_def home_def intent_dir_def prefix_def)

section \<open>Transactions that can be carried out\<close>

definition member_of :: "(str \<Rightarrow> str) \<Rightarrow> path \<Rightarrow> staged_txn \<Rightarrow> nat \<times> dest_image \<Rightarrow> intent_member" where
  "member_of hash root t = (\<lambda>(i, d).
     \<lparr>im_rel = de_rel d, im_old = hash (de_old d), im_new = hash (de_new d),
      im_tmp = strip_root root (de_tmp d),
      im_old_store = store_path (txn_hex (st_txn t)) i ''old'',
      im_new_store = store_path (txn_hex (st_txn t)) i ''new''\<rparr>)"

definition intent_of :: "(str \<Rightarrow> str) \<Rightarrow> path \<Rightarrow> staged_txn \<Rightarrow> intent" where
  "intent_of hash root t =
     \<lparr>it_epoch = txn_hex (st_epoch t), it_txn = txn_hex (st_txn t), it_phase = Decided,
      it_policy = st_policy t, it_members = map (member_of hash root t) (enumerate 0 (st_dests t))\<rparr>"

definition images :: "staged_txn \<Rightarrow> str set" where
  "images t = insert [] (de_old ` set (st_dests t) \<union> de_new ` set (st_dests t))"

text \<open>
  The record can be written; no path of it contains the checksum's own mark; staged files,
  destinations and the scratch files beside them are apart and outside the intents; and the
  hash tells the images of the transaction apart.
\<close>

definition wf_txn :: "(str \<Rightarrow> str) \<Rightarrow> path \<Rightarrow> staged_txn \<Rightarrow> bool" where
  "wf_txn hash root t \<longleftrightarrow>
     unit_digests hash \<and> sound_intent (intent_of hash root t) \<and>
     \<not> sublist ''checksum='' (terminated (intent_lines (intent_of hash root t))) \<and>
     distinct (map de_tmp (st_dests t) @ map (dest root) (st_dests t)) \<and>
     (\<forall>d \<in> set (st_dests t). \<forall>d' \<in> set (st_dests t). scratch (dest root d) \<noteq> dest root d') \<and>
     (\<forall>d \<in> set (st_dests t). \<not> prefix (root @ intents_dir) (dest root d) \<and>
        \<not> prefix (root @ intents_dir) (scratch (dest root d)) \<and>
        \<not> prefix (root @ intents_dir) (de_tmp d)) \<and>
     inj_on hash (images t)"

lemma wf_dests:
  assumes "wf_txn hash root t" "d \<in> set (st_dests t)"
  shows "dest root d \<noteq> ipath root t'" "dest root d \<noteq> scratch (ipath root t')"
    "\<not> prefix (home root t') (dest root d)" "scratch (dest root d) \<noteq> ipath root t'"
    "\<not> prefix (home root t') (scratch (dest root d))" "de_tmp d \<noteq> ipath root t'"
    "de_tmp d \<noteq> scratch (ipath root t')" "\<not> prefix (home root t') (de_tmp d)"
  using assms under_intents unfolding wf_txn_def by metis+

lemma wf_scratch:
  "wf_txn hash root t \<Longrightarrow> d \<in> set (st_dests t) \<Longrightarrow> d' \<in> set (st_dests t) \<Longrightarrow>
   scratch (dest root d) \<noteq> dest root d'"
  by (simp add: wf_txn_def)

lemma wf_tmp_dest:
  "wf_txn hash root t \<Longrightarrow> d \<in> set (st_dests t) \<Longrightarrow> d' \<in> set (st_dests t) \<Longrightarrow> de_tmp d \<noteq> dest root d'"
  by (auto simp: wf_txn_def)

lemma wf_dest_inject:
  "wf_txn hash root t \<Longrightarrow> d \<in> set (st_dests t) \<Longrightarrow> d' \<in> set (st_dests t) \<Longrightarrow>
   dest root d = dest root d' \<Longrightarrow> d = d'"
  by (auto simp: wf_txn_def distinct_map dest!: inj_onD)

lemma wf_tmp_inject:
  "wf_txn hash root t \<Longrightarrow> d \<in> set (st_dests t) \<Longrightarrow> d' \<in> set (st_dests t) \<Longrightarrow>
   de_tmp d = de_tmp d' \<Longrightarrow> d = d'"
  by (auto simp: wf_txn_def distinct_map dest!: inj_onD)

section \<open>States of a transaction\<close>

definition is_old :: "path \<Rightarrow> dest_image \<Rightarrow> contents \<Rightarrow> bool" where
  "is_old root d f \<longleftrightarrow> f (dest root d) = Some (de_old d) \<or> (de_old d = [] \<and> f (dest root d) = None)"

definition is_new :: "path \<Rightarrow> dest_image \<Rightarrow> contents \<Rightarrow> bool" where
  "is_new root d f \<longleftrightarrow> f (dest root d) = Some (de_new d)"

definition all_old :: "path \<Rightarrow> staged_txn \<Rightarrow> contents \<Rightarrow> bool" where
  "all_old root t f \<longleftrightarrow> (\<forall>d \<in> set (st_dests t). is_old root d f)"

definition all_new :: "path \<Rightarrow> staged_txn \<Rightarrow> contents \<Rightarrow> bool" where
  "all_new root t f \<longleftrightarrow> (\<forall>d \<in> set (st_dests t). is_new root d f)"

definition mixed :: "path \<Rightarrow> staged_txn \<Rightarrow> contents \<Rightarrow> bool" where
  "mixed root t f \<longleftrightarrow> (\<forall>d \<in> set (st_dests t). is_old root d f \<or> is_new root d f)"

definition stores :: "path \<Rightarrow> staged_txn \<Rightarrow> contents \<Rightarrow> bool" where
  "stores root t f \<longleftrightarrow> (\<forall>(i, d) \<in> set (enumerate 0 (st_dests t)).
     f (store root t i ''old'') = Some (de_old d) \<and> f (store root t i ''new'') = Some (de_new d))"

definition reads_as :: "(str \<Rightarrow> str) \<Rightarrow> path \<Rightarrow> staged_txn \<Rightarrow> phase \<Rightarrow> contents \<Rightarrow> bool" where
  "reads_as hash root t ph f \<longleftrightarrow>
     (\<exists>c. f (ipath root t) = Some c \<and> decode_intent hash c = Some (intent_of hash root t\<lparr>it_phase := ph\<rparr>))"

text \<open>No record can be read where the intent is expected.\<close>

definition unread :: "(str \<Rightarrow> str) \<Rightarrow> path \<Rightarrow> staged_txn \<Rightarrow> contents \<Rightarrow> bool" where
  "unread hash root t f \<longleftrightarrow> (\<forall>c. f (ipath root t) = Some c \<longrightarrow> decode_intent hash c = None)"

definition pending :: "(str \<Rightarrow> str) \<Rightarrow> path \<Rightarrow> staged_txn \<Rightarrow> contents \<Rightarrow> bool" where
  "pending hash root t f \<longleftrightarrow> mixed root t f \<and> stores root t f \<and> reads_as hash root t Decided f"

definition landed :: "(str \<Rightarrow> str) \<Rightarrow> path \<Rightarrow> staged_txn \<Rightarrow> contents \<Rightarrow> bool" where
  "landed hash root t f \<longleftrightarrow> all_new root t f \<and> (f (ipath root t) = None \<or> reads_as hash root t Applied f)"

definition taken_back :: "(str \<Rightarrow> str) \<Rightarrow> path \<Rightarrow> staged_txn \<Rightarrow> contents \<Rightarrow> bool" where
  "taken_back hash root t f \<longleftrightarrow> all_old root t f \<and> unread hash root t f"

text \<open>What a transaction that was cut off after its decision can have left.\<close>

definition recoverable :: "(str \<Rightarrow> str) \<Rightarrow> path \<Rightarrow> staged_txn \<Rightarrow> contents \<Rightarrow> bool" where
  "recoverable hash root t f \<longleftrightarrow> pending hash root t f \<or> landed hash root t f \<or> taken_back hash root t f"

text \<open>What a refused one has left: its destinations as they were, \<open>f0\<close>.\<close>

definition refused :: "(str \<Rightarrow> str) \<Rightarrow> path \<Rightarrow> staged_txn \<Rightarrow> contents \<Rightarrow> contents \<Rightarrow> bool" where
  "refused hash root t f0 f \<longleftrightarrow>
     (\<forall>d \<in> set (st_dests t). f (dest root d) = f0 (dest root d)) \<and>
     (unread hash root t f \<or> (all_old root t f0 \<and> stores root t f \<and> reads_as hash root t Decided f))"

definition footprint :: "path \<Rightarrow> staged_txn \<Rightarrow> path set" where
  "footprint root t =
     {q. prefix (home root t) q} \<union> {ipath root t, scratch (ipath root t)} \<union>
     (\<Union>d \<in> set (st_dests t). {dest root d, scratch (dest root d), de_tmp d})"

definition framed :: "path \<Rightarrow> staged_txn \<Rightarrow> contents \<Rightarrow> contents \<Rightarrow> bool" where
  "framed root t f0 f \<longleftrightarrow> (\<forall>q. q \<notin> footprint root t \<longrightarrow> f q = f0 q)"

lemma framed_upd [simp]: "q \<in> footprint root t \<Longrightarrow> framed root t f0 (f(q := x)) = framed root t f0 f"
  by (auto simp: framed_def)

lemma framed_self [simp]: "framed root t f f"
  by (simp add: framed_def)

lemma framed_trans: "framed root t f g \<Longrightarrow> framed root t g h \<Longrightarrow> framed root t f h"
  by (simp add: framed_def)

lemma in_footprint [simp]:
  "ipath root t \<in> footprint root t" "scratch (ipath root t) \<in> footprint root t"
  "prefix (home root t) q \<Longrightarrow> q \<in> footprint root t"
  "d \<in> set (st_dests t) \<Longrightarrow> dest root d \<in> footprint root t"
  "d \<in> set (st_dests t) \<Longrightarrow> scratch (dest root d) \<in> footprint root t"
  "d \<in> set (st_dests t) \<Longrightarrow> de_tmp d \<in> footprint root t"
  by (auto simp: footprint_def)

lemma member_dest: "(i, d) \<in> set (enumerate n (st_dests t)) \<Longrightarrow> d \<in> set (st_dests t)"
  by (metis in_set_enumerate_eq fst_conv snd_conv nth_mem add_diff_inverse_nat less_diff_conv2 not_less)

text \<open>Updates that do not concern a state.\<close>

lemma is_old_upd: "q \<noteq> dest root d \<Longrightarrow> is_old root d (f(q := x)) = is_old root d f"
  by (simp add: is_old_def)

lemma is_new_upd: "q \<noteq> dest root d \<Longrightarrow> is_new root d (f(q := x)) = is_new root d f"
  by (simp add: is_new_def)

lemma stores_upd: "\<not> prefix (home root t) q \<Longrightarrow> stores root t (f(q := x)) = stores root t f"
proof -
  assume "\<not> prefix (home root t) q"
  then have "store root t i side \<noteq> q" for i side by (auto simp: store_home)
  then show ?thesis by (simp add: stores_def)
qed

lemma reads_upd: "q \<noteq> ipath root t \<Longrightarrow> reads_as hash root t ph (f(q := x)) = reads_as hash root t ph f"
  by (simp add: reads_as_def)

lemma unread_upd: "q \<noteq> ipath root t \<Longrightarrow> unread hash root t (f(q := x)) = unread hash root t f"
  by (simp add: unread_def)

lemmas state_upds = is_old_upd is_new_upd stores_upd reads_upd unread_upd

end
