(* ===== verification/Recovery_Laws.thy ===== *)
theory Recovery_Laws
  imports Publish_Laws
begin

text \<open>
  Laws of recovery: what writing a file through its scratch file, reclaiming, restoring,
  forwarding and finalizing do to the state of a transaction, wherever they are cut off.
  In a triple, \<open>k\<close> says which schedules of faults count.
\<close>

section \<open>Rules of the operations on disk\<close>

text \<open>The intent goes first, then whatever is left of its images.\<close>

lemma reclaim_rule:
  assumes "\<And>f. J f \<Longrightarrow> L (f(intent_path root txn := None))"
    and "\<And>f S. L f \<Longrightarrow> L (\<lambda>q. if prefix (intent_dir root txn) q \<and> q \<in> S then None else f q)"
  shows "triple k J (reclaim root txn) (\<lambda>_. L) (\<lambda>_ f. \<not> quiet k \<and> (J f \<or> L f)) (\<lambda>f. \<not> quiet k \<and> (J f \<or> L f))"
  unfolding reclaim_def
proof (rule triple_andthen [where R = L])
  show "triple k J (unless_missing (remove_file (intent_path root txn))) (\<lambda>_. L)
      (\<lambda>_ f. \<not> quiet k \<and> (J f \<or> L f)) (\<lambda>f. \<not> quiet k \<and> (J f \<or> L f))"
  proof (intro triple_unless_missing remove_rule)
    fix f assume "J f" "f (intent_path root txn) = None"
    with assms(1) [of f] show "if NotFound = NotFound then L f else \<not> quiet k \<and> (J f \<or> L f)"
      by (simp add: fun_upd_idem)
  qed (use assms in auto)
  have "L (\<lambda>q. if prefix (intent_dir root txn) q then None else f q)" if "L f" for f
    using assms(2) [OF that, of UNIV] by simp
  then show "triple k L (unless_missing (remove_tree (intent_dir root txn))) (\<lambda>_. L)
      (\<lambda>_ f. \<not> quiet k \<and> (J f \<or> L f)) (\<lambda>f. \<not> quiet k \<and> (J f \<or> L f))"
    by (intro triple_unless_missing remove_tree_rule) (use assms(2) in auto)
qed

lemma ignored_reclaim_rule:
  assumes "\<And>f. J f \<Longrightarrow> L (f(intent_path root txn := None))"
    and "\<And>f S. L f \<Longrightarrow> L (\<lambda>q. if prefix (intent_dir root txn) q \<and> q \<in> S then None else f q)"
  shows "triple k J (ignored (reclaim root txn)) (\<lambda>_ f. L f \<or> (\<not> quiet k \<and> J f)) E (\<lambda>f. \<not> quiet k \<and> (J f \<or> L f))"
  by (rule triple_ignored) (rule triple_conseq [OF reclaim_rule [OF assms]], auto)

section \<open>Removing the intent and its images\<close>

lemma pruned_dest:
  assumes "wf_txn hash root t" "d \<in> set (st_dests t)"
  shows "(\<lambda>q. if prefix (home root t') q \<and> q \<in> S then None else f q) (dest root d) = f (dest root d)"
  using wf_dests(3) [OF assms] by simp

lemma all_upds:
  assumes "wf_txn hash root t"
  shows "all_old root t (f(ipath root t' := x)) = all_old root t f"
    "all_new root t (f(ipath root t' := x)) = all_new root t f"
    "all_old root t (\<lambda>q. if prefix (home root t') q \<and> q \<in> S then None else f q) = all_old root t f"
    "all_new root t (\<lambda>q. if prefix (home root t') q \<and> q \<in> S then None else f q) = all_new root t f"
    "all_old root t (f(scratch (ipath root t') := x)) = all_old root t f"
    "all_new root t (f(scratch (ipath root t') := x)) = all_new root t f"
  using wf_dests [OF assms] by (auto simp: all_old_def all_new_def is_old_def is_new_def)

lemma framed_prune [simp]:
  "framed root t g (\<lambda>q. if prefix (home root t) q \<and> q \<in> S then None else f q) = framed root t g f"
proof -
  have "\<not> prefix (home root t) q" if "q \<notin> footprint root t" for q using that in_footprint(3) by blast
  then show ?thesis unfolding framed_def by simp
qed

lemma ipath_prune [simp]:
  "(\<lambda>q. if prefix (home root t) q \<and> q \<in> S then None else f q) (ipath root t') = f (ipath root t')"
  by (simp add: ipath_not_home)

text \<open>Reclaiming after the destinations are settled, whichever way.\<close>

lemma reclaim_settled:
  assumes "\<And>f x. P (f(ipath root t := x)) = P f"
    and "\<And>f S. P (\<lambda>q. if prefix (home root t) q \<and> q \<in> S then None else f q) = P f"
  shows "triple k (\<lambda>f. framed root t g f \<and> P f \<and> R f)
      (ignored (reclaim root (txn_hex (st_txn t))))
      (\<lambda>_ f. framed root t g f \<and> P f \<and> (f (ipath root t) = None \<or> (\<not> quiet k \<and> R f)))
      E (\<lambda>f. \<not> quiet k \<and> framed root t g f \<and> P f \<and> (f (ipath root t) = None \<or> R f))"
proof -
  let ?L = "\<lambda>f. framed root t g f \<and> P f \<and> f (ipath root t) = None"
  have names: "intent_path root (txn_hex (st_txn t)) = ipath root t"
    "intent_dir root (txn_hex (st_txn t)) = home root t" by (simp_all add: ipath_def home_def)
  have "triple k (\<lambda>f. framed root t g f \<and> P f \<and> R f) (ignored (reclaim root (txn_hex (st_txn t))))
      (\<lambda>_ f. ?L f \<or> \<not> quiet k \<and> framed root t g f \<and> P f \<and> R f) E
      (\<lambda>f. \<not> quiet k \<and> (framed root t g f \<and> P f \<and> R f \<or> ?L f))"
    by (rule ignored_reclaim_rule) (simp_all add: names assms ipath_not_home)
  then show ?thesis by (rule triple_conseq) auto
qed

section \<open>Classifying the destinations\<close>

definition class_at :: "(str \<Rightarrow> str) \<Rightarrow> path \<Rightarrow> contents \<Rightarrow> intent_member \<Rightarrow> dest_class" where
  "class_at hash root f m =
     (case f (root @ im_rel m) of
        Some b \<Rightarrow> if hash b = im_old m then Old else if hash b = im_new m then New else Neither
      | None \<Rightarrow> if im_old m = hash [] then AbsentOld else Neither)"

lemma classify_rule:
  "triple k (\<lambda>f. f = f1) (classify_dest hash root m) (\<lambda>c f. f = f1 \<and> c = class_at hash root f1 m)
     (\<lambda>_ f. \<not> quiet k \<and> f = f1) (\<lambda>f. \<not> quiet k \<and> f = f1)"
  unfolding classify_dest_def
proof (rule triple_bind)
  let ?R = "\<lambda>r f. f = f1 \<and> (case r of Inr b \<Rightarrow> f1 (root @ im_rel m) = Some b
      | Inl e \<Rightarrow> (e = NotFound \<and> f1 (root @ im_rel m) = None) \<or> (\<not> quiet k \<and> e = OtherError))"
  show "triple k (\<lambda>f. f = f1) (attempted (read_file (root @ im_rel m))) ?R (\<lambda>_ f. \<not> quiet k \<and> f = f1)
      (\<lambda>f. \<not> quiet k \<and> f = f1)"
    by (intro triple_attempted read_rule) auto
  show "triple k (?R r) (case r of Inr bytes \<Rightarrow> return (if hash bytes = im_old m then Old
        else if hash bytes = im_new m then New else Neither)
      | Inl NotFound \<Rightarrow> return (if im_old m = hash [] then AbsentOld else Neither)
      | Inl e \<Rightarrow> fail_with e) (\<lambda>c f. f = f1 \<and> c = class_at hash root f1 m)
      (\<lambda>_ f. \<not> quiet k \<and> f = f1) (\<lambda>f. \<not> quiet k \<and> f = f1)" for r
  proof (cases r)
    case (Inl e)
    then show ?thesis by (cases e) (auto intro!: triple_return triple_fail simp: class_at_def)
  qed (auto intro!: triple_return simp: class_at_def)
qed

lemma classify_all_rule:
  "triple k (\<lambda>f. f = f1) (gather (classify_dest hash root) ms)
     (\<lambda>cs f. f = f1 \<and> cs = map (class_at hash root f1) ms) (\<lambda>_ f. \<not> quiet k \<and> f = f1) (\<lambda>f. \<not> quiet k \<and> f = f1)"
proof -
  let ?I = "\<lambda>ys rs f. f = f1 \<and> rs = map (class_at hash root f1) ys"
  have "triple k (?I [] []) (gather (classify_dest hash root) ms)
      (\<lambda>rs f. length rs = length ms \<and> ?I ms rs f) (\<lambda>_ f. \<not> quiet k \<and> f = f1) (\<lambda>f. \<not> quiet k \<and> f = f1)"
  proof (rule triple_gather)
    fix ys x zs and rs :: "dest_class list"
    show "triple k (?I ys rs) (classify_dest hash root x) (\<lambda>r. ?I (ys @ [x]) (rs @ [r]))
        (\<lambda>_ f. \<not> quiet k \<and> f = f1) (\<lambda>f. \<not> quiet k \<and> f = f1)"
    proof (cases "rs = map (class_at hash root f1) ys")
      case True
      show ?thesis by (rule triple_conseq [OF classify_rule [of k f1 hash root x]]) (use True in auto)
    qed (simp add: triple_def)
  qed
  then show ?thesis by (rule triple_conseq) auto
qed

lemma class_of_state:
  assumes "wf_txn hash root t" "(i, d) \<in> set (enumerate 0 (st_dests t))"
  shows "is_old root d f \<Longrightarrow> class_at hash root f (member_of hash root t (i, d)) \<in> {Old, AbsentOld}"
    and "is_new root d f \<Longrightarrow> class_at hash root f (member_of hash root t (i, d)) \<in> {Old, New}"
    and "class_at hash root f (member_of hash root t (i, d)) \<in> {Old, AbsentOld} \<Longrightarrow>
      is_old root d f \<or> is_new root d f \<Longrightarrow> is_old root d f"
proof -
  have d: "d \<in> set (st_dests t)" using assms(2) by (rule member_dest)
  have inj: "hash b = hash (de_old d) \<longleftrightarrow> b = de_old d" if "b \<in> {[], de_old d, de_new d}" for b
  proof -
    have "inj_on hash (images t)" using assms(1) by (simp add: wf_txn_def)
    moreover have "b \<in> images t" "de_old d \<in> images t" using that d by (auto simp: images_def)
    ultimately show ?thesis by (rule inj_on_eq_iff)
  qed
  have m: "im_rel (member_of hash root t (i, d)) = de_rel d" "im_old (member_of hash root t (i, d)) = hash (de_old d)"
    "im_new (member_of hash root t (i, d)) = hash (de_new d)" by (simp_all add: member_of_def)
  show "is_old root d f \<Longrightarrow> class_at hash root f (member_of hash root t (i, d)) \<in> {Old, AbsentOld}"
    by (auto simp: is_old_def class_at_def m)
  show "is_new root d f \<Longrightarrow> class_at hash root f (member_of hash root t (i, d)) \<in> {Old, New}"
    by (auto simp: is_new_def class_at_def m)
  show "class_at hash root f (member_of hash root t (i, d)) \<in> {Old, AbsentOld} \<Longrightarrow>
      is_old root d f \<or> is_new root d f \<Longrightarrow> is_old root d f"
    using inj [of "[]"] inj [of "de_new d"]
    by (auto simp: is_old_def is_new_def class_at_def m split: option.splits if_splits)
qed

section \<open>Restoring and forwarding\<close>

lemma enumerate_unique:
  "(i, d) \<in> set (enumerate n xs) \<Longrightarrow> (i, d') \<in> set (enumerate n xs) \<Longrightarrow> d = d'"
  by (auto simp: in_set_enumerate_eq)

lemma pending_dest_upd:
  assumes "wf_txn hash root t" "d \<in> set (st_dests t)" "pending hash root t f"
    and "is_old root d (f(dest root d := x)) \<or> is_new root d (f(dest root d := x))"
  shows "pending hash root t (f(dest root d := x))"
proof -
  have "is_old root d' (f(dest root d := x)) \<or> is_new root d' (f(dest root d := x))"
    if "d' \<in> set (st_dests t)" for d'
  proof (cases "dest root d = dest root d'")
    case False
    with assms(3) that show ?thesis by (simp add: pending_def mixed_def state_upds)
  qed (use assms(4) wf_dest_inject [OF assms(1,2) that] in simp)
  with assms(3) wf_dests [OF assms(1,2)] show ?thesis
    by (simp add: pending_def mixed_def state_upds)
qed

lemma pending_scratch_upd:
  assumes "wf_txn hash root t" "d \<in> set (st_dests t)"
  shows "pending hash root t (f(scratch (dest root d) := x)) = pending hash root t f"
  using wf_dests [OF assms] wf_scratch [OF assms] by (simp add: pending_def mixed_def state_upds)

lemma settle_dest_rule:
  assumes wf: "wf_txn hash root t" and d: "d \<in> set (st_dests t)" and ys: "set ys \<subseteq> set (st_dests t)"
    and goal: "\<And>d f. P d f = (f (dest root d) = X d \<or> (Y d \<and> f (dest root d) = None))"
    and side: "\<And>d f. P d f \<Longrightarrow> is_old root d f \<or> is_new root d f" and val: "X d = Some b"
  shows "triple k (\<lambda>f. framed root t g f \<and> pending hash root t f \<and> (\<forall>d \<in> set ys. P d f))
    (write_honest (dest root d) b)
    (\<lambda>_ f. framed root t g f \<and> pending hash root t f \<and> (\<forall>d \<in> set (ys @ [d]). P d f))
    (\<lambda>_ f. \<not> quiet k \<and> framed root t g f \<and> pending hash root t f)
    (\<lambda>f. \<not> quiet k \<and> framed root t g f \<and> pending hash root t f)"
proof (rule write_honest_rule)
  have off: "P d' (f(scratch (dest root d) := x)) = P d' f" if "d' \<in> set (st_dests t)" for d' f x
    using wf_scratch [OF wf d that] unfolding goal by simp
  fix f x
  assume J: "framed root t g f \<and> pending hash root t f \<and> (\<forall>d \<in> set ys. P d f)"
  show "framed root t g (f(scratch (dest root d) := x)) \<and> pending hash root t (f(scratch (dest root d) := x)) \<and>
      (\<forall>d' \<in> set ys. P d' (f(scratch (dest root d) := x)))"
    using J d ys off pending_scratch_upd [OF wf d] by auto
next
  have off: "P d' (f(scratch (dest root d) := x)) = P d' f" if "d' \<in> set (st_dests t)" for d' f x
    using wf_scratch [OF wf d that] unfolding goal by simp
  fix f
  assume J: "framed root t g f \<and> pending hash root t f \<and> (\<forall>d \<in> set ys. P d f)"
  let ?h = "f(scratch (dest root d) := None)"
  have P: "P d (?h(dest root d \<mapsto> b))" unfolding goal by (simp add: val)
  have "pending hash root t ?h" using J pending_scratch_upd [OF wf d] by simp
  then have "pending hash root t (?h(dest root d \<mapsto> b))"
    by (rule pending_dest_upd [OF wf d]) (rule side [OF P])
  moreover have "P d' (?h(dest root d \<mapsto> b))" if "d' \<in> set ys" for d'
  proof (cases "dest root d' = dest root d")
    case True
    then have "d' = d" using wf_dest_inject [OF wf _ d] that ys by blast
    with P show ?thesis by simp
  next
    case False
    have "P d' ?h" using J that off ys by blast
    with False show ?thesis unfolding goal by simp
  qed
  ultimately show "framed root t g (?h(dest root d \<mapsto> b)) \<and> pending hash root t (?h(dest root d \<mapsto> b)) \<and>
      (\<forall>d' \<in> set (ys @ [d]). P d' (?h(dest root d \<mapsto> b)))"
    using J d P by simp
qed auto

lemma stores_at:
  "stores root t f \<Longrightarrow> (i, d) \<in> set (enumerate 0 (st_dests t)) \<Longrightarrow>
   f (store root t i ''old'') = Some (de_old d) \<and> f (store root t i ''new'') = Some (de_new d)"
  by (auto simp: stores_def)

lemma restore_rule:
  assumes wf: "wf_txn hash root t" and id: "(i, d) \<in> set (enumerate 0 (st_dests t))"
    and ys: "set ys \<subseteq> set (st_dests t)"
  shows "triple k (\<lambda>f. framed root t g f \<and> pending hash root t f \<and> (\<forall>d \<in> set ys. is_old root d f))
    (restore_member hash root (member_of hash root t (i, d)))
    (\<lambda>_ f. framed root t g f \<and> pending hash root t f \<and> (\<forall>d \<in> set (ys @ [d]). is_old root d f))
    (\<lambda>_ f. \<not> quiet k \<and> framed root t g f \<and> pending hash root t f)
    (\<lambda>f. \<not> quiet k \<and> framed root t g f \<and> pending hash root t f)"
    (is "triple k (?J ys) _ _ _ _")
proof -
  have d: "d \<in> set (st_dests t)" using id by (rule member_dest)
  have m: "im_rel (member_of hash root t (i, d)) = de_rel d" "im_old (member_of hash root t (i, d)) = hash (de_old d)"
    "root @ im_old_store (member_of hash root t (i, d)) = store root t i ''old''"
    by (simp_all add: member_of_def store_def)
  show ?thesis
  proof (cases "hash (de_old d) = hash []")
    case True
    then have empty: "de_old d = []"
      using wf d unfolding wf_txn_def images_def by (metis inj_onD insertI1 insertI2 UnI1 imageI)
    have gone: "?J (ys @ [d]) (f(dest root d := None))" if J: "?J ys f" for f
    proof -
      have P: "is_old root d (f(dest root d := None))" using empty by (simp add: is_old_def)
      have "is_old root d' (f(dest root d := None))" if "d' \<in> set ys" for d'
        using J that P wf_dest_inject [OF wf _ d, of d'] ys
        by (cases "dest root d' = dest root d") (auto simp: state_upds)
      moreover have "pending hash root t (f(dest root d := None))"
        using pending_dest_upd [OF wf d] J P by blast
      moreover have "framed root t g (f(dest root d := None))" using J d by simp
      moreover have "is_old root d' (f(dest root d := None))" if "d' \<in> set (ys @ [d])" for d'
      proof -
        from that have "d' \<in> set ys \<or> d' = d" by auto
        with calculation(1) P show ?thesis by blast
      qed
      ultimately show ?thesis by blast
    qed
    have "triple k (?J ys) (unless_missing (remove_file (dest root d))) (\<lambda>_. ?J (ys @ [d]))
        (\<lambda>_ f. \<not> quiet k \<and> framed root t g f \<and> pending hash root t f)
        (\<lambda>f. \<not> quiet k \<and> framed root t g f \<and> pending hash root t f)"
    proof (intro triple_unless_missing remove_rule)
      fix f assume "?J ys f" "f (dest root d) = None"
      with gone [of f] have "?J (ys @ [d]) f" by (simp add: fun_upd_idem)
      then show "if NotFound = NotFound then ?J (ys @ [d]) f
          else \<not> quiet k \<and> framed root t g f \<and> pending hash root t f" by simp
    qed (use gone in auto)
    then have "triple k (?J ys) (andthen (unless_missing (remove_file (dest root d))) sync_handle)
        (\<lambda>_. ?J (ys @ [d])) (\<lambda>_ f. \<not> quiet k \<and> framed root t g f \<and> pending hash root t f)
        (\<lambda>f. \<not> quiet k \<and> framed root t g f \<and> pending hash root t f)"
      by (rule triple_andthen) (rule no_effect_rules(1), auto)
    with True show ?thesis by (simp add: restore_member_def m)
  next
    case False
    have "triple k (?J ys) (bind (read_file (store root t i ''old'')) (write_honest (dest root d)))
        (\<lambda>_. ?J (ys @ [d])) (\<lambda>_ f. \<not> quiet k \<and> framed root t g f \<and> pending hash root t f)
        (\<lambda>f. \<not> quiet k \<and> framed root t g f \<and> pending hash root t f)"
    proof (rule triple_bind)
      show "triple k (?J ys) (read_file (store root t i ''old'')) (\<lambda>b f. b = de_old d \<and> ?J ys f)
          (\<lambda>_ f. \<not> quiet k \<and> framed root t g f \<and> pending hash root t f)
          (\<lambda>f. \<not> quiet k \<and> framed root t g f \<and> pending hash root t f)"
        by (rule read_rule) (auto simp: pending_def dest: stores_at [OF _ id])
      show "triple k (\<lambda>f. b = de_old d \<and> ?J ys f) (write_honest (dest root d) b) (\<lambda>_. ?J (ys @ [d]))
          (\<lambda>_ f. \<not> quiet k \<and> framed root t g f \<and> pending hash root t f)
          (\<lambda>f. \<not> quiet k \<and> framed root t g f \<and> pending hash root t f)" for b
        by (rule triple_fact, rule settle_dest_rule [OF wf d ys, where X = "\<lambda>d. Some (de_old d)" and
              Y = "\<lambda>d. de_old d = []"]) (auto simp: is_old_def)
    qed
    with False show ?thesis by (simp add: restore_member_def m)
  qed
qed

lemma forward_rule:
  assumes wf: "wf_txn hash root t" and id: "(i, d) \<in> set (enumerate 0 (st_dests t))"
    and ys: "set ys \<subseteq> set (st_dests t)"
  shows "triple k (\<lambda>f. framed root t g f \<and> pending hash root t f \<and> (\<forall>d \<in> set ys. is_new root d f))
    (forward_member root (member_of hash root t (i, d)))
    (\<lambda>_ f. framed root t g f \<and> pending hash root t f \<and> (\<forall>d \<in> set (ys @ [d]). is_new root d f))
    (\<lambda>_ f. \<not> quiet k \<and> framed root t g f \<and> pending hash root t f)
    (\<lambda>f. \<not> quiet k \<and> framed root t g f \<and> pending hash root t f)"
    (is "triple k (?J ys) _ _ _ _")
proof -
  have d: "d \<in> set (st_dests t)" using id by (rule member_dest)
  have m: "im_rel (member_of hash root t (i, d)) = de_rel d"
    "root @ im_new_store (member_of hash root t (i, d)) = store root t i ''new''"
    by (simp_all add: member_of_def store_def)
  show ?thesis
    unfolding forward_member_def m
  proof (rule triple_bind)
    show "triple k (?J ys) (read_file (store root t i ''new'')) (\<lambda>b f. b = de_new d \<and> ?J ys f)
        (\<lambda>_ f. \<not> quiet k \<and> framed root t g f \<and> pending hash root t f)
        (\<lambda>f. \<not> quiet k \<and> framed root t g f \<and> pending hash root t f)"
      by (rule read_rule) (auto simp: pending_def dest: stores_at [OF _ id])
    show "triple k (\<lambda>f. b = de_new d \<and> ?J ys f) (write_honest (dest root d) b) (\<lambda>_. ?J (ys @ [d]))
        (\<lambda>_ f. \<not> quiet k \<and> framed root t g f \<and> pending hash root t f)
        (\<lambda>f. \<not> quiet k \<and> framed root t g f \<and> pending hash root t f)" for b
      by (rule triple_fact, rule settle_dest_rule [OF wf d ys, where X = "\<lambda>d. Some (de_new d)" and
            Y = "\<lambda>d. False"]) (auto simp: is_new_def)
  qed
qed

section \<open>The whole set\<close>

lemma each_do_map: "each_do m (map g xs) = each_do (\<lambda>x. m (g x)) xs"
  by (induction xs) simp_all

lemma all_members_rule:
  assumes wf: "wf_txn hash root t"
    and step: "\<And>i d ys. (i, d) \<in> set (enumerate 0 (st_dests t)) \<Longrightarrow> set ys \<subseteq> set (st_dests t) \<Longrightarrow>
      triple k (\<lambda>f. framed root t g f \<and> pending hash root t f \<and> (\<forall>d \<in> set ys. P d f))
        (m (member_of hash root t (i, d)))
        (\<lambda>_ f. framed root t g f \<and> pending hash root t f \<and> (\<forall>d \<in> set (ys @ [d]). P d f))
        (\<lambda>_ f. \<not> quiet k \<and> framed root t g f \<and> pending hash root t f)
        (\<lambda>f. \<not> quiet k \<and> framed root t g f \<and> pending hash root t f)"
  shows "triple k (\<lambda>f. framed root t g f \<and> pending hash root t f)
    (each_do m (it_members (intent_of hash root t)))
    (\<lambda>_ f. framed root t g f \<and> pending hash root t f \<and> (\<forall>d \<in> set (st_dests t). P d f))
    (\<lambda>_ f. \<not> quiet k \<and> framed root t g f \<and> pending hash root t f)
    (\<lambda>f. \<not> quiet k \<and> framed root t g f \<and> pending hash root t f)"
proof -
  let ?xs = "enumerate 0 (st_dests t)"
  let ?I = "\<lambda>(ys :: (nat \<times> dest_image) list) f. framed root t g f \<and> pending hash root t f \<and> (\<forall>d \<in> set (map snd ys). P d f)"
  have "triple k (?I []) (each_do (\<lambda>x. m (member_of hash root t x)) ?xs) (\<lambda>_. ?I ?xs)
      (\<lambda>_ f. \<not> quiet k \<and> framed root t g f \<and> pending hash root t f)
      (\<lambda>f. \<not> quiet k \<and> framed root t g f \<and> pending hash root t f)"
  proof (rule triple_each_do [where I = ?I])
    fix ys x zs assume xs: "?xs = ys @ x # zs"
    obtain i d where x: "x = (i, d)" by (cases x)
    have "set (map snd ys) \<subseteq> set (map snd ?xs)" unfolding xs by auto
    then have sub: "set (map snd ys) \<subseteq> set (st_dests t)" by simp
    have "(i, d) \<in> set ?xs" unfolding xs x by simp
    from step [OF this sub] show "triple k (?I ys) (m (member_of hash root t x)) (\<lambda>_. ?I (ys @ [x]))
        (\<lambda>_ f. \<not> quiet k \<and> framed root t g f \<and> pending hash root t f)
        (\<lambda>f. \<not> quiet k \<and> framed root t g f \<and> pending hash root t f)"
      by (simp add: x)
  qed
  then show ?thesis
    by (simp add: intent_of_def each_do_map)
qed

lemma sound_phase [simp]: "sound_intent (r\<lparr>it_phase := ph\<rparr>) = sound_intent r"
  by (simp add: sound_intent_def)

lemma finalize_rule:
  assumes wf: "wf_txn hash root t"
  shows "triple k (\<lambda>f. framed root t g f \<and> pending hash root t f \<and> all_new root t f)
    (finalize hash root (intent_of hash root t))
    (\<lambda>_ f. framed root t g f \<and> all_new root t f \<and> reads_as hash root t Applied f)
    (\<lambda>_ f. \<not> quiet k \<and> framed root t g f \<and> recoverable hash root t f)
    (\<lambda>f. \<not> quiet k \<and> framed root t g f \<and> recoverable hash root t f)"
proof -
  have p: "intent_path root (it_txn (intent_of hash root t)) = ipath root t"
    by (simp add: intent_of_def ipath_def)
  have code: "decode_intent hash (encode_intent hash (intent_of hash root t\<lparr>it_phase := Applied\<rparr>)) =
      Some (intent_of hash root t\<lparr>it_phase := Applied\<rparr>)"
    using wf by (intro decode_encode_intent) (simp_all add: wf_txn_def)
  have mixed: "mixed root t (f(scratch (ipath root t) := x)) = mixed root t f" for f x
    using wf_dests(2) [OF wf, of _ t, THEN not_sym] by (simp add: mixed_def state_upds)
  show ?thesis
    unfolding finalize_def p
    by (rule write_honest_rule)
      (use all_upds [OF wf] mixed code scratch_ipath_not_home [of root t] scratch_ipath_not_ipath [of root t t] in
       \<open>auto simp: pending_def state_upds recoverable_def landed_def reads_as_def\<close>)
qed

definition same_dests :: "path \<Rightarrow> staged_txn \<Rightarrow> contents \<Rightarrow> contents \<Rightarrow> bool" where
  "same_dests root t f g \<longleftrightarrow> (\<forall>d \<in> set (st_dests t). g (dest root d) = f (dest root d))"

lemma same_dests_upds:
  assumes "wf_txn hash root t"
  shows "same_dests root t f1 (f(ipath root t := x)) = same_dests root t f1 f"
    "same_dests root t f1 (\<lambda>q. if prefix (home root t) q \<and> q \<in> S then None else f q) = same_dests root t f1 f"
  using wf_dests [OF assms] by (auto simp: same_dests_def)

lemma same_dests_old: "same_dests root t f g \<Longrightarrow> all_old root t g = all_old root t f"
  by (simp add: same_dests_def all_old_def is_old_def)

lemma all_mixed: "all_old root t f \<Longrightarrow> mixed root t f" "all_new root t f \<Longrightarrow> mixed root t f"
  by (simp_all add: all_old_def all_new_def mixed_def)

lemma refused_iff: "refused hash root t f0 f \<longleftrightarrow> same_dests root t f0 f \<and>
    (unread hash root t f \<or> (all_old root t f0 \<and> stores root t f \<and> reads_as hash root t Decided f))"
  by (simp add: refused_def same_dests_def)

text \<open>Taking back a transaction none of whose destinations has changed.\<close>

lemma abort_rule:
  assumes wf: "wf_txn hash root t" and old: "all_old root t f1"
  shows "triple k (\<lambda>f. framed root t f1 f \<and> same_dests root t f1 f \<and> stores root t f \<and> reads_as hash root t Decided f)
    (andthen (ignored (reclaim root (txn_hex (st_txn t)))) (return r))
    (\<lambda>r' f. r' = r \<and> framed root t f1 f \<and> same_dests root t f1 f \<and>
       (f (ipath root t) = None \<or> (\<not> quiet k \<and> stores root t f \<and> reads_as hash root t Decided f)))
    E (\<lambda>f. \<not> quiet k \<and> framed root t f1 f \<and> refused hash root t f1 f)"
proof (rule triple_andthen)
  let ?R = "\<lambda>f. stores root t f \<and> reads_as hash root t Decided f"
  have "triple k (\<lambda>f. framed root t f1 f \<and> same_dests root t f1 f \<and> ?R f)
      (ignored (reclaim root (txn_hex (st_txn t))))
      (\<lambda>_ f. framed root t f1 f \<and> same_dests root t f1 f \<and> (f (ipath root t) = None \<or> (\<not> quiet k \<and> ?R f)))
      E (\<lambda>f. \<not> quiet k \<and> framed root t f1 f \<and> same_dests root t f1 f \<and> (f (ipath root t) = None \<or> ?R f))"
    by (rule reclaim_settled) (rule same_dests_upds [OF wf])+
  then show "triple k (\<lambda>f. framed root t f1 f \<and> same_dests root t f1 f \<and> stores root t f \<and> reads_as hash root t Decided f)
      (ignored (reclaim root (txn_hex (st_txn t))))
      (\<lambda>_ f. framed root t f1 f \<and> same_dests root t f1 f \<and> (f (ipath root t) = None \<or> (\<not> quiet k \<and> ?R f)))
      E (\<lambda>f. \<not> quiet k \<and> framed root t f1 f \<and> refused hash root t f1 f)"
    by (rule triple_conseq) (use old in \<open>auto simp: refused_iff unread_def\<close>)
qed (rule triple_return, auto)

text \<open>Reclaiming a transaction whose destinations are all old, or all new.\<close>

lemma finish_rule:
  assumes wf: "wf_txn hash root t"
    and P: "\<And>f x. P (f(ipath root t := x)) = P f"
      "\<And>f S. P (\<lambda>q. if prefix (home root t) q \<and> q \<in> S then None else f q) = P f"
    and R: "\<And>f. P f \<Longrightarrow> f (ipath root t) = None \<or> R f \<Longrightarrow> recoverable hash root t f"
  shows "triple k (\<lambda>f. framed root t g f \<and> P f \<and> R f)
    (andthen (ignored (reclaim root (txn_hex (st_txn t)))) (return r))
    (\<lambda>r' f. r' = r \<and> framed root t g f \<and> P f \<and> recoverable hash root t f \<and> (f (ipath root t) = None \<or> (\<not> quiet k \<and> R f)))
    E (\<lambda>f. \<not> quiet k \<and> framed root t g f \<and> P f \<and> recoverable hash root t f \<and> (f (ipath root t) = None \<or> R f))"
proof (rule triple_andthen)
  show "triple k (\<lambda>f. framed root t g f \<and> P f \<and> R f) (ignored (reclaim root (txn_hex (st_txn t))))
      (\<lambda>_ f. framed root t g f \<and> P f \<and> (f (ipath root t) = None \<or> (\<not> quiet k \<and> R f)))
      E (\<lambda>f. \<not> quiet k \<and> framed root t g f \<and> P f \<and> recoverable hash root t f \<and> (f (ipath root t) = None \<or> R f))"
    by (rule triple_conseq [OF reclaim_settled [of P root t k g R E, OF P]]) (use R in auto)
qed (rule triple_return, use R in auto)

lemma recover_decided_rule:
  assumes wf: "wf_txn hash root t" and p1: "pending hash root t f1"
  shows "triple k (\<lambda>f. f = f1) (recover_one hash root (intent_of hash root t))
    (\<lambda>r f. framed root t f1 f \<and> recoverable hash root t f \<and> (quiet k \<longrightarrow> f (ipath root t) = None) \<and>
       mr_txn r = txn_hex (st_txn t) \<and>
       (if all_old root t f1 then mr_outcome r = Aborted \<and> refused hash root t f1 f
        else case st_policy t of
          Restore \<Rightarrow> mr_outcome r = Restored \<and> all_old root t f
        | Forward \<Rightarrow> mr_outcome r = Completed \<and> all_new root t f))
    (\<lambda>_ f. \<not> quiet k \<and> framed root t f1 f \<and> recoverable hash root t f \<and>
       (all_old root t f1 \<longrightarrow> refused hash root t f1 f))
    (\<lambda>f. \<not> quiet k \<and> framed root t f1 f \<and> recoverable hash root t f \<and>
       (all_old root t f1 \<longrightarrow> refused hash root t f1 f))"
    (is "triple k _ _ ?Q ?E ?C")
proof -
  let ?r = "intent_of hash root t"
  let ?ms = "it_members ?r" and ?cs = "map (class_at hash root f1) (it_members ?r)"
  have r: "it_phase ?r = Decided" "it_txn ?r = txn_hex (st_txn t)" "it_policy ?r = st_policy t"
    "?ms = map (member_of hash root t) (enumerate 0 (st_dests t))" by (simp_all add: intent_of_def)
  have pend: "recoverable hash root t f1" "same_dests root t f1 f1" "mixed root t f1"
    "stores root t f1" "reads_as hash root t Decided f1"
    using p1 by (simp_all add: recoverable_def same_dests_def pending_def)
  have cls: "class_at hash root f1 m \<noteq> Neither" if "m \<in> set ?ms" for m
    using that class_of_state(1,2) [OF wf] pend(3) member_dest unfolding r(4) mixed_def by fastforce
  have olds: "list_all (\<lambda>c. c = Old \<or> c = AbsentOld) ?cs \<longleftrightarrow> all_old root t f1"
  proof
    assume l: "list_all (\<lambda>c. c = Old \<or> c = AbsentOld) ?cs"
    show "all_old root t f1"
      unfolding all_old_def
    proof
      fix d assume d: "d \<in> set (st_dests t)"
      then obtain i where i: "(i, d) \<in> set (enumerate 0 (st_dests t))"
        by (metis imageE list.set_map map_snd_enumerate prod.collapse)
      with l have "class_at hash root f1 (member_of hash root t (i, d)) \<in> {Old, AbsentOld}"
        by (auto simp: r(4) list_all_iff)
      with class_of_state(3) [OF wf i] pend(3) d show "is_old root d f1" by (auto simp: mixed_def)
    qed
  qed (use class_of_state(1) [OF wf] member_dest in \<open>fastforce simp: all_old_def r(4) list_all_iff\<close>)
  have neither: "filter (\<lambda>(m, c). c = Neither) (zip ?ms ?cs) = []"
    using cls by (auto simp: filter_empty_conv zip_map2 in_set_zip)
  have stop: "?E e f" if "\<not> quiet k \<and> f = f1" for e f
    using that pend by (auto simp: refused_iff)
  have rest: "triple k (\<lambda>f. f = f1) (recover_decided hash root ?r ?cs) ?Q ?E ?C"
  proof (cases "all_old root t f1")
    case True
    have "triple k (\<lambda>f. framed root t f1 f \<and> same_dests root t f1 f \<and> stores root t f \<and> reads_as hash root t Decided f)
        (andthen (ignored (reclaim root (txn_hex (st_txn t)))) (return \<lparr>mr_txn = txn_hex (st_txn t), mr_outcome = Aborted\<rparr>))
        ?Q ?E ?C"
    proof (rule triple_conseq [OF abort_rule [OF wf True]])
      fix f assume "\<not> quiet k \<and> framed root t f1 f \<and> refused hash root t f1 f"
      then show "?C f" using True same_dests_old [of root t f1 f] all_mixed
        by (auto simp: refused_iff recoverable_def pending_def taken_back_def)
    qed (use True same_dests_old [of root t f1] all_mixed in
        \<open>auto simp: refused_iff recoverable_def pending_def taken_back_def unread_def\<close>)
    then have "triple k (\<lambda>f. f = f1)
        (andthen (ignored (reclaim root (txn_hex (st_txn t)))) (return \<lparr>mr_txn = txn_hex (st_txn t), mr_outcome = Aborted\<rparr>))
        ?Q ?E ?C"
      by (rule triple_pre) (use pend in auto)
    with True show ?thesis
      by (simp add: recover_decided_def Let_def neither olds r(2))
  next
    case False
    show ?thesis
    proof (cases "st_policy t")
      case Restore
      let ?out = "return \<lparr>mr_txn = txn_hex (st_txn t), mr_outcome = Restored\<rparr>"
      have "triple k (\<lambda>f. framed root t f1 f \<and> pending hash root t f) (each_do (restore_member hash root) ?ms)
          (\<lambda>_ f. framed root t f1 f \<and> pending hash root t f \<and> (\<forall>d \<in> set (st_dests t). is_old root d f)) ?E ?C"
        by (rule triple_conseq [OF all_members_rule [OF wf restore_rule [OF wf]]])
          (use False in \<open>auto simp: recoverable_def\<close>)
      moreover have "triple k (\<lambda>f. framed root t f1 f \<and> pending hash root t f \<and> (\<forall>d \<in> set (st_dests t). is_old root d f))
          (andthen (ignored (reclaim root (txn_hex (st_txn t)))) ?out) ?Q ?E ?C"
        by (rule triple_conseq [OF finish_rule [OF wf all_upds(1,3) [OF wf], of "pending hash root t"]])
          (use False Restore in \<open>auto simp: recoverable_def taken_back_def unread_def all_old_def\<close>)
      ultimately have "triple k (\<lambda>f. framed root t f1 f \<and> pending hash root t f)
          (andthen (each_do (restore_member hash root) ?ms)
            (andthen (ignored (reclaim root (txn_hex (st_txn t)))) ?out)) ?Q ?E ?C"
        by (rule triple_andthen)
      then have "triple k (\<lambda>f. f = f1) (andthen (each_do (restore_member hash root) ?ms)
            (andthen (ignored (reclaim root (txn_hex (st_txn t)))) ?out)) ?Q ?E ?C"
        by (rule triple_pre) (use p1 in auto)
      with False Restore show ?thesis
        by (simp add: recover_decided_def Let_def neither olds r(2,3))
    next
      case Forward
      let ?out = "return \<lparr>mr_txn = txn_hex (st_txn t), mr_outcome = Completed\<rparr>"
      have 1: "triple k (\<lambda>f. framed root t f1 f \<and> pending hash root t f) (each_do (forward_member root) ?ms)
          (\<lambda>_ f. framed root t f1 f \<and> pending hash root t f \<and> all_new root t f) ?E ?C"
        by (rule triple_conseq [OF all_members_rule [OF wf forward_rule [OF wf]]])
          (use False in \<open>auto simp: recoverable_def all_new_def\<close>)
      have 2: "triple k (\<lambda>f. framed root t f1 f \<and> pending hash root t f \<and> all_new root t f) (finalize hash root ?r)
          (\<lambda>_ f. framed root t f1 f \<and> all_new root t f \<and> reads_as hash root t Applied f) ?E ?C"
        by (rule triple_conseq [OF finalize_rule [OF wf]]) (use False in auto)
      have 3: "triple k (\<lambda>f. framed root t f1 f \<and> all_new root t f \<and> reads_as hash root t Applied f)
          (andthen (ignored (reclaim root (txn_hex (st_txn t)))) ?out) ?Q ?E ?C"
        by (rule triple_conseq [OF finish_rule [OF wf all_upds(2,4) [OF wf], of "reads_as hash root t Applied"]])
          (use False Forward in \<open>auto simp: recoverable_def landed_def\<close>)
      have "triple k (\<lambda>f. framed root t f1 f \<and> pending hash root t f)
          (andthen (each_do (forward_member root) ?ms) (andthen (finalize hash root ?r)
            (andthen (ignored (reclaim root (txn_hex (st_txn t)))) ?out))) ?Q ?E ?C"
        by (rule triple_andthen [OF 1 triple_andthen [OF 2 3]])
      then have "triple k (\<lambda>f. f = f1)
          (andthen (each_do (forward_member root) ?ms) (andthen (finalize hash root ?r)
            (andthen (ignored (reclaim root (txn_hex (st_txn t)))) ?out))) ?Q ?E ?C"
        by (rule triple_pre) (use p1 in auto)
      with False Forward show ?thesis
        by (simp add: recover_decided_def Let_def neither olds r(2,3))
    qed
  qed
  have "triple k (\<lambda>f. f = f1) (bind (gather (classify_dest hash root) ?ms) (recover_decided hash root ?r)) ?Q ?E ?C"
  proof (rule triple_bind)
    show "triple k (\<lambda>f. f = f1) (gather (classify_dest hash root) ?ms) (\<lambda>cs f. cs = ?cs \<and> f = f1) ?E ?C"
      by (rule triple_conseq [OF classify_all_rule]) (use stop in auto)
    show "triple k (\<lambda>f. cs = ?cs \<and> f = f1) (recover_decided hash root ?r cs) ?Q ?E ?C" for cs
      using rest by (intro triple_fact) simp
  qed
  then show ?thesis by (simp add: recover_one_def r(1))
qed

lemma recover_applied_rule:
  assumes wf: "wf_txn hash root t" and l1: "all_new root t f1" "reads_as hash root t Applied f1"
  shows "triple k (\<lambda>f. f = f1) (recover_one hash root (intent_of hash root t\<lparr>it_phase := Applied\<rparr>))
    (\<lambda>r f. framed root t f1 f \<and> landed hash root t f \<and> (quiet k \<longrightarrow> f (ipath root t) = None) \<and>
       mr_txn r = txn_hex (st_txn t) \<and> mr_outcome r = Clean)
    E (\<lambda>f. \<not> quiet k \<and> framed root t f1 f \<and> landed hash root t f)"
proof -
  let ?out = "return \<lparr>mr_txn = txn_hex (st_txn t), mr_outcome = Clean\<rparr>"
  have "triple k (\<lambda>f. framed root t f1 f \<and> all_new root t f \<and> reads_as hash root t Applied f)
      (andthen (ignored (reclaim root (txn_hex (st_txn t)))) ?out)
      (\<lambda>r f. framed root t f1 f \<and> landed hash root t f \<and> (quiet k \<longrightarrow> f (ipath root t) = None) \<and>
         mr_txn r = txn_hex (st_txn t) \<and> mr_outcome r = Clean)
      E (\<lambda>f. \<not> quiet k \<and> framed root t f1 f \<and> landed hash root t f)"
    by (rule triple_conseq [OF finish_rule [OF wf all_upds(2,4) [OF wf], of "reads_as hash root t Applied"]])
      (auto simp: recoverable_def landed_def)
  then have "triple k (\<lambda>f. f = f1) (andthen (ignored (reclaim root (txn_hex (st_txn t)))) ?out)
      (\<lambda>r f. framed root t f1 f \<and> landed hash root t f \<and> (quiet k \<longrightarrow> f (ipath root t) = None) \<and>
         mr_txn r = txn_hex (st_txn t) \<and> mr_outcome r = Clean)
      E (\<lambda>f. \<not> quiet k \<and> framed root t f1 f \<and> landed hash root t f)"
    by (rule triple_pre) (use l1 in auto)
  then show ?thesis by (simp add: recover_one_def intent_of_def)
qed

end
