(* ===== verification/Publish_Steps.thy ===== *)
theory Publish_Steps
  imports Recovery_Laws
begin

text \<open>
  Laws of the publish path: what each of its stages leaves, cut off or not, up to the standing
  of the transaction when \<open>publish\<close> returns.
\<close>

section \<open>Before the decision\<close>

text \<open>Where a transaction may start: a fresh id, and the staged files in place.\<close>

definition staged :: "dest_image list \<Rightarrow> contents \<Rightarrow> bool" where
  "staged ds f \<longleftrightarrow> (\<forall>d \<in> set ds. f (de_tmp d) = Some (de_new d))"

definition ready :: "path \<Rightarrow> staged_txn \<Rightarrow> contents \<Rightarrow> bool" where
  "ready root t f \<longleftrightarrow> f (ipath root t) = None \<and> staged (st_dests t) f"

lemma reverify_rule:
  "triple k (\<lambda>f. f = f0) (reverify root ds)
     (\<lambda>r f. f = f0 \<and> (case r of Inr _ \<Rightarrow> \<forall>d \<in> set ds. is_old root d f0
        | Inl e \<Rightarrow> \<exists>x. e = IoFailed x \<and> \<not> quiet k \<or> (\<exists>d \<in> set ds. e = Conflict (de_rel d) \<and> \<not> is_old root d f0)))
     E (\<lambda>f. \<not> quiet k \<and> f = f0)"
proof (induction ds)
  case Nil
  show ?case by (auto intro: triple_return)
next
  case (Cons d ds)
  let ?Q = "\<lambda>r f. f = f0 \<and> (case r of Inr _ \<Rightarrow> \<forall>d \<in> set (d # ds). is_old root d f0
      | Inl e \<Rightarrow> \<exists>x. e = IoFailed x \<and> \<not> quiet k \<or> (\<exists>d \<in> set (d # ds). e = Conflict (de_rel d) \<and> \<not> is_old root d f0))"
  let ?R = "\<lambda>r f. f = f0 \<and> (case r of Inr b \<Rightarrow> f0 (dest root d) = Some b
      | Inl e \<Rightarrow> (e = NotFound \<and> f0 (dest root d) = None) \<or> (\<not> quiet k \<and> e = OtherError))"
  have go: "triple k (\<lambda>f. f = f0) (reverify root ds) ?Q E (\<lambda>f. \<not> quiet k \<and> f = f0)" if "is_old root d f0"
    by (rule triple_conseq [OF Cons.IH]) (use that in \<open>auto split: sum.splits\<close>)
  show ?case
    unfolding reverify.simps
  proof (rule triple_bind)
    show "triple k (\<lambda>f. f = f0) (attempted (read_file (dest root d))) ?R E (\<lambda>f. \<not> quiet k \<and> f = f0)"
      by (intro triple_attempted read_rule) auto
    fix r
    show "triple k (?R r) (case (case r of Inr b \<Rightarrow> Inr b | Inl NotFound \<Rightarrow> Inr [] | Inl e \<Rightarrow> Inl e) of
        Inl e \<Rightarrow> return (Inl (IoFailed e))
      | Inr live \<Rightarrow> if live \<noteq> de_old d then return (Inl (Conflict (de_rel d))) else reverify root ds)
        ?Q E (\<lambda>f. \<not> quiet k \<and> f = f0)"
    proof (cases r)
      case (Inr b)
      show ?thesis
      proof (cases "f0 (dest root d) = Some b \<and> b = de_old d")
        case True
        then have "is_old root d f0" by (simp add: is_old_def)
        from go [OF this] show ?thesis using Inr True by (auto intro: triple_pre)
      next
        case False
        then show ?thesis
          using Inr by (cases "b = de_old d") (auto simp: triple_def is_old_def return_def)
      qed
    next
      case (Inl e)
      show ?thesis
      proof (cases "e = NotFound \<and> f0 (dest root d) = None \<and> de_old d = []")
        case True
        then have "is_old root d f0" by (simp add: is_old_def)
        from go [OF this] show ?thesis using Inl True by (auto intro: triple_pre)
      next
        case False
        then show ?thesis
          using Inl by (cases e) (auto simp: triple_def is_old_def return_def)
      qed
    qed
  qed
qed

text \<open>Up to the exclusive creation of the intent nothing of a transaction is visible.\<close>

definition unseen :: "path \<Rightarrow> staged_txn \<Rightarrow> contents \<Rightarrow> contents \<Rightarrow> bool" where
  "unseen root t f0 f \<longleftrightarrow> framed root t f0 f \<and> same_dests root t f0 f \<and> f (ipath root t) = None \<and>
     staged (st_dests t) f"

text \<open>The images stored so far, by member and side.\<close>

type_synonym image_map = "((nat \<times> str) \<times> str) set"

definition kept :: "path \<Rightarrow> staged_txn \<Rightarrow> contents \<Rightarrow> image_map \<Rightarrow> contents \<Rightarrow> bool" where
  "kept root t f0 m f \<longleftrightarrow> unseen root t f0 f \<and> (\<forall>((i, a), v) \<in> m. f (store root t i a) = Some v)"

definition images_of :: "(nat \<times> dest_image) list \<Rightarrow> image_map" where
  "images_of ys = (\<Union>(i, d) \<in> set ys. {((i, ''old''), de_old d), ((i, ''new''), de_new d)})"

lemma home_upd:
  assumes "wf_txn hash root t" "prefix (home root t) q"
  shows "same_dests root t f0 (f(q := x)) = same_dests root t f0 f"
    "staged (st_dests t) (f(q := x)) = staged (st_dests t) f"
    "unseen root t f0 (f(q := x)) = unseen root t f0 f"
proof -
  have "dest root d \<noteq> q" "de_tmp d \<noteq> q" if "d \<in> set (st_dests t)" for d
    using wf_dests(3,8) [OF assms(1) that, of t] assms(2) by auto
  then show 1: "same_dests root t f0 (f(q := x)) = same_dests root t f0 f"
    and 2: "staged (st_dests t) (f(q := x)) = staged (st_dests t) f"
    by (auto simp: same_dests_def staged_def)
  have "ipath root t \<noteq> q" using assms(2) ipath_not_home by metis
  then show "unseen root t f0 (f(q := x)) = unseen root t f0 f"
    using assms(2) 1 2 by (simp add: unseen_def)
qed

definition sided :: "image_map \<Rightarrow> bool" where
  "sided m \<longleftrightarrow> (\<forall>((i, a), v) \<in> m. a = ''old'' \<or> a = ''new'')"

lemma images_sided [simp]: "sided (images_of ys)"
  by (auto simp: sided_def images_of_def)

lemma scratch_is_store: "CHR ''.'' \<notin> set side \<Longrightarrow> scratch (store root t i side) = store root t i ''tmp-intent''"
  by (subst scratch_store) (simp_all add: store_home)

lemma kept_upd:
  assumes "wf_txn hash root t" "sided m" "\<And>j b v. ((j, b), v) \<in> m \<Longrightarrow> store root t j b \<noteq> q" "prefix (home root t) q"
  shows "kept root t f0 m (f(q := x)) = kept root t f0 m f"
proof -
  have "(\<forall>((i, a), v) \<in> m. (f(q := x)) (store root t i a) = Some v) =
      (\<forall>((i, a), v) \<in> m. f (store root t i a) = Some v)"
    using assms(3) by (intro ball_cong) auto
  with home_upd(3) [OF assms(1,4)] show ?thesis by (simp add: kept_def)
qed

lemma store_image_rule:
  assumes wf: "wf_txn hash root t" and m: "sided m" and a: "a = ''old'' \<or> a = ''new''"
    and fresh: "(i, a) \<notin> fst ` m"
  shows "triple k (kept root t f0 m) (write_honest (store root t i a) v) (\<lambda>_. kept root t f0 (insert ((i, a), v) m))
    (\<lambda>_ f. \<not> quiet k \<and> unseen root t f0 f) (\<lambda>f. \<not> quiet k \<and> unseen root t f0 f)"
proof -
  have nodot: "CHR ''.'' \<notin> set ''old''" "CHR ''.'' \<notin> set ''new''" "CHR ''.'' \<notin> set ''tmp-intent''" by simp_all
  then have a': "CHR ''.'' \<notin> set a" using a by auto
  have other: "store root t j b \<noteq> store root t i ''tmp-intent''" if "((j, b), w) \<in> m" for j b w
  proof -
    have b: "b = ''old'' \<or> b = ''new''" using m that by (auto simp: sided_def)
    then have "CHR ''.'' \<notin> set b" by auto
    from store_inject [OF this nodot(3), of root t j i] b show ?thesis by auto
  qed
  have this_other: "store root t i a \<noteq> store root t i ''tmp-intent''"
    using store_inject [OF a' nodot(3), of root t i i] a by auto
  have apart: "store root t j b \<noteq> store root t i a" if "((j, b), w) \<in> m" for j b w
  proof -
    have "CHR ''.'' \<notin> set b" using m that by (auto simp: sided_def)
    from store_inject [OF this a', of root t j i] fresh that show ?thesis by force
  qed
  have home: "prefix (home root t) (store root t j b)" for j b by (simp add: store_home)
  note s = scratch_is_store [OF a', of root t i]
  show ?thesis
  proof (rule write_honest_rule)
    fix f x assume "kept root t f0 m f"
    then show "kept root t f0 m (f(scratch (store root t i a) := x))"
      unfolding s using kept_upd [OF wf m other home] by simp
  next
    fix f assume f: "kept root t f0 m f"
    let ?g = "f(store root t i ''tmp-intent'' := None)"
    have "kept root t f0 m (?g(store root t i a \<mapsto> v))"
      using f kept_upd [OF wf m other home] kept_upd [OF wf m apart home] by simp
    then show "kept root t f0 (insert ((i, a), v) m) ((f(scratch (store root t i a) := None))(store root t i a \<mapsto> v))"
      unfolding s kept_def by simp
  qed (auto simp: kept_def)
qed

lemma store_images_rule:
  assumes wf: "wf_txn hash root t" and fresh: "i \<notin> fst ` set ys"
  shows "triple k (kept root t f0 (images_of ys)) (store_images root (txn_hex (st_txn t)) i (de_old d) (de_new d))
    (\<lambda>r f. r = (store_path (txn_hex (st_txn t)) i ''old'', store_path (txn_hex (st_txn t)) i ''new'') \<and>
       kept root t f0 (images_of (ys @ [(i, d)])) f)
    (\<lambda>_ f. \<not> quiet k \<and> unseen root t f0 f) (\<lambda>f. \<not> quiet k \<and> unseen root t f0 f)"
proof -
  let ?m = "insert ((i, ''old''), de_old d) (images_of ys)"
  have ins: "images_of (ys @ [(i, d)]) = insert ((i, ''new''), de_new d) ?m" by (auto simp: images_of_def)
  have f1: "(i, ''old'') \<notin> fst ` images_of ys" "(i, ''new'') \<notin> fst ` ?m"
    using fresh by (force simp: images_of_def)+
  have sided: "sided ?m" by (auto simp: sided_def images_of_def)
  have 1: "triple k (kept root t f0 (images_of ys)) (write_honest (store root t i ''old'') (de_old d)) (\<lambda>_. kept root t f0 ?m)
      (\<lambda>_ f. \<not> quiet k \<and> unseen root t f0 f) (\<lambda>f. \<not> quiet k \<and> unseen root t f0 f)"
    by (rule store_image_rule [OF wf images_sided _ f1(1)]) simp
  have 2: "triple k (kept root t f0 ?m) (write_honest (store root t i ''new'') (de_new d))
      (\<lambda>_. kept root t f0 (images_of (ys @ [(i, d)])))
      (\<lambda>_ f. \<not> quiet k \<and> unseen root t f0 f) (\<lambda>f. \<not> quiet k \<and> unseen root t f0 f)"
    unfolding ins by (rule store_image_rule [OF wf sided _ f1(2)]) simp
  show ?thesis
    unfolding store_images_def store_def [symmetric]
    by (rule triple_andthen [OF 1], rule triple_andthen [OF 2], rule triple_return) simp
qed

lemma decide_member_rule:
  assumes wf: "wf_txn hash root t" and fresh: "i \<notin> fst ` set ys" and d: "d \<in> set (st_dests t)"
  shows "triple k (kept root t f0 (images_of ys)) (decide_member hash root (txn_hex (st_txn t)) (i, d))
    (\<lambda>m f. m = member_of hash root t (i, d) \<and> kept root t f0 (images_of (ys @ [(i, d)])) f)
    (\<lambda>_ f. \<not> quiet k \<and> unseen root t f0 f) (\<lambda>f. \<not> quiet k \<and> unseen root t f0 f)"
proof -
  have 1: "triple k (kept root t f0 (images_of ys)) (sync_file (de_tmp d)) (\<lambda>_. kept root t f0 (images_of ys))
      (\<lambda>_ f. \<not> quiet k \<and> unseen root t f0 f) (\<lambda>f. \<not> quiet k \<and> unseen root t f0 f)"
    by (rule look_up_rules(1)) (use d in \<open>auto simp: kept_def unseen_def staged_def\<close>)
  show ?thesis
    unfolding decide_member_def prod.case
  proof (rule triple_andthen [OF 1], rule triple_bind [OF store_images_rule [OF wf fresh]])
    fix r
    show "triple k (\<lambda>f. r = (store_path (txn_hex (st_txn t)) i ''old'', store_path (txn_hex (st_txn t)) i ''new'') \<and>
         kept root t f0 (images_of (ys @ [(i, d)])) f)
      (case r of (old_store, new_store) \<Rightarrow> return
         \<lparr>im_rel = de_rel d, im_old = hash (de_old d), im_new = hash (de_new d),
          im_tmp = strip_root root (de_tmp d), im_old_store = old_store, im_new_store = new_store\<rparr>)
      (\<lambda>m f. m = member_of hash root t (i, d) \<and> kept root t f0 (images_of (ys @ [(i, d)])) f)
      (\<lambda>_ f. \<not> quiet k \<and> unseen root t f0 f) (\<lambda>f. \<not> quiet k \<and> unseen root t f0 f)"
      by (rule triple_fact) (auto intro!: triple_return simp: member_of_def)
  qed
qed

section \<open>The decision\<close>

lemma kept_stores: "kept root t f0 (images_of (enumerate 0 (st_dests t))) f \<Longrightarrow> stores root t f"
  by (fastforce simp: kept_def images_of_def stores_def)

lemma create_decided_rule:
  assumes wf: "wf_txn hash root t" and old: "all_old root t f0"
  shows "triple k (\<lambda>f. unseen root t f0 f \<and> stores root t f)
    (create_decided hash root (intent_of hash root t))
    (\<lambda>_ f. framed root t f0 f \<and> same_dests root t f0 f \<and> staged (st_dests t) f \<and> stores root t f \<and>
       reads_as hash root t Decided f)
    (\<lambda>_ f. \<not> quiet k \<and> framed root t f0 f \<and> refused hash root t f0 f)
    (\<lambda>f. \<not> quiet k \<and> framed root t f0 f \<and> refused hash root t f0 f)"
    (is "triple k _ _ (\<lambda>_. ?Q) ?E ?C")
proof -
  let ?c = "encode_intent hash (intent_of hash root t)"
  let ?S = "\<lambda>f. framed root t f0 f \<and> same_dests root t f0 f \<and> staged (st_dests t) f \<and> stores root t f"
  have at: "intent_path root (it_txn (intent_of hash root t)) = ipath root t"
    by (simp add: intent_of_def ipath_def)
  have sound: "sound_intent (intent_of hash root t)" "unit_digests hash"
    "\<not> sublist ''checksum='' (terminated (intent_lines (intent_of hash root t)))"
    using wf by (simp_all add: wf_txn_def)
  have decided: "intent_of hash root t\<lparr>it_phase := Decided\<rparr> = intent_of hash root t" by (simp add: intent_of_def)
  have torn: "decode_intent hash (take n ?c) \<in> {None, Some (intent_of hash root t)}" for n
    by (rule decode_torn_intent [OF sound])
  have empty: "decode_intent hash [] = None"
    by (simp add: decode_intent_def unsealed_def rsplit_str_None [THEN iffD2])
  have whole: "decode_intent hash ?c = Some (intent_of hash root t)" by (rule decode_encode_intent [OF sound(1,2)])
  have upd: "?S (f(ipath root t := x)) = ?S f" for f x
    using wf_dests(1,6) [OF wf, of _ t] by (simp add: same_dests_def staged_def state_upds ipath_not_home)
  have stop: "?E e f \<and> ?C f" if "\<not> quiet k" "?S f" "unread hash root t f \<or> reads_as hash root t Decided f" for e f
    using that old by (auto simp: refused_iff)
  have sync: "triple k ?Q sync_handle (\<lambda>_. ?Q) ?E ?C" by (rule no_effect_rules(1)) (use stop in auto)
  let ?B = "\<lambda>f. ?S f \<and> f (ipath root t) = Some []"
  have 1: "triple k (\<lambda>f. unseen root t f0 f \<and> stores root t f) (create_dirs (intent_dir root (it_txn (intent_of hash root t))))
      (\<lambda>_ f. unseen root t f0 f \<and> stores root t f) ?E ?C"
    by (rule no_effect_rules(2)) (use stop in \<open>auto simp: unseen_def unread_def\<close>)
  have 2: "triple k (\<lambda>f. unseen root t f0 f \<and> stores root t f) (create_new (ipath root t)) (\<lambda>_. ?B) ?E ?C"
    by (rule create_new_rule) (use stop upd in \<open>auto simp: unseen_def unread_def\<close>)
  have 3: "triple k ?B (write_all (ipath root t) ?c) (\<lambda>_. ?Q) ?E ?C"
  proof (rule write_rule)
    fix f assume "?B f"
    then show "?Q (f(ipath root t \<mapsto> ?c))" using upd [of f] whole by (simp add: reads_as_def decided)
  next
    fix f n assume "\<not> quiet k" "?B f"
    moreover have "unread hash root t (f(ipath root t \<mapsto> take n ?c)) \<or> reads_as hash root t Decided (f(ipath root t \<mapsto> take n ?c))"
      using torn [of n] by (auto simp: unread_def reads_as_def decided)
    ultimately have "?E OtherError (f(ipath root t \<mapsto> take n ?c)) \<and> ?C (f(ipath root t \<mapsto> take n ?c))"
      using upd by (intro stop) blast+
    then show "(k = Failing \<longrightarrow> ?E OtherError (f(ipath root t \<mapsto> take n ?c))) \<and>
        ?C (f(ipath root t \<mapsto> take n ?c))" by blast
  qed
  show ?thesis
    unfolding create_decided_def at
    by (rule triple_andthen [OF 1 triple_andthen [OF 2 triple_andthen [OF 3 triple_andthen [OF sync sync]]]])
qed

lemma gather_map_rule:
  assumes "\<And>ys x zs. xs = ys @ x # zs \<Longrightarrow> triple k (J ys) (m x) (\<lambda>r f. r = g x \<and> J (ys @ [x]) f) E C"
  shows "triple k (J []) (gather m xs) (\<lambda>rs f. rs = map g xs \<and> J xs f) E C"
proof -
  have "triple k (\<lambda>f. [] = map g [] \<and> J [] f) (gather m xs)
      (\<lambda>rs f. length rs = length xs \<and> rs = map g xs \<and> J xs f) E C"
  proof (rule triple_gather [where I = "\<lambda>ys rs f. rs = map g ys \<and> J ys f"])
    fix ys rs x zs assume xs: "xs = ys @ x # zs"
    show "triple k (\<lambda>f. rs = map g ys \<and> J ys f) (m x) (\<lambda>r f. rs @ [r] = map g (ys @ [x]) \<and> J (ys @ [x]) f) E C"
      by (rule triple_fact, rule triple_conseq [OF assms [OF xs]]) auto
  qed
  then show ?thesis by (rule triple_conseq) auto
qed

lemma decide_rule:
  assumes wf: "wf_txn hash root t" and old: "all_old root t f0" and ready: "ready root t f0"
  shows "triple k (\<lambda>f. f = f0) (decide hash root t)
    (\<lambda>r f. r = intent_of hash root t \<and> framed root t f0 f \<and> same_dests root t f0 f \<and>
       staged (st_dests t) f \<and> stores root t f \<and> reads_as hash root t Decided f)
    (\<lambda>_ f. \<not> quiet k \<and> framed root t f0 f \<and> refused hash root t f0 f)
    (\<lambda>f. \<not> quiet k \<and> framed root t f0 f \<and> refused hash root t f0 f)"
    (is "triple k _ _ ?Q ?E ?C")
proof -
  let ?xs = "enumerate 0 (st_dests t)"
  have unseen: "framed root t f0 f \<and> refused hash root t f0 f" if "unseen root t f0 f" for f
    using that by (auto simp: unseen_def refused_iff unread_def)
  have fresh: "i \<notin> fst ` set ys" if "?xs = ys @ (i, d) # zs" for ys i d zs
  proof -
    have "distinct (map fst ?xs)" by simp
    then show ?thesis unfolding that by (auto simp: image_iff)
  qed
  have 1: "triple k (kept root t f0 (images_of [])) (gather (decide_member hash root (txn_hex (st_txn t))) ?xs)
      (\<lambda>rs f. rs = map (member_of hash root t) ?xs \<and> kept root t f0 (images_of ?xs) f) ?E ?C"
  proof (rule gather_map_rule [where J = "\<lambda>ys. kept root t f0 (images_of ys)"])
    fix ys x zs assume xs: "?xs = ys @ x # zs"
    obtain i d where x: "x = (i, d)" by (cases x)
    have "(i, d) \<in> set ?xs" unfolding xs x by simp
    then have d: "d \<in> set (st_dests t)" by (rule member_dest)
    show "triple k (kept root t f0 (images_of ys)) (decide_member hash root (txn_hex (st_txn t)) x)
        (\<lambda>r f. r = member_of hash root t x \<and> kept root t f0 (images_of (ys @ [x])) f) ?E ?C"
      unfolding x
      by (rule triple_conseq [OF decide_member_rule [OF wf fresh [OF xs [unfolded x]] d]]) (use unseen in auto)
  qed
  have start: "kept root t f0 (images_of []) f0"
    using ready by (simp add: kept_def images_of_def unseen_def ready_def same_dests_def)
  show ?thesis
    unfolding decide_def Let_def
  proof (rule triple_bind [OF triple_pre [OF 1]])
    fix ms
    let ?r = "\<lparr>it_epoch = txn_hex (st_epoch t), it_txn = txn_hex (st_txn t), it_phase = Decided,
      it_policy = st_policy t, it_members = ms\<rparr>"
    show "triple k (\<lambda>f. ms = map (member_of hash root t) ?xs \<and> kept root t f0 (images_of ?xs) f)
        (andthen (create_decided hash root ?r) (return ?r)) ?Q ?E ?C"
    proof (rule triple_fact)
      assume "ms = map (member_of hash root t) ?xs"
      then have r: "?r = intent_of hash root t" by (simp add: intent_of_def)
      have 2: "triple k (kept root t f0 (images_of ?xs)) (create_decided hash root (intent_of hash root t))
          (\<lambda>_ f. ?Q (intent_of hash root t) f) ?E ?C"
        by (rule triple_conseq [OF create_decided_rule [OF wf old]])
          (use kept_stores in \<open>auto simp: kept_def\<close>)
      show "triple k (kept root t f0 (images_of ?xs)) (andthen (create_decided hash root ?r) (return ?r)) ?Q ?E ?C"
        unfolding r by (rule triple_andthen [OF 2]) (rule triple_return, simp)
    qed
  qed (use start in auto)
qed

section \<open>Carrying the decision out\<close>

lemma pending_tmp_upd:
  assumes "wf_txn hash root t" "d \<in> set (st_dests t)"
  shows "pending hash root t (f(de_tmp d := x)) = pending hash root t f"
    and "d' \<in> set (st_dests t) \<Longrightarrow> is_new root d' (f(de_tmp d := x)) = is_new root d' f"
  using wf_dests [OF assms, of t] wf_tmp_dest [OF assms]
  by (simp_all add: pending_def mixed_def state_upds)

text \<open>Each staged file holds the new bytes, or has been dropped where that is allowed.\<close>

definition to_hand :: "bool \<Rightarrow> dest_image list \<Rightarrow> contents \<Rightarrow> bool" where
  "to_hand dropped ds f \<longleftrightarrow>
     (\<forall>d \<in> set ds. f (de_tmp d) = Some (de_new d) \<or> (dropped \<and> f (de_tmp d) = None))"

lemma to_hand_drop: "to_hand True ds f \<Longrightarrow> to_hand True ds (f(q := None))"
  by (auto simp: to_hand_def)

lemma drop_temps_rule:
  assumes wf: "wf_txn hash root t"
  shows "triple k (\<lambda>f. framed root t f0 f \<and> pending hash root t f \<and> to_hand True (st_dests t) f)
    (drop_temps (st_dests t))
    (\<lambda>_ f. framed root t f0 f \<and> pending hash root t f \<and> to_hand True (st_dests t) f) E
    (\<lambda>f. \<not> quiet k \<and> framed root t f0 f \<and> pending hash root t f)"
  unfolding drop_temps_def
proof (rule triple_each_do
    [where I = "\<lambda>ys f. framed root t f0 f \<and> pending hash root t f \<and> to_hand True (st_dests t) f"])
  fix ys d zs assume "st_dests t = ys @ d # zs"
  then have d: "d \<in> set (st_dests t)" by simp
  show "triple k (\<lambda>f. framed root t f0 f \<and> pending hash root t f \<and> to_hand True (st_dests t) f)
      (ignored (remove_file (de_tmp d)))
      (\<lambda>_ f. framed root t f0 f \<and> pending hash root t f \<and> to_hand True (st_dests t) f) E
      (\<lambda>f. \<not> quiet k \<and> framed root t f0 f \<and> pending hash root t f)"
    by (intro triple_ignored remove_rule) (use d pending_tmp_upd(1) [OF wf d] to_hand_drop in auto)
qed

lemma rename_dest_rule:
  assumes wf: "wf_txn hash root t" and ds: "st_dests t = ys @ d # zs"
  shows "triple k
    (\<lambda>f. framed root t f0 f \<and> pending hash root t f \<and> (\<forall>d \<in> set ys. is_new root d f) \<and> to_hand dropped (d # zs) f)
    (rename_dest root d)
    (\<lambda>_ f. framed root t f0 f \<and> pending hash root t f \<and> (\<forall>d \<in> set (ys @ [d]). is_new root d f) \<and> to_hand dropped zs f)
    (\<lambda>_ f. (quiet k \<longrightarrow> dropped) \<and> framed root t f0 f \<and> pending hash root t f)
    (\<lambda>f. \<not> quiet k \<and> framed root t f0 f \<and> pending hash root t f)"
    (is "triple k ?P _ (\<lambda>_. ?Q) ?E ?C")
proof -
  have d: "d \<in> set (st_dests t)" and sub: "set ys \<subseteq> set (st_dests t)" "set zs \<subseteq> set (st_dests t)"
    using ds by auto
  have "distinct (st_dests t)"
    using wf by (simp add: wf_txn_def distinct_map)
  then have notin: "d \<notin> set zs" "d \<notin> set ys" using ds by auto
  have move: "?Q ((f(de_tmp d := None))(dest root d \<mapsto> b))" if f: "?P f" and b: "f (de_tmp d) = Some b" for f b
  proof -
    let ?g = "f(de_tmp d := None)"
    have new: "b = de_new d" using f b by (auto simp: to_hand_def)
    then have n: "is_new root d (?g(dest root d \<mapsto> b))" by (simp add: is_new_def)
    have "pending hash root t ?g" using f pending_tmp_upd(1) [OF wf d] by simp
    then have "pending hash root t (?g(dest root d \<mapsto> b))"
      by (rule pending_dest_upd [OF wf d]) (use n in blast)
    moreover have "is_new root d' (?g(dest root d \<mapsto> b))" if d': "d' \<in> set (ys @ [d])" for d'
    proof (cases "dest root d' = dest root d")
      case True
      then have "d' = d" using wf_dest_inject [OF wf _ d, of d'] d' sub d by auto
      with n show ?thesis by simp
    next
      case False
      with d' have "d' \<in> set ys" by auto
      then have "is_new root d' f" "d' \<in> set (st_dests t)" using f sub by auto
      with pending_tmp_upd(2) [OF wf d] False show ?thesis by (simp add: is_new_upd [OF not_sym])
    qed
    moreover have "to_hand dropped zs (?g(dest root d \<mapsto> b))"
      unfolding to_hand_def
    proof
      fix e assume e: "e \<in> set zs"
      then have "de_tmp e \<noteq> de_tmp d" "de_tmp e \<noteq> dest root d"
        using wf_tmp_inject [OF wf _ d, of e] wf_tmp_dest [OF wf _ d, of e] sub notin by auto
      then show "(?g(dest root d \<mapsto> b)) (de_tmp e) = Some (de_new e) \<or>
          (dropped \<and> (?g(dest root d \<mapsto> b)) (de_tmp e) = None)"
        using f e by (auto simp: to_hand_def)
    qed
    moreover have "framed root t f0 (?g(dest root d \<mapsto> b))" using f d by simp
    ultimately show ?thesis by blast
  qed
  have 1: "triple k ?P (create_dirs (butlast (dest root d))) (\<lambda>_. ?P) ?E ?C"
    by (rule no_effect_rules(2)) auto
  have 2: "triple k ?P (rename_file (de_tmp d) (dest root d)) (\<lambda>_. ?Q) ?E ?C"
    by (rule rename_rule) (use move in \<open>auto simp: to_hand_def\<close>)
  have 3: "triple k ?Q sync_handle (\<lambda>_. ?Q) ?E ?C"
    by (rule no_effect_rules(1)) auto
  show ?thesis
    unfolding rename_dest_def by (rule triple_andthen [OF 1 triple_andthen [OF 2 3]])
qed

lemma rename_all_rule:
  assumes wf: "wf_txn hash root t"
  shows "triple k (\<lambda>f. framed root t f0 f \<and> pending hash root t f \<and> to_hand dropped (st_dests t) f)
    (rename_all root (st_dests t))
    (\<lambda>_ f. framed root t f0 f \<and> pending hash root t f \<and> all_new root t f)
    (\<lambda>_ f. (quiet k \<longrightarrow> dropped) \<and> framed root t f0 f \<and> pending hash root t f)
    (\<lambda>f. \<not> quiet k \<and> framed root t f0 f \<and> pending hash root t f)"
proof -
  let ?I = "\<lambda>ys f. framed root t f0 f \<and> pending hash root t f \<and> (\<forall>d \<in> set ys. is_new root d f) \<and>
      to_hand dropped (drop (length ys) (st_dests t)) f"
  have "triple k (?I []) (rename_all root (st_dests t)) (\<lambda>_. ?I (st_dests t))
      (\<lambda>_ f. (quiet k \<longrightarrow> dropped) \<and> framed root t f0 f \<and> pending hash root t f)
      (\<lambda>f. \<not> quiet k \<and> framed root t f0 f \<and> pending hash root t f)"
    unfolding rename_all_def
  proof (rule triple_each_do [where I = ?I])
    fix ys d zs assume ds: "st_dests t = ys @ d # zs"
    have cut: "drop (length ys) (st_dests t) = d # zs" "drop (length (ys @ [d])) (st_dests t) = zs"
      by (simp_all add: ds)
    show "triple k (?I ys) (rename_dest root d) (\<lambda>_. ?I (ys @ [d]))
        (\<lambda>_ f. (quiet k \<longrightarrow> dropped) \<and> framed root t f0 f \<and> pending hash root t f)
        (\<lambda>f. \<not> quiet k \<and> framed root t f0 f \<and> pending hash root t f)"
      unfolding cut by (rule rename_dest_rule [OF wf ds])
  qed
  then show ?thesis by (rule triple_conseq) (auto simp: all_new_def)
qed

section \<open>The standing of a transaction\<close>

text \<open>What the caller's answer says of the disk, \<open>f0\<close> being the contents before.\<close>

definition stands :: "(str \<Rightarrow> str) \<Rightarrow> path \<Rightarrow> staged_txn \<Rightarrow> contents \<Rightarrow>
    publish_error + publish_receipt \<Rightarrow> contents \<Rightarrow> bool" where
  "stands hash root t f0 res f \<longleftrightarrow>
     (case res of
        Inr _ \<Rightarrow> landed hash root t f
      | Inl (CommitUnknown _ _) \<Rightarrow> recoverable hash root t f
      | Inl _ \<Rightarrow> refused hash root t f0 f)"

definition in_doubt :: "(str \<Rightarrow> str) \<Rightarrow> path \<Rightarrow> staged_txn \<Rightarrow> contents \<Rightarrow> contents \<Rightarrow> bool" where
  "in_doubt hash root t f0 f \<longleftrightarrow> recoverable hash root t f \<or> refused hash root t f0 f"

lemma carry_out_rule:
  assumes wf: "wf_txn hash root t"
  shows "triple k (\<lambda>f. framed root t f0 f \<and> pending hash root t f \<and> staged (st_dests t) f)
    (carry_out hash root ow t refold (intent_of hash root t))
    (\<lambda>(res, ow') f. framed root t f0 f \<and> stands hash root t f0 res f \<and>
       (quiet k \<and> \<not> st_drop_tmp t \<longrightarrow> (\<exists>p. res = Inr p)) \<and>
       (case res of Inl (CommitUnknown _ _) \<Rightarrow> True | Inl _ \<Rightarrow> False | Inr _ \<Rightarrow> True))
    E (\<lambda>f. \<not> quiet k \<and> framed root t f0 f \<and> recoverable hash root t f)"
    (is "triple k _ _ ?Q E ?C")
proof -
  let ?J = "\<lambda>f. framed root t f0 f \<and> pending hash root t f \<and> to_hand (st_drop_tmp t) (st_dests t) f"
  let ?r = "intent_of hash root t"
  have pend: "recoverable hash root t f" if "pending hash root t f" for f
    using that by (simp add: recoverable_def)
  have 1: "triple k (\<lambda>f. framed root t f0 f \<and> pending hash root t f \<and> staged (st_dests t) f)
      (if st_drop_tmp t then drop_temps (st_dests t) else return ()) (\<lambda>_. ?J) E ?C"
  proof (cases "st_drop_tmp t")
    case True
    have "triple k (\<lambda>f. framed root t f0 f \<and> pending hash root t f \<and> staged (st_dests t) f)
        (drop_temps (st_dests t)) (\<lambda>_. ?J) E ?C"
      by (rule triple_conseq [OF drop_temps_rule [OF wf]])
        (use True pend in \<open>auto simp: staged_def to_hand_def\<close>)
    with True show ?thesis by simp
  qed (auto intro!: triple_return simp: staged_def to_hand_def)
  let ?R = "\<lambda>r f. framed root t f0 f \<and> pending hash root t f \<and>
      (case r of Inr _ \<Rightarrow> all_new root t f | Inl _ \<Rightarrow> quiet k \<longrightarrow> st_drop_tmp t)"
  have 2: "triple k ?J (attempted (rename_all root (st_dests t))) ?R E ?C"
    by (rule triple_attempted, rule triple_conseq [OF rename_all_rule [OF wf]]) (use pend in auto)
  let ?F = "\<lambda>r f. framed root t f0 f \<and> (case r of Inr _ \<Rightarrow> all_new root t f \<and> reads_as hash root t Applied f
      | Inl _ \<Rightarrow> \<not> quiet k \<and> recoverable hash root t f)"
  have 3: "triple k (?R (Inr u)) (attempted (finalize hash root ?r)) ?F E ?C" for u
    by (rule triple_attempted, rule triple_conseq [OF finalize_rule [OF wf]]) auto
  have 4: "triple k (?F (Inr u))
      (andthen (ignored (reclaim root (txn_hex (st_txn t)))) (return (Inr x, ow'))) ?Q E ?C" for u x ow'
    by (rule triple_conseq [OF finish_rule [OF wf all_upds(2,4) [OF wf], of "reads_as hash root t Applied"]])
      (auto simp: recoverable_def landed_def stands_def)
  show ?thesis
    unfolding carry_out_def
  proof (rule triple_andthen [OF 1], rule triple_bind [OF 2])
    fix r
    show "triple k (?R r)
      (case r of Inl e \<Rightarrow> return (Inl (CommitUnknown (st_txn t) e), ow)
       | Inr _ \<Rightarrow> (let (frame, ow') = owner_apply (st_files t) (st_actor t) (st_now t) refold ow in
           bind (attempted (finalize hash root ?r))
           (\<lambda>finalized. case finalized of
              Inl e \<Rightarrow> return (Inl (CommitUnknown (st_txn t) e), ow')
            | Inr _ \<Rightarrow> andthen (ignored (reclaim root (txn_hex (st_txn t))))
                (return (Inr \<lparr>pr_txn = st_txn t, pr_frame = frame\<rparr>, ow'))))) ?Q E ?C"
    proof (cases r)
      case (Inl e)
      then show ?thesis using pend by (auto intro!: triple_return simp: stands_def)
    next
      case (Inr u)
      obtain frame ow' where ap: "owner_apply (st_files t) (st_actor t) (st_now t) refold ow = (frame, ow')"
        by (cases "owner_apply (st_files t) (st_actor t) (st_now t) refold ow")
      have 5: "triple k (?F v) (case v of Inl e \<Rightarrow> return (Inl (CommitUnknown (st_txn t) e), ow')
          | Inr _ \<Rightarrow> andthen (ignored (reclaim root (txn_hex (st_txn t))))
              (return (Inr \<lparr>pr_txn = st_txn t, pr_frame = frame\<rparr>, ow'))) ?Q E ?C" for v
      proof (cases v)
        case (Inl e)
        then show ?thesis by (auto intro!: triple_return simp: stands_def)
      next
        case (Inr w)
        then show ?thesis using 4 [of w] by simp
      qed
      from triple_bind [OF 3 5] show ?thesis by (simp add: Inr ap)
    qed
  qed
qed

lemma publish_admitted_rule:
  assumes wf: "wf_txn hash root t" and ready: "ready root t f0"
  shows "triple k (\<lambda>f. f = f0) (publish_admitted hash root ow t refold)
    (\<lambda>(res, ow') f. framed root t f0 f \<and> stands hash root t f0 res f \<and>
       (quiet k \<and> \<not> st_drop_tmp t \<longrightarrow> (\<exists>p. res = Inr p) = all_old root t f0))
    (\<lambda>_ _. False) (\<lambda>f. \<not> quiet k \<and> framed root t f0 f \<and> in_doubt hash root t f0 f)"
    (is "triple k _ _ ?Q _ ?C")
proof -
  have self: "refused hash root t f0 f0" using ready by (simp add: refused_iff same_dests_def unread_def ready_def)
  let ?V = "\<lambda>r f. f = f0 \<and> (case r of Inr _ \<Rightarrow> all_old root t f0
      | Inl e \<Rightarrow> (\<exists>x. e = IoFailed x \<and> \<not> quiet k) \<or> (\<exists>x. e = Conflict x) \<and> \<not> all_old root t f0)"
  have 1: "triple k (\<lambda>f. f = f0) (reverify root (st_dests t)) ?V (\<lambda>_ _. False) ?C"
    by (rule triple_conseq [OF reverify_rule]) (use self in \<open>auto simp: all_old_def in_doubt_def split: sum.splits\<close>)
  let ?D = "\<lambda>r f. framed root t f0 f \<and> (case r of
      Inr i \<Rightarrow> i = intent_of hash root t \<and> pending hash root t f \<and> staged (st_dests t) f
    | Inl _ \<Rightarrow> \<not> quiet k \<and> refused hash root t f0 f)"
  have 2: "triple k (\<lambda>f. f = f0) (attempted (decide hash root t)) ?D (\<lambda>_ _. False) ?C" if "all_old root t f0"
    by (rule triple_attempted, rule triple_conseq [OF decide_rule [OF wf that ready]])
      (use that same_dests_old all_mixed in \<open>auto simp: in_doubt_def pending_def\<close>)
  have 3: "triple k (?D r) (case r of Inl e \<Rightarrow> return (Inl (IoFailed e), ow)
      | Inr i \<Rightarrow> carry_out hash root ow t refold i) ?Q (\<lambda>_ _. False) ?C" if old: "all_old root t f0" for r
  proof (cases r)
    case (Inl e)
    then show ?thesis by (auto intro!: triple_return simp: stands_def)
  next
    case (Inr i)
    have "triple k (\<lambda>f. framed root t f0 f \<and> pending hash root t f \<and> staged (st_dests t) f)
        (carry_out hash root ow t refold (intent_of hash root t)) ?Q (\<lambda>_ _. False) ?C"
      by (rule triple_conseq [OF carry_out_rule [OF wf]]) (use old in \<open>auto simp: in_doubt_def\<close>)
    then have "triple k (\<lambda>f. i = intent_of hash root t \<and> framed root t f0 f \<and> pending hash root t f \<and> staged (st_dests t) f)
        (carry_out hash root ow t refold i) ?Q (\<lambda>_ _. False) ?C"
      by (intro triple_fact) simp
    then show ?thesis by (simp add: Inr) (erule triple_pre, auto)
  qed
  show ?thesis
    unfolding publish_admitted_def
  proof (rule triple_bind [OF 1])
    fix r
    show "triple k (?V r) (case r of Inl e \<Rightarrow> return (Inl e, ow)
      | Inr _ \<Rightarrow> bind (attempted (decide hash root t))
          (\<lambda>decided. case decided of Inl e \<Rightarrow> return (Inl (IoFailed e), ow)
            | Inr r \<Rightarrow> carry_out hash root ow t refold r)) ?Q (\<lambda>_ _. False) ?C"
    proof (cases r)
      case (Inl e)
      then show ?thesis using self by (auto intro!: triple_return simp: stands_def split: publish_error.splits)
    next
      case (Inr u)
      show ?thesis
      proof (cases "all_old root t f0")
        case True
        from triple_bind [OF 2 [OF True] 3 [OF True]] show ?thesis by (simp add: Inr True)
      qed (simp add: Inr triple_def)
    qed
  qed
qed

end
