(* ===== verification/Crash_Laws.thy ===== *)
theory Crash_Laws
  imports Publish_Steps "HOL-Library.Multiset"
begin

text \<open>
  Many transactions on one disk: the standing of each depends on its own files only, recovery of
  one leaves the others alone, and a recovery that is not cut off settles them all.
\<close>

section \<open>A state is about its own files\<close>

definition agrees :: "path \<Rightarrow> staged_txn \<Rightarrow> contents \<Rightarrow> contents \<Rightarrow> bool" where
  "agrees root t f g \<longleftrightarrow> (\<forall>q \<in> footprint root t. f q = g q)"

lemma agrees_self [simp]: "agrees root t f f"
  by (simp add: agrees_def)

lemma agrees_at:
  assumes "agrees root t f g"
  shows "f (ipath root t) = g (ipath root t)" "f (store root t i a) = g (store root t i a)"
    "d \<in> set (st_dests t) \<Longrightarrow> f (dest root d) = g (dest root d)"
    "d \<in> set (st_dests t) \<Longrightarrow> f (de_tmp d) = g (de_tmp d)"
  using assms unfolding agrees_def by (auto simp: store_home)

lemma agrees_states:
  assumes "agrees root t f g"
  shows "all_old root t f = all_old root t g" "all_new root t f = all_new root t g"
    "mixed root t f = mixed root t g" "stores root t f = stores root t g"
    "reads_as hash root t ph f = reads_as hash root t ph g" "unread hash root t f = unread hash root t g"
    "same_dests root t f0 f = same_dests root t f0 g" "ready root t f = ready root t g"
proof -
  note at = agrees_at [OF assms]
  show "all_old root t f = all_old root t g" "all_new root t f = all_new root t g" "mixed root t f = mixed root t g"
    using at(3) by (simp_all add: all_old_def all_new_def mixed_def is_old_def is_new_def)
  show "stores root t f = stores root t g" using at(2) by (simp add: stores_def)
  show "reads_as hash root t ph f = reads_as hash root t ph g" "unread hash root t f = unread hash root t g"
    using at(1) by (simp_all add: reads_as_def unread_def)
  show "same_dests root t f0 f = same_dests root t f0 g" using at(3) by (simp add: same_dests_def)
  show "ready root t f = ready root t g" using at(1,4) by (simp add: ready_def staged_def)
qed

text \<open>The standing of a transaction: by the caller's answer, or in doubt where there is none.\<close>

definition holds_as :: "(str \<Rightarrow> str) \<Rightarrow> path \<Rightarrow> staged_txn \<Rightarrow> contents \<Rightarrow>
    (publish_error + publish_receipt) option \<Rightarrow> contents \<Rightarrow> bool" where
  "holds_as hash root t f0 x f \<longleftrightarrow>
     (case x of None \<Rightarrow> in_doubt hash root t f0 f | Some r \<Rightarrow> stands hash root t f0 r f)"

lemma agrees_holds:
  assumes "agrees root t f g"
  shows "holds_as hash root t f0 x f = holds_as hash root t f0 x g"
  unfolding holds_as_def stands_def in_doubt_def recoverable_def pending_def landed_def taken_back_def refused_iff
  using agrees_states [OF assms] agrees_at(1) [OF assms]
  by (simp split: option.split sum.split publish_error.split)

lemma refused_base:
  assumes "same_dests root t f0 f1" "refused hash root t f1 f"
  shows "refused hash root t f0 f"
  using assms same_dests_old [OF assms(1)] by (auto simp: refused_iff same_dests_def)

lemma holds_base:
  assumes "agrees root t f0 f1" "holds_as hash root t f1 x f"
  shows "holds_as hash root t f0 x f"
proof -
  have "same_dests root t f0 f1" using agrees_at(3) [OF assms(1)] by (simp add: same_dests_def)
  then have "refused hash root t f1 f \<Longrightarrow> refused hash root t f0 f" by (rule refused_base)
  with assms(2) show ?thesis
    by (auto simp: holds_as_def in_doubt_def stands_def split: option.splits sum.splits publish_error.splits)
qed

section \<open>Recovering one row of a scan\<close>

text \<open>The row a transaction appears as; a read that fails makes it indeterminate.\<close>

definition row_ok :: "mode \<Rightarrow> (str \<Rightarrow> str) \<Rightarrow> path \<Rightarrow> staged_txn \<Rightarrow> contents \<Rightarrow> found \<Rightarrow> bool" where
  "row_ok k hash root t f row \<longleftrightarrow>
     (\<not> quiet k \<and> row = Indeterminate (ipath root t)) \<or>
     (\<exists>c. f (ipath root t) = Some c \<and>
        row = (case decode_intent hash c of Some r \<Rightarrow> FoundIntent r | None \<Rightarrow> Indeterminate (ipath root t)))"

lemma standing_cases:
  assumes "holds_as hash root t f0 x f"
  obtains "unread hash root t f"
  | "pending hash root t f" "\<And>g. recoverable hash root t g \<Longrightarrow>
      (all_old root t f \<longrightarrow> refused hash root t f g) \<Longrightarrow> holds_as hash root t f0 x g"
  | "all_new root t f" "reads_as hash root t Applied f"
    "\<And>g. landed hash root t g \<Longrightarrow> holds_as hash root t f0 x g"
proof -
  have none: "unread hash root t f" if "f (ipath root t) = None" using that by (simp add: unread_def)
  consider (l) "landed hash root t f" "\<And>g. landed hash root t g \<Longrightarrow> holds_as hash root t f0 x g"
    | (p) "pending hash root t f" "\<And>g. recoverable hash root t g \<Longrightarrow> holds_as hash root t f0 x g"
    | (u) "unread hash root t f"
    | (r) "refused hash root t f0 f" "\<And>g. refused hash root t f0 g \<Longrightarrow> holds_as hash root t f0 x g"
    using assms unfolding holds_as_def in_doubt_def stands_def
    by (auto simp: recoverable_def taken_back_def split: option.splits sum.splits publish_error.splits)
  then show ?thesis
  proof cases
    case l
    with none that(1,3) show ?thesis by (auto simp: landed_def)
  next
    case p
    with that(2) show ?thesis by blast
  next
    case r
    show ?thesis
    proof (cases "unread hash root t f")
      case False
      with r have f: "same_dests root t f0 f" "all_old root t f0" "stores root t f" "reads_as hash root t Decided f"
        by (auto simp: refused_iff)
      then have "all_old root t f" by (simp add: same_dests_old)
      moreover have "pending hash root t f" using f calculation by (simp add: pending_def all_mixed)
      ultimately show ?thesis using that(2) r(2) refused_base [OF f(1)] by blast
    qed (rule that(1))
  qed (rule that(1))
qed

lemma reads_row:
  "reads_as hash root t ph f \<Longrightarrow> row_ok k hash root t f row \<Longrightarrow>
   row = FoundIntent (intent_of hash root t\<lparr>it_phase := ph\<rparr>) \<or> (\<not> quiet k \<and> row = Indeterminate (ipath root t))"
  by (auto simp: reads_as_def row_ok_def)

lemma decided_phase [simp]: "intent_of hash root t\<lparr>it_phase := Decided\<rparr> = intent_of hash root t"
  by (simp add: intent_of_def)

lemma recover_row_rule:
  assumes wf: "wf_txn hash root t" and h: "holds_as hash root t f0 x f1" and row: "row_ok k hash root t f1 row"
  shows "triple k (\<lambda>f. f = f1) (recover_row hash root row)
    (\<lambda>_ f. framed root t f1 f \<and> holds_as hash root t f0 x f \<and> (quiet k \<longrightarrow> unread hash root t f))
    (\<lambda>_ f. \<not> quiet k \<and> framed root t f1 f \<and> holds_as hash root t f0 x f)
    (\<lambda>f. \<not> quiet k \<and> framed root t f1 f \<and> holds_as hash root t f0 x f)"
    (is "triple k _ _ ?Q ?E ?C")
proof -
  have skip: "triple k (\<lambda>f. f = f1) (recover_row hash root (Indeterminate p)) ?Q ?E ?C"
    if "quiet k \<longrightarrow> unread hash root t f1" for p
    using h that by (auto simp: recover_row_def intro!: triple_return)
  from h show ?thesis
  proof (cases rule: standing_cases)
    case 1
    then have "\<exists>p. row = Indeterminate p" using row by (auto simp: row_ok_def unread_def)
    then show ?thesis using skip 1 by blast
  next
    case 2
    then have r: "row = FoundIntent (intent_of hash root t) \<or> (\<not> quiet k \<and> row = Indeterminate (ipath root t))"
      using reads_row [OF _ row, of Decided] by (auto simp: pending_def)
    have "triple k (\<lambda>f. f = f1) (recover_one hash root (intent_of hash root t)) ?Q ?E ?C"
      by (rule triple_conseq [OF recover_decided_rule [OF wf 2(1)]])
        (use 2(2) in \<open>auto simp: unread_def\<close>)
    with r skip show ?thesis by (auto simp: recover_row_def)
  next
    case 3
    have "triple k (\<lambda>f. f = f1) (recover_one hash root (intent_of hash root t\<lparr>it_phase := Applied\<rparr>)) ?Q ?E ?C"
      by (rule triple_conseq [OF recover_applied_rule [OF wf 3(1,2), where E = ?E]])
        (use 3(3) in \<open>auto simp: unread_def\<close>)
    with reads_row [OF 3(2) row] skip show ?thesis by (auto simp: recover_row_def)
  qed
qed

section \<open>Recovering every row\<close>

definition apart :: "path \<Rightarrow> staged_txn set \<Rightarrow> bool" where
  "apart root T \<longleftrightarrow> (\<forall>t \<in> T. \<forall>t' \<in> T. t \<noteq> t' \<longrightarrow> footprint root t \<inter> footprint root t' = {})"

lemma framed_agrees:
  "apart root T \<Longrightarrow> t \<in> T \<Longrightarrow> t' \<in> T \<Longrightarrow> t \<noteq> t' \<Longrightarrow> framed root t f g \<Longrightarrow> agrees root t' f g"
  unfolding apart_def framed_def agrees_def by (metis disjoint_iff)

definition others_kept :: "path \<Rightarrow> staged_txn set \<Rightarrow> contents \<Rightarrow> contents \<Rightarrow> bool" where
  "others_kept root T f g \<longleftrightarrow> (\<forall>q. q \<notin> (\<Union>t \<in> T. footprint root t) \<longrightarrow> g q = f q)"

lemma framed_others: "t \<in> T \<Longrightarrow> framed root t g h \<Longrightarrow> others_kept root T f g \<Longrightarrow> others_kept root T f h"
  by (auto simp: framed_def others_kept_def)

lemma recover_rows_rule:
  assumes wf: "\<forall>t \<in> T. wf_txn hash root t" and apart: "apart root T"
    and us: "set us \<subseteq> T" "distinct us"
    and h: "\<forall>t \<in> T. holds_as hash root t f0 (x t) f1"
    and rows: "list_all2 (\<lambda>t row. row_ok k hash root t f1 row) us rows"
  shows "triple k (\<lambda>f. f = f1) (gather (recover_row hash root) rows)
    (\<lambda>_ f. others_kept root T f1 f \<and> (\<forall>t \<in> T. holds_as hash root t f0 (x t) f) \<and>
       (quiet k \<longrightarrow> (\<forall>t \<in> set us. unread hash root t f)) \<and> (\<forall>t \<in> T - set us. agrees root t f1 f))
    (\<lambda>_ f. \<not> quiet k \<and> others_kept root T f1 f \<and> (\<forall>t \<in> T. holds_as hash root t f0 (x t) f))
    (\<lambda>f. \<not> quiet k \<and> others_kept root T f1 f \<and> (\<forall>t \<in> T. holds_as hash root t f0 (x t) f))"
    (is "triple k _ _ _ ?E ?C")
proof -
  let ?I = "\<lambda>(ys :: found list) (rs :: member_recovery list) f.
      others_kept root T f1 f \<and> (\<forall>t \<in> T. holds_as hash root t f0 (x t) f) \<and>
      (quiet k \<longrightarrow> (\<forall>t \<in> set (take (length ys) us). unread hash root t f)) \<and>
      (\<forall>t \<in> T - set (take (length ys) us). agrees root t f1 f)"
  have "triple k (?I [] []) (gather (recover_row hash root) rows)
      (\<lambda>rs f. length rs = length rows \<and> ?I rows rs f) ?E ?C"
  proof (rule triple_gather [where I = ?I])
    fix ys rs row zs
    assume split: "rows = ys @ row # zs"
    let ?n = "length ys"
    have n: "?n < length us" using rows split by (auto dest: list_all2_lengthD)
    let ?t = "us ! ?n"
    have row1: "row_ok k hash root ?t f1 row" using list_all2_nthD [OF rows n] split by simp
    have t: "?t \<in> T" using us(1) n by auto
    have fresh: "?t \<notin> set (take ?n us)"
      using us(2) n by (auto simp: in_set_conv_nth nth_eq_iff_index_eq)
    have next1: "set (take (length (ys @ [row])) us) = insert ?t (set (take ?n us))"
      using n by (simp add: take_Suc_conv_app_nth)
    show "triple k (?I ys rs) (recover_row hash root row) (\<lambda>r. ?I (ys @ [row]) (rs @ [r])) ?E ?C"
    proof (rule triple_conseq [where P' = "\<lambda>f. \<exists>f2. ?I ys rs f2 \<and> f = f2", OF triple_some])
      fix f2
      show "triple k (\<lambda>f. ?I ys rs f2 \<and> f = f2) (recover_row hash root row) (\<lambda>r. ?I (ys @ [row]) (rs @ [r])) ?E ?C"
      proof (rule triple_fact)
        assume f2: "?I ys rs f2"
        then have ag: "agrees root ?t f1 f2" using t fresh by blast
        then have "row_ok k hash root ?t f2 row"
          using row1 agrees_at(1) [OF ag] by (simp add: row_ok_def)
        with wf t f2 have r: "triple k (\<lambda>f. f = f2) (recover_row hash root row)
          (\<lambda>_ f. framed root ?t f2 f \<and> holds_as hash root ?t f0 (x ?t) f \<and> (quiet k \<longrightarrow> unread hash root ?t f))
          (\<lambda>_ f. \<not> quiet k \<and> framed root ?t f2 f \<and> holds_as hash root ?t f0 (x ?t) f)
          (\<lambda>f. \<not> quiet k \<and> framed root ?t f2 f \<and> holds_as hash root ?t f0 (x ?t) f)"
          by (intro recover_row_rule) auto
        have other: "agrees root t' f2 f" if "framed root ?t f2 f" "t' \<in> T" "t' \<noteq> ?t" for t' f
          using framed_agrees [OF apart t that(2) _ that(1)] that(3) by blast
        have all: "\<forall>t \<in> T. holds_as hash root t f0 (x t) f"
          if "framed root ?t f2 f" "holds_as hash root ?t f0 (x ?t) f" for f
        proof
          fix t' assume "t' \<in> T"
          show "holds_as hash root t' f0 (x t') f"
          proof (cases "t' = ?t")
            case False
            from agrees_holds [OF other [OF that(1) \<open>t' \<in> T\<close> False]] f2 \<open>t' \<in> T\<close> show ?thesis by blast
          qed (use that(2) in simp)
        qed
        show "triple k (\<lambda>f. f = f2) (recover_row hash root row) (\<lambda>r. ?I (ys @ [row]) (rs @ [r])) ?E ?C"
        proof (rule triple_conseq [OF r])
          fix a f
          assume f: "framed root ?t f2 f \<and> holds_as hash root ?t f0 (x ?t) f \<and> (quiet k \<longrightarrow> unread hash root ?t f)"
          have "quiet k \<longrightarrow> (\<forall>t \<in> insert ?t (set (take ?n us)). unread hash root t f)"
          proof (intro impI ballI)
            fix t' assume "quiet k" and t': "t' \<in> insert ?t (set (take ?n us))"
            show "unread hash root t' f"
            proof (cases "t' = ?t")
              case False
              with t' have "t' \<in> set (take ?n us)" by simp
              moreover have "t' \<in> T" using calculation us(1) by (meson in_mono in_set_takeD)
              ultimately show ?thesis
                using agrees_states(6) [OF other, of f t' hash] f f2 \<open>quiet k\<close> False by blast
            qed (use f \<open>quiet k\<close> in simp)
          qed
          moreover have "agrees root t' f1 f" if "t' \<in> T - insert ?t (set (take ?n us))" for t'
            using other [of f t'] f f2 that by (auto simp: agrees_def)
          ultimately show "?I (ys @ [row]) (rs @ [a]) f"
            unfolding next1 using f f2 all framed_others [OF t] by blast
        qed (use all framed_others [OF t] f2 in blast)+
      qed
    qed auto
  qed
  then have "triple k (?I [] []) (gather (recover_row hash root) rows)
      (\<lambda>_ f. others_kept root T f1 f \<and> (\<forall>t \<in> T. holds_as hash root t f0 (x t) f) \<and>
       (quiet k \<longrightarrow> (\<forall>t \<in> set us. unread hash root t f)) \<and> (\<forall>t \<in> T - set us. agrees root t f1 f)) ?E ?C"
    by (rule triple_conseq) (use list_all2_lengthD [OF rows] in auto)
  then show ?thesis by (rule triple_pre) (use h in \<open>auto simp: others_kept_def\<close>)
qed

section \<open>Scanning\<close>

definition only_intents :: "path \<Rightarrow> staged_txn set \<Rightarrow> contents \<Rightarrow> bool" where
  "only_intents root T f \<longleftrightarrow> (\<forall>q. f q \<noteq> None \<and> q \<noteq> [] \<and> butlast q = root @ intents_dir \<and>
     path_extension q = Some ''intent'' \<longrightarrow> q \<in> ipath root ` T)"

lemma sort_key_map_snd: "map snd (sort_key (\<lambda>p. key (snd p)) ps) = sort_key key (map snd ps)"
proof -
  have ins: "map snd (insort_key (\<lambda>p. key (snd p)) p qs) = insort_key key (snd p) (map snd qs)" for p qs
    by (induction qs) auto
  show ?thesis by (induction ps) (simp_all add: ins)
qed

lemma sorted_rows:
  assumes "list_all2 R us rows" "distinct us"
  obtains vs where "list_all2 R vs (sort_key key rows)" "distinct vs" "set vs = set us"
proof -
  have len: "length us = length rows" using assms(1) by (rule list_all2_lengthD)
  let ?ps = "sort_key (\<lambda>p. key (snd p)) (zip us rows)"
  have rows: "map snd ?ps = sort_key key rows" using len by (simp add: sort_key_map_snd)
  have mset: "mset ?ps = mset (zip us rows)" by simp
  then have "mset (map fst ?ps) = mset (map fst (zip us rows))" by (metis mset_map)
  then have us: "mset (map fst ?ps) = mset us" using len by simp
  have "\<forall>(u, r) \<in> set ?ps. R u r" using assms(1) by (simp add: list_all2_iff)
  then have "list_all2 R (map fst ?ps) (map snd ?ps)"
    unfolding list.rel_map list_all2_same by (auto simp: split_beta)
  moreover have "distinct (map fst ?ps)" "set (map fst ?ps) = set us"
    using us assms(2) by (metis mset_eq_imp_distinct_iff, metis mset_eq_setD)
  ultimately show thesis using that rows by metis
qed

lemma scan_entry_rule:
  assumes "f1 (ipath root t) = Some c"
  shows "triple k (\<lambda>f. f = f1) (scan_entry hash (ipath root t)) (\<lambda>row f. f = f1 \<and> row_ok k hash root t f1 row)
    E (\<lambda>f. \<not> quiet k \<and> f = f1)"
  unfolding scan_entry_def
proof (rule triple_bind)
  show "triple k (\<lambda>f. f = f1) (attempted (read_file (ipath root t)))
      (\<lambda>r f. f = f1 \<and> (case r of Inr b \<Rightarrow> b = c | Inl _ \<Rightarrow> \<not> quiet k)) E (\<lambda>f. \<not> quiet k \<and> f = f1)"
    by (intro triple_attempted read_rule) (use assms in auto)
qed (auto intro!: triple_return simp: row_ok_def assms split: sum.splits option.splits)

lemma scan_rule:
  assumes only: "only_intents root T f1"
  shows "triple k (\<lambda>f. f = f1) (scan hash root)
    (\<lambda>rows f. f = f1 \<and> (\<exists>us. distinct us \<and> set us \<subseteq> T \<and> (\<forall>t \<in> T. f1 (ipath root t) \<noteq> None \<longrightarrow>
       ipath root t \<in> ipath root ` set us) \<and> list_all2 (\<lambda>t row. row_ok k hash root t f1 row) us rows))
    (\<lambda>_ f. \<not> quiet k \<and> f = f1) (\<lambda>f. \<not> quiet k \<and> f = f1)"
    (is "triple k _ _ ?Q ?E ?C")
  unfolding scan_def
proof (rule triple_bind)
  let ?dir = "root @ intents_dir"
  let ?L = "\<lambda>qs f. (distinct qs \<and> set qs = {q \<in> dom f1. q \<noteq> [] \<and> butlast q = ?dir}) \<and> f = f1"
  show "triple k (\<lambda>f. f = f1) (list_dir ?dir) ?L ?E ?C"
    by (rule list_rule) auto
  fix qs
  let ?ps = "filter (\<lambda>p. path_extension p = Some ''intent'') qs"
  show "triple k (?L qs) (bind (gather (scan_entry hash) ?ps) (\<lambda>out. return (sort_key txn_key out))) ?Q ?E ?C"
  proof (rule triple_fact)
    assume qs: "distinct qs \<and> set qs = {q \<in> dom f1. q \<noteq> [] \<and> butlast q = ?dir}"
    have "q \<in> ipath root ` T" if "q \<in> set ?ps" for q
      using that qs only unfolding only_intents_def by (simp add: domIff)
    then have "\<forall>q \<in> set ?ps. \<exists>t. t \<in> T \<and> ipath root t = q" by blast
    then obtain who where "\<forall>q \<in> set ?ps. who q \<in> T \<and> ipath root (who q) = q" by (rule bchoice [THEN exE])
    then have who: "who q \<in> T \<and> ipath root (who q) = q" if "q \<in> set ?ps" for q using that by blast
    let ?us = "map who ?ps"
    have us: "distinct ?us" "set ?us \<subseteq> T"
    proof -
      have "inj_on who (set ?ps)" by (rule inj_onI) (metis who)
      moreover have "distinct ?ps" using qs by simp
      ultimately show "distinct ?us" by (simp add: distinct_map)
    qed (use who in auto)
    have all: "ipath root t \<in> ipath root ` set ?us" if "t \<in> T" "f1 (ipath root t) \<noteq> None" for t
    proof -
      have "ipath root t \<in> set ?ps"
        using that(2) qs ipath_ext [of root t]
        by (auto simp: ipath_def intent_path_def domIff butlast_append)
      then show ?thesis using who by (metis (no_types, lifting) image_eqI list.set_map)
    qed
    have 1: "triple k (\<lambda>f. f = f1) (gather (scan_entry hash) ?ps)
        (\<lambda>rows f. list_all2 (\<lambda>t row. row_ok k hash root t f1 row) ?us rows \<and> f = f1) ?E ?C"
    proof -
      let ?I = "\<lambda>ys rs f. f = f1 \<and> list_all2 (\<lambda>t row. row_ok k hash root t f1 row) (map who ys) rs"
      have "triple k (?I [] []) (gather (scan_entry hash) ?ps) (\<lambda>rs f. length rs = length ?ps \<and> ?I ?ps rs f) ?E ?C"
      proof (rule triple_gather [where I = ?I])
        fix ys rs q zs assume split: "?ps = ys @ q # zs"
        then have q: "q \<in> set ?ps" by (metis in_set_conv_decomp)
        then have "f1 q \<noteq> None" using qs by auto
        then obtain c where c: "f1 (ipath root (who q)) = Some c" using who [OF q] by auto
        from scan_entry_rule [where ?f1.0 = f1 and root = root and t = "who q" and k = k and hash = hash and E = ?E, OF c] who [OF q]
        have r: "triple k (\<lambda>f. f = f1) (scan_entry hash q) (\<lambda>row f. f = f1 \<and> row_ok k hash root (who q) f1 row) ?E ?C"
          by simp
        have "triple k (\<lambda>f. list_all2 (\<lambda>t row. row_ok k hash root t f1 row) (map who ys) rs \<and> f = f1)
            (scan_entry hash q) (\<lambda>row. ?I (ys @ [q]) (rs @ [row])) ?E ?C"
          by (rule triple_fact, rule triple_conseq [OF r]) (auto intro: list_all2_appendI)
        then show "triple k (?I ys rs) (scan_entry hash q) (\<lambda>row. ?I (ys @ [q]) (rs @ [row])) ?E ?C"
          by (rule triple_pre) auto
      qed
      then show ?thesis by (rule triple_conseq) auto
    qed
    have sorted: "\<exists>vs. distinct vs \<and> set vs \<subseteq> T \<and> (\<forall>t \<in> T. f1 (ipath root t) \<noteq> None \<longrightarrow>
       ipath root t \<in> ipath root ` set vs) \<and>
       list_all2 (\<lambda>t row. row_ok k hash root t f1 row) vs (sort_key txn_key out)"
      if out: "list_all2 (\<lambda>t row. row_ok k hash root t f1 row) ?us out" for out
    proof -
      obtain vs where "list_all2 (\<lambda>t row. row_ok k hash root t f1 row) vs (sort_key txn_key out)"
        "distinct vs" "set vs = set ?us"
        using sorted_rows [OF out us(1), of txn_key] by blast
      with us(2) all show ?thesis by metis
    qed
    show "triple k (\<lambda>f. f = f1) (bind (gather (scan_entry hash) ?ps) (\<lambda>out. return (sort_key txn_key out))) ?Q ?E ?C"
      by (rule triple_bind [OF 1]) (rule triple_return, use sorted in blast)
  qed
qed

lemma apart_ipath:
  assumes "apart root T" "t \<in> T" "t' \<in> T" "ipath root t = ipath root t'"
  shows "t = t'"
proof (rule ccontr)
  assume "t \<noteq> t'"
  with assms(1-3) have "footprint root t \<inter> footprint root t' = {}" unfolding apart_def by blast
  moreover have "ipath root t \<in> footprint root t" "ipath root t \<in> footprint root t'"
    using in_footprint(1) [of root t] in_footprint(1) [of root t'] assms(4) by simp_all
  ultimately show False by blast
qed

lemma recover_rule:
  assumes wf: "\<forall>t \<in> T. wf_txn hash root t" and apart: "apart root T" and only: "only_intents root T f1"
    and h: "\<forall>t \<in> T. holds_as hash root t f0 (x t) f1"
  shows "triple k (\<lambda>f. f = f1) (recover hash root)
    (\<lambda>_ f. others_kept root T f1 f \<and> (\<forall>t \<in> T. holds_as hash root t f0 (x t) f) \<and>
       (quiet k \<longrightarrow> (\<forall>t \<in> T. unread hash root t f)))
    (\<lambda>_ f. \<not> quiet k \<and> others_kept root T f1 f \<and> (\<forall>t \<in> T. holds_as hash root t f0 (x t) f))
    (\<lambda>f. \<not> quiet k \<and> others_kept root T f1 f \<and> (\<forall>t \<in> T. holds_as hash root t f0 (x t) f))"
    (is "triple k _ _ ?Q ?E ?C")
  unfolding recover_def
proof (rule triple_bind)
  let ?R = "\<lambda>rows f. (\<exists>us. distinct us \<and> set us \<subseteq> T \<and> (\<forall>t \<in> T. f1 (ipath root t) \<noteq> None \<longrightarrow>
     ipath root t \<in> ipath root ` set us) \<and> list_all2 (\<lambda>t row. row_ok k hash root t f1 row) us rows) \<and> f = f1"
  show "triple k (\<lambda>f. f = f1) (scan hash root) ?R ?E ?C"
    by (rule triple_conseq [OF scan_rule [OF only]]) (use h in \<open>auto simp: others_kept_def\<close>)
  fix rows
  show "triple k (?R rows) (gather (recover_row hash root) rows) ?Q ?E ?C"
  proof (rule triple_fact, elim exE conjE)
    fix us
    assume us: "distinct us" "set us \<subseteq> T"
      and all: "\<forall>t \<in> T. f1 (ipath root t) \<noteq> None \<longrightarrow> ipath root t \<in> ipath root ` set us"
      and rows: "list_all2 (\<lambda>t row. row_ok k hash root t f1 row) us rows"
    have rest: "unread hash root t f" if "t \<in> T - set us" "agrees root t f1 f" for t f
    proof -
      have "ipath root t \<notin> ipath root ` set us" using apart_ipath [OF apart] that(1) us(2) by blast
      then have "f1 (ipath root t) = None" using all that(1) by blast
      then show ?thesis using agrees_at(1) [OF that(2)] by (simp add: unread_def)
    qed
    show "triple k (\<lambda>f. f = f1) (gather (recover_row hash root) rows) ?Q ?E ?C"
      by (rule triple_conseq [OF recover_rows_rule [OF wf apart us(2,1) h rows]]) (use rest in auto)
  qed
qed

end
