(* ===== verification/Crash_Props.thy ===== *)
theory Crash_Props
  imports Crash_Laws
begin

text \<open>
  What publication promises: cut off at any system call, by a failure or a crash, and after any
  number of recoveries cut off in turn, one recovery that runs through leaves every transaction
  complete or untouched, and no file of anyone else changed.
\<close>

section \<open>One transaction after another\<close>

lemma ready_refused: "ready root t f \<Longrightarrow> refused hash root t f f"
  by (simp add: refused_iff same_dests_def unread_def ready_def)

lemma publish_rule:
  assumes wf: "wf_txn hash root t" and ready: "ready root t f0"
  shows "triple k (\<lambda>f. f = f0) (publish hash root held ow t refold)
    (\<lambda>p f. framed root t f0 f \<and> stands hash root t f0 (fst p) f)
    (\<lambda>_ _. False) (\<lambda>f. framed root t f0 f \<and> in_doubt hash root t f0 f)"
proof (cases "reserve (st_txn t) (st_reads t) (st_writes t) held")
  case None
  then show ?thesis
    using ready_refused [OF ready] unfolding publish_def by (auto intro!: triple_halt simp: in_doubt_def)
next
  case (Some held')
  let ?C = "\<lambda>f. framed root t f0 f \<and> in_doubt hash root t f0 f"
  have 1: "triple k (\<lambda>f. f = f0) (publish_admitted hash root ow t refold)
      (\<lambda>p f. framed root t f0 f \<and> stands hash root t f0 (fst p) f) (\<lambda>_ _. False) ?C"
    by (rule triple_conseq [OF publish_admitted_rule [OF wf ready]]) (auto split: prod.splits)
  have "triple k (\<lambda>f. f = f0) (bind (publish_admitted hash root ow t refold)
        (\<lambda>(res, ow'). return (res, ow', release (st_txn t) held')))
      (\<lambda>p f. framed root t f0 f \<and> stands hash root t f0 (fst p) f) (\<lambda>_ _. False) ?C"
    by (rule triple_bind [OF 1]) (auto intro!: triple_return split: prod.splits)
  with Some show ?thesis by (simp add: publish_def)
qed

lemma agrees_trans: "agrees root t f g \<Longrightarrow> agrees root t g h \<Longrightarrow> agrees root t f h"
  by (simp add: agrees_def)

lemma apart_sub: "apart root T \<Longrightarrow> S \<subseteq> T \<Longrightarrow> apart root S"
  unfolding apart_def by blast

lemma others_agree:
  assumes "apart root (insert t T)" "t \<notin> T" "others_kept root T f g"
  shows "agrees root t f g"
  unfolding agrees_def
proof
  fix q assume "q \<in> footprint root t"
  moreover have "footprint root t \<inter> footprint root t' = {}" if "t' \<in> T" for t'
    using assms(1,2) that unfolding apart_def by (metis insertI1 insertI2)
  ultimately have "q \<notin> (\<Union>t \<in> T. footprint root t)" by blast
  then show "f q = g q" using assms(3) by (simp add: others_kept_def)
qed

lemma doubt_unchanged: "ready root t f0 \<Longrightarrow> agrees root t f0 f \<Longrightarrow> in_doubt hash root t f0 f"
  using agrees_holds [of root t f0 f hash f0 None] ready_refused [of root t f0 hash]
  by (simp add: holds_as_def in_doubt_def)

lemma publish_members_rule:
  assumes "\<forall>t \<in> set ms. wf_txn hash root t \<and> ready root t f0" "apart root (set ms)" "distinct ms"
  shows "triple k (\<lambda>f. f = f0) (publish_members hash root held ow refold ms)
    (\<lambda>p f. others_kept root (set ms) f0 f \<and> list_all2 (\<lambda>t r. stands hash root t f0 r f) ms (fst p))
    (\<lambda>_ _. False)
    (\<lambda>f. others_kept root (set ms) f0 f \<and> (\<forall>t \<in> set ms. in_doubt hash root t f0 f))"
  using assms
proof (induction ms arbitrary: f0 ow held)
  case Nil
  show ?case by (simp add: triple_def return_def others_kept_def)
next
  case (Cons t ms)
  let ?C = "\<lambda>f. others_kept root (set (t # ms)) f0 f \<and> (\<forall>t \<in> set (t # ms). in_doubt hash root t f0 f)"
  let ?Q = "\<lambda>rs f. others_kept root (set (t # ms)) f0 f \<and> list_all2 (\<lambda>t r. stands hash root t f0 r f) (t # ms) rs"
  have wf: "wf_txn hash root t" "ready root t f0" using Cons.prems(1) by auto
  have other: "agrees root t' f0 f1" if "framed root t f0 f1" "t' \<in> set ms" for t' f1
    using framed_agrees [OF Cons.prems(2) _ _ _ that(1), of t'] that(2) Cons.prems(3) by auto
  have head: "triple k (\<lambda>f. f = f0) (publish hash root held ow t refold)
      (\<lambda>p f. \<exists>f1. (framed root t f0 f1 \<and> stands hash root t f0 (fst p) f1) \<and> f = f1) (\<lambda>_ _. False) ?C"
  proof (rule triple_conseq [OF publish_rule [OF wf]])
    fix f assume f: "framed root t f0 f \<and> in_doubt hash root t f0 f"
    then have "\<forall>t' \<in> set ms. in_doubt hash root t' f0 f"
      using doubt_unchanged other Cons.prems(1) by auto
    with f show "?C f" by (auto simp: others_kept_def framed_def)
  qed auto
  have rest: "triple k (\<lambda>f. f = f1) (publish_members hash root held' ow' refold ms)
      (\<lambda>p. ?Q (res # fst p)) (\<lambda>_ _. False) ?C"
    if f1: "framed root t f0 f1" and s: "stands hash root t f0 res f1" for f1 res held' ow'
  proof -
    have lower: "stands hash root t' f0 r f" if "t' \<in> set ms" "stands hash root t' f1 r f" for t' r f
      using holds_base [OF other [OF f1 that(1)], of hash "Some r" f] that(2) by (simp add: holds_as_def)
    have doubt: "in_doubt hash root t' f0 f" if "t' \<in> set ms" "in_doubt hash root t' f1 f" for t' f
      using holds_base [OF other [OF f1 that(1)], of hash None f] that(2) by (simp add: holds_as_def)
    have mine: "stands hash root t f0 res f" "others_kept root (set (t # ms)) f0 f"
      if k: "others_kept root (set ms) f1 f" for f
    proof -
      have "agrees root t f1 f" using others_agree [OF _ _ k] Cons.prems(2,3) by simp
      from agrees_holds [OF this, of hash f0 "Some res"] s show "stands hash root t f0 res f"
        by (simp add: holds_as_def)
      show "others_kept root (set (t # ms)) f0 f" using k f1 by (auto simp: others_kept_def framed_def)
    qed
    have doubt_me: "in_doubt hash root t f0 f" if "stands hash root t f0 res f" for f
      using that by (auto simp: in_doubt_def stands_def recoverable_def split: sum.splits publish_error.splits)
    have ready1: "\<forall>t' \<in> set ms. wf_txn hash root t' \<and> ready root t' f1"
      using Cons.prems(1) agrees_states(8) [OF other [OF f1]] by auto
    have "triple k (\<lambda>f. f = f1) (publish_members hash root held' ow' refold ms)
        (\<lambda>p f. others_kept root (set ms) f1 f \<and> list_all2 (\<lambda>t r. stands hash root t f1 r f) ms (fst p))
        (\<lambda>_ _. False) (\<lambda>f. others_kept root (set ms) f1 f \<and> (\<forall>t \<in> set ms. in_doubt hash root t f1 f))"
      by (rule Cons.IH [OF ready1]) (use Cons.prems apart_sub [of root "set (t # ms)" "set ms"] in auto)
    then show ?thesis
    proof (rule triple_conseq)
      fix p f assume q: "others_kept root (set ms) f1 f \<and> list_all2 (\<lambda>t r. stands hash root t f1 r f) ms (fst p)"
      then have "list_all2 (\<lambda>t r. stands hash root t f0 r f) ms (fst p)"
        using lower by (auto elim: list.rel_mono_strong)
      with q mine [of f] show "?Q (res # fst p) f" by simp
    next
      fix f assume q: "others_kept root (set ms) f1 f \<and> (\<forall>t \<in> set ms. in_doubt hash root t f1 f)"
      with mine [of f] doubt_me doubt show "?C f" by auto
    qed auto
  qed
  show ?case
    unfolding publish_members.simps
  proof (rule triple_bind [OF head])
    fix p :: "(publish_error + publish_receipt) \<times> owner \<times> txn_id table"
    obtain res ow' held' where p: "p = (res, ow', held')" by (cases p)
    show "triple k (\<lambda>f. \<exists>f1. (framed root t f0 f1 \<and> stands hash root t f0 (fst p) f1) \<and> f = f1)
        (case p of (res, ow', held') \<Rightarrow> bind (publish_members hash root held' ow' refold ms)
          (\<lambda>(rs, ow'', held''). return (res # rs, ow'', held'')))
        (\<lambda>p. ?Q (fst p)) (\<lambda>_ _. False) ?C"
    proof (rule triple_some, rule triple_fact, elim conjE)
      fix f1 assume "framed root t f0 f1" "stands hash root t f0 (fst p) f1"
      then have "framed root t f0 f1" "stands hash root t f0 res f1" by (simp_all add: p)
      note r = rest [OF this, of held' ow']
      have "triple k (\<lambda>f. f = f1) (bind (publish_members hash root held' ow' refold ms)
          (\<lambda>(rs, ow'', held''). return (res # rs, ow'', held''))) (\<lambda>p. ?Q (fst p)) (\<lambda>_ _. False) ?C"
        by (rule triple_bind [OF r]) (auto simp: triple_def return_def)
      then show "triple k (\<lambda>f. f = f1) (case p of (res, ow', held') \<Rightarrow>
          bind (publish_members hash root held' ow' refold ms)
          (\<lambda>(rs, ow'', held''). return (res # rs, ow'', held''))) (\<lambda>p. ?Q (fst p)) (\<lambda>_ _. False) ?C"
        by (simp add: p)
    qed
  qed
qed

section \<open>Crashes and recoveries\<close>

text \<open>
  Recoveries one after another, each with its own schedule of faults; and the last one, on a
  disk that fails no more.
\<close>

fun retry :: "(str \<Rightarrow> str) \<Rightarrow> path \<Rightarrow> fault list list \<Rightarrow> disk \<Rightarrow> disk" where
  "retry hash root [] d = d"
| "retry hash root (fs # rest) d = retry hash root rest (snd (recover hash root (d\<lparr>faults := fs\<rparr>)))"

definition calm :: "disk \<Rightarrow> disk" where
  "calm d = d\<lparr>faults := []\<rparr>"

lemma sane_faults [simp]: "sane k d \<Longrightarrow> sane Failing (d\<lparr>faults := fs\<rparr>)" "sane k d \<Longrightarrow> sane Calm (calm d)"
  by (simp_all add: sane_def calm_def)

lemma look_faults [simp]: "look (d\<lparr>faults := fs\<rparr>) = look d" "look (calm d) = look d"
  by (simp_all add: look_def calm_def)

lemma footprint_intents:
  assumes wf: "wf_txn hash root t" and q: "q \<in> footprint root t"
    and at: "q \<noteq> []" "butlast q = root @ intents_dir" "path_extension q = Some ''intent''"
  shows "q = ipath root t"
proof -
  have "prefix (butlast q) q" by (metis append_butlast_last_id at(1) prefixI)
  then have under: "prefix (root @ intents_dir) q" unfolding at(2) .
  have "\<not> prefix (home root t) q"
  proof
    assume "prefix (home root t) q"
    then obtain r where r: "q = home root t @ r" by (auto simp: prefix_def)
    have "r = []"
    proof (rule ccontr)
      assume "r \<noteq> []"
      then have "butlast q = home root t @ butlast r" by (simp add: r butlast_append)
      with at(2) show False by (simp add: home_def intent_dir_def)
    qed
    then have "last q = txn_hex (st_txn t)" by (simp add: r home_def intent_dir_def)
    moreover have "rsplit_once CHR ''.'' (txn_hex (st_txn t)) = None"
      using no_dot(1) by (simp add: rsplit_once_None)
    ultimately show False using at(1,3) by (simp add: path_extension_def name_parts_def split: if_splits)
  qed
  moreover have "q \<noteq> scratch (ipath root t)"
  proof
    assume "q = scratch (ipath root t)"
    moreover have "name_parts (txn_hex (st_txn t) @ ''.tmp-intent'') = (txn_hex (st_txn t), Some ''tmp-intent'')"
      using name_parts_dot [of "txn_hex (st_txn t)" "''tmp-intent''"] txn_hex_nonempty by simp
    ultimately show False using at(3) by (simp add: scratch_ipath path_extension_def)
  qed
  ultimately show ?thesis using q under wf unfolding footprint_def wf_txn_def by auto
qed

lemma only_intents_kept:
  assumes "\<forall>t \<in> T. wf_txn hash root t" "only_intents root {} f" "others_kept root T f g"
  shows "only_intents root T g"
  unfolding only_intents_def
proof (intro allI impI, elim conjE)
  fix q assume q: "g q \<noteq> None" "q \<noteq> []" "butlast q = root @ intents_dir" "path_extension q = Some ''intent''"
  show "q \<in> ipath root ` T"
  proof (cases "q \<in> (\<Union>t \<in> T. footprint root t)")
    case True
    then obtain t where "t \<in> T" "q \<in> footprint root t" by blast
    then show ?thesis using footprint_intents [of hash root t q] q assms(1) by blast
  next
    case False
    then have "f q \<noteq> None" using assms(3) q(1) by (simp add: others_kept_def)
    with assms(2) q(2-4) show ?thesis unfolding only_intents_def by blast
  qed
qed

lemma others_kept_trans: "others_kept root T f g \<Longrightarrow> others_kept root T g h \<Longrightarrow> others_kept root T f h"
  by (simp add: others_kept_def)

text \<open>Where every transaction stands, any recoveries keep it there, and a calm one settles it.\<close>

lemma retry_rule:
  assumes wf: "\<forall>t \<in> T. wf_txn hash root t" and apart: "apart root T" and base: "only_intents root {} f0"
    and h: "\<forall>t \<in> T. holds_as hash root t f0 (x t) (look d)" and kept: "others_kept root T f0 (look d)"
    and sane: "sane k d"
  shows "(\<forall>t \<in> T. holds_as hash root t f0 (x t) (look (retry hash root schedules d))) \<and>
    others_kept root T f0 (look (retry hash root schedules d)) \<and> sane Failing (retry hash root schedules d)"
  using h kept sane
proof (induction schedules arbitrary: d k)
  case Nil
  then show ?case by (simp add: sane_def)
next
  case (Cons fs rest)
  let ?e = "d\<lparr>faults := fs\<rparr>" and ?d = "snd (recover hash root (d\<lparr>faults := fs\<rparr>))"
  have "triple Failing (\<lambda>f. f = look ?e) (recover hash root)
    (\<lambda>_ f. others_kept root T (look ?e) f \<and> (\<forall>t \<in> T. holds_as hash root t f0 (x t) f) \<and>
       (quiet Failing \<longrightarrow> (\<forall>t \<in> T. unread hash root t f)))
    (\<lambda>_ f. \<not> quiet Failing \<and> others_kept root T (look ?e) f \<and> (\<forall>t \<in> T. holds_as hash root t f0 (x t) f))
    (\<lambda>f. \<not> quiet Failing \<and> others_kept root T (look ?e) f \<and> (\<forall>t \<in> T. holds_as hash root t f0 (x t) f))"
    by (rule recover_rule [OF wf apart]) (use Cons.prems only_intents_kept [OF wf base] in auto)
  from tripleD [OF this, of ?e] Cons.prems(3)
  have "sane Failing ?d" "others_kept root T (look d) (look ?d)" "\<forall>t \<in> T. holds_as hash root t f0 (x t) (look ?d)"
    by (cases "fst (recover hash root ?e)"; auto)+
  from Cons.IH [OF this(3) others_kept_trans [OF Cons.prems(2) this(2)] this(1)] show ?case by simp
qed

lemma settle_rule:
  assumes wf: "\<forall>t \<in> T. wf_txn hash root t" and apart: "apart root T" and base: "only_intents root {} f0"
    and h: "\<forall>t \<in> T. holds_as hash root t f0 (x t) (look d)" and kept: "others_kept root T f0 (look d)"
    and sane: "sane k d" and last: "recover hash root (calm (retry hash root schedules d)) = (r, d')"
  shows "(\<exists>rows. r = Done rows) \<and> others_kept root T f0 (look d') \<and>
    (\<forall>t \<in> T. holds_as hash root t f0 (x t) (look d') \<and> unread hash root t (look d'))"
proof -
  let ?e = "calm (retry hash root schedules d)"
  note at = retry_rule [OF wf apart base h kept sane, of schedules]
  have "triple Calm (\<lambda>f. f = look ?e) (recover hash root)
    (\<lambda>_ f. others_kept root T (look ?e) f \<and> (\<forall>t \<in> T. holds_as hash root t f0 (x t) f) \<and>
       (quiet Calm \<longrightarrow> (\<forall>t \<in> T. unread hash root t f)))
    (\<lambda>_ f. \<not> quiet Calm \<and> others_kept root T (look ?e) f \<and> (\<forall>t \<in> T. holds_as hash root t f0 (x t) f))
    (\<lambda>f. \<not> quiet Calm \<and> others_kept root T (look ?e) f \<and> (\<forall>t \<in> T. holds_as hash root t f0 (x t) f))"
    by (rule recover_rule [OF wf apart]) (use at only_intents_kept [OF wf base] in auto)
  moreover have "sane Calm ?e" using at sane_faults(2) by blast
  ultimately have "sane Calm (snd (recover hash root ?e)) \<and> outcome_ok
    (\<lambda>_ f. others_kept root T (look ?e) f \<and> (\<forall>t \<in> T. holds_as hash root t f0 (x t) f) \<and>
       (quiet Calm \<longrightarrow> (\<forall>t \<in> T. unread hash root t f)))
    (\<lambda>_ f. \<not> quiet Calm \<and> others_kept root T (look ?e) f \<and> (\<forall>t \<in> T. holds_as hash root t f0 (x t) f))
    (\<lambda>f. \<not> quiet Calm \<and> others_kept root T (look ?e) f \<and> (\<forall>t \<in> T. holds_as hash root t f0 (x t) f))
    (fst (recover hash root ?e)) (look (snd (recover hash root ?e)))" by (rule tripleD) simp
  with last have out: "outcome_ok
    (\<lambda>_ f. others_kept root T (look ?e) f \<and> (\<forall>t \<in> T. holds_as hash root t f0 (x t) f) \<and> (\<forall>t \<in> T. unread hash root t f))
    (\<lambda>_ _. False) (\<lambda>_. False) r (look d')" using last by simp
  then show ?thesis
    using others_kept_trans [of root T f0 "look ?e" "look d'"] at by (cases r) auto
qed

text \<open>What the standing says once no record can be read any more.\<close>

definition settled :: "path \<Rightarrow> staged_txn \<Rightarrow> contents \<Rightarrow> (publish_error + publish_receipt) option \<Rightarrow>
    contents \<Rightarrow> bool" where
  "settled root t f0 x f \<longleftrightarrow>
     (case x of
        Some (Inr _) \<Rightarrow> all_new root t f
      | Some (Inl (CommitUnknown _ _)) \<Rightarrow> all_old root t f \<or> all_new root t f
      | Some (Inl _) \<Rightarrow> same_dests root t f0 f
      | None \<Rightarrow> all_old root t f \<or> all_new root t f \<or> same_dests root t f0 f)"

lemma holds_settled:
  assumes "holds_as hash root t f0 x f" "unread hash root t f"
  shows "settled root t f0 x f"
proof -
  have "\<not> reads_as hash root t ph f" for ph using assms(2) by (auto simp: unread_def reads_as_def)
  then have "recoverable hash root t f \<Longrightarrow> all_old root t f \<or> all_new root t f"
    by (auto simp: recoverable_def pending_def landed_def taken_back_def)
  with assms(1) show ?thesis
    by (auto simp: settled_def holds_as_def stands_def in_doubt_def refused_iff landed_def
        split: option.splits sum.splits publish_error.splits)
qed

section \<open>All or nothing\<close>

text \<open>
  Claim C25. Publication is atomic across crashes. Start a well-formed transaction with its staged
  files in place on a disk without other intents, under any schedule of failures and crashes;
  let any number of recoveries be cut off after it; then one recovery without faults returns,
  the destinations hold the new set if the caller got a receipt, what they held before if it got
  a refusal, and the complete old or the complete new set otherwise; no other file is changed.
\<close>

theorem publish_all_or_nothing:
  assumes "wf_txn hash root t" "ready root t (look d0)" "only_intents root {} (look d0)"
    and "distinct (map fst (files d0))"
    and "publish hash root held ow t refold d0 = (r, d1)"
    and "recover hash root (calm (retry hash root schedules d1)) = (r', d2)"
  shows "(\<exists>rows. r' = Done rows) \<and> framed root t (look d0) (look d2) \<and>
    (case r of
       Done (res, ow', held') \<Rightarrow> settled root t (look d0) (Some res) (look d2)
     | Failed e \<Rightarrow> False
     | Halted \<Rightarrow> settled root t (look d0) None (look d2))"
proof -
  let ?x = "case r of Done p \<Rightarrow> Some (fst p) | _ \<Rightarrow> None"
  have s0: "sane Failing d0" using assms(4) by (simp add: sane_def)
  from tripleD [OF publish_rule [OF assms(1,2), where k = Failing and held = held and ow = ow and refold = refold] s0]
  have 1: "sane Failing d1" "outcome_ok (\<lambda>p f. framed root t (look d0) f \<and> stands hash root t (look d0) (fst p) f)
      (\<lambda>_ _. False) (\<lambda>f. framed root t (look d0) f \<and> in_doubt hash root t (look d0) f) r (look d1)"
    by (simp_all add: assms(5))
  then have 2: "framed root t (look d0) (look d1)" "holds_as hash root t (look d0) ?x (look d1)"
    "\<And>e. r \<noteq> Failed e" by (cases r; auto simp: holds_as_def)+
  have "(\<exists>rows. r' = Done rows) \<and> others_kept root {t} (look d0) (look d2) \<and>
    (\<forall>t' \<in> {t}. holds_as hash root t' (look d0) ?x (look d2) \<and> unread hash root t' (look d2))"
    by (rule settle_rule [OF _ _ assms(3) _ _ 1(1) assms(6)])
      (use assms(1) 2 in \<open>auto simp: apart_def others_kept_def framed_def\<close>)
  then have 3: "\<exists>rows. r' = Done rows" "framed root t (look d0) (look d2)" "settled root t (look d0) ?x (look d2)"
    using holds_settled by (auto simp: others_kept_def framed_def)
  with 2(3) show ?thesis by (cases r) auto
qed

text \<open>A transaction of two files for the witnesses, and a hash that tells short texts apart.\<close>

definition pad_hash :: "str \<Rightarrow> str" where
  "pad_hash s = take 32 (s @ replicate 32 CHR 0x00)"

definition ws :: path where "ws = [''w'']"

definition two_files :: staged_txn where
  "two_files =
     \<lparr>st_txn = 7, st_epoch = 1, st_reads = [], st_writes = [],
      st_dests =
        [\<lparr>de_rel = [''a.md''], de_old = ''a'', de_new = ''b'', de_tmp = [''w'', ''a.tmp'']\<rparr>,
         \<lparr>de_rel = [''n'', ''b.md''], de_old = [], de_new = ''c'', de_tmp = [''w'', ''n'', ''b.tmp'']\<rparr>],
      st_files = [], st_actor = None, st_now = None, st_policy = Restore, st_drop_tmp = False\<rparr>"

definition two_disk :: disk where
  "two_disk =
     \<lparr>files = [([''w'', ''a.md''], ''a''), ([''w'', ''a.tmp''], ''b''), ([''w'', ''n'', ''b.tmp''], ''c''),
        ([''w'', ''z.md''], ''z'')],
      faults = []\<rparr>"

lemma pad_hash_length: "unit_digests pad_hash"
  unfolding unit_digests_def pad_hash_def by auto

lemma two_files_wf: "wf_txn pad_hash ws two_files"
  unfolding wf_txn_def
proof (intro conjI)
  show "unit_digests pad_hash" by (rule pad_hash_length)
  show "sound_intent (intent_of pad_hash ws two_files)"
    unfolding sound_intent_def
  proof (intro conjI)
    show "length (it_members (intent_of pad_hash ws two_files)) \<le> usize_max"
      by (simp add: intent_of_def two_files_def usize_max_def)
  qed (code_simp)+
  show "\<not> sublist ''checksum='' (terminated (intent_lines (intent_of pad_hash ws two_files)))"
    unfolding find_str_None [symmetric] by code_simp
  show "distinct (map de_tmp (st_dests two_files) @ map (dest ws) (st_dests two_files))" by code_simp
  show "\<forall>d \<in> set (st_dests two_files). \<forall>d' \<in> set (st_dests two_files). scratch (dest ws d) \<noteq> dest ws d'"
    by code_simp
  show "\<forall>d \<in> set (st_dests two_files). \<not> prefix (ws @ intents_dir) (dest ws d) \<and>
      \<not> prefix (ws @ intents_dir) (scratch (dest ws d)) \<and> \<not> prefix (ws @ intents_dir) (de_tmp d)"
    by code_simp
  have "distinct (map pad_hash [[], ''a'', ''b'', ''c''])" by code_simp
  then have "inj_on pad_hash (set [[], ''a'', ''b'', ''c''])" unfolding distinct_map by blast
  then show "inj_on pad_hash (images two_files)"
    by (rule inj_on_subset) (auto simp: images_def two_files_def)
qed

lemma two_disk_ready:
  "ready ws two_files (look two_disk)" "only_intents ws {} (look two_disk)" "distinct (map fst (files two_disk))"
proof -
  show "ready ws two_files (look two_disk)"
    unfolding ready_def staged_def by code_simp
  show "distinct (map fst (files two_disk))" by code_simp
  show "only_intents ws {} (look two_disk)"
    by (auto simp: only_intents_def look_def two_disk_def ws_def intents_dir_def split: if_splits)
qed

theorem publish_all_or_nothing_witness:
  "let (r, d1) = publish pad_hash ws [] (owner_new [] []) two_files (\<lambda>x. x) two_disk;
       (r', d2) = recover pad_hash ws (calm (retry pad_hash ws [[Die 0 []]] d1)) in
   (\<exists>rows. r' = Done rows) \<and> framed ws two_files (look two_disk) (look d2) \<and>
    (case r of
       Done (res, ow', held') \<Rightarrow> settled ws two_files (look two_disk) (Some res) (look d2)
     | Failed e \<Rightarrow> False
     | Halted \<Rightarrow> settled ws two_files (look two_disk) None (look d2))"
  unfolding Let_def split_beta
  using publish_all_or_nothing [OF two_files_wf two_disk_ready(1,2,3) surjective_pairing surjective_pairing,
      where held = "[]" and ow = "owner_new [] []" and refold = "\<lambda>x. x" and schedules = "[[Die 0 []]]"]
  unfolding split_beta .

end
