(* ===== verification/Group_Props.thy ===== *)
theory Group_Props
  imports Crash_Props
begin

text \<open>
  Group commits: the manifest is written first, then each member is published on its own; whatever
  is cut off, one recovery that runs through settles every member independently.
\<close>

section \<open>The manifest\<close>

definition manifest_path :: "path \<Rightarrow> txn_id \<Rightarrow> path" where
  "manifest_path root gid = root @ intents_dir @ [''groups'', txn_hex gid @ ''.manifest'']"

definition all_but :: "path \<Rightarrow> contents \<Rightarrow> contents \<Rightarrow> bool" where
  "all_but p f0 f \<longleftrightarrow> (\<forall>q. q \<noteq> p \<longrightarrow> f q = f0 q)"

lemma create_group_rule:
  fixes root gid ms f0 k
  defines "J \<equiv> all_but (manifest_path root gid) f0"
  shows "triple k J (create_group hash root \<lparr>gm_gid = txn_hex gid, gm_members = ms\<rparr>) (\<lambda>_. J) (\<lambda>_. J) J"
proof -
  let ?p = "manifest_path root gid"
  have upd: "J f \<Longrightarrow> J (f(?p := x))" for f x by (simp add: J_def all_but_def)
  have sync: "triple k J sync_handle (\<lambda>_. J) (\<lambda>_. J) J" and dirs: "\<And>p. triple k J (create_dirs p) (\<lambda>_. J) (\<lambda>_. J) J"
    by (rule no_effect_rules; simp)+
  have made: "triple k J (create_new ?p) (\<lambda>_. J) (\<lambda>_. J) J" by (rule create_new_rule) (use upd in auto)
  have wrote: "triple k J (write_all ?p b) (\<lambda>_. J) (\<lambda>_. J) J" for b by (rule write_rule) (use upd in auto)
  have eq: "create_group hash root \<lparr>gm_gid = txn_hex gid, gm_members = ms\<rparr> =
      andthen (create_dirs (root @ intents_dir @ [''groups'']))
      (andthen (create_new ?p)
      (andthen (write_all ?p (encode_group hash \<lparr>gm_gid = txn_hex gid, gm_members = ms\<rparr>))
      (andthen sync_handle sync_handle)))"
    by (simp add: create_group_def Let_def manifest_path_def)
  show ?thesis
    unfolding eq
    by (rule triple_andthen [OF dirs triple_andthen [OF made triple_andthen [OF wrote triple_andthen [OF sync sync]]]])
qed

lemma manifest_agrees:
  "all_but (manifest_path root gid) f0 f1 \<Longrightarrow> manifest_path root gid \<notin> footprint root t \<Longrightarrow> agrees root t f0 f1"
  unfolding agrees_def all_but_def by metis

lemma manifest_no_intent:
  assumes "only_intents root {} f0" "all_but (manifest_path root gid) f0 f1"
  shows "only_intents root {} f1"
proof -
  have "butlast (manifest_path root gid) \<noteq> root @ intents_dir" by (simp add: manifest_path_def butlast_append)
  with assms show ?thesis unfolding only_intents_def all_but_def by metis
qed

section \<open>The members\<close>

definition group_stands :: "(str \<Rightarrow> str) \<Rightarrow> path \<Rightarrow> txn_id \<Rightarrow> staged_txn set \<Rightarrow> contents \<Rightarrow>
    (staged_txn \<Rightarrow> (publish_error + publish_receipt) option) \<Rightarrow> contents \<Rightarrow> bool" where
  "group_stands hash root gid T f0 x f \<longleftrightarrow>
     (\<exists>f1. all_but (manifest_path root gid) f0 f1 \<and> others_kept root T f1 f \<and>
        (\<forall>t \<in> T. holds_as hash root t f1 (x t) f))"

definition results :: "staged_txn list \<Rightarrow> 'r list \<Rightarrow> staged_txn \<Rightarrow> 'r option" where
  "results ms rs = map_of (zip ms rs)"

lemma results_hold:
  assumes "distinct ms" "list_all2 (\<lambda>t r. stands hash root t f1 r f) ms rs"
  shows "\<forall>t \<in> set ms. holds_as hash root t f1 (results ms rs t) f"
proof
  fix t assume "t \<in> set ms"
  then obtain i where i: "i < length ms" "t = ms ! i" by (auto simp: in_set_conv_nth)
  moreover have "length rs = length ms" using assms(2) by (simp add: list_all2_lengthD)
  ultimately have "results ms rs t = Some (rs ! i)"
    using assms(1) by (simp add: results_def map_of_zip_nth)
  moreover have "stands hash root t f1 (rs ! i) f" using list_all2_nthD [OF assms(2) i(1)] i(2) by simp
  ultimately show "holds_as hash root t f1 (results ms rs t) f" by (simp add: holds_as_def)
qed

lemma publish_group_rule:
  assumes wf: "\<forall>t \<in> set ms. wf_txn hash root t \<and> ready root t f0" and apart: "apart root (set ms)" "distinct ms"
    and manifest: "\<forall>t \<in> set ms. manifest_path root gid \<notin> footprint root t"
  shows "triple k (\<lambda>f. f = f0) (publish_group hash root held ow gid refold ms)
    (\<lambda>p f. length (fst p) = length ms \<and> group_stands hash root gid (set ms) f0 (results ms (fst p)) f)
    (\<lambda>_ _. False) (group_stands hash root gid (set ms) f0 (\<lambda>_. None))" (is "triple k _ _ ?Q _ ?C")
  unfolding publish_group_def
proof (rule triple_bind)
  let ?J = "all_but (manifest_path root gid) f0"
  have wf1: "\<forall>t \<in> set ms. wf_txn hash root t \<and> ready root t f1" if "?J f1" for f1
    using wf manifest agrees_states(8) [OF manifest_agrees [OF that]] by auto
  have start: "?C f1" if "?J f1" for f1
    unfolding group_stands_def
    using that wf1 [OF that] doubt_unchanged [of root _ f1 f1]
    by (intro exI [of _ f1]) (auto simp: others_kept_def holds_as_def)
  show "triple k (\<lambda>f. f = f0) (attempted (create_group hash root
      \<lparr>gm_gid = txn_hex gid, gm_members = map (\<lambda>m. txn_hex (st_txn m)) ms\<rparr>)) (\<lambda>_. ?J) (\<lambda>_ _. False) ?C"
    by (rule triple_attempted, rule triple_conseq [OF create_group_rule]) (use start in \<open>auto simp: all_but_def\<close>)
  fix r :: "io_error + unit"
  show "triple k ?J (case r of Inl e \<Rightarrow> return (map (\<lambda>_. Inl (IoFailed e)) ms, ow, held)
      | Inr _ \<Rightarrow> publish_members hash root held ow refold ms) ?Q (\<lambda>_ _. False) ?C"
  proof (cases r)
    case (Inl e)
    have "?Q (map (\<lambda>_. Inl (IoFailed e)) ms, ow, held) f" if "?J f" for f
    proof -
      have "list_all2 (\<lambda>t r. stands hash root t f r f) ms (map (\<lambda>_. Inl (IoFailed e)) ms)"
        using wf1 [OF that] ready_refused [of root _ f hash] by (auto simp: list_all2_conv_all_nth stands_def)
      from results_hold [OF apart(2) this] that show ?thesis
        unfolding group_stands_def by (auto intro!: exI [of _ f] simp: others_kept_def)
    qed
    with Inl show ?thesis by (auto intro: triple_return)
  next
    case (Inr u)
    have "triple k (\<lambda>f. f = f1) (publish_members hash root held ow refold ms) ?Q (\<lambda>_ _. False) ?C"
      if "?J f1" for f1
    proof (rule triple_conseq [OF publish_members_rule [OF wf1 [OF that] apart]])
      fix p :: "(publish_error + publish_receipt) list \<times> owner \<times> txn_id table" and f
      assume q: "others_kept root (set ms) f1 f \<and> list_all2 (\<lambda>t r. stands hash root t f1 r f) ms (fst p)"
      then show "?Q p f"
        using results_hold [OF apart(2), of hash root f1 f "fst p"] that list_all2_lengthD [of _ ms "fst p"]
        unfolding group_stands_def by auto
    next
      fix f assume "others_kept root (set ms) f1 f \<and> (\<forall>t \<in> set ms. in_doubt hash root t f1 f)"
      with that show "?C f" unfolding group_stands_def holds_as_def by auto
    qed auto
    then have "triple k ?J (publish_members hash root held ow refold ms) ?Q (\<lambda>_ _. False) ?C"
      by (auto simp: triple_def)
    with Inr show ?thesis by simp
  qed
qed

section \<open>The group\<close>

text \<open>
  Claim C32. A group commit is atomic member by member. Start well-formed transactions that share no
  file as one group, under any schedule of failures and crashes; let any number of recoveries be
  cut off after it; then one recovery without faults returns, each member holds its new set if it
  got a receipt, what was there before if it got a refusal, and its complete old or complete new
  set otherwise; and apart from the members' own files only the group's manifest differs.
\<close>

theorem publish_group_settles_each:
  assumes "\<forall>t \<in> set ms. wf_txn hash root t \<and> ready root t (look d0)" "apart root (set ms)" "distinct ms"
    and "\<forall>t \<in> set ms. manifest_path root gid \<notin> footprint root t"
    and "only_intents root {} (look d0)" and "distinct (map fst (files d0))"
    and "publish_group hash root held ow gid refold ms d0 = (r, d1)"
    and "recover hash root (calm (retry hash root schedules d1)) = (r', d2)"
  shows "(\<exists>rows. r' = Done rows) \<and>
    (\<forall>q. q \<notin> insert (manifest_path root gid) (\<Union>t \<in> set ms. footprint root t) \<longrightarrow> look d2 q = look d0 q) \<and>
    (case r of
       Done (rs, ow', held') \<Rightarrow> list_all2 (\<lambda>t res. settled root t (look d0) (Some res) (look d2)) ms rs
     | Failed e \<Rightarrow> False
     | Halted \<Rightarrow> \<forall>t \<in> set ms. settled root t (look d0) None (look d2))"
proof -
  let ?x = "case r of Done p \<Rightarrow> results ms (fst p) | _ \<Rightarrow> (\<lambda>_. None)"
  have s0: "sane Failing d0" using assms(6) by (simp add: sane_def)
  from tripleD [OF publish_group_rule [OF assms(1-4), where k = Failing and held = held and ow = ow and refold = refold] s0]
  have 1: "sane Failing d1" "outcome_ok (\<lambda>p f. length (fst p) = length ms \<and>
        group_stands hash root gid (set ms) (look d0) (results ms (fst p)) f)
      (\<lambda>_ _. False) (group_stands hash root gid (set ms) (look d0) (\<lambda>_. None)) r (look d1)"
    by (simp_all add: assms(7))
  then have 2: "group_stands hash root gid (set ms) (look d0) ?x (look d1)" "\<And>e. r \<noteq> Failed e"
      "\<And>p. r = Done p \<Longrightarrow> length (fst p) = length ms"
    by (cases r; auto)+
  then obtain f1 where f1: "all_but (manifest_path root gid) (look d0) f1" "others_kept root (set ms) f1 (look d1)"
      "\<forall>t \<in> set ms. holds_as hash root t f1 (?x t) (look d1)" unfolding group_stands_def by blast
  have 3: "(\<exists>rows. r' = Done rows) \<and> others_kept root (set ms) f1 (look d2) \<and>
    (\<forall>t \<in> set ms. holds_as hash root t f1 (?x t) (look d2) \<and> unread hash root t (look d2))"
    by (rule settle_rule [OF _ assms(2) manifest_no_intent [OF assms(5) f1(1)] f1(3,2) 1(1) assms(8)])
      (use assms(1) in blast)
  have 4: "settled root t (look d0) (?x t) (look d2)" if "t \<in> set ms" for t
    using 3 that assms(4) holds_settled holds_base [OF manifest_agrees [OF f1(1)]] by blast
  have frame: "\<forall>q. q \<notin> insert (manifest_path root gid) (\<Union>t \<in> set ms. footprint root t) \<longrightarrow> look d2 q = look d0 q"
    using 3 f1(1) by (simp add: others_kept_def all_but_def)
  show ?thesis
  proof (cases r)
    case (Done p)
    have "settled root (ms ! i) (look d0) (Some (fst p ! i)) (look d2)" if i: "i < length ms" for i
    proof -
      have "results ms (fst p) (ms ! i) = Some (fst p ! i)"
        using 2(3) [OF Done] i assms(3) by (simp add: results_def map_of_zip_nth)
      with 4 [OF nth_mem [OF i]] Done show ?thesis by simp
    qed
    then have "list_all2 (\<lambda>t res. settled root t (look d0) (Some res) (look d2)) ms (fst p)"
      using 2(3) [OF Done] by (simp add: list_all2_conv_all_nth)
    with Done 3 frame show ?thesis by (cases p) auto
  qed (use 2(2) 3 4 frame in auto)
qed

theorem publish_group_settles_each_witness:
  "let (r, d1) = publish_group pad_hash ws [] (owner_new [] []) 9 (\<lambda>x. x) [two_files] two_disk;
       (r', d2) = recover pad_hash ws (calm (retry pad_hash ws [[Die 0 []]] d1)) in
   (\<exists>rows. r' = Done rows) \<and>
    (\<forall>q. q \<notin> insert (manifest_path ws 9) (\<Union>t \<in> set [two_files]. footprint ws t) \<longrightarrow>
      look d2 q = look two_disk q) \<and>
    (case r of
       Done (rs, ow', held') \<Rightarrow>
         list_all2 (\<lambda>t res. settled ws t (look two_disk) (Some res) (look d2)) [two_files] rs
     | Failed e \<Rightarrow> False
     | Halted \<Rightarrow> \<forall>t \<in> set [two_files]. settled ws t (look two_disk) None (look d2))"
proof -
  have 1: "\<forall>t \<in> set [two_files]. wf_txn pad_hash ws t \<and> ready ws t (look two_disk)"
    using two_files_wf two_disk_ready(1) by simp
  have 2: "apart ws (set [two_files])" "distinct [two_files]" by (simp_all add: apart_def)
  have 3: "\<forall>t \<in> set [two_files]. manifest_path ws 9 \<notin> footprint ws t"
    unfolding footprint_def home_def by (simp, code_simp)
  show ?thesis
    unfolding Let_def split_beta
    using publish_group_settles_each [OF 1 2 3 two_disk_ready(2,3) surjective_pairing surjective_pairing,
        where held = "[]" and ow = "owner_new [] []" and refold = "\<lambda>x. x" and schedules = "[[Die 0 []]]"]
    unfolding split_beta .
qed

end
