(* ===== verification/Commit.thy ===== *)
theory Commit
  imports Splice Crash_Io
begin

text \<open>
  The writers of \<^verbatim>\<open>crates/fs/src/lib.rs\<close>: every byte lands through a temporary file that is
  written, synced and renamed. One file (birth, replacement, appended line), the two-file commit
  of a batch and its receipt, and the set commit with its rollback from memory.

  The stamp of a temporary name (process id, clock and counter) is a parameter: \<open>stamps i\<close> is the
  one of the \<open>i\<close>-th name a commit makes up. A candidate document is the document it was sealed
  from. A panic of the splice ends the run.
\<close>

section \<open>One file\<close>

record staged_file =
  sf_tmp :: path
  sf_dst :: path

definition file_name :: "path \<Rightarrow> str option" where
  "file_name p = (if p = [] \<or> last p = ''..'' \<or> p = [''/''] then None else Some (last p))"

definition temp_path_for :: "str \<Rightarrow> path \<Rightarrow> path" where
  "temp_path_for stamp dst =
     butlast dst @ [''.'' @ (case file_name dst of Some n \<Rightarrow> n | None \<Rightarrow> ''tmp'') @ ''.'' @ stamp @ ''.tmp'']"

text \<open>The stamp is made of the process id, the clock and a counter that no two calls share.\<close>

definition stamps_of :: "str \<Rightarrow> (nat \<Rightarrow> str) \<Rightarrow> (nat \<Rightarrow> nat) \<Rightarrow> nat \<Rightarrow> str" where
  "stamps_of pid clock seq i = pid @ ''.'' @ clock i @ ''.'' @ to_dec (seq i)"

definition read_or_empty :: "path \<Rightarrow> str io" where
  "read_or_empty p = bind (attempted (read_file p))
     (\<lambda>r. case r of Inr b \<Rightarrow> return b | Inl NotFound \<Rightarrow> return [] | Inl e \<Rightarrow> fail_with e)"

definition write_fsync :: "path \<Rightarrow> str \<Rightarrow> unit io" where
  "write_fsync tmp bytes = andthen (create_file tmp) (andthen (write_all tmp bytes) sync_handle)"

definition stage_file :: "str \<Rightarrow> path \<Rightarrow> str \<Rightarrow> staged_file io" where
  "stage_file stamp dst bytes =
     (let tmp = temp_path_for stamp dst in
      bind (attempted (write_fsync tmp bytes))
      (\<lambda>r. case r of
         Inl e \<Rightarrow> andthen (ignored (remove_file tmp)) (fail_with e)
       | Inr _ \<Rightarrow> return \<lparr>sf_tmp = tmp, sf_dst = dst\<rparr>))"

definition fsync_dir :: "path \<Rightarrow> unit io" where
  "fsync_dir dir = (if dir = [] then return () else sync_handle)"

definition commit_rename :: "staged_file \<Rightarrow> unit io" where
  "commit_rename s =
     andthen (rename_file (sf_tmp s) (sf_dst s)) (fsync_dir (butlast (sf_dst s)))"

text \<open>\<^verbatim>\<open>symlink_metadata(..).is_ok()\<close>: any error reads as absent.\<close>

definition occupied :: "path \<Rightarrow> bool io" where
  "occupied p = bind (attempted (stat_file p))
     (\<lambda>r. return (case r of Inr _ \<Rightarrow> True | Inl _ \<Rightarrow> False))"

definition birth_file :: "str \<Rightarrow> path \<Rightarrow> path \<Rightarrow> document \<Rightarrow> unit io" where
  "birth_file stamp wd rel cand =
     bind (occupied (wd @ rel))
     (\<lambda>there. if there then fail_with AlreadyExists
       else andthen (create_dirs (butlast (wd @ rel)))
            (bind (stage_file stamp (wd @ rel) (raw cand)) commit_rename))"

definition unlink_file :: "path \<Rightarrow> path \<Rightarrow> unit io" where
  "unlink_file wd rel =
     andthen (remove_file (wd @ rel)) (fsync_dir (butlast (wd @ rel)))"

definition replace_bytes :: "str \<Rightarrow> path \<Rightarrow> path \<Rightarrow> str \<Rightarrow> unit io" where
  "replace_bytes stamp wd rel bytes = bind (stage_file stamp (wd @ rel) bytes) commit_rename"

definition replace_file :: "str \<Rightarrow> path \<Rightarrow> path \<Rightarrow> document \<Rightarrow> unit io" where
  "replace_file stamp wd rel cand = bind (stage_file stamp (wd @ rel) (raw cand)) commit_rename"

definition append_line :: "str \<Rightarrow> path \<Rightarrow> path \<Rightarrow> str \<Rightarrow> unit io" where
  "append_line stamp wd rel line =
     andthen (create_dirs (butlast (wd @ rel)))
     (bind (read_or_empty (wd @ rel))
     (\<lambda>bytes. bind (stage_file stamp (wd @ rel) (bytes @ line @ [CHR 0x0A])) commit_rename))"

section \<open>A batch and its receipt\<close>

record staged_commit =
  sc_content :: staged_file
  sc_content_unchanged :: bool
  sc_content_expected :: str
  sc_receipt :: "staged_file option"
  sc_receipt_expected :: "str option"

definition edit_pairs :: "validated_batch \<Rightarrow> (span \<times> str) list" where
  "edit_pairs b = map (\<lambda>e. (ve_span e, ve_text e)) (vb_edits b)"

definition stage_receipt :: "str \<Rightarrow> path \<Rightarrow> receipt_append \<Rightarrow> (staged_file \<times> str) io" where
  "stage_receipt stamp dst entry =
     (if lo (rcpt_span entry) \<noteq> hi (rcpt_span entry) then fail_with InvalidInput
      else bind (read_or_empty dst)
        (\<lambda>old. if lo (rcpt_span entry) \<noteq> length old then fail_with (WriteConflict dst)
          else case apply_spans old [(rcpt_span entry, rcpt_text entry)] of
            None \<Rightarrow> halt
          | Some new \<Rightarrow> bind (stage_file stamp dst new) (\<lambda>staged. return (staged, old))))"

text \<open>The two paths and the batch must name a receipt both or neither, and not the same file.\<close>

definition batch_seam :: "path \<Rightarrow> path option \<Rightarrow> validated_batch \<Rightarrow> bool" where
  "batch_seam content_path receipt_path b \<longleftrightarrow>
     (case (receipt_path, vb_receipt b) of
        (Some rp, Some _) \<Rightarrow> rp \<noteq> content_path
      | (None, None) \<Rightarrow> True
      | _ \<Rightarrow> False)"

definition stage_batch :: "(nat \<Rightarrow> str) \<Rightarrow> path \<Rightarrow> path \<Rightarrow> path option \<Rightarrow> validated_batch \<Rightarrow> str \<Rightarrow> document \<Rightarrow>
    staged_commit io" where
  "stage_batch stamps wd content_path receipt_path b expected cand =
     (if \<not> batch_seam content_path receipt_path b then fail_with InvalidInput
      else case apply_spans expected (edit_pairs b) of
        None \<Rightarrow> halt
      | Some content_new \<Rightarrow>
          if content_new \<noteq> raw cand then fail_with InvalidInput
          else bind (stage_file (stamps 0) (wd @ content_path) content_new)
            (\<lambda>content. bind
               (case (receipt_path, vb_receipt b) of
                  (Some rp, Some entry) \<Rightarrow>
                    bind (attempted (stage_receipt (stamps 1) (wd @ rp) entry))
                    (\<lambda>r. case r of
                       Inl e \<Rightarrow> andthen (ignored (remove_file (sf_tmp content))) (fail_with e)
                     | Inr (staged, old) \<Rightarrow> return (Some staged, Some old))
                | _ \<Rightarrow> return (None, None))
               (\<lambda>(receipt, receipt_expected). return
                  \<lparr>sc_content = content, sc_content_unchanged = (content_new = expected),
                   sc_content_expected = expected, sc_receipt = receipt,
                   sc_receipt_expected = receipt_expected\<rparr>)))"

text \<open>A destination that is gone was a real file when it was read.\<close>

definition verify_live :: "path \<Rightarrow> str \<Rightarrow> unit io" where
  "verify_live dst expected = bind (attempted (read_file dst))
     (\<lambda>r. case r of
        Inl NotFound \<Rightarrow> fail_with (WriteConflict dst)
      | Inl e \<Rightarrow> fail_with e
      | Inr live \<Rightarrow> if live \<noteq> expected then fail_with (WriteConflict dst) else return ())"

definition verify_receipt :: "path \<Rightarrow> str \<Rightarrow> unit io" where
  "verify_receipt dst expected = bind (read_or_empty dst)
     (\<lambda>live. if live \<noteq> expected then fail_with (WriteConflict dst) else return ())"

definition verify_pre_images :: "staged_commit \<Rightarrow> unit io" where
  "verify_pre_images c =
     andthen (verify_live (sf_dst (sc_content c)) (sc_content_expected c))
     (case (sc_receipt c, sc_receipt_expected c) of
        (Some staged, Some expected) \<Rightarrow> verify_receipt (sf_dst staged) expected
      | _ \<Rightarrow> return ())"

definition discard :: "staged_commit \<Rightarrow> unit io" where
  "discard c =
     andthen (ignored (remove_file (sf_tmp (sc_content c))))
     (case sc_receipt c of
        Some staged \<Rightarrow> ignored (remove_file (sf_tmp staged))
      | None \<Rightarrow> return ())"

definition rename_content :: "staged_commit \<Rightarrow> unit io" where
  "rename_content c =
     (if sc_content_unchanged c then remove_file (sf_tmp (sc_content c))
      else commit_rename (sc_content c))"

definition rename_receipt :: "staged_commit \<Rightarrow> unit io" where
  "rename_receipt c = (case sc_receipt c of Some staged \<Rightarrow> commit_rename staged | None \<Rightarrow> return ())"

definition commit :: "staged_commit \<Rightarrow> unit io" where
  "commit c = bind (attempted (verify_pre_images c))
     (\<lambda>r. case r of
        Inl e \<Rightarrow> andthen (discard c) (fail_with e)
      | Inr _ \<Rightarrow> andthen (rename_content c) (rename_receipt c))"

definition apply_batch :: "(nat \<Rightarrow> str) \<Rightarrow> path \<Rightarrow> path \<Rightarrow> path option \<Rightarrow> validated_batch \<Rightarrow> str \<Rightarrow> document \<Rightarrow>
    unit io" where
  "apply_batch stamps wd content_path receipt_path b expected cand =
     bind (stage_batch stamps wd content_path receipt_path b expected cand) commit"

section \<open>A set of files\<close>

datatype set_payload = EditFile validated_batch str document | BirthFile document

record set_member =
  sm_path :: path
  sm_payload :: set_payload

datatype staged_pre_image = Bytes str | Absent

type_synonym staged_member = "staged_file \<times> staged_pre_image"

record staged_set =
  ss_contents :: "staged_member list"
  ss_receipt :: "(staged_file \<times> str) option"

definition set_seam :: "set_member list \<Rightarrow> (path \<times> receipt_append) option \<Rightarrow> bool" where
  "set_seam ms receipt \<longleftrightarrow>
     2 \<le> length ms \<and>
     (\<forall>m \<in> set ms. case sm_payload m of EditFile b _ _ \<Rightarrow> vb_receipt b = None | BirthFile _ \<Rightarrow> True) \<and>
     distinct (map sm_path ms) \<and>
     (case receipt of Some (rp, _) \<Rightarrow> rp \<notin> set (map sm_path ms) | None \<Rightarrow> True)"

definition stage_member :: "str \<Rightarrow> path \<Rightarrow> set_member \<Rightarrow> staged_member io" where
  "stage_member stamp wd m =
     (let dst = wd @ sm_path m in
      case sm_payload m of
        EditFile b expected cand \<Rightarrow>
          (case apply_spans expected (edit_pairs b) of
             None \<Rightarrow> halt
           | Some new \<Rightarrow>
               if new \<noteq> raw cand then fail_with InvalidInput
               else bind (stage_file stamp dst new) (\<lambda>s. return (s, Bytes expected)))
      | BirthFile cand \<Rightarrow>
          andthen (create_dirs (butlast dst))
          (bind (stage_file stamp dst (raw cand)) (\<lambda>s. return (s, Absent))))"

definition discard_staged :: "staged_member list \<Rightarrow> unit io" where
  "discard_staged contents = each_do (\<lambda>c. ignored (remove_file (sf_tmp (fst c)))) contents"

text \<open>Whatever fails takes every temporary file along that is there already.\<close>

definition or_discard :: "staged_member list \<Rightarrow> 'a io \<Rightarrow> 'a io" where
  "or_discard contents m = bind (attempted m)
     (\<lambda>r. case r of
        Inl e \<Rightarrow> andthen (discard_staged contents) (fail_with e)
      | Inr a \<Rightarrow> return a)"

fun stage_members :: "(nat \<Rightarrow> str) \<Rightarrow> path \<Rightarrow> staged_member list \<Rightarrow> set_member list \<Rightarrow> staged_member list io" where
  "stage_members stamps wd acc [] = return acc"
| "stage_members stamps wd acc (m # ms) =
     bind (or_discard acc (stage_member (stamps (length acc)) wd m))
     (\<lambda>c. stage_members stamps wd (acc @ [c]) ms)"

definition stage_set :: "(nat \<Rightarrow> str) \<Rightarrow> path \<Rightarrow> set_member list \<Rightarrow> (path \<times> receipt_append) option \<Rightarrow>
    staged_set io" where
  "stage_set stamps wd ms receipt =
     (if \<not> set_seam ms receipt then fail_with InvalidInput
      else bind (stage_members stamps wd [] ms)
        (\<lambda>contents. case receipt of
           None \<Rightarrow> return \<lparr>ss_contents = contents, ss_receipt = None\<rparr>
         | Some (rp, entry) \<Rightarrow>
             bind (or_discard contents (stage_receipt (stamps (length ms)) (wd @ rp) entry))
             (\<lambda>r. return \<lparr>ss_contents = contents, ss_receipt = Some r\<rparr>)))"

definition verify_member :: "staged_member \<Rightarrow> unit io" where
  "verify_member c =
     (case snd c of
        Bytes expected \<Rightarrow> verify_live (sf_dst (fst c)) expected
      | Absent \<Rightarrow> bind (occupied (sf_dst (fst c)))
          (\<lambda>there. if there then fail_with (WriteConflict (sf_dst (fst c))) else return ()))"

definition verify_set :: "staged_set \<Rightarrow> unit io" where
  "verify_set st =
     andthen (each_do verify_member (ss_contents st))
     (case ss_receipt st of
        Some (staged, expected) \<Rightarrow> verify_receipt (sf_dst staged) expected
      | None \<Rightarrow> return ())"

definition discard_set :: "staged_set \<Rightarrow> unit io" where
  "discard_set st =
     andthen (discard_staged (ss_contents st))
     (case ss_receipt st of
        Some (staged, _) \<Rightarrow> ignored (remove_file (sf_tmp staged))
      | None \<Rightarrow> return ())"

definition restore_file :: "str \<Rightarrow> staged_member \<Rightarrow> unit io" where
  "restore_file stamp c =
     (case snd c of
        Bytes bytes \<Rightarrow> bind (stage_file stamp (sf_dst (fst c)) bytes) commit_rename
      | Absent \<Rightarrow> remove_file (sf_dst (fst c)))"

text \<open>What was put back, and what was not and why.\<close>

type_synonym restore_outcome = "path list \<times> (path \<times> io_error) list"

fun restore_each :: "(nat \<Rightarrow> str) \<Rightarrow> nat \<Rightarrow> staged_member list \<Rightarrow> restore_outcome io" where
  "restore_each stamps j [] = return ([], [])"
| "restore_each stamps j (c # cs) =
     bind (attempted (restore_file (stamps j) c))
     (\<lambda>r. bind (restore_each stamps (Suc j) cs)
     (\<lambda>(restored, failed). return (case r of
        Inr _ \<Rightarrow> (sf_dst (fst c) # restored, failed)
      | Inl e \<Rightarrow> (restored, (sf_dst (fst c), e) # failed))))"

definition restore_renamed :: "(nat \<Rightarrow> str) \<Rightarrow> staged_set \<Rightarrow> nat \<Rightarrow> restore_outcome io" where
  "restore_renamed stamps st renamed =
     restore_each stamps (Suc (length (ss_contents st))) (rev (take renamed (ss_contents st)))"

text \<open>\<^verbatim>\<open>rollback_error\<close> as a value: the step that failed, and the two lists it names.\<close>

definition roll_back :: "(nat \<Rightarrow> str) \<Rightarrow> staged_set \<Rightarrow> nat \<Rightarrow> io_error \<Rightarrow> str \<Rightarrow> path \<Rightarrow> 'a io" where
  "roll_back stamps st renamed cause step dst =
     bind (restore_renamed stamps st renamed)
     (\<lambda>(restored, failed). andthen (discard_set st)
        (fail_with (RolledBack cause step dst restored failed)))"

fun rename_members :: "(nat \<Rightarrow> str) \<Rightarrow> staged_set \<Rightarrow> nat \<Rightarrow> staged_member list \<Rightarrow> unit io" where
  "rename_members stamps st i [] = return ()"
| "rename_members stamps st i (c # cs) =
     bind (attempted (commit_rename (fst c)))
     (\<lambda>r. case r of
        Inl e \<Rightarrow> roll_back stamps st i e ''content rename'' (sf_dst (fst c))
      | Inr _ \<Rightarrow> rename_members stamps st (Suc i) cs)"

definition commit_set :: "(nat \<Rightarrow> str) \<Rightarrow> staged_set \<Rightarrow> unit io" where
  "commit_set stamps st = bind (attempted (verify_set st))
     (\<lambda>verified. case verified of
        Inl e \<Rightarrow> andthen (discard_set st) (fail_with e)
      | Inr _ \<Rightarrow>
          andthen (rename_members stamps st 0 (ss_contents st))
          (case ss_receipt st of
             None \<Rightarrow> return ()
           | Some (staged, _) \<Rightarrow>
               bind (attempted (commit_rename staged))
               (\<lambda>r. case r of
                  Inl e \<Rightarrow> roll_back stamps st (length (ss_contents st)) e ''receipt rename'' (sf_dst staged)
                | Inr _ \<Rightarrow> return ())))"

definition apply_set :: "(nat \<Rightarrow> str) \<Rightarrow> path \<Rightarrow> set_member list \<Rightarrow> (path \<times> receipt_append) option \<Rightarrow> unit io" where
  "apply_set stamps wd ms receipt = bind (stage_set stamps wd ms receipt) (commit_set stamps)"

end
