(* ===== verification/Commit_Laws.thy ===== *)
theory Commit_Laws
  imports Commit Atomic_Write
begin

text \<open>
  Laws of the writers. The state of a commit in progress is \<open>mix\<close>: outside the temporary names
  every file is as it was or holds its new contents, and of some it is known which.
\<close>

section \<open>Temporary names\<close>

text \<open>A name the writers never make up.\<close>

definition plain_name :: "path \<Rightarrow> bool" where
  "plain_name p \<longleftrightarrow> drop (length (last p) - 4) (last p) \<noteq> ''.tmp''"

lemma temp_not_plain: "plain_name q \<Longrightarrow> temp_path_for stamp p \<noteq> q"
  by (auto simp: temp_path_for_def plain_name_def)

lemma after_last_dot: "CHR ''.'' \<notin> set a \<Longrightarrow> CHR ''.'' \<notin> set b \<Longrightarrow> x @ ''.'' @ a = y @ ''.'' @ b \<Longrightarrow> a = b"
  using rsplit_once_Some [of "CHR ''.''" "x @ ''.'' @ a" x a] rsplit_once_Some [of "CHR ''.''" "x @ ''.'' @ a" y b]
  by auto

lemma temps_distinct:
  assumes "inj seq" "temp_path_for (stamps_of pid clock seq i) p = temp_path_for (stamps_of pid clock seq j) q"
  shows "i = j"
proof -
  have dot: "CHR ''.'' \<notin> set (to_dec n)" for n by (rule to_dec_no) (simp add: ascii_digit_def byte_def)
  obtain x y where "x @ ''.'' @ to_dec (seq i) = y @ ''.'' @ to_dec (seq j)"
    using assms(2) by (auto simp: temp_path_for_def stamps_of_def) (metis append.assoc append_Cons)
  from after_last_dot [OF dot dot this] show ?thesis using assms(1) by (simp add: inj_eq)
qed

section \<open>Staging and renaming\<close>

abbreviation hit :: "mode \<Rightarrow> (io_error \<Rightarrow> contents \<Rightarrow> bool) \<Rightarrow> (contents \<Rightarrow> bool) \<Rightarrow> contents \<Rightarrow> bool" where
  "hit k E C f \<equiv> (k = Failing \<longrightarrow> E OtherError f) \<and> C f"

lemma sync_rules:
  assumes "\<And>f. \<not> quiet k \<Longrightarrow> J f \<Longrightarrow> hit k E C f"
  shows "triple k J sync_handle (\<lambda>_. J) E C" "triple k J (create_dirs p) (\<lambda>_. J) E C"
    "triple k J (fsync_dir p) (\<lambda>_. J) E C"
proof -
  show 1: "triple k J sync_handle (\<lambda>_. J) E C" "triple k J (create_dirs p) (\<lambda>_. J) E C"
    by (rule no_effect_rules; use assms in auto)+
  show "triple k J (fsync_dir p) (\<lambda>_. J) E C"
    unfolding fsync_dir_def using 1 by (auto intro: triple_return)
qed

lemma drop_rule:
  assumes "\<And>f x. J f \<Longrightarrow> J (f(t := x))" "\<And>f. \<not> quiet k \<Longrightarrow> J f \<Longrightarrow> C f"
  shows "triple k J (ignored (remove_file t)) (\<lambda>_ f. J f) E C"
  by (rule triple_ignored, rule remove_rule) (use assms in auto)

lemma stage_file_rule:
  assumes "\<And>f x. J f \<Longrightarrow> J (f(temp_path_for stamp dst := x))" "\<And>f. \<not> quiet k \<Longrightarrow> J f \<Longrightarrow> hit k E C f"
  shows "triple k J (stage_file stamp dst b)
    (\<lambda>s f. s = \<lparr>sf_tmp = temp_path_for stamp dst, sf_dst = dst\<rparr> \<and> J f \<and> f (sf_tmp s) = Some b) E C"
    (is "triple k J _ ?Q E C")
  unfolding stage_file_def Let_def
proof (rule triple_bind)
  let ?t = "temp_path_for stamp dst"
  let ?W = "\<lambda>f. J f \<and> f ?t = Some b"
  let ?E = "\<lambda>e f. k = Failing \<and> e = OtherError \<and> J f"
  let ?A = "\<lambda>r f. case r of Inr _ \<Rightarrow> ?W f | Inl e \<Rightarrow> ?E e f"
  have 1: "triple k J (create_file ?t) (\<lambda>_. J) ?E C"
    by (rule create_rule) (use assms in auto)
  have 2: "triple k J (write_all ?t b) (\<lambda>_. ?W) ?E C"
    by (rule write_rule) (use assms in auto)
  have 3: "triple k ?W sync_handle (\<lambda>_. ?W) ?E C"
    by (rule sync_rules(1)) (use assms in auto)
  have "triple k J (write_fsync ?t b) (\<lambda>_. ?W) ?E C"
    unfolding write_fsync_def by (rule triple_andthen [OF 1 triple_andthen [OF 2 3]])
  then show "triple k J (attempted (write_fsync ?t b)) ?A E C"
    by (intro triple_attempted) simp
  show "triple k (?A r) (case r of Inl e \<Rightarrow> andthen (ignored (remove_file ?t)) (fail_with e)
      | Inr _ \<Rightarrow> return \<lparr>sf_tmp = ?t, sf_dst = dst\<rparr>) ?Q E C" for r
  proof (cases r)
    case (Inl e)
    have "triple k (\<lambda>f. k = Failing \<and> e = OtherError \<and> J f) (ignored (remove_file ?t))
        (\<lambda>_ f. k = Failing \<and> e = OtherError \<and> J f) E C"
      by (rule drop_rule) (use assms in auto)
    then have "triple k (?E e) (andthen (ignored (remove_file ?t)) (fail_with e)) ?Q E C"
      by (rule triple_andthen) (rule triple_fail, use assms(2) in auto)
    with Inl show ?thesis by simp
  qed (auto intro: triple_return)
qed

lemma commit_rename_rule:
  assumes "\<And>f. P f \<Longrightarrow> \<exists>b. f (sf_tmp s) = Some b"
    and "\<And>f b. P f \<Longrightarrow> f (sf_tmp s) = Some b \<Longrightarrow> Q ((f(sf_tmp s := None))(sf_dst s \<mapsto> b))"
    and "\<And>f. \<not> quiet k \<Longrightarrow> P f \<Longrightarrow> hit k E C f" "\<And>f. \<not> quiet k \<Longrightarrow> Q f \<Longrightarrow> hit k E C f"
  shows "triple k P (commit_rename s) (\<lambda>_. Q) E C"
  unfolding commit_rename_def
proof (rule triple_andthen)
  show "triple k P (rename_file (sf_tmp s) (sf_dst s)) (\<lambda>_. Q) E C"
    by (rule rename_rule) (use assms in fastforce)+
  show "triple k Q (fsync_dir (butlast (sf_dst s))) (\<lambda>_. Q) E C"
    by (rule sync_rules(3)) (use assms in auto)
qed

lemma stage_rename_rule:
  assumes "\<And>f x. J f \<Longrightarrow> J (f(temp_path_for stamp p := x))"
    and "\<And>f. J f \<Longrightarrow> Q ((f(temp_path_for stamp p := None))(p \<mapsto> b))"
    and "\<And>f. \<not> quiet k \<Longrightarrow> J f \<Longrightarrow> hit k E C f" "\<And>f. \<not> quiet k \<Longrightarrow> Q f \<Longrightarrow> hit k E C f"
  shows "triple k J (bind (stage_file stamp p b) commit_rename) (\<lambda>_. Q) E C"
proof (rule triple_bind [OF stage_file_rule])
  fix s
  show "triple k (\<lambda>f. s = \<lparr>sf_tmp = temp_path_for stamp p, sf_dst = p\<rparr> \<and> J f \<and> f (sf_tmp s) = Some b)
      (commit_rename s) (\<lambda>_. Q) E C"
    by (rule triple_fact, rule commit_rename_rule) (use assms in auto)
qed (use assms in auto)

interpretation staged: atomic_writer "\<lambda>p b. bind (stage_file stamp p b) commit_rename" "temp_path_for stamp"
  for stamp by unfold_locales (rule stage_rename_rule)

definition content :: "contents \<Rightarrow> path \<Rightarrow> str" where
  "content f p = (case f p of None \<Rightarrow> [] | Some b \<Rightarrow> b)"

text \<open>Reading changes nothing, so it keeps any assertion.\<close>

lemma read_or_empty_rule:
  "triple k J (read_or_empty p) (\<lambda>b f. J f \<and> b = content f p)
    (\<lambda>e f. J f \<and> k = Failing \<and> e = OtherError) (\<lambda>f. \<not> quiet k \<and> J f)"
  unfolding read_or_empty_def
proof (rule triple_bind)
  let ?A = "\<lambda>r f. J f \<and> (case r of Inr b \<Rightarrow> f p = Some b
      | Inl e \<Rightarrow> (e = NotFound \<and> f p = None) \<or> (k = Failing \<and> e = OtherError))"
  show "triple k J (attempted (read_file p)) ?A
      (\<lambda>e f. J f \<and> k = Failing \<and> e = OtherError) (\<lambda>f. \<not> quiet k \<and> J f)"
    by (intro triple_attempted read_rule) auto
  show "triple k (?A r) (case r of Inr b \<Rightarrow> return b | Inl NotFound \<Rightarrow> return [] | Inl e \<Rightarrow> fail_with e)
      (\<lambda>b f. J f \<and> b = content f p) (\<lambda>e f. J f \<and> k = Failing \<and> e = OtherError) (\<lambda>f. \<not> quiet k \<and> J f)" for r
  proof (cases r)
    case (Inl e)
    then show ?thesis by (cases e) (auto simp: triple_def return_def fail_with_def content_def)
  qed (auto simp: triple_def return_def content_def)
qed

lemma verify_live_rule:
  "triple k J (verify_live dst b) (\<lambda>_ f. J f \<and> f dst = Some b)
    (\<lambda>e f. J f \<and> (k = Failing \<and> e = OtherError \<or> e = WriteConflict dst \<and> f dst \<noteq> Some b))
    (\<lambda>f. \<not> quiet k \<and> J f)"
  unfolding verify_live_def
proof (rule triple_bind)
  let ?E = "\<lambda>e f. J f \<and> (k = Failing \<and> e = OtherError \<or> e = WriteConflict dst \<and> f dst \<noteq> Some b)"
  let ?A = "\<lambda>r f. J f \<and> (case r of Inr b \<Rightarrow> f dst = Some b
      | Inl e \<Rightarrow> (e = NotFound \<and> f dst = None) \<or> (k = Failing \<and> e = OtherError))"
  show "triple k J (attempted (read_file dst)) ?A ?E (\<lambda>f. \<not> quiet k \<and> J f)"
    by (intro triple_attempted read_rule) auto
  show "triple k (?A r) (case r of Inl NotFound \<Rightarrow> fail_with (WriteConflict dst) | Inl e \<Rightarrow> fail_with e
        | Inr live \<Rightarrow> if live \<noteq> b then fail_with (WriteConflict dst) else return ())
      (\<lambda>_ f. J f \<and> f dst = Some b) ?E (\<lambda>f. \<not> quiet k \<and> J f)" for r
  proof (cases r)
    case (Inl e)
    then show ?thesis by (cases e) (auto simp: triple_def fail_with_def)
  qed (auto simp: triple_def return_def fail_with_def)
qed

lemma verify_receipt_rule:
  "triple k J (verify_receipt dst b) (\<lambda>_ f. J f \<and> content f dst = b)
    (\<lambda>e f. J f \<and> (k = Failing \<and> e = OtherError \<or> e = WriteConflict dst \<and> content f dst \<noteq> b))
    (\<lambda>f. \<not> quiet k \<and> J f)"
  unfolding verify_receipt_def
proof (rule triple_bind)
  let ?E = "\<lambda>e f. J f \<and> (k = Failing \<and> e = OtherError \<or> e = WriteConflict dst \<and> content f dst \<noteq> b)"
  show "triple k J (read_or_empty dst) (\<lambda>live f. J f \<and> live = content f dst) ?E (\<lambda>f. \<not> quiet k \<and> J f)"
    by (rule triple_conseq [OF read_or_empty_rule]) auto
  show "triple k (\<lambda>f. J f \<and> live = content f dst)
      (if live \<noteq> b then fail_with (WriteConflict dst) else return ())
      (\<lambda>_ f. J f \<and> content f dst = b) ?E (\<lambda>f. \<not> quiet k \<and> J f)" for live
    by (auto simp: triple_def return_def fail_with_def)
qed

lemma append_at_end: "apply_spans old [(Span (length old) (length old), t)] = Some (old @ t)"
  by (simp add: apply_spans_def byte_slice_def span_in_def)

lemma stage_receipt_rule:
  assumes "\<And>f x. J f \<Longrightarrow> J (f(temp_path_for stamp dst := x))" "\<And>f. J f \<Longrightarrow> content f dst = old"
  shows "triple k J (stage_receipt stamp dst e)
    (\<lambda>r f. J f \<and> r = (\<lparr>sf_tmp = temp_path_for stamp dst, sf_dst = dst\<rparr>, old) \<and>
      rcpt_span e = Span (length old) (length old) \<and> f (temp_path_for stamp dst) = Some (old @ rcpt_text e))
    (\<lambda>x f. J f \<and> (k = Failing \<and> x = OtherError \<or>
      (x = InvalidInput \<or> x = WriteConflict dst) \<and> rcpt_span e \<noteq> Span (length old) (length old)))
    (\<lambda>f. \<not> quiet k \<and> J f)" (is "triple k J _ ?Q ?E ?C")
proof (cases "lo (rcpt_span e) = hi (rcpt_span e)")
  case False
  then show ?thesis by (auto simp: stage_receipt_def triple_def fail_with_def)
next
  case True
  let ?rest = "\<lambda>b. if lo (rcpt_span e) \<noteq> length b then fail_with (WriteConflict dst)
    else case apply_spans b [(rcpt_span e, rcpt_text e)] of None \<Rightarrow> halt
         | Some new \<Rightarrow> bind (stage_file stamp dst new) (\<lambda>s. return (s, b))"
  have eq: "stage_receipt stamp dst e = bind (read_or_empty dst) ?rest"
    using True by (simp add: stage_receipt_def)
  have 1: "triple k J (read_or_empty dst) (\<lambda>b f. b = old \<and> J f) ?E ?C"
    by (rule triple_conseq [OF read_or_empty_rule]) (use assms in auto)
  have "triple k J (?rest old) ?Q ?E ?C"
  proof (cases "lo (rcpt_span e) = length old")
    case False
    then show ?thesis using True by (auto simp: triple_def fail_with_def)
  next
    case at: True
    then have sp: "rcpt_span e = Span (length old) (length old)" using True by (cases "rcpt_span e") simp
    have "triple k J (bind (stage_file stamp dst (old @ rcpt_text e)) (\<lambda>s. return (s, old))) ?Q ?E ?C"
      by (rule triple_bind [OF stage_file_rule]) (use assms sp in \<open>auto simp: triple_def return_def\<close>)
    then show ?thesis by (simp add: sp append_at_end)
  qed
  then have "triple k (\<lambda>f. b = old \<and> J f) (?rest b) ?Q ?E ?C" for b
    by (intro triple_fact) blast
  then show ?thesis unfolding eq by (rule triple_bind [OF 1])
qed

section \<open>A commit in progress\<close>

text \<open>
  \<open>T\<close> holds the temporary names, \<open>g\<close> the new contents of the destinations; \<open>S\<close> are destinations
  known to be as they were, \<open>N\<close> those known to be new.
\<close>

definition mix :: "path set \<Rightarrow> contents \<Rightarrow> contents \<Rightarrow> path set \<Rightarrow> path set \<Rightarrow> contents \<Rightarrow> bool" where
  "mix T g f0 S N f \<longleftrightarrow>
     (\<forall>q. q \<notin> T \<longrightarrow> f q = f0 q \<or> (q \<in> dom g \<and> f q = g q)) \<and>
     (\<forall>q \<in> S. f q = f0 q) \<and> (\<forall>q \<in> N. f q = g q)"

lemma mix_start: "S \<inter> T = {} \<Longrightarrow> mix T g f0 S {} f0"
  by (simp add: mix_def)

lemma mix_temp: "t \<in> T \<Longrightarrow> T \<inter> (S \<union> N) = {} \<Longrightarrow> mix T g f0 S N (f(t := x)) = mix T g f0 S N f"
  unfolding mix_def by (auto 0 3)

lemma mix_weaken: "mix T g f0 S N f \<Longrightarrow> S' \<subseteq> S \<Longrightarrow> N' \<subseteq> N \<Longrightarrow> mix T g f0 S' N' f"
  unfolding mix_def by blast

lemma mix_new:
  assumes "mix T g f0 S N f" "g q = Some b"
  shows "mix T g f0 (S - {q}) (insert q N) (f(q \<mapsto> b))"
  using assms unfolding mix_def by (auto simp: domI)

lemma mix_old:
  assumes "mix T g f0 S N f"
  shows "mix T g f0 (insert q S) (N - {q}) (f(q := f0 q))"
  using assms unfolding mix_def by auto

end
