(* ===== verification/Batch_Commit.thy ===== *)
theory Batch_Commit
  imports Commit_Laws
begin

text \<open>
  The two-file commit: what \<open>apply_batch\<close> leaves on disk, cut off at any system call, by a
  failure or a crash.
\<close>

section \<open>The renames\<close>

lemma rename_content_rule:
  assumes c: "sc_content c = \<lparr>sf_tmp = t, sf_dst = cd\<rparr>" "sc_content_unchanged c = (new = expected)"
    and g: "g cd = Some new" "t \<in> T" "T \<inter> dom g = {}"
    and R: "\<And>f x. R f \<Longrightarrow> R (f(t := x))" "\<And>f x. R f \<Longrightarrow> R (f(cd := x))"
    and stop: "\<And>f. \<not> quiet k \<Longrightarrow> mix T g f0 (dom g) {} f \<Longrightarrow> R f \<Longrightarrow> hit k E C f"
      "\<And>f. \<not> quiet k \<Longrightarrow> mix T g f0 (dom g - {cd}) {cd} f \<Longrightarrow> R f \<Longrightarrow> hit k E C f"
  shows "triple k (\<lambda>f. (mix T g f0 (dom g) {} f \<and> f t = Some new \<and> R f) \<and> f cd = Some expected)
    (rename_content c) (\<lambda>_ f. mix T g f0 (dom g - {cd}) {cd} f \<and> R f) E C"
proof -
  have temp: "mix T g f0 (dom g) {} (f(t := x)) = mix T g f0 (dom g) {} f" for f x
    using g by (intro mix_temp) auto
  show ?thesis
  proof (cases "new = expected")
    case True
    have here: "mix T g f0 (dom g - {cd}) {cd} f" if "mix T g f0 (dom g) {} f" "f cd = Some expected" for f
      using that g(1) True unfolding mix_def by auto
    have "triple k (\<lambda>f. (mix T g f0 (dom g) {} f \<and> f t = Some new \<and> R f) \<and> f cd = Some expected)
        (remove_file t) (\<lambda>_ f. mix T g f0 (dom g - {cd}) {cd} f \<and> R f) E C"
    proof (rule remove_rule)
      fix f b assume f: "(mix T g f0 (dom g) {} f \<and> f t = Some new \<and> R f) \<and> f cd = Some expected"
      moreover have "t \<noteq> cd" using g by auto
      ultimately show "mix T g f0 (dom g - {cd}) {cd} (f(t := None)) \<and> R (f(t := None))"
        using here [of "f(t := None)"] temp R by auto
    qed (use stop in auto)
    with True c show ?thesis by (simp add: rename_content_def)
  next
    case False
    have "triple k (\<lambda>f. (mix T g f0 (dom g) {} f \<and> f t = Some new \<and> R f) \<and> f cd = Some expected)
        (commit_rename (sc_content c)) (\<lambda>_ f. mix T g f0 (dom g - {cd}) {cd} f \<and> R f) E C"
    proof (rule commit_rename_rule)
      fix f b assume f: "(mix T g f0 (dom g) {} f \<and> f t = Some new \<and> R f) \<and> f cd = Some expected"
        "f (sf_tmp (sc_content c)) = Some b"
      then have "mix T g f0 (dom g - {cd}) (insert cd {}) ((f(t := None))(cd \<mapsto> b))"
        by (intro mix_new) (use g temp c in auto)
      with f R show "mix T g f0 (dom g - {cd}) {cd} ((f(sf_tmp (sc_content c) := None))(sf_dst (sc_content c) \<mapsto> b)) \<and>
          R ((f(sf_tmp (sc_content c) := None))(sf_dst (sc_content c) \<mapsto> b))" by (simp add: c)
    qed (use c stop in auto)
    with False c show ?thesis by (simp add: rename_content_def)
  qed
qed

text \<open>One, then the other.\<close>

definition stages :: "path set \<Rightarrow> contents \<Rightarrow> contents \<Rightarrow> path \<Rightarrow> contents \<Rightarrow> bool" where
  "stages T g f0 cd f \<longleftrightarrow>
     mix T g f0 (dom g) {} f \<or> mix T g f0 (dom g - {cd}) {cd} f \<or> mix T g f0 {} (dom g) f"

record plan =
  pl_temp :: path
  pl_dst :: path
  pl_old :: str
  pl_new :: str

definition ready_commit :: "path set \<Rightarrow> contents \<Rightarrow> plan \<Rightarrow> plan option \<Rightarrow> staged_commit \<Rightarrow> bool" where
  "ready_commit T g p r c \<longleftrightarrow>
     sc_content c = \<lparr>sf_tmp = pl_temp p, sf_dst = pl_dst p\<rparr> \<and> sc_content_expected c = pl_old p \<and>
     sc_content_unchanged c = (pl_new p = pl_old p) \<and> pl_temp p \<in> T \<and> T \<inter> dom g = {} \<and>
     g (pl_dst p) = Some (pl_new p) \<and>
     (case r of
        None \<Rightarrow> sc_receipt c = None \<and> sc_receipt_expected c = None \<and> dom g = {pl_dst p}
      | Some q \<Rightarrow> sc_receipt c = Some \<lparr>sf_tmp = pl_temp q, sf_dst = pl_dst q\<rparr> \<and>
          sc_receipt_expected c = Some (pl_old q) \<and> pl_temp q \<in> T \<and> pl_temp q \<noteq> pl_temp p \<and>
          pl_dst q \<noteq> pl_dst p \<and> g (pl_dst q) = Some (pl_new q) \<and> dom g = {pl_dst p, pl_dst q})"

definition staged_in :: "plan option \<Rightarrow> contents \<Rightarrow> bool" where
  "staged_in r f \<longleftrightarrow> (case r of None \<Rightarrow> True | Some q \<Rightarrow> f (pl_temp q) = Some (pl_new q))"

definition live :: "contents \<Rightarrow> plan \<Rightarrow> plan option \<Rightarrow> bool" where
  "live f p r \<longleftrightarrow> f (pl_dst p) = Some (pl_old p) \<and>
     (case r of None \<Rightarrow> True | Some q \<Rightarrow> content f (pl_dst q) = pl_old q)"

lemma rename_receipt_rule:
  assumes c: "ready_commit T g p r c"
    and stop: "\<And>f. \<not> quiet k \<Longrightarrow> stages T g f0 (pl_dst p) f \<Longrightarrow> hit k E C f"
  shows "triple k (\<lambda>f. mix T g f0 (dom g - {pl_dst p}) {pl_dst p} f \<and> staged_in r f) (rename_receipt c)
    (\<lambda>_. mix T g f0 {} (dom g)) E C"
proof (cases r)
  case None
  with c show ?thesis
    by (auto simp: rename_receipt_def ready_commit_def triple_def return_def)
next
  case (Some q)
  note c = c [unfolded ready_commit_def Some option.case]
  have "triple k (\<lambda>f. mix T g f0 (dom g - {pl_dst p}) {pl_dst p} f \<and> staged_in r f)
      (commit_rename \<lparr>sf_tmp = pl_temp q, sf_dst = pl_dst q\<rparr>) (\<lambda>_. mix T g f0 {} (dom g)) E C"
  proof (rule commit_rename_rule)
    fix f b
    assume f: "mix T g f0 (dom g - {pl_dst p}) {pl_dst p} f \<and> staged_in r f"
      "f (sf_tmp \<lparr>sf_tmp = pl_temp q, sf_dst = pl_dst q\<rparr>) = Some b"
    then have "mix T g f0 (dom g - {pl_dst p}) {pl_dst p} (f(pl_temp q := None))"
      using c by (subst mix_temp) auto
    then have "mix T g f0 (dom g - {pl_dst p} - {pl_dst q}) (insert (pl_dst q) {pl_dst p})
        ((f(pl_temp q := None))(pl_dst q \<mapsto> b))"
      by (rule mix_new) (use c f Some in \<open>auto simp: staged_in_def\<close>)
    then have "mix T g f0 {} (dom g) ((f(pl_temp q := None))(pl_dst q \<mapsto> b))"
      by (rule mix_weaken) (use c in auto)
    then show "mix T g f0 {} (dom g) ((f(sf_tmp \<lparr>sf_tmp = pl_temp q, sf_dst = pl_dst q\<rparr> := None))
        (sf_dst \<lparr>sf_tmp = pl_temp q, sf_dst = pl_dst q\<rparr> \<mapsto> b))" by simp
  qed (use stop Some in \<open>auto simp: staged_in_def stages_def\<close>)
  with c show ?thesis by (simp add: rename_receipt_def)
qed

section \<open>The commit\<close>

lemma verify_pre_images_rule:
  assumes c: "ready_commit T g p r c"
    and J: "\<And>f. J f \<Longrightarrow> live f p r = live f0 p r"
  shows "triple k J (verify_pre_images c) (\<lambda>_ f. J f \<and> live f p r)
    (\<lambda>e f. J f \<and> (k = Failing \<and> e = OtherError \<or> (\<exists>q. e = WriteConflict q) \<and> \<not> live f0 p r))
    (\<lambda>f. \<not> quiet k \<and> J f)" (is "triple k J _ ?Q ?E ?C")
proof -
  let ?cd = "pl_dst p"
  have 1: "triple k J (verify_live ?cd (pl_old p)) (\<lambda>_ f. J f \<and> f ?cd = Some (pl_old p)) ?E ?C"
    by (rule triple_conseq [OF verify_live_rule]) (use J in \<open>auto simp: live_def\<close>)
  have 2: "triple k (\<lambda>f. J f \<and> f ?cd = Some (pl_old p)) (verify_receipt (pl_dst q) (pl_old q)) ?Q ?E ?C"
    if "r = Some q" for q
    by (rule triple_conseq [OF verify_receipt_rule [where J = "\<lambda>f. J f \<and> f ?cd = Some (pl_old p)"]])
      (use J that in \<open>auto simp: live_def\<close>)
  have "triple k (\<lambda>f. J f \<and> f ?cd = Some (pl_old p))
      (case (sc_receipt c, sc_receipt_expected c) of
         (Some staged, Some expected) \<Rightarrow> verify_receipt (sf_dst staged) expected | _ \<Rightarrow> return ()) ?Q ?E ?C"
    using c 2 by (cases r) (auto simp: ready_commit_def live_def triple_def return_def)
  with 1 show ?thesis
    unfolding verify_pre_images_def using c by (auto simp: ready_commit_def intro: triple_andthen)
qed

lemma discard_rule:
  assumes c: "ready_commit T g p r c" and J: "\<And>f x t. t \<in> T \<Longrightarrow> J f \<Longrightarrow> J (f(t := x))"
    and C: "\<And>f. \<not> quiet k \<Longrightarrow> J f \<Longrightarrow> C f"
  shows "triple k J (discard c) (\<lambda>_. J) E C"
proof -
  have drop: "triple k J (ignored (remove_file t)) (\<lambda>_. J) E C" if "t \<in> T" for t
    by (rule drop_rule) (use J C that in auto)
  have "triple k J (case sc_receipt c of Some s \<Rightarrow> ignored (remove_file (sf_tmp s)) | None \<Rightarrow> return ())
      (\<lambda>_. J) E C"
    using c drop by (cases r) (auto simp: ready_commit_def intro: triple_return)
  with drop show ?thesis
    unfolding discard_def using c by (auto simp: ready_commit_def intro: triple_andthen)
qed

text \<open>
  An error without a failing call is a conflict, and before any rename. A conflict means that a
  destination was not what the batch was made for.
\<close>

lemma commit_rule:
  assumes c: "ready_commit T g p r c"
  shows "triple k (\<lambda>f. mix T g f0 (dom g) {} f \<and> f (pl_temp p) = Some (pl_new p) \<and> staged_in r f)
    (commit c) (\<lambda>_ f. live f0 p r \<and> mix T g f0 {} (dom g) f)
    (\<lambda>e f. (e = OtherError \<and> k = Failing \<and> stages T g f0 (pl_dst p) f) \<or>
      (\<exists>q. e = WriteConflict q) \<and> \<not> live f0 p r \<and> mix T g f0 (dom g) {} f)
    (\<lambda>f. \<not> quiet k \<and> stages T g f0 (pl_dst p) f)" (is "triple k ?P _ ?Q ?E ?C")
  unfolding commit_def
proof (rule triple_bind)
  let ?cd = "pl_dst p"
  let ?A = "\<lambda>x f. case x of
      Inl e \<Rightarrow> ((k = Failing \<and> e = OtherError) \<or> (\<exists>q. e = WriteConflict q) \<and> \<not> live f0 p r) \<and> mix T g f0 (dom g) {} f
    | Inr _ \<Rightarrow> live f0 p r \<and> ?P f \<and> f ?cd = Some (pl_old p)"
  have D: "pl_dst p \<in> dom g" "\<And>q. r = Some q \<Longrightarrow> pl_dst q \<in> dom g"
    using c by (auto simp: ready_commit_def domI)
  have same: "live f p r = live f0 p r" if "mix T g f0 (dom g) {} f" for f
    using that D by (auto simp: live_def mix_def content_def split: option.splits)
  have "triple k ?P (verify_pre_images c) (\<lambda>_ f. ?P f \<and> live f p r)
    (\<lambda>e f. ?P f \<and> (k = Failing \<and> e = OtherError \<or> (\<exists>q. e = WriteConflict q) \<and> \<not> live f0 p r))
    (\<lambda>f. \<not> quiet k \<and> ?P f)"
    by (rule verify_pre_images_rule [OF c]) (use same in auto)
  then have "triple k ?P (verify_pre_images c) (\<lambda>a. ?A (Inr a)) (\<lambda>e. ?A (Inl e)) ?C"
    by (rule triple_conseq) (use same in \<open>auto simp: live_def stages_def\<close>)
  then show "triple k ?P (attempted (verify_pre_images c)) ?A ?E ?C" by (rule triple_attempted)
  show "triple k (?A x) (case x of Inl e \<Rightarrow> andthen (discard c) (fail_with e)
      | Inr _ \<Rightarrow> andthen (rename_content c) (rename_receipt c)) ?Q ?E ?C" for x
  proof (cases x)
    case (Inl e)
    have "triple k (\<lambda>f. ((k = Failing \<and> e = OtherError) \<or> (\<exists>q. e = WriteConflict q) \<and> \<not> live f0 p r) \<and>
        mix T g f0 (dom g) {} f) (discard c)
      (\<lambda>_ f. ((k = Failing \<and> e = OtherError) \<or> (\<exists>q. e = WriteConflict q) \<and> \<not> live f0 p r) \<and>
        mix T g f0 (dom g) {} f) ?E ?C"
      by (rule discard_rule [OF c])
        (use c in \<open>auto simp: mix_temp ready_commit_def stages_def Int_commute\<close>)
    then have "triple k (\<lambda>f. ((k = Failing \<and> e = OtherError) \<or> (\<exists>q. e = WriteConflict q) \<and> \<not> live f0 p r) \<and>
        mix T g f0 (dom g) {} f) (andthen (discard c) (fail_with e)) ?Q ?E ?C"
      by (rule triple_andthen) (rule triple_fail, auto simp: stages_def)
    with Inl show ?thesis by simp
  next
    case (Inr u)
    have stop: "hit k ?E ?C f" if "\<not> quiet k" "stages T g f0 ?cd f" for f using that by auto
    have 1: "triple k (\<lambda>f. ?P f \<and> f ?cd = Some (pl_old p)) (rename_content c)
        (\<lambda>_ f. mix T g f0 (dom g - {?cd}) {?cd} f \<and> staged_in r f) ?E ?C"
      by (rule triple_pre [OF rename_content_rule [where t = "pl_temp p" and new = "pl_new p" and
              expected = "pl_old p" and R = "staged_in r"]])
        (use c stop in \<open>auto simp: ready_commit_def staged_in_def stages_def split: option.splits\<close>)
    have 2: "triple k (\<lambda>f. ?P f \<and> f ?cd = Some (pl_old p)) (andthen (rename_content c) (rename_receipt c))
        (\<lambda>_. mix T g f0 {} (dom g)) ?E ?C"
      by (rule triple_andthen [OF 1 rename_receipt_rule [OF c]]) (use stop in auto)
    have "triple k (\<lambda>f. live f0 p r \<and> ?P f \<and> f ?cd = Some (pl_old p))
        (andthen (rename_content c) (rename_receipt c)) ?Q ?E ?C"
      by (rule triple_fact, rule triple_conseq [OF 2]) auto
    with Inr show ?thesis by simp
  qed
qed

section \<open>The whole commit\<close>

text \<open>What lands where, and whether the files are what the batch was made for.\<close>

definition batch_new :: "path \<Rightarrow> path \<Rightarrow> path option \<Rightarrow> validated_batch \<Rightarrow> document \<Rightarrow> contents \<Rightarrow> contents" where
  "batch_new wd cp rp b cand f0 q =
     (if q = wd @ cp then Some (raw cand)
      else case (rp, vb_receipt b) of
        (Some r, Some e) \<Rightarrow> if q = wd @ r then Some (content f0 q @ rcpt_text e) else None
      | _ \<Rightarrow> None)"

definition batch_fits :: "path \<Rightarrow> path \<Rightarrow> path option \<Rightarrow> validated_batch \<Rightarrow> str \<Rightarrow> document \<Rightarrow> contents \<Rightarrow> bool" where
  "batch_fits wd cp rp b expected cand f0 \<longleftrightarrow>
     batch_seam cp rp b \<and> apply_spans expected (edit_pairs b) = Some (raw cand) \<and>
     f0 (wd @ cp) = Some expected \<and>
     (case (rp, vb_receipt b) of
        (Some r, Some e) \<Rightarrow> let n = length (content f0 (wd @ r)) in rcpt_span e = Span n n
      | _ \<Rightarrow> True)"

definition batch_temps :: "(nat \<Rightarrow> str) \<Rightarrow> path \<Rightarrow> path \<Rightarrow> path option \<Rightarrow> path set" where
  "batch_temps stamps wd cp rp =
     insert (temp_path_for (stamps 0) (wd @ cp))
       (case rp of None \<Rightarrow> {} | Some r \<Rightarrow> {temp_path_for (stamps 1) (wd @ r)})"

lemma apply_batch_rule:
  fixes wd cp rp b cand f0 pid clock seq
  defines "stamps \<equiv> stamps_of pid clock seq" and "g \<equiv> batch_new wd cp rp b cand f0"
  defines "T \<equiv> batch_temps stamps wd cp rp"
  assumes seq: "inj seq" and plain: "plain_name (wd @ cp)" "\<And>r. rp = Some r \<Longrightarrow> plain_name (wd @ r)"
  shows "triple k (\<lambda>f. f = f0) (apply_batch stamps wd cp rp b expected cand)
    (\<lambda>_ f. batch_fits wd cp rp b expected cand f0 \<and> mix T g f0 {} (dom g) f)
    (\<lambda>e f. stages T g f0 (wd @ cp) f \<and> (e = OtherError \<and> k = Failing \<or>
      \<not> batch_fits wd cp rp b expected cand f0 \<and> mix T g f0 (dom g) {} f))
    (\<lambda>f. (\<not> quiet k \<or> \<not> batch_fits wd cp rp b expected cand f0) \<and> stages T g f0 (wd @ cp) f)"
    (is "triple k _ _ ?Q ?E ?C")
proof (cases "batch_seam cp rp b \<and> apply_spans expected (edit_pairs b) = Some (raw cand)")
  case False
  have "mix T g f0 (dom g) {} f0" "T \<inter> dom g = {}"
  proof -
    show "T \<inter> dom g = {}"
      using temp_not_plain [OF plain(1)] temp_not_plain [OF plain(2)]
      by (auto simp: T_def g_def batch_temps_def batch_new_def split: option.splits if_splits)
    then show "mix T g f0 (dom g) {} f0" by (intro mix_start) auto
  qed
  then have "?E InvalidInput f0" "?C f0" using False by (auto simp: stages_def batch_fits_def)
  with False show ?thesis
    by (auto simp: apply_batch_def stage_batch_def triple_def fail_with_def halt_def bind_def
        split: option.splits)
next
  case seam: True
  let ?cd = "wd @ cp"
  have away: "T \<inter> dom g = {}"
    using temp_not_plain [OF plain(1)] temp_not_plain [OF plain(2)]
    by (auto simp: T_def g_def batch_temps_def batch_new_def split: option.splits if_splits)
  let ?M = "\<lambda>f. mix T g f0 (dom g) {} f"
  have M: "?M f0" using away by (intro mix_start) auto
  have temp: "?M (f(t := x)) = ?M f" if "t \<in> T" for f t x using mix_temp [OF that] away by simp
  let ?p = "\<lparr>pl_temp = temp_path_for (stamps 0) ?cd, pl_dst = ?cd, pl_old = expected, pl_new = raw cand\<rparr>"
  have stop: "hit k ?E ?C f" if "\<not> quiet k" "?M f" for f using that by (auto simp: stages_def)
  have content: "triple k (\<lambda>f. f = f0) (stage_file (stamps 0) ?cd (raw cand))
      (\<lambda>s f. s = \<lparr>sf_tmp = pl_temp ?p, sf_dst = ?cd\<rparr> \<and> ?M f \<and> f (pl_temp ?p) = Some (raw cand)) ?E ?C"
    by (rule triple_conseq [OF stage_file_rule [where J = ?M]]) (use M stop temp in \<open>auto simp: T_def batch_temps_def\<close>)
  have finish: "triple k (\<lambda>f. ?M f \<and> f (pl_temp ?p) = Some (raw cand) \<and> staged_in r f) (commit c) ?Q ?E ?C"
    if "ready_commit T g ?p r c" "live f0 ?p r \<longleftrightarrow> batch_fits wd cp rp b expected cand f0" for r c
    by (rule triple_conseq [OF commit_rule [OF that(1)]]) (use that(2) in \<open>auto simp: stages_def\<close>)
  consider (none) "rp = None" "vb_receipt b = None" | (some) r e where "rp = Some r" "vb_receipt b = Some e" "r \<noteq> cp"
    using seam by (auto simp: batch_seam_def split: option.splits)
  then show ?thesis
  proof cases
    case none
    let ?c = "\<lparr>sc_content = \<lparr>sf_tmp = pl_temp ?p, sf_dst = ?cd\<rparr>, sc_content_unchanged = (raw cand = expected),
      sc_content_expected = expected, sc_receipt = None, sc_receipt_expected = None\<rparr>"
    have "ready_commit T g ?p None ?c"
      using away none by (auto simp: ready_commit_def T_def g_def batch_temps_def batch_new_def split: if_splits)
    moreover have "live f0 ?p None \<longleftrightarrow> batch_fits wd cp rp b expected cand f0"
      using seam none by (simp add: live_def batch_fits_def)
    ultimately have "triple k (\<lambda>f. ?M f \<and> f (pl_temp ?p) = Some (raw cand)) (commit ?c) ?Q ?E ?C"
      using finish [of None ?c] by (simp add: staged_in_def)
    then have "triple k (\<lambda>f. s = \<lparr>sf_tmp = pl_temp ?p, sf_dst = ?cd\<rparr> \<and> ?M f \<and> f (pl_temp ?p) = Some (raw cand))
        (commit \<lparr>sc_content = s, sc_content_unchanged = (raw cand = expected),
      sc_content_expected = expected, sc_receipt = None, sc_receipt_expected = None\<rparr>) ?Q ?E ?C" for s
      by (intro triple_fact) simp
    from triple_bind [OF content this] show ?thesis
      using seam none by (simp add: apply_batch_def stage_batch_def bind_assoc)
  next
    case some
    let ?rd = "wd @ r" and ?old = "content f0 (wd @ r)"
    let ?t = "temp_path_for (stamps 1) ?rd"
    let ?q = "\<lparr>pl_temp = ?t, pl_dst = ?rd, pl_old = ?old, pl_new = ?old @ rcpt_text e\<rparr>"
    let ?at = "rcpt_span e = Span (length ?old) (length ?old)"
    let ?J = "\<lambda>f. ?M f \<and> f (pl_temp ?p) = Some (raw cand)"
    let ?c = "\<lambda>u. \<lparr>sc_content = \<lparr>sf_tmp = pl_temp ?p, sf_dst = ?cd\<rparr>, sc_content_unchanged = (raw cand = expected),
      sc_content_expected = expected, sc_receipt = fst u, sc_receipt_expected = snd u\<rparr>"
    have new: "g ?rd = Some (?old @ rcpt_text e)" "g ?cd = Some (raw cand)" "dom g = {?cd, ?rd}"
      using some by (auto simp: g_def batch_new_def split: if_splits)
    have t: "?t \<in> T" "pl_temp ?p \<in> T" "?t \<noteq> pl_temp ?p"
      using some temps_distinct [OF seq, of pid clock 1 ?rd 0 ?cd] by (auto simp: T_def batch_temps_def stamps_def)
    have fits: "batch_fits wd cp rp b expected cand f0 \<longleftrightarrow> f0 ?cd = Some expected \<and> ?at"
      using seam some by (simp add: batch_fits_def Let_def)
    have ready: "ready_commit T g ?p (Some ?q) (?c (Some \<lparr>sf_tmp = ?t, sf_dst = ?rd\<rparr>, Some ?old))"
      using away t new some by (simp add: ready_commit_def)
    let ?R = "\<lambda>x f. ?J f \<and> (case x of
        Inr u \<Rightarrow> u = (\<lparr>sf_tmp = ?t, sf_dst = ?rd\<rparr>, ?old) \<and> ?at \<and> f ?t = Some (?old @ rcpt_text e)
      | Inl e1 \<Rightarrow> (k = Failing \<and> e1 = OtherError \<or> \<not> ?at))"
    have staging: "triple k ?J (attempted (stage_receipt (stamps 1) ?rd e)) ?R ?E ?C"
    proof (rule triple_attempted, rule triple_conseq [OF stage_receipt_rule [where J = ?J and old = ?old]])
      show "content f ?rd = ?old" if "?J f" for f
        using that domI [of g, OF new(1)] by (simp add: mix_def content_def)
      show "?J (f(?t := x))" if "?J f" for f x using that temp [OF t(1)] t(3) by auto
    qed (use fits in \<open>auto simp: stages_def\<close>)
    let ?W = "\<lambda>u f. ?J f \<and> u = (Some \<lparr>sf_tmp = ?t, sf_dst = ?rd\<rparr>, Some ?old) \<and> ?at \<and> staged_in (Some ?q) f"
    have handle: "triple k (?R x) (case x of
          Inl e \<Rightarrow> andthen (ignored (remove_file (pl_temp ?p))) (fail_with e)
        | Inr (staged, old) \<Rightarrow> return (Some staged, Some old)) ?W ?E ?C" for x
    proof (cases x)
      case (Inl e1)
      have "triple k (\<lambda>f. (k = Failing \<and> e1 = OtherError \<or> \<not> ?at) \<and> ?M f) (ignored (remove_file (pl_temp ?p)))
          (\<lambda>_ f. (k = Failing \<and> e1 = OtherError \<or> \<not> ?at) \<and> ?M f) ?E ?C"
        by (rule drop_rule) (use temp [OF t(2)] in \<open>auto simp: stages_def\<close>)
      from triple_andthen [OF this triple_fail]
      have "triple k (\<lambda>f. (k = Failing \<and> e1 = OtherError \<or> \<not> ?at) \<and> ?M f)
          (andthen (ignored (remove_file (pl_temp ?p))) (fail_with e1)) ?W ?E ?C"
        using fits by (auto simp: stages_def)
      with Inl show ?thesis by (auto elim!: triple_pre)
    qed (auto simp: staged_in_def intro!: triple_return)
    have last: "triple k (?W u) (commit (?c u)) ?Q ?E ?C" for u
    proof -
      have "triple k (\<lambda>f. ?J f \<and> staged_in (Some ?q) f)
          (commit (?c (Some \<lparr>sf_tmp = ?t, sf_dst = ?rd\<rparr>, Some ?old))) ?Q ?E ?C" if ?at
        using finish [OF ready] fits that by (simp add: live_def conj_assoc)
      then show ?thesis by (auto simp: triple_def)
    qed
    have rest: "triple k (\<lambda>f. s = \<lparr>sf_tmp = pl_temp ?p, sf_dst = ?cd\<rparr> \<and> ?J f)
        (bind (bind (attempted (stage_receipt (stamps 1) ?rd e))
           (\<lambda>x. case x of Inl e \<Rightarrow> andthen (ignored (remove_file (sf_tmp s))) (fail_with e)
                | Inr (staged, old) \<Rightarrow> return (Some staged, Some old)))
           (\<lambda>u. commit \<lparr>sc_content = s, sc_content_unchanged = (raw cand = expected),
             sc_content_expected = expected, sc_receipt = fst u, sc_receipt_expected = snd u\<rparr>)) ?Q ?E ?C" for s
      by (rule triple_fact, simp only: staged_file.select_convs)
        (rule triple_bind [OF triple_bind [OF staging handle] last])
    from triple_bind [OF content rest] show ?thesis
      using seam some by (simp add: apply_batch_def stage_batch_def bind_assoc split_beta)
  qed
qed

end
