(* ===== verification/Set_Commit.thy ===== *)
theory Set_Commit
  imports Commit_Laws
begin

text \<open>
  The set commit: staging, verification, the renames and the rollback from memory, cut off at any
  system call, by a failure or a crash.
\<close>

section \<open>Members\<close>

abbreviation c_tmp :: "staged_member \<Rightarrow> path" where "c_tmp c \<equiv> sf_tmp (fst c)"
abbreviation c_dst :: "staged_member \<Rightarrow> path" where "c_dst c \<equiv> sf_dst (fst c)"

definition pre_ok :: "contents \<Rightarrow> staged_member \<Rightarrow> bool" where
  "pre_ok f c \<longleftrightarrow> (case snd c of Bytes b \<Rightarrow> f (c_dst c) = Some b | Absent \<Rightarrow> f (c_dst c) = None)"

definition member_new :: "set_member \<Rightarrow> str" where
  "member_new m = (case sm_payload m of EditFile b expected cand \<Rightarrow> raw cand | BirthFile cand \<Rightarrow> raw cand)"

definition member_pre :: "set_member \<Rightarrow> staged_pre_image" where
  "member_pre m = (case sm_payload m of EditFile b expected cand \<Rightarrow> Bytes expected | BirthFile cand \<Rightarrow> Absent)"

definition member_sealed :: "set_member \<Rightarrow> bool" where
  "member_sealed m = (case sm_payload m of
     EditFile b expected cand \<Rightarrow> apply_spans expected (edit_pairs b) = Some (raw cand) | BirthFile cand \<Rightarrow> True)"

definition planned_member :: "(nat \<Rightarrow> str) \<Rightarrow> path \<Rightarrow> nat \<Rightarrow> set_member \<Rightarrow> staged_member" where
  "planned_member stamps wd i m =
     (\<lparr>sf_tmp = temp_path_for (stamps i) (wd @ sm_path m), sf_dst = wd @ sm_path m\<rparr>, member_pre m)"

fun planned :: "(nat \<Rightarrow> str) \<Rightarrow> path \<Rightarrow> nat \<Rightarrow> set_member list \<Rightarrow> staged_member list" where
  "planned stamps wd i [] = []"
| "planned stamps wd i (m # ms) = planned_member stamps wd i m # planned stamps wd (Suc i) ms"

lemma length_planned [simp]: "length (planned stamps wd i ms) = length ms"
  by (induction ms arbitrary: i) simp_all

lemma planned_append: "planned stamps wd i (xs @ ys) = planned stamps wd i xs @ planned stamps wd (i + length xs) ys"
  by (induction xs arbitrary: i) simp_all

lemma set_planned: "c \<in> set (planned stamps wd i ms) \<Longrightarrow>
    \<exists>j m. i \<le> j \<and> j < i + length ms \<and> m \<in> set ms \<and> c = planned_member stamps wd j m"
proof (induction ms arbitrary: i)
  case (Cons m ms)
  show ?case
  proof (cases "c = planned_member stamps wd i m")
    case True
    show ?thesis by (rule exI [of _ i], rule exI [of _ m]) (simp add: True)
  next
    case False
    with Cons.prems have "c \<in> set (planned stamps wd (Suc i) ms)" by simp
    from Cons.IH [OF this] obtain j m' where "Suc i \<le> j" "j < Suc i + length ms" "m' \<in> set ms"
      "c = planned_member stamps wd j m'" by blast
    then show ?thesis by (intro exI [of _ j] exI [of _ m']) auto
  qed
qed simp

lemma map_dst_planned: "map c_dst (planned stamps wd i ms) = map (\<lambda>m. wd @ sm_path m) ms"
  by (induction ms arbitrary: i) (simp_all add: planned_member_def)

section \<open>Staging\<close>

lemma stage_member_rule:
  assumes "\<And>f x. J f \<Longrightarrow> J (f(temp_path_for stamp (wd @ sm_path m) := x))"
  shows "triple k J (stage_member stamp wd m)
    (\<lambda>c f. J f \<and> c = (\<lparr>sf_tmp = temp_path_for stamp (wd @ sm_path m), sf_dst = wd @ sm_path m\<rparr>, member_pre m) \<and>
      member_sealed m \<and> f (c_tmp c) = Some (member_new m))
    (\<lambda>e f. J f \<and> (k = Failing \<and> e = OtherError \<or> e = InvalidInput \<and> \<not> member_sealed m))
    (\<lambda>f. J f \<and> (\<not> quiet k \<or> \<not> member_sealed m))" (is "triple k J _ ?Q ?E ?C")
proof -
  let ?dst = "wd @ sm_path m"
  have stage: "triple k J (bind (stage_file stamp ?dst b) (\<lambda>s. return (s, p))) ?Q ?E ?C"
    if "b = member_new m" "p = member_pre m" "member_sealed m" for b p
    by (rule triple_bind [OF stage_file_rule]) (use assms that in \<open>auto simp: triple_def return_def\<close>)
  show ?thesis
  proof (cases "sm_payload m")
    case (EditFile b expected cand)
    then have "member_new m = raw cand" "member_pre m = Bytes expected"
      "member_sealed m \<longleftrightarrow> apply_spans expected (edit_pairs b) = Some (raw cand)"
      by (simp_all add: member_new_def member_pre_def member_sealed_def)
    with EditFile stage show ?thesis
      by (auto simp: stage_member_def Let_def triple_def halt_def fail_with_def split: option.splits)
  next
    case (BirthFile cand)
    then have "member_new m = raw cand" "member_pre m = Absent" "member_sealed m"
      by (simp_all add: member_new_def member_pre_def member_sealed_def)
    moreover have "triple k J (create_dirs (butlast ?dst)) (\<lambda>_. J) ?E ?C"
      by (rule sync_rules(2)) auto
    ultimately show ?thesis
      using BirthFile stage by (auto simp: stage_member_def Let_def intro: triple_andthen)
  qed
qed

lemma discard_staged_rule:
  assumes "\<And>f x t. t \<in> c_tmp ` set cs \<Longrightarrow> J f \<Longrightarrow> J (f(t := x))" "\<And>f. \<not> quiet k \<Longrightarrow> J f \<Longrightarrow> C f"
  shows "triple k J (discard_staged cs) (\<lambda>_. J) E C"
  unfolding discard_staged_def
proof (rule triple_each_do [where I = "\<lambda>_. J"])
  fix ys x zs assume "cs = ys @ x # zs"
  then show "triple k J (ignored (remove_file (c_tmp x))) (\<lambda>_. J) E C"
    by (intro drop_rule) (use assms in auto)
qed

lemma or_discard_rule:
  assumes m: "triple k P m Q (\<lambda>e f. J f \<and> F e) C"
    and J: "\<And>f x t. t \<in> c_tmp ` set cs \<Longrightarrow> J f \<Longrightarrow> J (f(t := x))" "\<And>f. \<not> quiet k \<Longrightarrow> J f \<Longrightarrow> C f"
  shows "triple k P (or_discard cs m) Q (\<lambda>e f. J f \<and> F e) C"
  unfolding or_discard_def
proof (rule triple_bind)
  let ?A = "\<lambda>r f. case r of Inr a \<Rightarrow> Q a f | Inl e \<Rightarrow> J f \<and> F e"
  show "triple k P (attempted m) ?A (\<lambda>e f. J f \<and> F e) C"
    by (rule triple_attempted) (use m in simp)
  show "triple k (?A r) (case r of Inl e \<Rightarrow> andthen (discard_staged cs) (fail_with e) | Inr a \<Rightarrow> return a)
      Q (\<lambda>e f. J f \<and> F e) C" for r
  proof (cases r)
    case (Inl e)
    have "triple k (\<lambda>f. F e \<and> J f) (andthen (discard_staged cs) (fail_with e)) Q (\<lambda>e f. J f \<and> F e) C"
      by (rule triple_andthen [OF discard_staged_rule [where J = "\<lambda>f. F e \<and> J f"]])
        (use J in \<open>auto intro: triple_fail\<close>)
    with Inl show ?thesis by (simp add: conj_commute)
  qed (auto intro: triple_return)
qed

text \<open>\<open>J\<close> does not depend on any temporary file; those that are staged hold their new contents.\<close>

lemma stage_members_rule:
  assumes J: "\<And>f x t. t \<in> T \<Longrightarrow> J f \<Longrightarrow> J (f(t := x))"
    and T: "\<And>i m. m \<in> set (xs @ ms) \<Longrightarrow> temp_path_for (stamps i) (wd @ sm_path m) \<in> T"
    and apart: "\<And>i j p q. temp_path_for (stamps i) p = temp_path_for (stamps j) q \<Longrightarrow> i = j"
    and g: "\<And>m. m \<in> set (xs @ ms) \<Longrightarrow> g (wd @ sm_path m) = Some (member_new m)"
  shows "triple k (\<lambda>f. J f \<and> (\<forall>c \<in> set (planned stamps wd 0 xs). f (c_tmp c) = g (c_dst c)))
    (stage_members stamps wd (planned stamps wd 0 xs) ms)
    (\<lambda>cs f. J f \<and> cs = planned stamps wd 0 (xs @ ms) \<and> (\<forall>c \<in> set cs. f (c_tmp c) = g (c_dst c)) \<and>
      (\<forall>m \<in> set ms. member_sealed m))
    (\<lambda>e f. J f \<and> (k = Failing \<and> e = OtherError \<or> e = InvalidInput \<and> (\<exists>m \<in> set ms. \<not> member_sealed m)))
    (\<lambda>f. J f \<and> (\<not> quiet k \<or> (\<exists>m \<in> set ms. \<not> member_sealed m)))"
  using T g
proof (induction ms arbitrary: xs)
  case Nil
  show ?case by (simp add: triple_def return_def)
next
  case (Cons m ms)
  let ?acc = "planned stamps wd 0 xs" and ?n = "length xs"
  let ?E = "\<lambda>e f. J f \<and> (k = Failing \<and> e = OtherError \<or> e = InvalidInput \<and> (\<exists>m \<in> set (m # ms). \<not> member_sealed m))"
  let ?C = "\<lambda>f. J f \<and> (\<not> quiet k \<or> (\<exists>m \<in> set (m # ms). \<not> member_sealed m))"
  let ?K = "\<lambda>f. J f \<and> (\<forall>c \<in> set ?acc. f (c_tmp c) = g (c_dst c))"
  let ?Q = "\<lambda>c f. member_sealed m \<and> c = planned_member stamps wd ?n m \<and> J f \<and>
    (\<forall>c \<in> set (planned stamps wd 0 (xs @ [m])). f (c_tmp c) = g (c_dst c))"
  have temps: "c_tmp c \<in> T \<and> c_tmp c \<noteq> temp_path_for (stamps ?n) (wd @ sm_path m)" if c: "c \<in> set ?acc" for c
    using set_planned [OF c] Cons.prems(1) apart by (fastforce simp: planned_member_def)
  have K: "?K (f(temp_path_for (stamps ?n) (wd @ sm_path m) := x))" if "?K f" for f x
    using that J [OF Cons.prems(1)] temps by fastforce
  have "triple k ?K (stage_member (stamps ?n) wd m) ?Q ?E ?C"
    by (rule triple_conseq [OF stage_member_rule [where J = ?K]], use K in blast, blast)
      (use Cons.prems(2) in \<open>auto simp: planned_append planned_member_def\<close>)
  then have "triple k ?K (or_discard ?acc (stage_member (stamps ?n) wd m)) ?Q ?E ?C"
    by (rule or_discard_rule) (use J temps in auto)
  then show ?case
    unfolding stage_members.simps length_planned
  proof (rule triple_bind)
    fix c
    show "triple k (?Q c) (stage_members stamps wd (?acc @ [c]) ms)
      (\<lambda>cs f. J f \<and> cs = planned stamps wd 0 (xs @ m # ms) \<and> (\<forall>c \<in> set cs. f (c_tmp c) = g (c_dst c)) \<and>
        (\<forall>m \<in> set (m # ms). member_sealed m)) ?E ?C"
    proof (rule triple_fact, rule triple_fact)
      assume "member_sealed m" "c = planned_member stamps wd ?n m"
      then show "triple k (\<lambda>f. J f \<and> (\<forall>c \<in> set (planned stamps wd 0 (xs @ [m])). f (c_tmp c) = g (c_dst c)))
          (stage_members stamps wd (?acc @ [c]) ms)
          (\<lambda>cs f. J f \<and> cs = planned stamps wd 0 (xs @ m # ms) \<and> (\<forall>c \<in> set cs. f (c_tmp c) = g (c_dst c)) \<and>
            (\<forall>m \<in> set (m # ms). member_sealed m)) ?E ?C"
        using Cons.IH [of "xs @ [m]"] Cons.prems
        by (auto simp: planned_append elim!: triple_conseq)
    qed
  qed
qed

end
