(* ===== verification/Set_Rollback.thy ===== *)
theory Set_Rollback
  imports Set_Commit
begin

text \<open>
  The verification, the renames and the rollback of a staged set.
\<close>

section \<open>Verification\<close>

lemma occupied_rule:
  "triple k J (occupied p)
    (\<lambda>b f. J f \<and> (b \<longrightarrow> f p \<noteq> None) \<and> (\<not> b \<longrightarrow> f p = None \<or> k = Failing)) E (\<lambda>f. \<not> quiet k \<and> J f)"
  unfolding occupied_def
proof (rule triple_bind)
  let ?A = "\<lambda>r f. J f \<and> (case r of Inr _ \<Rightarrow> f p \<noteq> None | Inl e \<Rightarrow> f p = None \<or> k = Failing)"
  show "triple k J (attempted (stat_file p)) ?A E (\<lambda>f. \<not> quiet k \<and> J f)"
    by (intro triple_attempted look_up_rules(2)) auto
  show "triple k (?A r) (return (case r of Inr _ \<Rightarrow> True | Inl _ \<Rightarrow> False))
      (\<lambda>b f. J f \<and> (b \<longrightarrow> f p \<noteq> None) \<and> (\<not> b \<longrightarrow> f p = None \<or> k = Failing)) E (\<lambda>f. \<not> quiet k \<and> J f)" for r
    by (rule triple_return) (auto split: sum.splits)
qed

text \<open>A failing lookup reads as absence, so where calls may fail a birth must be known to be one.\<close>

lemma verify_member_rule:
  assumes "\<And>f. J f \<Longrightarrow> pre_ok f c = ok" "k = Failing \<Longrightarrow> snd c = Absent \<Longrightarrow> ok"
  shows "triple k J (verify_member c) (\<lambda>_ f. J f \<and> ok)
    (\<lambda>e f. J f \<and> (k = Failing \<and> e = OtherError \<or> (\<exists>q. e = WriteConflict q) \<and> \<not> ok)) (\<lambda>f. \<not> quiet k \<and> J f)"
    (is "triple k J _ ?Q ?E ?C")
proof (cases "snd c")
  case (Bytes b)
  then have eq: "verify_member c = verify_live (c_dst c) b" by (simp add: verify_member_def)
  show ?thesis
    unfolding eq by (rule triple_conseq [OF verify_live_rule [where J = J]])
      (use assms(1) Bytes in \<open>auto simp: pre_ok_def\<close>)
next
  case Absent
  have ok: "J f \<Longrightarrow> ok \<longleftrightarrow> f (c_dst c) = None" for f using assms(1) [of f] Absent by (simp add: pre_ok_def)
  have "triple k (\<lambda>f. J f \<and> (there \<longrightarrow> f (c_dst c) \<noteq> None) \<and> (\<not> there \<longrightarrow> f (c_dst c) = None \<or> k = Failing))
      (if there then fail_with (WriteConflict (c_dst c)) else return ()) ?Q ?E ?C" for there
    using assms(2) Absent by (cases there) (auto simp: triple_def fail_with_def return_def dest: ok)
  with Absent show ?thesis
    unfolding verify_member_def by (simp add: triple_bind [OF occupied_rule [where J = J]])
qed

definition receipt_at :: "(staged_file \<times> str) option \<Rightarrow> path set" where
  "receipt_at r = (case r of None \<Rightarrow> {} | Some (s, old) \<Rightarrow> {sf_dst s})"

definition receipt_temp :: "(staged_file \<times> str) option \<Rightarrow> path set" where
  "receipt_temp r = (case r of None \<Rightarrow> {} | Some (s, old) \<Rightarrow> {sf_tmp s})"

definition set_live :: "contents \<Rightarrow> staged_set \<Rightarrow> bool" where
  "set_live f st \<longleftrightarrow> (\<forall>c \<in> set (ss_contents st). pre_ok f c) \<and>
     (case ss_receipt st of None \<Rightarrow> True | Some (s, old) \<Rightarrow> content f (sf_dst s) = old)"

lemma verify_set_rule:
  assumes J: "\<And>f c. J f \<Longrightarrow> c \<in> set (ss_contents st) \<Longrightarrow> pre_ok f c = pre_ok f0 c"
      "\<And>f s old. J f \<Longrightarrow> ss_receipt st = Some (s, old) \<Longrightarrow> content f (sf_dst s) = content f0 (sf_dst s)"
    and births: "\<And>c. k = Failing \<Longrightarrow> c \<in> set (ss_contents st) \<Longrightarrow> snd c = Absent \<Longrightarrow> pre_ok f0 c"
  shows "triple k J (verify_set st) (\<lambda>_ f. set_live f0 st \<and> J f)
    (\<lambda>e f. J f \<and> (k = Failing \<and> e = OtherError \<or> (\<exists>q. e = WriteConflict q) \<and> \<not> set_live f0 st))
    (\<lambda>f. \<not> quiet k \<and> J f)" (is "triple k J _ ?Q ?E ?C")
  unfolding verify_set_def
proof (rule triple_andthen)
  let ?I = "\<lambda>cs f. J f \<and> (\<forall>c \<in> set cs. pre_ok f0 c)"
  have "triple k (?I []) (each_do verify_member (ss_contents st)) (\<lambda>_. ?I (ss_contents st)) ?E ?C"
  proof (rule triple_each_do)
    fix ys c zs assume c: "ss_contents st = ys @ c # zs"
    then have "c \<in> set (ss_contents st)" by simp
    then show "triple k (?I ys) (verify_member c) (\<lambda>_. ?I (ys @ [c])) ?E ?C"
      by (intro triple_conseq [OF verify_member_rule [where J = "?I ys" and ok = "pre_ok f0 c"]])
        (use J(1) births in \<open>auto simp: set_live_def\<close>)
  qed
  then show "triple k J (each_do verify_member (ss_contents st)) (\<lambda>_. ?I (ss_contents st)) ?E ?C" by simp
  have "triple k (?I (ss_contents st)) (verify_receipt (sf_dst s) old) ?Q ?E ?C"
    if "ss_receipt st = Some (s, old)" for s old
    by (rule triple_conseq [OF verify_receipt_rule [where J = "?I (ss_contents st)"]])
      (use that J(2) [OF _ that] in \<open>auto simp: set_live_def\<close>)
  then show "triple k (?I (ss_contents st)) (case ss_receipt st of
      Some (s, old) \<Rightarrow> verify_receipt (sf_dst s) old | None \<Rightarrow> return ()) ?Q ?E ?C"
    by (auto simp: set_live_def intro!: triple_return split: option.splits)
qed

section \<open>The rollback\<close>

lemma mix_stable:
  assumes "T \<inter> dom g = {}" "S \<union> N \<subseteq> dom g" "t \<in> T" "mix T g f0 S N f"
  shows "mix T g f0 S N (f(t := x))"
  by (subst mix_temp) (use assms in auto)

lemma restore_file_rule:
  assumes T: "T \<inter> dom g = {}" "S \<subseteq> dom g" "temp_path_for stamp (c_dst c) \<in> T"
    and c: "c_dst c \<in> dom g" "pre_ok f0 c"
  shows "triple k (mix T g f0 S {}) (restore_file stamp c) (\<lambda>_. mix T g f0 (insert (c_dst c) S) {})
    (\<lambda>_. mix T g f0 S {}) (\<lambda>f. \<not> quiet k \<and> mix T g f0 S {} f)"
proof -
  have old: "mix T g f0 (insert (c_dst c) S) {} (f(c_dst c := f0 (c_dst c)))" if "mix T g f0 S {} f" for f
    using mix_old [OF that, of "c_dst c"] by simp
  have weak: "mix T g f0 (insert (c_dst c) S) {} f \<Longrightarrow> mix T g f0 S {} f" for f by (erule mix_weaken) auto
  have temp: "mix T g f0 S {} f \<Longrightarrow> mix T g f0 S {} (f(temp_path_for stamp (c_dst c) := x))" for f x
    using mix_stable [of T g S "{}"] T by auto
  show ?thesis
  proof (cases "snd c")
    case (Bytes b)
    then have b: "f0 (c_dst c) = Some b" using c(2) by (simp add: pre_ok_def)
    have "triple k (mix T g f0 S {}) (bind (stage_file stamp (c_dst c) b) commit_rename)
        (\<lambda>_. mix T g f0 (insert (c_dst c) S) {}) (\<lambda>_. mix T g f0 S {}) (\<lambda>f. \<not> quiet k \<and> mix T g f0 S {} f)"
      by (rule staged.writes_rule) (use temp weak old [unfolded b] in auto)
    with Bytes show ?thesis by (simp add: restore_file_def)
  next
    case Absent
    then have n: "f0 (c_dst c) = None" using c(2) by (simp add: pre_ok_def)
    have "triple k (mix T g f0 S {}) (remove_file (c_dst c))
        (\<lambda>_. mix T g f0 (insert (c_dst c) S) {}) (\<lambda>_. mix T g f0 S {}) (\<lambda>f. \<not> quiet k \<and> mix T g f0 S {} f)"
      by (rule remove_rule) (use old [unfolded n] in auto)
    with Absent show ?thesis by (simp add: restore_file_def)
  qed
qed

text \<open>What is not named as failed is restored.\<close>

lemma restore_each_rule:
  assumes "T \<inter> dom g = {}" "S \<subseteq> dom g" "\<And>j c. c \<in> set cs \<Longrightarrow> temp_path_for (stamps j) (c_dst c) \<in> T"
    and "\<And>c. c \<in> set cs \<Longrightarrow> c_dst c \<in> dom g \<and> pre_ok f0 c"
  shows "triple k (mix T g f0 S {}) (restore_each stamps j cs)
    (\<lambda>(ok, bad) f. mix T g f0 (S \<union> (c_dst ` set cs - fst ` set bad)) {} f \<and>
      set ok \<union> fst ` set bad = c_dst ` set cs)
    E (\<lambda>f. \<not> quiet k \<and> mix T g f0 S {} f)"
  using assms
proof (induction cs arbitrary: S j)
  case Nil
  show ?case by (simp add: triple_def return_def)
next
  case (Cons c cs)
  let ?Q = "\<lambda>(ok, bad) f. mix T g f0 (S \<union> (c_dst ` set (c # cs) - fst ` set bad)) {} f \<and>
      set ok \<union> fst ` set bad = c_dst ` set (c # cs)"
  let ?C = "\<lambda>f. \<not> quiet k \<and> mix T g f0 S {} f"
  let ?S = "\<lambda>r. case r of Inr _ \<Rightarrow> insert (c_dst c) S | Inl _ \<Rightarrow> S"
  have "triple k (mix T g f0 S {}) (attempted (restore_file (stamps j) c)) (\<lambda>r. mix T g f0 (?S r) {}) E ?C"
    by (rule triple_attempted, rule triple_conseq [OF restore_file_rule]) (use Cons.prems in auto)
  then show ?case
    unfolding restore_each.simps
  proof (rule triple_bind)
    fix r :: "io_error + unit"
    have S: "?S r \<subseteq> dom g" using Cons.prems by (auto split: sum.splits)
    have "triple k (mix T g f0 (?S r) {}) (restore_each stamps (Suc j) cs)
      (\<lambda>(ok, bad) f. mix T g f0 (?S r \<union> (c_dst ` set cs - fst ` set bad)) {} f \<and>
        set ok \<union> fst ` set bad = c_dst ` set cs) E (\<lambda>f. \<not> quiet k \<and> mix T g f0 (?S r) {} f)"
      by (rule Cons.IH [OF Cons.prems(1) S]) (use Cons.prems in auto)
    then have "triple k (mix T g f0 (?S r) {}) (restore_each stamps (Suc j) cs)
      (\<lambda>(ok, bad) f. mix T g f0 (?S r \<union> (c_dst ` set cs - fst ` set bad)) {} f \<and>
        set ok \<union> fst ` set bad = c_dst ` set cs) E ?C"
      by (rule triple_conseq) (auto elim!: mix_weaken split: sum.splits)
    then show "triple k (mix T g f0 (?S r) {}) (bind (restore_each stamps (Suc j) cs)
        (\<lambda>(restored, failed). return (case r of
           Inr _ \<Rightarrow> (c_dst c # restored, failed) | Inl e \<Rightarrow> (restored, (c_dst c, e) # failed)))) ?Q E ?C"
      by (rule triple_bind)
        (auto simp: triple_def return_def elim!: mix_weaken split: sum.splits prod.splits)
  qed
qed

end
