(* ===== verification/Set_Rules.thy ===== *)
theory Set_Rules
  imports Set_Rollback
begin

text \<open>
  The renames of a set commit one after the other, and the commit as a whole.
\<close>

section \<open>The renames\<close>

definition sound_set :: "path set \<Rightarrow> contents \<Rightarrow> (nat \<Rightarrow> str) \<Rightarrow> staged_set \<Rightarrow> bool" where
  "sound_set T g stamps st \<longleftrightarrow>
     T \<inter> dom g = {} \<and> distinct (map c_dst (ss_contents st)) \<and> distinct (map c_tmp (ss_contents st)) \<and>
     (\<forall>c \<in> set (ss_contents st). c_tmp c \<in> T \<and> (\<forall>j. temp_path_for (stamps j) (c_dst c) \<in> T)) \<and>
     receipt_temp (ss_receipt st) \<subseteq> T \<and>
     receipt_temp (ss_receipt st) \<inter> c_tmp ` set (ss_contents st) = {} \<and>
     receipt_at (ss_receipt st) \<inter> c_dst ` set (ss_contents st) = {} \<and>
     dom g = c_dst ` set (ss_contents st) \<union> receipt_at (ss_receipt st)"

text \<open>The error names what may not be as it was: the file whose rename failed and those not restored.\<close>

definition rolled :: "path set \<Rightarrow> contents \<Rightarrow> contents \<Rightarrow> io_error \<Rightarrow> contents \<Rightarrow> bool" where
  "rolled T g f0 e f \<longleftrightarrow>
     (\<exists>cause step dst ok bad. e = RolledBack cause step dst ok bad \<and>
        mix T g f0 (dom g - insert dst (fst ` set bad)) {} f)"

definition receipt_last :: "path set \<Rightarrow> contents \<Rightarrow> contents \<Rightarrow> path set \<Rightarrow> contents \<Rightarrow> bool" where
  "receipt_last T g f0 R f \<longleftrightarrow> mix T g f0 R {} f \<or> mix T g f0 {} (dom g) f"

definition broken_off :: "mode \<Rightarrow> path set \<Rightarrow> contents \<Rightarrow> contents \<Rightarrow> path set \<Rightarrow> contents \<Rightarrow> bool" where
  "broken_off k T g f0 R f \<longleftrightarrow>
     \<not> quiet k \<and> mix T g f0 {} {} f \<and> (k \<noteq> Failing \<longrightarrow> receipt_last T g f0 R f)"

definition receipt_staged :: "contents \<Rightarrow> staged_set \<Rightarrow> contents \<Rightarrow> bool" where
  "receipt_staged g st f \<longleftrightarrow>
     (case ss_receipt st of None \<Rightarrow> True | Some (s, old) \<Rightarrow> f (sf_tmp s) = g (sf_dst s))"

lemma sound_setD:
  assumes "sound_set T g stamps st"
  shows "T \<inter> dom g = {}" "\<And>c. c \<in> set (ss_contents st) \<Longrightarrow> c_dst c \<in> dom g \<and> c_tmp c \<in> T"
    "\<And>c j. c \<in> set (ss_contents st) \<Longrightarrow> temp_path_for (stamps j) (c_dst c) \<in> T"
    "\<And>s old. ss_receipt st = Some (s, old) \<Longrightarrow> sf_dst s \<in> dom g \<and> sf_tmp s \<in> T"
proof -
  note S = assms [unfolded sound_set_def]
  have d: "dom g = c_dst ` set (ss_contents st) \<union> receipt_at (ss_receipt st)" using S by (elim conjE)
  have t: "\<forall>c \<in> set (ss_contents st). c_tmp c \<in> T \<and> (\<forall>j. temp_path_for (stamps j) (c_dst c) \<in> T)"
    using S by (elim conjE)
  have r: "receipt_temp (ss_receipt st) \<subseteq> T" using S by (elim conjE)
  show "T \<inter> dom g = {}" using S by (elim conjE)
  show "c_dst c \<in> dom g \<and> c_tmp c \<in> T" "temp_path_for (stamps j) (c_dst c) \<in> T"
    if "c \<in> set (ss_contents st)" for c j using that t unfolding d by auto
  show "sf_dst s \<in> dom g \<and> sf_tmp s \<in> T" if "ss_receipt st = Some (s, old)" for s old
    using that r unfolding d by (simp add: receipt_at_def receipt_temp_def)
qed

lemma sound_set_parts:
  assumes "sound_set T g stamps st"
  shows "distinct (map c_tmp (ss_contents st))"
    and "receipt_temp (ss_receipt st) \<inter> c_tmp ` set (ss_contents st) = {}"
    and "receipt_at (ss_receipt st) \<inter> c_dst ` set (ss_contents st) = {}"
    and "dom g = c_dst ` set (ss_contents st) \<union> receipt_at (ss_receipt st)"
    and "receipt_temp (ss_receipt st) \<subseteq> T"
proof -
  note S = assms [unfolded sound_set_def]
  show "distinct (map c_tmp (ss_contents st))" using S by (elim conjE)
  show "receipt_temp (ss_receipt st) \<inter> c_tmp ` set (ss_contents st) = {}" using S by (elim conjE)
  show "receipt_at (ss_receipt st) \<inter> c_dst ` set (ss_contents st) = {}" using S by (elim conjE)
  show "dom g = c_dst ` set (ss_contents st) \<union> receipt_at (ss_receipt st)" using S by (elim conjE)
  show "receipt_temp (ss_receipt st) \<subseteq> T" using S by (elim conjE)
qed

lemma discard_set_rule:
  assumes "sound_set T g stamps st" "\<And>f x t. t \<in> T \<Longrightarrow> J f \<Longrightarrow> J (f(t := x))" "\<And>f. \<not> quiet k \<Longrightarrow> J f \<Longrightarrow> C f"
  shows "triple k J (discard_set st) (\<lambda>_. J) E C"
proof -
  have 1: "triple k J (discard_staged (ss_contents st)) (\<lambda>_. J) E C"
    by (rule discard_staged_rule) (use assms in \<open>auto simp: sound_set_def\<close>)
  have "triple k J (ignored (remove_file t)) (\<lambda>_. J) E C" if "t \<in> T" for t
    by (rule drop_rule) (use assms that in auto)
  with assms(1) have "triple k J (case ss_receipt st of
      Some (s, _) \<Rightarrow> ignored (remove_file (sf_tmp s)) | None \<Rightarrow> return ()) (\<lambda>_. J) E C"
    by (auto simp: sound_set_def receipt_temp_def intro: triple_return split: option.splits)
  with 1 show ?thesis unfolding discard_set_def by (rule triple_andthen)
qed

lemma roll_back_rule:
  assumes st: "sound_set T g stamps st" and live: "set_live f0 st" and k: "k = Failing"
  shows "triple k (mix T g f0 (dom g - insert dst (c_dst ` set (take i (ss_contents st)))) {})
    (roll_back stamps st i cause step dst) Q (rolled T g f0) (broken_off k T g f0 R)"
  unfolding roll_back_def
proof (rule triple_bind)
  let ?cs = "rev (take i (ss_contents st))"
  let ?S = "dom g - insert dst (c_dst ` set (take i (ss_contents st)))"
  let ?R = "\<lambda>(ok, bad) f. mix T g f0 (dom g - insert dst (fst ` set bad)) {} f"
  have cs: "c \<in> set ?cs \<Longrightarrow> c \<in> set (ss_contents st)" for c using set_take_subset by fastforce
  have off: "broken_off k T g f0 R f" if "mix T g f0 S {} f" for S f
    using mix_weaken [OF that] k by (simp add: broken_off_def)
  show "triple k (mix T g f0 ?S {}) (restore_renamed stamps st i) ?R (rolled T g f0) (broken_off k T g f0 R)"
    unfolding restore_renamed_def
    by (rule triple_conseq [OF restore_each_rule [where T = T and g = g and S = ?S and ?f0.0 = f0]])
      (use sound_setD [OF st] live cs off in \<open>auto simp: set_live_def elim!: mix_weaken\<close>)
  fix r :: restore_outcome
  obtain ok bad where r: "r = (ok, bad)" by (cases r)
  have stable: "mix T g f0 (dom g - insert dst (fst ` set bad)) {} (f(t := x))"
    if "t \<in> T" "mix T g f0 (dom g - insert dst (fst ` set bad)) {} f" for f t x
    by (rule mix_stable [OF sound_setD(1) [OF st] _ that]) auto
  have "triple k (mix T g f0 (dom g - insert dst (fst ` set bad)) {}) (discard_set st)
      (\<lambda>_. mix T g f0 (dom g - insert dst (fst ` set bad)) {}) (rolled T g f0) (broken_off k T g f0 R)"
    by (rule discard_set_rule [OF st]) (use stable off in auto)
  then have "triple k (mix T g f0 (dom g - insert dst (fst ` set bad)) {})
      (andthen (discard_set st) (fail_with (RolledBack cause step dst ok bad))) Q (rolled T g f0) (broken_off k T g f0 R)"
    by (rule triple_andthen) (rule triple_fail, auto simp: rolled_def)
  then show "triple k (?R r) (case r of (restored, failed) \<Rightarrow> andthen (discard_set st)
      (fail_with (RolledBack cause step dst restored failed))) Q (rolled T g f0) (broken_off k T g f0 R)"
    by (simp add: r)
qed

lemma rename_one_rule:
  assumes st: "sound_set T g stamps st"
    and D: "D \<subseteq> dom g" "sf_dst s \<in> dom g" "sf_tmp s \<in> T"
    and J: "\<And>f x. J f \<Longrightarrow> J (f(sf_tmp s := x))" "\<And>f x. J f \<Longrightarrow> J (f(sf_dst s := x))"
    and stop: "\<And>f. \<not> quiet k \<Longrightarrow> mix T g f0 (dom g - D) D f \<Longrightarrow> broken_off k T g f0 R f"
      "\<And>f. \<not> quiet k \<Longrightarrow> mix T g f0 (dom g - insert (sf_dst s) D) (insert (sf_dst s) D) f \<Longrightarrow> broken_off k T g f0 R f"
  shows "triple k (\<lambda>f. mix T g f0 (dom g - D) D f \<and> J f \<and> f (sf_tmp s) = g (sf_dst s)) (commit_rename s)
    (\<lambda>_ f. mix T g f0 (dom g - insert (sf_dst s) D) (insert (sf_dst s) D) f \<and> J f)
    (\<lambda>e f. k = Failing \<and> mix T g f0 (dom g - insert (sf_dst s) D) {} f) (broken_off k T g f0 R)"
proof (rule commit_rename_rule)
  obtain b where b: "g (sf_dst s) = Some b" using D by blast
  then show "\<exists>b. f (sf_tmp s) = Some b"
    if "mix T g f0 (dom g - D) D f \<and> J f \<and> f (sf_tmp s) = g (sf_dst s)" for f using that by simp
  fix f c
  assume f: "mix T g f0 (dom g - D) D f \<and> J f \<and> f (sf_tmp s) = g (sf_dst s)" "f (sf_tmp s) = Some c"
  have "mix T g f0 (dom g - D) D (f(sf_tmp s := None))"
    by (rule mix_stable [OF sound_setD(1) [OF st]]) (use f D in auto)
  then have "mix T g f0 (dom g - D - {sf_dst s}) (insert (sf_dst s) D) ((f(sf_tmp s := None))(sf_dst s \<mapsto> c))"
    by (rule mix_new) (use f in simp)
  moreover have "dom g - D - {sf_dst s} = dom g - insert (sf_dst s) D" by blast
  ultimately show "mix T g f0 (dom g - insert (sf_dst s) D) (insert (sf_dst s) D)
      ((f(sf_tmp s := None))(sf_dst s \<mapsto> c)) \<and> J ((f(sf_tmp s := None))(sf_dst s \<mapsto> c))"
    using J f by simp
qed (use stop in \<open>auto elim!: mix_weaken\<close>)

lemma rename_members_rule:
  assumes st: "sound_set T g stamps st" and live: "set_live f0 st" and cs: "ss_contents st = xs @ cs"
  defines "R \<equiv> receipt_at (ss_receipt st)"
  shows "triple k (\<lambda>f. mix T g f0 (dom g - c_dst ` set xs) (c_dst ` set xs) f \<and>
      (\<forall>c \<in> set cs. f (c_tmp c) = g (c_dst c)) \<and> receipt_staged g st f)
    (rename_members stamps st (length xs) cs)
    (\<lambda>_ f. mix T g f0 (dom g - c_dst ` set (ss_contents st)) (c_dst ` set (ss_contents st)) f \<and> receipt_staged g st f)
    (\<lambda>e f. k = Failing \<and> rolled T g f0 e f) (broken_off k T g f0 R)"
  using cs
proof (induction cs arbitrary: xs)
  case Nil
  then show ?case by (simp add: triple_def return_def)
next
  case (Cons c cs)
  let ?D = "c_dst ` set xs"
  let ?J = "\<lambda>f. (\<forall>c \<in> set cs. f (c_tmp c) = g (c_dst c)) \<and> receipt_staged g st f"
  let ?E = "\<lambda>e f. k = Failing \<and> rolled T g f0 e f"
  let ?C = "broken_off k T g f0 R"
  let ?A = "\<lambda>r f. case r of
      Inl e \<Rightarrow> k = Failing \<and> mix T g f0 (dom g - insert (c_dst c) ?D) {} f
    | Inr _ \<Rightarrow> mix T g f0 (dom g - insert (c_dst c) ?D) (insert (c_dst c) ?D) f \<and> ?J f"
  note at = sound_setD [OF st]
  have mem: "c \<in> set (ss_contents st)" "c' \<in> set cs \<Longrightarrow> c' \<in> set (ss_contents st)" for c'
    using Cons.prems by simp_all
  note parts = sound_set_parts [OF st]
  have "c_tmp c \<notin> c_tmp ` set cs" using parts(1) Cons.prems by simp
  then have temps: "\<forall>c' \<in> set cs. c_tmp c' \<noteq> c_tmp c" by (metis imageI)
  have rtemp: "c_tmp c \<notin> receipt_temp (ss_receipt st)" using parts(2) mem(1) by (metis disjoint_iff imageI)
  have dst: "c_tmp c' \<noteq> c_dst c" if "c' \<in> set (ss_contents st)" for c' using at(1,2) mem(1) that by (metis disjoint_iff)
  have J1: "?J (f(c_tmp c := x))" if "?J f" for f x
    using that temps rtemp by (auto simp: receipt_staged_def receipt_temp_def split: option.splits)
  have J2: "?J (f(c_dst c := x))" if "?J f" for f x
  proof -
    have "c_dst c \<notin> receipt_temp (ss_receipt st)" using parts(5) at(1,2) mem(1) by (metis disjoint_iff subsetD)
    with that dst mem(2) show ?thesis by (auto simp: receipt_staged_def receipt_temp_def split: option.splits)
  qed
  have "R \<inter> c_dst ` set (ss_contents st) = {}" using parts(3) by (simp add: R_def)
  moreover have "R \<subseteq> dom g" using at(4) by (auto simp: R_def receipt_at_def split: option.splits)
  ultimately have R: "R \<subseteq> dom g - insert (c_dst c) ?D" using mem(1) Cons.prems by auto
  have off: "?C f" if "\<not> quiet k" "mix T g f0 S N f" "R \<subseteq> S" for S N f
    using that by (auto simp: broken_off_def receipt_last_def elim: mix_weaken)
  have off1: "?C f" if "\<not> quiet k" "mix T g f0 (dom g - ?D) ?D f" for f
    using R by (intro off [OF that]) blast
  have off2: "?C f" if "\<not> quiet k" "mix T g f0 (dom g - insert (c_dst c) ?D) (insert (c_dst c) ?D) f" for f
    using R by (intro off [OF that])
  have dom: "?D \<subseteq> dom g" "c_dst c \<in> dom g" "c_tmp c \<in> T" using at(2) mem(1) Cons.prems by auto
  have one: "triple k (\<lambda>f. mix T g f0 (dom g - ?D) ?D f \<and> (\<forall>c \<in> set (c # cs). f (c_tmp c) = g (c_dst c)) \<and> receipt_staged g st f)
      (attempted (commit_rename (fst c))) ?A ?E ?C"
    by (rule triple_attempted, rule triple_conseq [OF rename_one_rule [where T = T and g = g and D = ?D and J = ?J and R = R, OF st]])
      (use dom J1 J2 off1 off2 in auto)
  have onward: "triple k (?A (Inr u)) (rename_members stamps st (Suc (length xs)) cs)
    (\<lambda>_ f. mix T g f0 (dom g - c_dst ` set (ss_contents st)) (c_dst ` set (ss_contents st)) f \<and> receipt_staged g st f) ?E ?C"
    for u :: unit
    using Cons.IH [of "xs @ [c]"] Cons.prems by simp
  have undone: "triple k (?A (Inl e)) (roll_back stamps st (length xs) e ''content rename'' (c_dst c))
    (\<lambda>_ f. mix T g f0 (dom g - c_dst ` set (ss_contents st)) (c_dst ` set (ss_contents st)) f \<and> receipt_staged g st f) ?E ?C" for e
    unfolding sum.case
    by (rule triple_fact, rule triple_conseq [OF roll_back_rule [OF st live, where i = "length xs" and dst = "c_dst c"]])
      (use Cons.prems in auto)
  show ?case
    unfolding rename_members.simps
    by (rule triple_bind [OF one]) (use onward undone in \<open>auto split: sum.splits\<close>)
qed

end
