(* ===== verification/Set_Apply.thy ===== *)
theory Set_Apply
  imports Set_Rules
begin

text \<open>
  The commit of a staged set and the whole of \<open>apply_set\<close>, from the rules of their steps.
\<close>

section \<open>The commit\<close>

lemma rename_receipt_step_rule:
  assumes st: "sound_set T g stamps st" and live: "set_live f0 st"
  defines "D \<equiv> c_dst ` set (ss_contents st)" and "R \<equiv> receipt_at (ss_receipt st)"
  shows "triple k (\<lambda>f. mix T g f0 (dom g - D) D f \<and> receipt_staged g st f)
    (case ss_receipt st of None \<Rightarrow> return ()
     | Some (s, _) \<Rightarrow> bind (attempted (commit_rename s))
         (\<lambda>r. case r of
            Inl e \<Rightarrow> roll_back stamps st (length (ss_contents st)) e ''receipt rename'' (sf_dst s)
          | Inr _ \<Rightarrow> return ()))
    (\<lambda>_. mix T g f0 {} (dom g)) (\<lambda>e f. k = Failing \<and> rolled T g f0 e f) (broken_off k T g f0 R)"
    (is "triple k ?P _ ?Q ?E ?C")
proof -
  note at = sound_setD [OF st] and parts = sound_set_parts [OF st]
  show ?thesis
  proof (cases "ss_receipt st")
    case None
    then have "dom g = D" using parts(4) by (simp add: D_def receipt_at_def)
    with None show ?thesis by (auto simp: triple_def return_def)
  next
    case (Some r)
    obtain s old where r: "r = (s, old)" by (cases r)
    have s: "sf_dst s \<in> dom g" "sf_tmp s \<in> T" using at(4) Some r by auto
    have dom: "dom g = insert (sf_dst s) D" "sf_dst s \<notin> D" "R = {sf_dst s}"
      using parts(3,4) Some r by (auto simp: D_def R_def receipt_at_def)
    have off1: "?C f" if "\<not> quiet k" "mix T g f0 (dom g - D) D f" for f
      using that dom(3) dom(1,2) by (auto simp: broken_off_def receipt_last_def elim: mix_weaken)
    have off2: "?C f" if "\<not> quiet k" "mix T g f0 (dom g - insert (sf_dst s) D) (insert (sf_dst s) D) f" for f
      using that dom(1) by (auto simp: broken_off_def receipt_last_def elim: mix_weaken)
    let ?A = "\<lambda>r f. case r of
        Inl e \<Rightarrow> k = Failing \<and> mix T g f0 (dom g - insert (sf_dst s) D) {} f
      | Inr _ \<Rightarrow> mix T g f0 {} (dom g) f"
    have one: "triple k ?P (attempted (commit_rename s)) ?A ?E ?C"
      by (rule triple_attempted,
          rule triple_conseq [OF rename_one_rule [where T = T and g = g and D = D and J = "\<lambda>_. True" and R = R, OF st]])
        (use s dom off1 off2 Some r in \<open>auto simp: receipt_staged_def elim: mix_weaken\<close>)
    have "triple k (?A (Inl e)) (roll_back stamps st (length (ss_contents st)) e ''receipt rename'' (sf_dst s)) ?Q ?E ?C" for e
      unfolding sum.case
      by (rule triple_fact, rule triple_conseq [OF roll_back_rule [OF st live,
            where i = "length (ss_contents st)" and dst = "sf_dst s"]]) (auto simp: D_def)
    then have "triple k ?P (bind (attempted (commit_rename s))
         (\<lambda>r. case r of
            Inl e \<Rightarrow> roll_back stamps st (length (ss_contents st)) e ''receipt rename'' (sf_dst s)
          | Inr _ \<Rightarrow> return ())) ?Q ?E ?C"
      by (intro triple_bind [OF one]) (auto split: sum.splits intro: triple_return)
    then show ?thesis by (simp only: Some r option.case prod.case)
  qed
qed

text \<open>
  An error without a failing call is a conflict, before any rename; a failing call before the
  renames changes nothing either; one during them is rolled back.
\<close>

definition refused_set :: "mode \<Rightarrow> path set \<Rightarrow> contents \<Rightarrow> contents \<Rightarrow> bool \<Rightarrow> io_error \<Rightarrow> contents \<Rightarrow> bool" where
  "refused_set k T g f0 fits e f \<longleftrightarrow>
     (mix T g f0 (dom g) {} f \<and>
        (k = Failing \<and> e = OtherError \<or> (e = InvalidInput \<or> (\<exists>q. e = WriteConflict q)) \<and> \<not> fits)) \<or>
     k = Failing \<and> rolled T g f0 e f"

lemma commit_set_rule:
  assumes st: "sound_set T g stamps st"
    and births: "\<And>c. k = Failing \<Longrightarrow> c \<in> set (ss_contents st) \<Longrightarrow> snd c = Absent \<Longrightarrow> pre_ok f0 c"
  defines "R \<equiv> receipt_at (ss_receipt st)"
  shows "triple k (\<lambda>f. mix T g f0 (dom g) {} f \<and> (\<forall>c \<in> set (ss_contents st). f (c_tmp c) = g (c_dst c)) \<and>
      receipt_staged g st f)
    (commit_set stamps st) (\<lambda>_ f. set_live f0 st \<and> mix T g f0 {} (dom g) f)
    (refused_set k T g f0 (set_live f0 st)) (broken_off k T g f0 R)" (is "triple k ?P _ ?Q ?E ?C")
  unfolding commit_set_def
proof (rule triple_bind)
  note at = sound_setD [OF st]
  let ?A = "\<lambda>r f. case r of
      Inl e \<Rightarrow> (k = Failing \<and> e = OtherError \<or> (\<exists>q. e = WriteConflict q) \<and> \<not> set_live f0 st) \<and> mix T g f0 (dom g) {} f
    | Inr _ \<Rightarrow> set_live f0 st \<and> ?P f"
  have R: "R \<subseteq> dom g" using at(4) by (auto simp: R_def receipt_at_def split: option.splits)
  have off: "?C f" if "\<not> quiet k" "mix T g f0 (dom g) {} f" for f
    using that mix_weaken [of T g f0 "dom g" "{}" f R "{}"] mix_weaken [of T g f0 "dom g" "{}" f "{}" "{}"] R
    by (simp add: broken_off_def receipt_last_def)
  have same: "f q = f0 q" if "mix T g f0 (dom g) {} f" "q \<in> dom g" for f q using that by (simp add: mix_def)
  have "triple k ?P (verify_set st) (\<lambda>_ f. set_live f0 st \<and> ?P f)
    (\<lambda>e f. ?P f \<and> (k = Failing \<and> e = OtherError \<or> (\<exists>q. e = WriteConflict q) \<and> \<not> set_live f0 st))
    (\<lambda>f. \<not> quiet k \<and> ?P f)"
  proof (rule verify_set_rule)
    show "pre_ok f c = pre_ok f0 c" if "?P f" "c \<in> set (ss_contents st)" for f c
      using same [of f "c_dst c"] at(2) that by (auto simp: pre_ok_def split: staged_pre_image.splits)
    show "content f (sf_dst s) = content f0 (sf_dst s)" if "?P f" "ss_receipt st = Some (s, old)" for f s old
      using same [of f "sf_dst s"] at(4) that by (auto simp: content_def)
  qed (use births in auto)
  then have "triple k ?P (verify_set st) (\<lambda>a. ?A (Inr a)) (\<lambda>e. ?A (Inl e)) ?C"
    by (rule triple_conseq) (use off in auto)
  then show "triple k ?P (attempted (verify_set st)) ?A ?E ?C" by (rule triple_attempted)
  fix r :: "io_error + unit"
  show "triple k (?A r) (case r of
      Inl e \<Rightarrow> andthen (discard_set st) (fail_with e)
    | Inr _ \<Rightarrow> andthen (rename_members stamps st 0 (ss_contents st))
        (case ss_receipt st of None \<Rightarrow> return ()
         | Some (s, _) \<Rightarrow> bind (attempted (commit_rename s))
             (\<lambda>r. case r of
                Inl e \<Rightarrow> roll_back stamps st (length (ss_contents st)) e ''receipt rename'' (sf_dst s)
              | Inr _ \<Rightarrow> return ()))) ?Q ?E ?C"
  proof (cases r)
    case (Inl e)
    have stable: "mix T g f0 (dom g) {} (f(t := x))" if "t \<in> T" "mix T g f0 (dom g) {} f" for f t x
      by (rule mix_stable [OF at(1) _ that]) simp
    have "triple k (?A (Inl e)) (andthen (discard_set st) (fail_with e)) ?Q ?E ?C"
      by (rule triple_andthen [OF discard_set_rule [OF st, where J = "?A (Inl e)"]])
        (use stable off in \<open>auto simp: refused_set_def intro!: triple_fail\<close>)
    with Inl show ?thesis by simp
  next
    case (Inr u)
    have finish: "triple k ?P (andthen (rename_members stamps st 0 (ss_contents st))
        (case ss_receipt st of None \<Rightarrow> return ()
         | Some (s, _) \<Rightarrow> bind (attempted (commit_rename s))
             (\<lambda>r. case r of
                Inl e \<Rightarrow> roll_back stamps st (length (ss_contents st)) e ''receipt rename'' (sf_dst s)
              | Inr _ \<Rightarrow> return ())))
        (\<lambda>_. mix T g f0 {} (dom g)) (\<lambda>e f. k = Failing \<and> rolled T g f0 e f) ?C" if live: "set_live f0 st"
      using triple_andthen [OF rename_members_rule [OF st live, of "[]"] rename_receipt_step_rule [OF st live]]
      by (simp add: R_def)
    have "triple k (\<lambda>f. set_live f0 st \<and> ?P f) (andthen (rename_members stamps st 0 (ss_contents st))
        (case ss_receipt st of None \<Rightarrow> return ()
         | Some (s, _) \<Rightarrow> bind (attempted (commit_rename s))
             (\<lambda>r. case r of
                Inl e \<Rightarrow> roll_back stamps st (length (ss_contents st)) e ''receipt rename'' (sf_dst s)
              | Inr _ \<Rightarrow> return ()))) ?Q ?E ?C"
      by (rule triple_fact, rule triple_conseq [OF finish]) (auto simp: refused_set_def)
    with Inr show ?thesis by simp
  qed
qed

end
