(* ===== verification/Set_Whole.thy ===== *)
theory Set_Whole
  imports Set_Apply
begin

text \<open>
  \<open>apply_set\<close> from the files as they are: what it would land, when the set fits, and the rule.
\<close>

section \<open>What lands where\<close>

definition set_new :: "path \<Rightarrow> set_member list \<Rightarrow> (path \<times> receipt_append) option \<Rightarrow> contents \<Rightarrow> contents" where
  "set_new wd ms rc f0 q =
     (case find (\<lambda>m. wd @ sm_path m = q) ms of
        Some m \<Rightarrow> Some (member_new m)
      | None \<Rightarrow> (case rc of
          Some (rp, e) \<Rightarrow> if q = wd @ rp then Some (content f0 q @ rcpt_text e) else None
        | None \<Rightarrow> None))"

definition set_paths :: "path \<Rightarrow> set_member list \<Rightarrow> (path \<times> receipt_append) option \<Rightarrow> path list" where
  "set_paths wd ms rc = map (\<lambda>m. wd @ sm_path m) ms @ (case rc of Some (rp, e) \<Rightarrow> [wd @ rp] | None \<Rightarrow> [])"

definition set_temps :: "(nat \<Rightarrow> str) \<Rightarrow> path \<Rightarrow> set_member list \<Rightarrow> (path \<times> receipt_append) option \<Rightarrow> path set" where
  "set_temps stamps wd ms rc = {temp_path_for (stamps i) p | i p. p \<in> set (set_paths wd ms rc)}"

definition receipt_fits :: "path \<Rightarrow> (path \<times> receipt_append) option \<Rightarrow> contents \<Rightarrow> bool" where
  "receipt_fits wd rc f0 = (case rc of
     Some (rp, e) \<Rightarrow> let n = length (content f0 (wd @ rp)) in rcpt_span e = Span n n
   | None \<Rightarrow> True)"

definition member_live :: "path \<Rightarrow> contents \<Rightarrow> set_member \<Rightarrow> bool" where
  "member_live wd f0 m \<longleftrightarrow> (case sm_payload m of
     EditFile b expected cand \<Rightarrow> f0 (wd @ sm_path m) = Some expected
   | BirthFile cand \<Rightarrow> f0 (wd @ sm_path m) = None)"

definition set_fits :: "path \<Rightarrow> set_member list \<Rightarrow> (path \<times> receipt_append) option \<Rightarrow> contents \<Rightarrow> bool" where
  "set_fits wd ms rc f0 \<longleftrightarrow> set_seam ms rc \<and> receipt_fits wd rc f0 \<and>
     (\<forall>m \<in> set ms. member_sealed m \<and> member_live wd f0 m)"

definition births_absent :: "path \<Rightarrow> set_member list \<Rightarrow> contents \<Rightarrow> bool" where
  "births_absent wd ms f0 \<longleftrightarrow>
     (\<forall>m \<in> set ms. case sm_payload m of BirthFile cand \<Rightarrow> f0 (wd @ sm_path m) = None | _ \<Rightarrow> True)"

lemma set_new_member:
  assumes "set_seam ms rc" "m \<in> set ms"
  shows "set_new wd ms rc f0 (wd @ sm_path m) = Some (member_new m)"
proof -
  have d: "distinct (map sm_path ms)" using assms(1) by (simp add: set_seam_def)
  have "find (\<lambda>m'. wd @ sm_path m' = wd @ sm_path m) ms = Some m"
    using d assms(2) by (induction ms) (auto simp: image_iff)
  then show ?thesis by (simp add: set_new_def)
qed

lemma set_new_receipt:
  assumes "set_seam ms (Some (rp, e))"
  shows "set_new wd ms (Some (rp, e)) f0 (wd @ rp) = Some (content f0 (wd @ rp) @ rcpt_text e)"
proof -
  have "rp \<notin> sm_path ` set ms" using assms by (auto simp: set_seam_def)
  then have "find (\<lambda>m. wd @ sm_path m = wd @ rp) ms = None" by (auto simp: find_None_iff)
  then show ?thesis by (simp add: set_new_def)
qed

lemma dom_set_new: "dom (set_new wd ms rc f0) = set (set_paths wd ms rc)"
proof (rule set_eqI)
  fix q
  have "find (\<lambda>m. wd @ sm_path m = q) ms = None \<longleftrightarrow> q \<notin> (\<lambda>m. wd @ sm_path m) ` set ms"
    by (auto simp: find_None_iff)
  then show "q \<in> dom (set_new wd ms rc f0) \<longleftrightarrow> q \<in> set (set_paths wd ms rc)"
    by (cases "find (\<lambda>m. wd @ sm_path m = q) ms") (auto simp: set_new_def set_paths_def dom_def split: option.splits)
qed

lemma set_temps_away:
  assumes "\<forall>p \<in> set (set_paths wd ms rc). plain_name p"
  shows "set_temps stamps wd ms rc \<inter> dom (set_new wd ms rc f0) = {}"
  using assms temp_not_plain unfolding dom_set_new set_temps_def by blast

section \<open>Staging the set\<close>

definition staged_plan :: "(nat \<Rightarrow> str) \<Rightarrow> path \<Rightarrow> set_member list \<Rightarrow> (path \<times> receipt_append) option \<Rightarrow> contents \<Rightarrow> staged_set" where
  "staged_plan stamps wd ms rc f0 =
     \<lparr>ss_contents = planned stamps wd 0 ms,
      ss_receipt = map_option (\<lambda>(rp, e).
        (\<lparr>sf_tmp = temp_path_for (stamps (length ms)) (wd @ rp), sf_dst = wd @ rp\<rparr>, content f0 (wd @ rp))) rc\<rparr>"

lemma stage_set_rule:
  fixes wd ms rc f0 pid clock seq
  defines "stamps \<equiv> stamps_of pid clock seq" and "g \<equiv> set_new wd ms rc f0"
  defines "T \<equiv> set_temps stamps wd ms rc"
  defines "M \<equiv> mix T g f0 (dom g) {}" and "st \<equiv> staged_plan stamps wd ms rc f0"
  assumes seq: "inj seq" and plain: "\<forall>p \<in> set (set_paths wd ms rc). plain_name p" and seam: "set_seam ms rc"
  shows "triple k (\<lambda>f. f = f0) (stage_set stamps wd ms rc)
    (\<lambda>s f. s = st \<and> M f \<and> (\<forall>c \<in> set (ss_contents st). f (c_tmp c) = g (c_dst c)) \<and> receipt_staged g st f \<and>
       receipt_fits wd rc f0 \<and> (\<forall>m \<in> set ms. member_sealed m))
    (\<lambda>e f. M f \<and> (k = Failing \<and> e = OtherError \<or> (e = InvalidInput \<or> (\<exists>q. e = WriteConflict q)) \<and> \<not> set_fits wd ms rc f0))
    (\<lambda>f. M f \<and> (\<not> quiet k \<or> \<not> set_fits wd ms rc f0))" (is "triple k _ _ ?Q ?E ?C")
proof -
  have away: "T \<inter> dom g = {}" unfolding T_def g_def by (rule set_temps_away [OF plain])
  have M: "M (f(t := x))" if "t \<in> T" "M f" for f t x using mix_stable [OF away _ that(1)] that(2) by (simp add: M_def)
  have M0: "M f0" using away unfolding M_def by (intro mix_start) auto
  have temp: "temp_path_for (stamps i) (wd @ sm_path m) \<in> T" if "m \<in> set ms" for i m
    using that by (auto simp: T_def set_temps_def set_paths_def)
  have apart: "temp_path_for (stamps i) p = temp_path_for (stamps j) q \<Longrightarrow> i = j" for i j p q
    using temps_distinct [OF seq] unfolding stamps_def .
  let ?cs = "planned stamps wd 0 ms"
  let ?K = "\<lambda>f. M f \<and> (\<forall>c \<in> set ?cs. f (c_tmp c) = g (c_dst c))"
  have cs: "c_tmp c \<in> T" "c_tmp c \<noteq> temp_path_for (stamps (length ms)) q" if c: "c \<in> set ?cs" for c q
    using set_planned [OF c] temp apart by (fastforce simp: planned_member_def)+
  have members: "triple k (\<lambda>f. f = f0) (stage_members stamps wd [] ms)
      (\<lambda>x f. (x = ?cs \<and> (\<forall>m \<in> set ms. member_sealed m)) \<and> ?K f) ?E ?C"
    by (rule triple_conseq [OF stage_members_rule [where xs = "[]" and J = M and T = T and g = g and stamps = stamps and wd = wd,
          unfolded planned.simps append_Nil]])
      (use M M0 temp apart set_new_member [OF seam] in \<open>auto simp: g_def set_fits_def\<close>)
  have finish: "triple k ?K
      (case rc of None \<Rightarrow> return \<lparr>ss_contents = ?cs, ss_receipt = None\<rparr>
       | Some (rp, e) \<Rightarrow> bind (or_discard ?cs (stage_receipt (stamps (length ms)) (wd @ rp) e))
           (\<lambda>r. return \<lparr>ss_contents = ?cs, ss_receipt = Some r\<rparr>)) ?Q ?E ?C"
    if sealed: "\<forall>m \<in> set ms. member_sealed m"
  proof (cases rc)
    case None
    then show ?thesis
      using sealed by (simp add: st_def staged_plan_def receipt_fits_def receipt_staged_def triple_def return_def)
  next
    case (Some re)
    obtain rp e where re: "re = (rp, e)" by (cases re)
    let ?t = "temp_path_for (stamps (length ms)) (wd @ rp)"
    have t: "?t \<in> T" using Some re by (auto simp: T_def set_temps_def set_paths_def)
    have gr: "g (wd @ rp) = Some (content f0 (wd @ rp) @ rcpt_text e)"
      using set_new_receipt seam Some re by (simp add: g_def)
    have old: "content f (wd @ rp) = content f0 (wd @ rp)" if "M f" for f
      using that domI [of g, OF gr] by (simp add: M_def mix_def content_def)
    have K: "?K (f(?t := x))" if "?K f" for f x using that M [OF t] cs(2) by auto
    let ?R = "\<lambda>r f. (r = (\<lparr>sf_tmp = ?t, sf_dst = wd @ rp\<rparr>, content f0 (wd @ rp)) \<and> receipt_fits wd rc f0) \<and>
      ?K f \<and> f ?t = g (wd @ rp)"
    have "triple k ?K (stage_receipt (stamps (length ms)) (wd @ rp) e) ?R ?E ?C"
      by (rule triple_conseq [OF stage_receipt_rule [where J = ?K and old = "content f0 (wd @ rp)"]])
        (use K old gr Some re in \<open>auto simp: receipt_fits_def set_fits_def Let_def\<close>)
    then have "triple k ?K (or_discard ?cs (stage_receipt (stamps (length ms)) (wd @ rp) e)) ?R ?E ?C"
      by (rule or_discard_rule) (use M cs in auto)
    then have "triple k ?K (bind (or_discard ?cs (stage_receipt (stamps (length ms)) (wd @ rp) e))
         (\<lambda>r. return \<lparr>ss_contents = ?cs, ss_receipt = Some r\<rparr>)) ?Q ?E ?C"
      by (rule triple_bind)
        (use Some re sealed in \<open>auto simp: st_def staged_plan_def receipt_staged_def triple_def return_def\<close>)
    with Some re show ?thesis by simp
  qed
  let ?rest = "\<lambda>x. case rc of None \<Rightarrow> return \<lparr>ss_contents = x, ss_receipt = None\<rparr>
       | Some (rp, e) \<Rightarrow> bind (or_discard x (stage_receipt (stamps (length ms)) (wd @ rp) e))
           (\<lambda>r. return \<lparr>ss_contents = x, ss_receipt = Some r\<rparr>)"
  have eq: "stage_set stamps wd ms rc = bind (stage_members stamps wd [] ms) ?rest"
    using seam by (simp add: stage_set_def)
  have rest: "triple k (\<lambda>f. (x = ?cs \<and> (\<forall>m \<in> set ms. member_sealed m)) \<and> ?K f) (?rest x) ?Q ?E ?C" for x
  proof (rule triple_fact)
    assume x: "x = ?cs \<and> (\<forall>m \<in> set ms. member_sealed m)"
    then have eq: "x = ?cs" by simp
    show "triple k ?K (?rest x) ?Q ?E ?C" unfolding eq by (rule finish) (use x in blast)
  qed
  show ?thesis unfolding eq by (rule triple_bind [OF members rest])
qed

section \<open>The rule\<close>

lemma staged_plan_sound:
  fixes wd ms rc f0 pid clock seq
  defines "stamps \<equiv> stamps_of pid clock seq" and "g \<equiv> set_new wd ms rc f0"
  defines "T \<equiv> set_temps stamps wd ms rc" and "st \<equiv> staged_plan stamps wd ms rc f0"
  assumes seq: "inj seq" and plain: "\<forall>p \<in> set (set_paths wd ms rc). plain_name p" and seam: "set_seam ms rc"
  shows "sound_set T g stamps st" and "receipt_at (ss_receipt st) = (case rc of Some (rp, e) \<Rightarrow> {wd @ rp} | None \<Rightarrow> {})"
    and "set_live f0 st \<longleftrightarrow> (\<forall>m \<in> set ms. member_live wd f0 m)"
    and "(\<forall>c \<in> set (ss_contents st). snd c = Absent \<longrightarrow> pre_ok f0 c) \<longleftrightarrow> births_absent wd ms f0"
proof -
  have apart: "temp_path_for (stamps i) p = temp_path_for (stamps j) q \<Longrightarrow> i = j" for i j p q
    using temps_distinct [OF seq] unfolding stamps_def .
  have temp: "temp_path_for (stamps i) p \<in> T" if "p \<in> set (set_paths wd ms rc)" for i p
    using that by (auto simp: T_def set_temps_def)
  have pre: "pre_ok f0 (planned_member stamps wd i m) \<longleftrightarrow> member_live wd f0 m" for i m
    by (simp add: pre_ok_def planned_member_def member_pre_def member_live_def split: set_payload.splits)
  have tmps: "map c_tmp (planned stamps wd i xs) = map (\<lambda>(j, m). temp_path_for (stamps j) (wd @ sm_path m)) (enumerate i xs)"
    for i xs by (induction xs arbitrary: i) (simp_all add: planned_member_def)
  have each: "(\<forall>c \<in> set (planned stamps wd i xs). P c) \<longleftrightarrow> (\<forall>(j, m) \<in> set (enumerate i xs). P (planned_member stamps wd j m))"
    for P i xs by (induction xs arbitrary: i) simp_all
  have both: "(\<forall>(j, m) \<in> set (enumerate i xs). Q m) \<longleftrightarrow> (\<forall>m \<in> set xs. Q m)" for Q :: "set_member \<Rightarrow> bool" and i xs
    by (induction xs arbitrary: i) simp_all
  show "receipt_at (ss_receipt st) = (case rc of Some (rp, e) \<Rightarrow> {wd @ rp} | None \<Rightarrow> {})"
    by (simp add: receipt_at_def st_def staged_plan_def split: option.splits)
  show "set_live f0 st \<longleftrightarrow> (\<forall>m \<in> set ms. member_live wd f0 m)"
    by (auto simp: set_live_def st_def staged_plan_def each pre both split: option.splits)
  have "(snd (planned_member stamps wd i m) = Absent \<longrightarrow> pre_ok f0 (planned_member stamps wd i m)) \<longleftrightarrow>
      (case sm_payload m of BirthFile cand \<Rightarrow> f0 (wd @ sm_path m) = None | _ \<Rightarrow> True)" for i m
    by (auto simp: planned_member_def member_pre_def pre_ok_def split: set_payload.splits)
  then show "(\<forall>c \<in> set (ss_contents st). snd c = Absent \<longrightarrow> pre_ok f0 c) \<longleftrightarrow> births_absent wd ms f0"
    unfolding births_absent_def by (simp add: st_def staged_plan_def each both)
  show "sound_set T g stamps st"
    unfolding sound_set_def
  proof (intro conjI)
    show "T \<inter> dom g = {}" unfolding T_def g_def by (rule set_temps_away [OF plain])
    show "distinct (map c_dst (ss_contents st))"
      using seam by (simp add: st_def staged_plan_def map_dst_planned set_seam_def distinct_map inj_on_def)
    show "distinct (map c_tmp (ss_contents st))"
      unfolding st_def staged_plan_def staged_set.select_convs tmps distinct_map
      by (auto simp: distinct_enumerate inj_on_def in_set_enumerate_eq dest!: apart)
    show "\<forall>c \<in> set (ss_contents st). c_tmp c \<in> T \<and> (\<forall>j. temp_path_for (stamps j) (c_dst c) \<in> T)"
      using temp by (auto simp: st_def staged_plan_def each in_set_enumerate_eq planned_member_def set_paths_def)
    show "receipt_temp (ss_receipt st) \<subseteq> T"
      using temp by (auto simp: receipt_temp_def st_def staged_plan_def set_paths_def split: option.splits)
    show "receipt_temp (ss_receipt st) \<inter> c_tmp ` set (ss_contents st) = {}"
    proof -
      have "temp_path_for (stamps (length ms)) p \<noteq> c_tmp c" if c: "c \<in> set (planned stamps wd 0 ms)" for c p
        using set_planned [OF c] by (auto simp: planned_member_def dest: apart)
      then show ?thesis by (auto simp: receipt_temp_def st_def staged_plan_def split: option.splits)
    qed
    show "receipt_at (ss_receipt st) \<inter> c_dst ` set (ss_contents st) = {}"
    proof -
      have "wd @ p \<noteq> c_dst c" if "p \<notin> sm_path ` set ms" and c: "c \<in> set (planned stamps wd 0 ms)" for c p
        using set_planned [OF c] that(1) by (auto simp: planned_member_def)
      with seam show ?thesis
        by (auto simp: receipt_at_def st_def staged_plan_def set_seam_def split: option.splits)
    qed
    have "c_dst ` set (ss_contents st) = set (map c_dst (ss_contents st))" by simp
    also have "\<dots> = set (map (\<lambda>m. wd @ sm_path m) ms)" unfolding st_def staged_plan_def staged_set.select_convs map_dst_planned ..
    finally show "dom g = c_dst ` set (ss_contents st) \<union> receipt_at (ss_receipt st)"
      by (auto simp: g_def dom_set_new set_paths_def receipt_at_def st_def staged_plan_def split: option.splits)
  qed
qed

text \<open>
  Cut off, every file is whole and, unless a call failed, the receipt is the last to change. An
  error is one that left every file alone or one that was rolled back.
\<close>

lemma apply_set_rule:
  fixes wd ms rc f0 pid clock seq
  defines "stamps \<equiv> stamps_of pid clock seq" and "g \<equiv> set_new wd ms rc f0"
  defines "T \<equiv> set_temps stamps wd ms rc"
  assumes seq: "inj seq" and plain: "\<forall>p \<in> set (set_paths wd ms rc). plain_name p"
    and births: "k = Failing \<Longrightarrow> births_absent wd ms f0"
  shows "triple k (\<lambda>f. f = f0) (apply_set stamps wd ms rc)
    (\<lambda>_ f. set_fits wd ms rc f0 \<and> mix T g f0 {} (dom g) f)
    (refused_set k T g f0 (set_fits wd ms rc f0))
    (\<lambda>f. (\<not> quiet k \<or> \<not> set_fits wd ms rc f0) \<and> mix T g f0 {} {} f \<and>
      (k \<noteq> Failing \<longrightarrow> receipt_last T g f0 (case rc of Some (rp, e) \<Rightarrow> {wd @ rp} | None \<Rightarrow> {}) f))"
    (is "triple k _ _ ?Q ?E ?C")
proof (cases "set_seam ms rc")
  case False
  have "mix T g f0 (dom g) {} f0"
    using set_temps_away [OF plain] unfolding T_def g_def by (intro mix_start) blast
  with False have "?E InvalidInput f0" by (simp add: refused_set_def set_fits_def)
  with False show ?thesis
    by (simp add: apply_set_def stage_set_def) (auto simp: triple_def fail_with_def)
next
  case True
  let ?st = "staged_plan stamps wd ms rc f0" and ?M = "mix T g f0 (dom g) {}"
  note sound = staged_plan_sound [OF seq plain True, where ?f0.0 = f0 and pid = pid and clock = clock, folded stamps_def, folded g_def T_def]
  have R: "receipt_at (ss_receipt ?st) \<subseteq> dom g"
    using sound_set_parts(4) [OF sound(1)] by blast
  have off: "?C f" if "?M f" "\<not> quiet k \<or> \<not> set_fits wd ms rc f0" for f
    using that R unfolding sound(2) receipt_last_def by (auto elim: mix_weaken)
  have fits: "set_fits wd ms rc f0 \<longleftrightarrow> set_live f0 ?st"
    if "receipt_fits wd rc f0" "\<forall>m \<in> set ms. member_sealed m"
    unfolding sound(3) using that True by (simp add: set_fits_def)
  have staging: "triple k (\<lambda>f. f = f0) (stage_set stamps wd ms rc)
      (\<lambda>s f. (s = ?st \<and> (set_fits wd ms rc f0 \<longleftrightarrow> set_live f0 ?st)) \<and>
        ?M f \<and> (\<forall>c \<in> set (ss_contents ?st). f (c_tmp c) = g (c_dst c)) \<and> receipt_staged g ?st f) ?E ?C"
    by (rule triple_conseq [OF stage_set_rule [OF seq plain True, where ?f0.0 = f0 and pid = pid and clock = clock, folded stamps_def, folded g_def T_def]])
      (use fits off in \<open>auto simp: refused_set_def\<close>)
  have commit: "triple k (\<lambda>f. ?M f \<and> (\<forall>c \<in> set (ss_contents ?st). f (c_tmp c) = g (c_dst c)) \<and> receipt_staged g ?st f)
      (commit_set stamps ?st) ?Q ?E ?C" if "set_fits wd ms rc f0 \<longleftrightarrow> set_live f0 ?st"
    by (rule triple_conseq [OF commit_set_rule [OF sound(1)]])
      (use that births sound(4) sound(2) in \<open>auto simp: broken_off_def\<close>)
  show ?thesis
    unfolding apply_set_def
  proof (rule triple_bind [OF staging], rule triple_fact)
    fix s assume s: "s = ?st \<and> (set_fits wd ms rc f0 \<longleftrightarrow> set_live f0 ?st)"
    then have eq: "s = ?st" by simp
    show "triple k (\<lambda>f. ?M f \<and> (\<forall>c \<in> set (ss_contents ?st). f (c_tmp c) = g (c_dst c)) \<and> receipt_staged g ?st f)
        (commit_set stamps s) ?Q ?E ?C"
      unfolding eq by (rule commit) (use s in blast)
  qed
qed

end
