(* ===== verification/Commit_Props.thy ===== *)
theory Commit_Props
  imports Batch_Commit Set_Whole Splice_Props
begin

text \<open>
  What the writers promise: no file is ever torn, the receipt is the last to change, a refusal
  leaves every file alone, and a rolled back set names what it could not put back; and where a
  failing sync breaks the promise.
\<close>

section \<open>A batch and its receipt\<close>

lemma sane_modes:
  assumes "distinct (map fst (files d))"
  shows "sane Failing d" and "faults d = [] \<Longrightarrow> sane Calm d"
    and "(\<And>n ps. Fail n ps \<notin> set (faults d)) \<Longrightarrow> sane Crashing d"
proof -
  show "sane Failing d" "faults d = [] \<Longrightarrow> sane Calm d" using assms by (simp_all add: sane_def)
  have "admits Crashing g" if "\<And>n ps. Fail n ps \<notin> set (faults d)" "g \<in> set (faults d)" for g
    using that by (cases g) auto
  then show "(\<And>n ps. Fail n ps \<notin> set (faults d)) \<Longrightarrow> sane Crashing d"
    using assms unfolding sane_def list_all_iff by blast
qed

lemma triple_run:
  assumes "triple k (\<lambda>f. f = look d) m Q E C" "sane k d" "m d = (r, d')"
  shows "outcome_ok Q E C r (look d')"
  using tripleD [OF assms(1,2)] assms(3) by simp

text \<open>
  Claim C28. The two-file commit never tears and never loses silently. Whatever calls fail and
  wherever the process dies: a file outside the temporary names is as it was or has exactly the
  new contents planned for it; the receipt does not change before the content file has; a
  successful return means that the files were what the batch was made for and all is in place;
  an error other than a failing call leaves both files alone and says that they were not.
\<close>

theorem apply_batch_old_or_new:
  assumes "inj seq" and "plain_name (wd @ cp)" and "\<forall>r. rp = Some r \<longrightarrow> plain_name (wd @ r)"
    and "distinct (map fst (files d0))"
    and "apply_batch (stamps_of pid clock seq) wd cp rp b expected cand d0 = (res, d1)"
  shows "let f0 = look d0; f1 = look d1; new = batch_new wd cp rp b cand f0;
             fits = batch_fits wd cp rp b expected cand f0 in
    (\<forall>q. q \<notin> batch_temps (stamps_of pid clock seq) wd cp rp \<longrightarrow> f1 q = f0 q \<or> q \<in> dom new \<and> f1 q = new q) \<and>
    ((\<exists>q \<in> dom new - {wd @ cp}. f1 q \<noteq> f0 q) \<longrightarrow> f1 (wd @ cp) = new (wd @ cp)) \<and>
    (case res of
       Done _ \<Rightarrow> fits \<and> (\<forall>q \<in> dom new. f1 q = new q)
     | Failed e \<Rightarrow> e \<noteq> OtherError \<longrightarrow> \<not> fits \<and> (\<forall>q \<in> dom new. f1 q = f0 q)
     | Halted \<Rightarrow> True)"
proof -
  let ?T = "batch_temps (stamps_of pid clock seq) wd cp rp" and ?g = "batch_new wd cp rp b cand (look d0)"
  have plain: "\<And>r. rp = Some r \<Longrightarrow> plain_name (wd @ r)" using assms(3) by blast
  have away: "?T \<inter> dom ?g = {}"
    using temp_not_plain [OF assms(2)] temp_not_plain [OF plain]
    by (auto simp: batch_temps_def batch_new_def split: option.splits if_splits)
  have cd: "wd @ cp \<in> dom ?g" by (simp add: batch_new_def dom_def)
  note run = triple_run [OF apply_batch_rule [OF assms(1,2) plain] sane_modes(1) [OF assms(4)] assms(5)]
  have kept: "\<forall>q. q \<notin> ?T \<longrightarrow> look d1 q = look d0 q \<or> q \<in> dom ?g \<and> look d1 q = ?g q"
      "(\<exists>q \<in> dom ?g - {wd @ cp}. look d1 q \<noteq> look d0 q) \<longrightarrow> look d1 (wd @ cp) = ?g (wd @ cp)"
    if "stages ?T ?g (look d0) (wd @ cp) (look d1)"
    using that cd unfolding stages_def mix_def by blast+
  show ?thesis
  proof (cases res)
    case (Done u)
    with run have q: "batch_fits wd cp rp b expected cand (look d0)" "mix ?T ?g (look d0) {} (dom ?g) (look d1)"
      by simp_all
    then have "stages ?T ?g (look d0) (wd @ cp) (look d1)" by (simp add: stages_def)
    with q kept Done show ?thesis by (simp add: Let_def mix_def)
  next
    case (Failed e)
    with run have q: "stages ?T ?g (look d0) (wd @ cp) (look d1)"
      "e \<noteq> OtherError \<longrightarrow> \<not> batch_fits wd cp rp b expected cand (look d0) \<and> mix ?T ?g (look d0) (dom ?g) {} (look d1)"
      by auto
    with kept Failed show ?thesis by (simp add: Let_def mix_def)
  next
    case Halted
    with run have "stages ?T ?g (look d0) (wd @ cp) (look d1)" by simp
    with kept Halted show ?thesis by (simp add: Let_def)
  qed
qed

definition sample_disk :: "fault list \<Rightarrow> disk" where
  "sample_disk fs = \<lparr>files = [([''w'', ''s.md''], raw sample_doc)], faults = fs\<rparr>"

theorem apply_batch_old_or_new_witness:
  "let (res, d1) = apply_batch (stamps_of ''9'' (\<lambda>i. ''1'') id) [''w''] [''s.md''] None sample_sealed
         (raw sample_doc) sample_new_doc (sample_disk [Go, Go, Go, Go, Die 0 []]);
       f0 = look (sample_disk [Go, Go, Go, Go, Die 0 []]); f1 = look d1;
       new = batch_new [''w''] [''s.md''] None sample_sealed sample_new_doc f0;
       fits = batch_fits [''w''] [''s.md''] None sample_sealed (raw sample_doc) sample_new_doc f0 in
    (\<forall>q. q \<notin> batch_temps (stamps_of ''9'' (\<lambda>i. ''1'') id) [''w''] [''s.md''] None \<longrightarrow>
       f1 q = f0 q \<or> q \<in> dom new \<and> f1 q = new q) \<and>
    ((\<exists>q \<in> dom new - {[''w''] @ [''s.md'']}. f1 q \<noteq> f0 q) \<longrightarrow> f1 ([''w''] @ [''s.md'']) = new ([''w''] @ [''s.md''])) \<and>
    (case res of
       Done _ \<Rightarrow> fits \<and> (\<forall>q \<in> dom new. f1 q = new q)
     | Failed e \<Rightarrow> e \<noteq> OtherError \<longrightarrow> \<not> fits \<and> (\<forall>q \<in> dom new. f1 q = f0 q)
     | Halted \<Rightarrow> True)"
  unfolding split_beta Let_def
  by (rule apply_batch_old_or_new [OF _ _ _ _ surjective_pairing, unfolded Let_def])
    (simp_all add: plain_name_def sample_disk_def)

text \<open>
  Claim C29. A validated batch lands. Where a batch validated against the document a file holds, and
  is committed with the candidate sealed from it and a receipt entry for the end of the receipt
  file, then without faults the commit succeeds, the file holds the candidate's bytes, the receipt
  file its old contents and the entry, and no other file changes but for the temporary ones.
\<close>

theorem validated_batch_lands:
  assumes "doc_ok hash doc" and "request_ok b"
    and "validate_batch hash parse doc now b receipt = Some (Validated vb)"
    and "candidate_of_batch hash parse path (raw doc) vb = Some cand"
    and "look d0 (wd @ cp) = Some (raw doc)" and "batch_seam cp rp vb"
    and "\<forall>r e. rp = Some r \<and> vb_receipt vb = Some e \<longrightarrow>
           rcpt_span e = Span (length (content (look d0) (wd @ r))) (length (content (look d0) (wd @ r)))"
    and "inj seq" and "plain_name (wd @ cp)" and "\<forall>r. rp = Some r \<longrightarrow> plain_name (wd @ r)"
    and "distinct (map fst (files d0))" and "faults d0 = []"
    and "apply_batch (stamps_of pid clock seq) wd cp rp vb (raw doc) cand d0 = (res, d1)"
  shows "res = Done () \<and> look d1 (wd @ cp) = Some (raw cand) \<and>
    (\<forall>r e. rp = Some r \<and> vb_receipt vb = Some e \<longrightarrow>
       look d1 (wd @ r) = Some (content (look d0) (wd @ r) @ rcpt_text e)) \<and>
    (\<forall>q. q \<notin> insert (wd @ cp) (set_option (map_option ((@) wd) rp)) \<union>
            batch_temps (stamps_of pid clock seq) wd cp rp \<longrightarrow> look d1 q = look d0 q)"
proof -
  let ?T = "batch_temps (stamps_of pid clock seq) wd cp rp" and ?g = "batch_new wd cp rp vb cand (look d0)"
  have plain: "\<And>r. rp = Some r \<Longrightarrow> plain_name (wd @ r)" using assms(10) by blast
  have pairs: "edit_pairs vb = map ve_pair (vb_edits vb)" by (simp add: edit_pairs_def ve_pair_def)
  have "apply_spans (raw doc) (edit_pairs vb) = Some (raw cand)"
    using assms(3)
  proof (rule validate_batch_Validated)
    fix ps gs
    assume ps: "plan_batch hash doc now b = Some (Inr (ps, gs))" and vb: "vb = seal ps receipt"
    note t = validated_text [OF assms(1,2) ps vb]
    with assms(4) obtain nd where nd: "cand = stamp_path path nd"
      "build hash (spliced (raw doc) 0 (map ve_pair (vb_edits vb))) (parse (spliced (raw doc) 0 (map ve_pair (vb_edits vb)))) = Some nd"
      by (auto simp: candidate_of_batch_def candidate_of_body_def)
    then have "raw nd = spliced (raw doc) 0 (map ve_pair (vb_edits vb))"
      by (auto simp: build_def Let_def split: Option.bind_splits)
    with t nd pairs show ?thesis by (simp add: stamp_path_simps)
  qed
  then have fits: "batch_fits wd cp rp vb (raw doc) cand (look d0)"
    using assms(5,6,7) by (auto simp: batch_fits_def Let_def split: option.splits)
  note run = triple_run [OF apply_batch_rule [OF assms(8,9) plain] sane_modes(2) [OF assms(11,12)] assms(13)]
  with fits have m: "res = Done ()" "mix ?T ?g (look d0) {} (dom ?g) (look d1)" by (cases res; simp)+
  have at: "?g (wd @ cp) = Some (raw cand)" by (simp add: batch_new_def)
  have rc: "?g (wd @ r) = Some (content (look d0) (wd @ r) @ rcpt_text e)"
    if "rp = Some r" "vb_receipt vb = Some e" for r e
    using that assms(6) by (simp add: batch_new_def batch_seam_def)
  have dom: "q \<in> insert (wd @ cp) (set_option (map_option ((@) wd) rp))" if "q \<in> dom ?g" for q
    using that by (auto simp: batch_new_def split: if_splits option.splits)
  have landed: "look d1 q = ?g q" if "?g q = Some x" for q x
    using m(2) domI [of ?g, OF that] unfolding mix_def by blast
  have "look d1 q = look d0 q" if "q \<notin> insert (wd @ cp) (set_option (map_option ((@) wd) rp)) \<union> ?T" for q
    using m(2) dom [of q] that unfolding mix_def by blast
  with m(1) landed [OF at] at landed [OF rc] rc show ?thesis by auto
qed

theorem validated_batch_lands_witness:
  "let (res, d1) = apply_batch (stamps_of ''9'' (\<lambda>i. ''1'') id) [''w''] [''s.md''] None sample_sealed
         (raw sample_doc) (stamp_path ''p'' sample_new_doc) (sample_disk []) in
   res = Done () \<and> look d1 [''w'', ''s.md''] = Some sample_new_text"
proof -
  have "candidate_of_batch sample_hash sample_parse ''p'' (raw sample_doc) sample_sealed =
      Some (stamp_path ''p'' sample_new_doc)"
  proof -
    have "replace_all (raw sample_doc) (rev (vb_edits sample_sealed)) = Some sample_new_text" by code_simp
    then show ?thesis by (simp add: candidate_of_batch_def candidate_of_body_def sample_new_build)
  qed
  note landed = validated_batch_lands [OF sample_doc_ok sample_request_ok sample_validated this,
      where ?d0.0 = "sample_disk []" and wd = "[''w'']" and cp = "[''s.md'']" and rp = None and seq = id,
      OF _ _ _ _ _ _ _ _ surjective_pairing]
  have "vb_receipt sample_sealed = None" by (simp add: sample_sealed_def seal_def)
  then show ?thesis
    unfolding split_beta Let_def
    using landed [of "''9''" "\<lambda>i. ''1''"]
    by (simp add: sample_disk_def look_def plain_name_def batch_seam_def stamp_path_simps sample_new_doc_def)
qed

end
