(* ===== verification/Set_Props.thy ===== *)
theory Set_Props
  imports Commit_Props
begin

text \<open>
  What the set commit promises, and the two ways in which a failing call breaks it.
\<close>

section \<open>All, none, or named\<close>

text \<open>
  Claim C30. A set commit is all or nothing up to what it names. Where no file to be born is there
  already, whatever calls fail and wherever the process dies, a file outside the temporary names is
  as it was or has exactly the new contents planned for it; a successful return means every file is in place; after a rollback every file
  is as it was but for the one whose rename failed and those the error lists as not restored; and
  any other error leaves every file as it was. Without that condition a failing lookup takes the
  existing file for absent, and \<open>birth_deletes\<close> loses it.
\<close>

theorem apply_set_all_or_named:
  assumes "inj seq" and "\<forall>p \<in> set (set_paths wd ms rc). plain_name p" and "births_absent wd ms (look d0)"
    and "distinct (map fst (files d0))"
    and "apply_set (stamps_of pid clock seq) wd ms rc d0 = (res, d1)"
  shows "let f0 = look d0; f1 = look d1; new = set_new wd ms rc f0 in
    (\<forall>q. q \<notin> set_temps (stamps_of pid clock seq) wd ms rc \<longrightarrow> f1 q = f0 q \<or> q \<in> dom new \<and> f1 q = new q) \<and>
    (case res of
       Done _ \<Rightarrow> set_fits wd ms rc f0 \<and> (\<forall>q \<in> dom new. f1 q = new q)
     | Failed (RolledBack cause step dst restored failed) \<Rightarrow>
         (\<forall>q \<in> dom new - insert dst (fst ` set failed). f1 q = f0 q)
     | Failed e \<Rightarrow> (\<forall>q \<in> dom new. f1 q = f0 q)
     | Halted \<Rightarrow> True)"
proof -
  let ?T = "set_temps (stamps_of pid clock seq) wd ms rc" and ?g = "set_new wd ms rc (look d0)"
  note run = triple_run [OF apply_set_rule [OF assms(1,2)] sane_modes(1) [OF assms(4)] assms(5), OF assms(3)]
  have kept: "\<forall>q. q \<notin> ?T \<longrightarrow> look d1 q = look d0 q \<or> q \<in> dom ?g \<and> look d1 q = ?g q"
    if "mix ?T ?g (look d0) S N (look d1)" for S N using that by (simp add: mix_def)
  show ?thesis
  proof (cases res)
    case (Done u)
    with run have "set_fits wd ms rc (look d0)" "mix ?T ?g (look d0) {} (dom ?g) (look d1)" by simp_all
    with kept Done show ?thesis by (simp add: Let_def mix_def)
  next
    case (Failed e)
    with run consider
        (early) "mix ?T ?g (look d0) (dom ?g) {} (look d1)" "\<And>c s q ok bad. e \<noteq> RolledBack c s q ok bad"
      | (late) c s q ok bad where "e = RolledBack c s q ok bad"
          "mix ?T ?g (look d0) (dom ?g - insert q (fst ` set bad)) {} (look d1)"
      by (auto simp: refused_set_def rolled_def)
    then show ?thesis
    proof cases
      case early
      with kept Failed show ?thesis by (cases e) (simp_all add: Let_def mix_def)
    next
      case late
      with kept Failed show ?thesis by (simp add: Let_def mix_def)
    qed
  next
    case Halted
    with run kept show ?thesis by (auto simp: Let_def)
  qed
qed

text \<open>Two files of one letter that are made upper case.\<close>

definition letter_doc :: "str \<Rightarrow> document" where
  "letter_doc s = \<lparr>raw = s, root = Node (DocumentNode [] 1) (Span 0 1) [] None []\<rparr>"

definition letter_edit :: "str \<Rightarrow> str \<Rightarrow> str \<Rightarrow> set_member" where
  "letter_edit p old new = \<lparr>sm_path = [p],
     sm_payload = EditFile \<lparr>vb_edits = [\<lparr>ve_span = Span 0 1, ve_text = new, ve_index = 0\<rparr>], vb_receipt = None\<rparr>
       old (letter_doc new)\<rparr>"

definition letters :: "set_member list" where
  "letters = [letter_edit ''a.md'' ''a'' ''A'', letter_edit ''b.md'' ''b'' ''B'']"

definition letters_receipt :: "(path \<times> receipt_append) option" where
  "letters_receipt = Some ([''log.md''], \<lparr>rcpt_span = Span 0 0, rcpt_text = ''ok''\<rparr>)"

definition letters_disk :: "fault list \<Rightarrow> disk" where
  "letters_disk fs = \<lparr>files = [([''w'', ''a.md''], ''a''), ([''w'', ''b.md''], ''b'')], faults = fs\<rparr>"

abbreviation letter_stamps :: "nat \<Rightarrow> str" where
  "letter_stamps \<equiv> stamps_of ''9'' (\<lambda>i. ''1'') id"

lemma letters_plain: "\<forall>p \<in> set (set_paths [''w''] letters letters_receipt). plain_name p"
  by (simp add: set_paths_def letters_def letter_edit_def letters_receipt_def plain_name_def)

theorem apply_set_all_or_named_witness:
  "let (res, d1) = apply_set letter_stamps [''w''] letters letters_receipt (letters_disk [Go, Go, Fail 0 []]);
       f0 = look (letters_disk [Go, Go, Fail 0 []]); f1 = look d1; new = set_new [''w''] letters letters_receipt f0 in
    (\<forall>q. q \<notin> set_temps letter_stamps [''w''] letters letters_receipt \<longrightarrow> f1 q = f0 q \<or> q \<in> dom new \<and> f1 q = new q) \<and>
    (case res of
       Done _ \<Rightarrow> set_fits [''w''] letters letters_receipt f0 \<and> (\<forall>q \<in> dom new. f1 q = new q)
     | Failed (RolledBack cause step dst restored failed) \<Rightarrow>
         (\<forall>q \<in> dom new - insert dst (fst ` set failed). f1 q = f0 q)
     | Failed e \<Rightarrow> (\<forall>q \<in> dom new. f1 q = f0 q)
     | Halted \<Rightarrow> True)"
  unfolding split_beta Let_def
  by (rule apply_set_all_or_named [OF _ letters_plain _ _ surjective_pairing, unfolded Let_def])
    (simp_all add: letters_disk_def births_absent_def letters_def letter_edit_def)

section \<open>The receipt is last\<close>

text \<open>
  Claim C31. Under crashes alone a receipt implies the whole set: where no call fails, the receipt
  file differs from what it was only if every file of the set is in place, wherever the process
  died; an error means that the set did not fit and leaves every file as it was; and an
  undisturbed run succeeds exactly when the set fits.
\<close>

theorem apply_set_receipt_last:
  assumes "inj seq" and "\<forall>p \<in> set (set_paths wd ms (Some (rp, e))). plain_name p"
    and "distinct (map fst (files d0))" and "\<forall>n ps. Fail n ps \<notin> set (faults d0)"
    and "apply_set (stamps_of pid clock seq) wd ms (Some (rp, e)) d0 = (res, d1)"
  shows "let f0 = look d0; f1 = look d1; new = set_new wd ms (Some (rp, e)) f0;
             fits = set_fits wd ms (Some (rp, e)) f0 in
    (f1 (wd @ rp) \<noteq> f0 (wd @ rp) \<longrightarrow> (\<forall>q \<in> dom new. f1 q = new q)) \<and>
    (\<forall>x. res = Failed x \<longrightarrow> \<not> fits \<and> (\<forall>q \<in> dom new. f1 q = f0 q)) \<and>
    (faults d0 = [] \<longrightarrow> (res = Done ()) = fits)"
proof -
  let ?rc = "Some (rp, e)"
  let ?T = "set_temps (stamps_of pid clock seq) wd ms ?rc" and ?g = "set_new wd ms ?rc (look d0)"
  note crash = triple_run [OF apply_set_rule [OF assms(1,2)] sane_modes(3) [OF assms(3)] assms(5)]
  note calm = triple_run [OF apply_set_rule [OF assms(1,2)] sane_modes(2) [OF assms(3)] assms(5)]
  have rp: "wd @ rp \<in> dom ?g" unfolding dom_set_new by (simp add: set_paths_def)
  have run: "outcome_ok (\<lambda>_ f. set_fits wd ms ?rc (look d0) \<and> mix ?T ?g (look d0) {} (dom ?g) f)
      (\<lambda>x f. mix ?T ?g (look d0) (dom ?g) {} f \<and> \<not> set_fits wd ms ?rc (look d0))
      (\<lambda>f. receipt_last ?T ?g (look d0) {wd @ rp} f) res (look d1)"
    using crash assms(4) by (cases res) (auto simp: refused_set_def)
  have last: "look d1 (wd @ rp) \<noteq> look d0 (wd @ rp) \<longrightarrow> (\<forall>q \<in> dom ?g. look d1 q = ?g q)"
    using run rp by (cases res) (auto simp: receipt_last_def mix_def)
  have err: "\<forall>x. res = Failed x \<longrightarrow> \<not> set_fits wd ms ?rc (look d0) \<and> (\<forall>q \<in> dom ?g. look d1 q = look d0 q)"
  proof (intro allI impI)
    fix x assume "res = Failed x"
    with run show "\<not> set_fits wd ms ?rc (look d0) \<and> (\<forall>q \<in> dom ?g. look d1 q = look d0 q)"
      by (simp add: mix_def)
  qed
  have "res = Done () \<longleftrightarrow> set_fits wd ms ?rc (look d0)" if "faults d0 = []"
    using calm [OF _ that] by (cases res) (auto simp: refused_set_def)
  with last err show ?thesis by (simp add: Let_def)
qed

theorem apply_set_receipt_last_witness:
  "let (res, d1) = apply_set letter_stamps [''w''] letters letters_receipt (letters_disk (replicate 16 Go @ [Die 0 []]));
       f0 = look (letters_disk (replicate 16 Go @ [Die 0 []])) in
    look d1 [''w'', ''log.md''] \<noteq> f0 [''w'', ''log.md''] \<longrightarrow>
      (\<forall>q \<in> dom (set_new [''w''] letters letters_receipt f0). look d1 q = set_new [''w''] letters letters_receipt f0 q)"
  using apply_set_receipt_last [OF inj_on_id letters_plain [unfolded letters_receipt_def] _ _ surjective_pairing,
      of "letters_disk (replicate 16 Go @ [Die 0 []])" "''9''" "\<lambda>i. ''1''", folded letters_receipt_def]
  unfolding split_beta Let_def
  by (simp add: letters_disk_def)

section \<open>What a failing sync breaks\<close>

text \<open>
  The rename of a member goes through, then the sync of its directory fails: the rollback starts
  before that member, and the error says that no member had renamed.
\<close>

lemma synced_rename_not_rolled_back:
  "let (res, d1) = apply_set letter_stamps [''w''] letters None (letters_disk (replicate 9 Go @ [Fail 0 []])) in
   res = Failed (RolledBack OtherError ''content rename'' [''w'', ''a.md''] [] []) \<and>
   look d1 [''w'', ''a.md''] = Some ''A'' \<and> look d1 [''w'', ''b.md''] = Some ''b''"
  by code_simp

text \<open>
  A receipt can outlive its set. Where the only failing call is the sync after the
  receipt's rename, both members are rolled back and named as restored, but the receipt entry
  stays.
\<close>

lemma receipt_without_set:
  "let (res, d1) = apply_set letter_stamps [''w''] letters letters_receipt
         (letters_disk (replicate 18 Go @ [Fail 0 []])) in
   res = Failed (RolledBack OtherError ''receipt rename'' [''w'', ''log.md'']
           [[''w'', ''b.md''], [''w'', ''a.md'']] []) \<and>
   look d1 [''w'', ''a.md''] = Some ''a'' \<and> look d1 [''w'', ''b.md''] = Some ''b'' \<and>
   look d1 [''w'', ''log.md''] = Some ''ok''"
  by code_simp

text \<open>A lookup that fails reads as absence, and a birth lands on a file that is there.\<close>

definition letter_births :: "set_member list" where
  "letter_births =
     [\<lparr>sm_path = [''a.md''], sm_payload = BirthFile (letter_doc ''A'')\<rparr>,
      \<lparr>sm_path = [''c.md''], sm_payload = BirthFile (letter_doc ''C'')\<rparr>]"

lemma birth_overwrites:
  "let (res, d1) = apply_set letter_stamps [''w''] letter_births None (letters_disk (replicate 8 Go @ [Fail 0 []])) in
   res = Done () \<and> look d1 [''w'', ''a.md''] = Some ''A''"
  by code_simp

text \<open>
  When a later rename fails, the rollback takes the file for a birth, deletes it, and names it as
  restored.
\<close>

lemma birth_deletes:
  "let (res, d1) = apply_set letter_stamps [''w''] letter_births None
         (letters_disk (replicate 8 Go @ [Fail 0 []] @ replicate 3 Go @ [Fail 0 []])) in
   res = Failed (RolledBack OtherError ''content rename'' [''w'', ''c.md''] [[''w'', ''a.md'']] []) \<and>
   look d1 [''w'', ''a.md''] = None"
  by code_simp

end
