(* ===== verification/Diff.thy ===== *)
theory Diff
  imports Frontmatter
begin

text \<open>
  The line-grain text diff of \<^verbatim>\<open>crates/model/src/delta.rs\<close>: lines that occur once on both sides
  anchor the two texts, a longest increasing chain of them is kept, and what is left between two
  anchors is one region pair.

  A line range is a \<^typ>\<open>span\<close> of line numbers. Every slice here is taken at line ends, which are
  character boundaries: \<open>lines_good\<close> and \<open>regions_good\<close> of \<open>Diff_Laws\<close> say that none panics.
\<close>

section \<open>Lines\<close>

fun line_spans_from :: "nat \<Rightarrow> nat \<Rightarrow> str \<Rightarrow> span list" where
  "line_spans_from start i [] = (if start < i then [Span start i] else [])"
| "line_spans_from start i (c # cs) =
     (if c = lf then Span start (Suc i) # line_spans_from (Suc i) (Suc i) cs
      else line_spans_from start (Suc i) cs)"

definition line_spans :: "str \<Rightarrow> span list" where
  "line_spans s = line_spans_from 0 0 s"

definition text_of :: "str \<Rightarrow> span \<Rightarrow> str" where
  "text_of s r = sub s (lo r) (hi r)"

definition line_eq :: "str \<Rightarrow> str \<Rightarrow> span \<Rightarrow> span \<Rightarrow> bool" where
  "line_eq br ar b a \<longleftrightarrow> text_of br b = text_of ar a"

definition range_empty :: "span \<Rightarrow> bool" where
  "range_empty r \<longleftrightarrow> hi r \<le> lo r"

definition bytes_of :: "str \<Rightarrow> span list \<Rightarrow> span \<Rightarrow> span" where
  "bytes_of s ls r =
     (if range_empty r
      then (let at = (if lo r < length ls then lo (ls ! lo r) else length s) in Span at at)
      else Span (lo (ls ! lo r)) (hi (ls ! (hi r - 1))))"

section \<open>Anchors\<close>

text \<open>The lines of a range by content: the number of the only one, or none if it repeats.\<close>

definition see :: "str \<Rightarrow> span list \<Rightarrow> nat \<Rightarrow> (str \<rightharpoonup> nat option) \<Rightarrow> (str \<rightharpoonup> nat option)" where
  "see s ls i m =
     (let t = text_of s (ls ! i) in m(t \<mapsto> (case m t of None \<Rightarrow> Some i | Some _ \<Rightarrow> None)))"

definition seen_lines :: "str \<Rightarrow> span list \<Rightarrow> span \<Rightarrow> str \<rightharpoonup> nat option" where
  "seen_lines s ls r = fold (see s ls) [lo r ..< hi r] Map.empty"

definition pair_at :: "str \<Rightarrow> span list \<Rightarrow> (str \<rightharpoonup> nat option) \<Rightarrow> (str \<rightharpoonup> nat option) \<Rightarrow> nat \<Rightarrow> (nat \<times> nat) option" where
  "pair_at br bl bs as i =
     (case (bs (text_of br (bl ! i)), as (text_of br (bl ! i))) of
        (Some (Some bi), Some (Some ai)) \<Rightarrow> if bi = i then Some (i, ai) else None
      | _ \<Rightarrow> None)"

definition unique_pairs :: "str \<Rightarrow> str \<Rightarrow> span list \<Rightarrow> span list \<Rightarrow> span \<Rightarrow> span \<Rightarrow> (nat \<times> nat) list" where
  "unique_pairs br ar bl al b a =
     List.map_filter (pair_at br bl (seen_lines br bl b) (seen_lines ar al a)) [lo b ..< hi b]"

lemma pair_at_Some: "pair_at br bl bs as i = Some (k, j) \<longleftrightarrow>
    k = i \<and> bs (text_of br (bl ! i)) = Some (Some i) \<and> as (text_of br (bl ! i)) = Some (Some j)"
  by (auto simp: pair_at_def split: option.splits if_splits)

text \<open>
  The longest increasing subsequence by piles: \<open>tails ! p\<close> is the pair that ends the best chain of
  \<open>p + 1\<close> pairs, \<open>back ! i\<close> the pair before \<open>i\<close> in its chain. \<^verbatim>\<open>partition_point\<close> searches a list that
  is ascending (\<open>pile_inv\<close> of \<open>Diff_Laws\<close>), where it is the length of the longest prefix that passes.
\<close>

definition partition_point :: "('a \<Rightarrow> bool) \<Rightarrow> 'a list \<Rightarrow> nat" where
  "partition_point p xs = length (takeWhile p xs)"

definition pile_step :: "(nat \<times> nat) list \<Rightarrow> nat \<Rightarrow> nat list \<times> nat option list \<Rightarrow> nat list \<times> nat option list" where
  "pile_step ps i st =
     (case st of (tails, back) \<Rightarrow>
       let pos = partition_point (\<lambda>t. snd (ps ! t) < snd (ps ! i)) tails;
           back' = back[i := (if pos = 0 then None else Some (tails ! (pos - 1)))] in
       (if pos = length tails then tails @ [i] else tails[pos := i], back'))"

definition piles :: "(nat \<times> nat) list \<Rightarrow> nat list \<times> nat option list" where
  "piles ps = fold (pile_step ps) [0 ..< length ps] ([], replicate (length ps) None)"

text \<open>The walk back from the last pile. A link leads to an earlier pair (\<open>pile_inv\<close>), so the guard on it never fails.\<close>

function follow :: "nat option list \<Rightarrow> nat \<Rightarrow> nat list" where
  "follow links i =
     i # (if i < length links then
            (case links ! i of Some j \<Rightarrow> if j < i then follow links j else [] | None \<Rightarrow> [])
          else [])"
  by pat_completeness auto
termination by (relation "measure snd") auto

declare follow.simps [simp del]

definition longest_chain :: "(nat \<times> nat) list \<Rightarrow> (nat \<times> nat) list" where
  "longest_chain ps =
     (case piles ps of (tails, links) \<Rightarrow>
        if tails = [] then [] else rev (map ((!) ps) (follow links (last tails))))"

definition anchor_chain :: "str \<Rightarrow> str \<Rightarrow> span list \<Rightarrow> span list \<Rightarrow> span \<Rightarrow> span \<Rightarrow> (nat \<times> nat) list" where
  "anchor_chain br ar bl al b a = longest_chain (unique_pairs br ar bl al b a)"

section \<open>Regions\<close>

function trim_head :: "str \<Rightarrow> str \<Rightarrow> span list \<Rightarrow> span list \<Rightarrow> span \<Rightarrow> span \<Rightarrow> span \<times> span" where
  "trim_head br ar bl al b a =
     (if \<not> range_empty b \<and> \<not> range_empty a \<and> line_eq br ar (bl ! lo b) (al ! lo a)
      then trim_head br ar bl al (Span (Suc (lo b)) (hi b)) (Span (Suc (lo a)) (hi a))
      else (b, a))"
  by pat_completeness auto
termination
  by (relation "measure (\<lambda>(br, ar, bl, al, b, a). hi b - lo b)") (auto simp: range_empty_def)

function trim_tail :: "str \<Rightarrow> str \<Rightarrow> span list \<Rightarrow> span list \<Rightarrow> span \<Rightarrow> span \<Rightarrow> span \<times> span" where
  "trim_tail br ar bl al b a =
     (if \<not> range_empty b \<and> \<not> range_empty a \<and> line_eq br ar (bl ! (hi b - 1)) (al ! (hi a - 1))
      then trim_tail br ar bl al (Span (lo b) (hi b - 1)) (Span (lo a) (hi a - 1))
      else (b, a))"
  by pat_completeness auto
termination
  by (relation "measure (\<lambda>(br, ar, bl, al, b, a). hi b - lo b)") (auto simp: range_empty_def)

declare trim_head.simps [simp del] trim_tail.simps [simp del]

text \<open>The ranges before, between and after the anchors.\<close>

fun gaps :: "span \<Rightarrow> span \<Rightarrow> (nat \<times> nat) list \<Rightarrow> (span \<times> span) list" where
  "gaps b a [] = [(b, a)]"
| "gaps b a ((bi, ai) # rest) =
     (Span (lo b) bi, Span (lo a) ai) # gaps (Span (Suc bi) (hi b)) (Span (Suc ai) (hi a)) rest"

lemma follow_le: "j \<in> set (follow links i) \<Longrightarrow> j \<le> i"
proof (induction links i arbitrary: j rule: follow.induct)
  case (1 links i)
  have "j \<in> set (i # (if i < length links then
      (case links ! i of Some j \<Rightarrow> if j < i then follow links j else [] | None \<Rightarrow> []) else []))"
    using "1.prems" by (subst (asm) follow.simps)
  then consider "j = i" | k where "i < length links" "links ! i = Some k" "k < i" "j \<in> set (follow links k)"
    by (cases "i < length links"; cases "links ! i") (auto split: if_splits)
  then show ?case
  proof cases
    case (2 k)
    from "1.IH" [OF this] 2(3) show ?thesis by simp
  qed simp
qed

lemma pile_step_below: "pile_step ps i (tails, links) = (tails', links') \<Longrightarrow> t \<in> set tails' \<Longrightarrow> t \<in> insert i (set tails)"
  by (auto simp: pile_step_def Let_def split: if_splits dest: subsetD [OF set_update_subset_insert])

lemma piles_below:
  "n \<le> length ps \<Longrightarrow> fold (pile_step ps) [0 ..< n] ([], replicate (length ps) None) = (tails, links) \<Longrightarrow>
    t \<in> set tails \<Longrightarrow> t < n"
proof (induction n arbitrary: tails links t)
  case (Suc n)
  obtain tails0 links0 where 0: "fold (pile_step ps) [0 ..< n] ([], replicate (length ps) None) = (tails0, links0)"
    by (cases "fold (pile_step ps) [0 ..< n] ([], replicate (length ps) None)")
  with Suc.prems(2) have "pile_step ps n (tails0, links0) = (tails, links)" by simp
  from pile_step_below [OF this Suc.prems(3)] Suc.IH [OF _ 0] Suc.prems(1) show ?case by fastforce
qed simp

lemma longest_chain_sub: "set (longest_chain ps) \<subseteq> set ps"
proof
  fix x assume x: "x \<in> set (longest_chain ps)"
  obtain tails links where p: "piles ps = (tails, links)" by (cases "piles ps")
  with x obtain i where i: "tails \<noteq> []" "i \<in> set (follow links (last tails))" "x = ps ! i"
    by (auto simp: longest_chain_def split: if_splits)
  have "last tails < length ps"
    using piles_below [of "length ps" ps tails links "last tails"] p i(1) by (simp add: piles_def)
  with follow_le [OF i(2)] i(3) show "x \<in> set ps" by simp
qed

lemma unique_pairs_in: "(i, j) \<in> set (unique_pairs br ar bl al b a) \<Longrightarrow> lo b \<le> i \<and> i < hi b"
proof -
  assume "(i, j) \<in> set (unique_pairs br ar bl al b a)"
  then obtain k where k: "k \<in> set [lo b ..< hi b]"
      "pair_at br bl (seen_lines br bl b) (seen_lines ar al a) k = Some (i, j)"
    by (auto simp: unique_pairs_def List.map_filter_def simp del: set_upt)
  then have "k = i" by (simp add: pair_at_Some)
  with k(1) show ?thesis by simp
qed

lemma anchor_chain_in: "(i, j) \<in> set (anchor_chain br ar bl al b a) \<Longrightarrow> lo b \<le> i \<and> i < hi b"
  using longest_chain_sub unique_pairs_in unfolding anchor_chain_def by blast

lemma gaps_bounds:
  assumes "(b', a') \<in> set (gaps b a xs)" "\<forall>(i, j) \<in> set xs. m \<le> i \<and> i < n"
  shows "(lo b' = lo b \<or> m < lo b') \<and> (hi b' = hi b \<or> hi b' < n)"
  using assms
proof (induction xs arbitrary: b a)
  case (Cons x xs)
  obtain i j where x: "x = (i, j)" by (cases x)
  from Cons.prems(1) consider "b' = Span (lo b) i" | "(b', a') \<in> set (gaps (Span (Suc i) (hi b)) (Span (Suc j) (hi a)) xs)"
    by (auto simp: x)
  then show ?case
  proof cases
    case 2
    from Cons.IH [OF this] Cons.prems(2) x show ?thesis by auto
  qed (use Cons.prems(2) x in auto)
qed simp

lemma gaps_shrink:
  assumes "(b', a') \<in> set (gaps b a xs)" "xs \<noteq> []" "\<forall>(i, j) \<in> set xs. lo b \<le> i \<and> i < hi b"
  shows "hi b' - lo b' < hi b - lo b"
proof -
  obtain i j ys where xs: "xs = (i, j) # ys" using assms(2) by (cases xs) auto
  with assms(1) consider "b' = Span (lo b) i" | "(b', a') \<in> set (gaps (Span (Suc i) (hi b)) (Span (Suc j) (hi a)) ys)"
    by auto
  then show ?thesis
  proof cases
    case 2
    from gaps_bounds [OF this, of "lo b" "hi b"] assms(3) xs show ?thesis by auto
  qed (use assms(3) xs in auto)
qed

lemma trim_head_shrinks: "trim_head br ar bl al b a = (b', a') \<Longrightarrow>
    lo b \<le> lo b' \<and> hi b' = hi b \<and> lo a \<le> lo a' \<and> hi a' = hi a"
proof (induction br ar bl al b a rule: trim_head.induct)
  case (1 br ar bl al b a)
  show ?case
  proof (cases "\<not> range_empty b \<and> \<not> range_empty a \<and> line_eq br ar (bl ! lo b) (al ! lo a)")
    case True
    with "1.prems" have "trim_head br ar bl al (Span (Suc (lo b)) (hi b)) (Span (Suc (lo a)) (hi a)) = (b', a')"
      by (subst (asm) trim_head.simps) simp
    from "1.IH" [OF True this] show ?thesis by simp
  qed (use "1.prems" in \<open>auto simp: trim_head.simps [of br ar bl al b a]\<close>)
qed

lemma trim_tail_shrinks: "trim_tail br ar bl al b a = (b', a') \<Longrightarrow>
    lo b' = lo b \<and> hi b' \<le> hi b \<and> lo a' = lo a \<and> hi a' \<le> hi a"
proof (induction br ar bl al b a rule: trim_tail.induct)
  case (1 br ar bl al b a)
  show ?case
  proof (cases "\<not> range_empty b \<and> \<not> range_empty a \<and> line_eq br ar (bl ! (hi b - 1)) (al ! (hi a - 1))")
    case True
    with "1.prems" have "trim_tail br ar bl al (Span (lo b) (hi b - 1)) (Span (lo a) (hi a - 1)) = (b', a')"
      by (subst (asm) trim_tail.simps) simp
    from "1.IH" [OF True this] show ?thesis by auto
  qed (use "1.prems" in \<open>auto simp: trim_tail.simps [of br ar bl al b a]\<close>)
qed

text \<open>One step: trim the common edges, anchor, go on between the anchors.\<close>

definition trimmed :: "str \<Rightarrow> str \<Rightarrow> span list \<Rightarrow> span list \<Rightarrow> span \<Rightarrow> span \<Rightarrow> span \<times> span" where
  "trimmed br ar bl al b a = (case trim_head br ar bl al b a of (b', a') \<Rightarrow> trim_tail br ar bl al b' a')"

lemma trimmed_shrinks: "trimmed br ar bl al b a = (b', a') \<Longrightarrow>
    lo b \<le> lo b' \<and> hi b' \<le> hi b \<and> lo a \<le> lo a' \<and> hi a' \<le> hi a"
  using trim_head_shrinks trim_tail_shrinks unfolding trimmed_def by (fastforce split: prod.splits)

function partition_lines :: "str \<Rightarrow> str \<Rightarrow> span list \<Rightarrow> span list \<Rightarrow> span \<Rightarrow> span \<Rightarrow> (span \<times> span) list" where
  "partition_lines br ar bl al b a =
     (case trimmed br ar bl al b a of (b', a') \<Rightarrow>
        if range_empty b' \<and> range_empty a' then []
        else if range_empty b' \<or> range_empty a' then [(bytes_of br bl b', bytes_of ar al a')]
        else let anchors = anchor_chain br ar bl al b' a' in
          if anchors = [] then [(bytes_of br bl b', bytes_of ar al a')]
          else concat (map (\<lambda>(bg, ag). partition_lines br ar bl al bg ag) (gaps b' a' anchors)))"
  by pat_completeness auto
termination
proof (relation "measure (\<lambda>(br, ar, bl, al, b, a). hi b - lo b)")
  fix br ar bl al b a b' a' anchors g bg ag
  assume t: "(b', a') = trimmed br ar bl al b a"
    and anchors: "anchors = anchor_chain br ar bl al b' a'" "anchors \<noteq> []"
    and g: "g \<in> set (gaps b' a' anchors)" "(bg, ag) = g"
  have "hi bg - lo bg < hi b' - lo b'"
    by (rule gaps_shrink [of bg ag b' a' anchors]) (use g anchors anchor_chain_in in fastforce)+
  moreover have "lo b \<le> lo b'" "hi b' \<le> hi b"
    using trimmed_shrinks [OF t [symmetric]] by simp_all
  ultimately show "((br, ar, bl, al, bg, ag), (br, ar, bl, al, b, a)) \<in> measure (\<lambda>(br, ar, bl, al, b, a). hi b - lo b)"
    by simp
qed simp

declare partition_lines.simps [simp del]

definition changed_regions :: "str \<Rightarrow> str \<Rightarrow> (span \<times> span) list" where
  "changed_regions before after =
     (if before = after then []
      else let bl = line_spans before; al = line_spans after in
        partition_lines before after bl al (Span 0 (length bl)) (Span 0 (length al)))"

end
