(* ===== verification/Delta.thy ===== *)
theory Delta
  imports Resolve Diff
begin

text \<open>
  The change facts of \<^verbatim>\<open>crates/model/src/delta.rs\<close>: for two states of one file, which addressable
  nodes were added, edited, given an anchor, or removed. A panic is \<^const>\<open>None\<close>.

  A node is a value here; where the code compares two nodes by address, the model compares the
  values, of which a tree holds one copy (two sections of a tree differ in their spans).
\<close>

section \<open>Facts\<close>

datatype file_change_kind = Created | Modified | Deleted

datatype node_change_kind = Added | Edited | Anchored | Removed

record node_delta =
  nd_target :: ref
  nd_change :: node_change_kind
  nd_before :: "str option"
  nd_after :: "str option"
  nd_span :: "span option"

record file_fact =
  fd_change :: file_change_kind
  fd_before :: "str option"
  fd_after :: "str option"
  fd_nodes :: "node_delta list"

section \<open>Identities\<close>

definition section_children :: "node \<Rightarrow> node list" where
  "section_children n = filter (\<lambda>c. is_section (kind c)) (children n)"

definition heading_of :: "node \<Rightarrow> str option" where
  "heading_of n = (case kind n of Section t l \<Rightarrow> Some t | _ \<Rightarrow> None)"

definition occurrence :: "node list \<Rightarrow> node \<Rightarrow> nat option" where
  "occurrence same n =
     (if 1 < length same then
        (case position (\<lambda>c. c = n) same of
           Some p \<Rightarrow> if Suc p \<le> u32_max then Some (Suc p) else None
         | None \<Rightarrow> None)
      else None)"

text \<open>The way down to a section, one heading a level, with its number where the heading repeats.\<close>

function section_path :: "node \<Rightarrow> node \<Rightarrow> hpath_seg list option" where
  "section_path scope n =
     (case find (\<lambda>c. covers (span c) (span n) \<or> span c = span n) (section_children scope) of
        None \<Rightarrow> None
      | Some below \<Rightarrow>
          (case heading_of below of
             None \<Rightarrow> None
           | Some h \<Rightarrow>
               let same = filter (\<lambda>c. heading_of c = Some h) (section_children scope);
                   seg = \<lparr>seg_h = h, seg_n = occurrence same below\<rparr> in
               if below = n then Some [seg] else map_option ((#) seg) (section_path below n)))"
  by pat_completeness auto
termination
proof (relation "measure (\<lambda>(scope, n). size scope)")
  fix scope n below h same seg
  assume "find (\<lambda>c. covers (span c) (span n) \<or> span c = span n) (section_children scope) = Some below"
  then have "below \<in> set (children scope)" by (auto simp: find_Some_iff section_children_def dest: nth_mem)
  then show "((below, n), (scope, n)) \<in> measure (\<lambda>(scope, n). size scope)"
    by (cases scope) (auto dest: size_list_estimation' [where f = size, OF _ order_refl] simp: less_Suc_eq_le)
qed simp

declare section_path.simps [simp del]

definition section_ref_of :: "document \<Rightarrow> node \<Rightarrow> ref option" where
  "section_ref_of doc n = map_option Hpath (section_path (root doc) n)"

fun key_holding :: "(str \<Rightarrow> str) \<Rightarrow> document \<Rightarrow> span \<Rightarrow> str list \<Rightarrow> ref option option" where
  "key_holding hash doc r [] = Some None"
| "key_holding hash doc r (key # ks) = do {
     x \<leftarrow> resolve hash doc (FmKey key);
     case x of
       Inr t \<Rightarrow> if covers (tgt_span t) r then Some (Some (FmKey key)) else key_holding hash doc r ks
     | Inl _ \<Rightarrow> key_holding hash doc r ks }"

definition identity_of :: "(str \<Rightarrow> str) \<Rightarrow> document \<Rightarrow> node \<Rightarrow> span \<Rightarrow> ref option option" where
  "identity_of hash doc n r =
     (case kind n of
        Section t l \<Rightarrow> Some (section_ref_of doc n)
      | Anchor name \<Rightarrow> Some (case anchor_ref name of Inr x \<Rightarrow> Some x | Inl _ \<Rightarrow> None)
      | Frontmatter m \<Rightarrow> key_holding hash doc r (map fst m)
      | _ \<Rightarrow> Some None)"

section \<open>Collecting\<close>

text \<open>A loop whose steps may panic and pass a value on.\<close>

fun pass :: "('a \<Rightarrow> 's \<Rightarrow> 's option) \<Rightarrow> 'a list \<Rightarrow> 's \<Rightarrow> 's option" where
  "pass f [] s = Some s"
| "pass f (x # xs) s = do { s' \<leftarrow> f x s; pass f xs s' }"

lemma pass_cong [fundef_cong]:
  "xs = ys \<Longrightarrow> s = t \<Longrightarrow> (\<And>x s. x \<in> set ys \<Longrightarrow> f x s = g x s) \<Longrightarrow> pass f xs s = pass g ys t"
  by (induction ys arbitrary: xs s t) (auto intro!: Option.bind_cong)

definition meets :: "span \<Rightarrow> span \<Rightarrow> bool" where
  "meets a b \<longleftrightarrow> lo a < hi b \<and> lo b < hi a"

fun addressable :: "node_kind \<Rightarrow> bool" where
  "addressable (Section _ _) = True"
| "addressable (Anchor _) = True"
| "addressable (Frontmatter _) = True"
| "addressable _ = False"

fun addressable_subtree :: "node \<Rightarrow> bool" where
  "addressable_subtree (Node k r v h cs) = (addressable k \<or> (\<exists>c \<in> set cs. addressable_subtree c))"

text \<open>An entry that is there already; a region that is no mint turns it from anchored to edited.\<close>

fun touch_again :: "bool \<Rightarrow> ref \<Rightarrow> node_delta list \<Rightarrow> node_delta list option" where
  "touch_again mint target [] = None"
| "touch_again mint target (d # ds) =
     (if nd_target d = target
      then Some ((if \<not> mint \<and> nd_change d = Anchored then d\<lparr>nd_change := Edited\<rparr> else d) # ds)
      else map_option ((#) d) (touch_again mint target ds))"

definition push_touched :: "(str \<Rightarrow> str) \<Rightarrow> document \<Rightarrow> ref \<Rightarrow> str \<Rightarrow> span \<Rightarrow> bool \<Rightarrow> node_delta list \<Rightarrow>
    node_delta list option" where
  "push_touched hash before target rev_after span_after mint out =
     (case touch_again mint target out of
        Some out' \<Rightarrow> Some out'
      | None \<Rightarrow> do {
          x \<leftarrow> resolve hash before target;
          Some (case x of
            Inr prior \<Rightarrow>
              if tgt_rev prior \<noteq> rev_after then
                out @ [\<lparr>nd_target = target, nd_change = (if mint then Anchored else Edited),
                  nd_before = Some (tgt_rev prior), nd_after = Some rev_after, nd_span = Some span_after\<rparr>]
              else out
          | Inl NotFound \<Rightarrow>
              out @ [\<lparr>nd_target = target, nd_change = Added, nd_before = None, nd_after = Some rev_after,
                nd_span = Some span_after\<rparr>]
          | Inl (Ambiguous _) \<Rightarrow> out) })"

definition touch_key :: "(str \<Rightarrow> str) \<Rightarrow> document \<Rightarrow> document \<Rightarrow> span \<Rightarrow> bool \<Rightarrow> str \<Rightarrow> node_delta list \<Rightarrow>
    node_delta list option" where
  "touch_key hash before after reach mint key out = do {
     x \<leftarrow> resolve hash after (FmKey key);
     case x of
       Inl _ \<Rightarrow> Some out
     | Inr t \<Rightarrow>
         if meets (tgt_span t) reach
         then push_touched hash before (FmKey key) (tgt_rev t) (tgt_span t) mint out else Some out }"

definition touch_node :: "(str \<Rightarrow> str) \<Rightarrow> document \<Rightarrow> document \<Rightarrow> span \<Rightarrow> bool \<Rightarrow> node \<Rightarrow> node_delta list \<Rightarrow>
    node_delta list option" where
  "touch_node hash before after reach mint n out = do {
     i \<leftarrow> identity_of hash after n reach;
     case i of
       None \<Rightarrow> Some out
     | Some target \<Rightarrow> push_touched hash before target (node_rev n) (span n) mint out }"

fun frontmatter_keys :: "node_kind \<Rightarrow> str list option" where
  "frontmatter_keys (Frontmatter m) = Some (map fst m)"
| "frontmatter_keys _ = None"

definition touched_children :: "span \<Rightarrow> node \<Rightarrow> node list" where
  "touched_children reach n = filter (\<lambda>c. meets (span c) reach \<and> addressable_subtree c) (children n)"

function collect_touched :: "(str \<Rightarrow> str) \<Rightarrow> document \<Rightarrow> document \<Rightarrow> span \<Rightarrow> bool \<Rightarrow> node \<Rightarrow> node_delta list \<Rightarrow>
    node_delta list option" where
  "collect_touched hash before after reach mint n out =
     (if \<not> meets (span n) reach then Some out
      else case frontmatter_keys (kind n) of
        Some ks \<Rightarrow> pass (touch_key hash before after reach mint) ks out
      | None \<Rightarrow>
          if touched_children reach n = [] then touch_node hash before after reach mint n out
          else pass (\<lambda>c out. collect_touched hash before after reach mint c out) (touched_children reach n) out)"
  by pat_completeness auto
termination
proof (relation "measure (\<lambda>(hash, before, after, reach, mint, n, out). size n)")
  fix hash :: "str \<Rightarrow> str" and before after reach mint n out c and out' :: "node_delta list"
  assume "c \<in> set (touched_children reach n)"
  then have "c \<in> set (children n)" by (simp add: touched_children_def)
  then show "((hash, before, after, reach, mint, c, out'), (hash, before, after, reach, mint, n, out)) \<in>
      measure (\<lambda>(hash, before, after, reach, mint, n, out). size n)"
    by (cases n) (auto dest: size_list_estimation' [where f = size, OF _ order_refl] simp: less_Suc_eq_le)
qed simp

declare collect_touched.simps [simp del]

definition push_removed :: "ref \<Rightarrow> str \<Rightarrow> node_delta list \<Rightarrow> node_delta list" where
  "push_removed target rev_before out =
     (if target \<in> nd_target ` set out then out
      else out @ [\<lparr>nd_target = target, nd_change = Removed, nd_before = Some rev_before, nd_after = None,
        nd_span = None\<rparr>])"

definition drop_key :: "(str \<Rightarrow> str) \<Rightarrow> document \<Rightarrow> document \<Rightarrow> span \<Rightarrow> str \<Rightarrow> node_delta list \<Rightarrow>
    node_delta list option" where
  "drop_key hash before after reach key out = do {
     x \<leftarrow> resolve hash before (FmKey key);
     case x of
       Inl _ \<Rightarrow> Some out
     | Inr t \<Rightarrow>
         if meets (tgt_span t) reach then do {
           y \<leftarrow> resolve hash after (FmKey key);
           Some (if y = Inl NotFound then push_removed (FmKey key) (tgt_rev t) out else out) }
         else Some out }"

text \<open>The identity of a node that provably no longer resolves.\<close>

definition gone :: "(str \<Rightarrow> str) \<Rightarrow> document \<Rightarrow> document \<Rightarrow> span \<Rightarrow> node \<Rightarrow> ref option option" where
  "gone hash before after reach n = do {
     i \<leftarrow> identity_of hash before n reach;
     case i of
       None \<Rightarrow> Some None
     | Some target \<Rightarrow> do {
         y \<leftarrow> resolve hash after target;
         Some (if y = Inl NotFound then Some target else None) } }"

function collect_removed :: "(str \<Rightarrow> str) \<Rightarrow> document \<Rightarrow> document \<Rightarrow> span \<Rightarrow> node \<Rightarrow> node_delta list \<Rightarrow>
    node_delta list option" where
  "collect_removed hash before after reach n out =
     (if \<not> meets (span n) reach \<and> \<not> range_empty reach then Some out
      else case frontmatter_keys (kind n) of
        Some ks \<Rightarrow> pass (drop_key hash before after reach) ks out
      | None \<Rightarrow> do {
          g \<leftarrow> gone hash before after reach n;
          case g of
            Some target \<Rightarrow> Some (push_removed target (node_rev n) out)
          | None \<Rightarrow> pass (\<lambda>c out. collect_removed hash before after reach c out) (children n) out })"
  by pat_completeness auto
termination
proof (relation "measure (\<lambda>(hash, before, after, reach, n, out). size n)")
  fix hash :: "str \<Rightarrow> str" and before after reach n out c and out' :: "node_delta list"
  assume "c \<in> set (children n)"
  then show "((hash, before, after, reach, c, out'), (hash, before, after, reach, n, out)) \<in>
      measure (\<lambda>(hash, before, after, reach, n, out). size n)"
    by (cases n) (auto dest: size_list_estimation' [where f = size, OF _ order_refl] simp: less_Suc_eq_le)
qed simp

declare collect_removed.simps [simp del]

section \<open>Anchor mints\<close>

fun markers_from :: "nat \<Rightarrow> str \<Rightarrow> (span \<times> str) list" where
  "markers_from i [] = []"
| "markers_from i (c # cs) =
     (let name = takeWhile block_id_char cs in
      (if c = CHR ''^'' \<and> name \<noteq> [] then [(Span i (Suc (i + length name)), name)] else []) @
      markers_from (Suc i) cs)"

definition markers :: "str \<Rightarrow> (span \<times> str) list" where
  "markers s = markers_from 0 s"

definition tail_start :: "str \<Rightarrow> nat \<Rightarrow> nat \<Rightarrow> nat" where
  "tail_start s start i = i - length (takeWhile ascii_space (rev (sub s start i)))"

text \<open>The bytes a marker takes with it: its line if it is alone there, else the blanks before it.\<close>

definition marker_cut :: "str \<Rightarrow> span \<Rightarrow> span" where
  "marker_cut s r =
     (let start = (case position (\<lambda>c. c = lf) (rev (take (lo r) s)) of None \<Rightarrow> 0 | Some k \<Rightarrow> lo r - k);
          stop = (case position (\<lambda>c. c = lf) (drop (hi r) s) of None \<Rightarrow> length s | Some k \<Rightarrow> Suc (hi r + k)) in
      if list_all ascii_space (sub s start (lo r)) \<and> list_all ascii_space (sub s (hi r) stop)
      then Span start stop else Span (tail_start s start (lo r)) (hi r))"

definition strip_marker :: "str \<Rightarrow> span \<Rightarrow> str option" where
  "strip_marker s r = do {
     _ \<leftarrow> str_slice s (Span 0 (lo r));
     _ \<leftarrow> str_slice s (Span (hi r) (length s));
     a \<leftarrow> str_slice s (Span 0 (lo (marker_cut s r)));
     b \<leftarrow> str_slice s (Span (hi (marker_cut s r)) (length s));
     Some (a @ b) }"

fun any_mint :: "(str \<Rightarrow> str) \<Rightarrow> document \<Rightarrow> document \<Rightarrow> str \<Rightarrow> str \<Rightarrow> (span \<times> str) list \<Rightarrow> bool option" where
  "any_mint hash before after bt at [] = Some False"
| "any_mint hash before after bt at ((r, name) # ms) = do {
     stripped \<leftarrow> strip_marker at r;
     hit \<leftarrow> (if stripped = bt then
        (case anchor_ref name of
           Inl _ \<Rightarrow> Some False
         | Inr x \<Rightarrow> do {
             now \<leftarrow> resolve hash after x;
             case now of
               Inl _ \<Rightarrow> Some False
             | Inr _ \<Rightarrow> do { old \<leftarrow> resolve hash before x; Some (old = Inl NotFound) } })
      else Some False);
     if hit then Some True else any_mint hash before after bt at ms }"

definition anchor_mint :: "(str \<Rightarrow> str) \<Rightarrow> document \<Rightarrow> document \<Rightarrow> span \<Rightarrow> span \<Rightarrow> bool option" where
  "anchor_mint hash before after b a = do {
     at \<leftarrow> str_slice (raw after) a;
     bt \<leftarrow> str_slice (raw before) b;
     any_mint hash before after bt at (markers at) }"

section \<open>The facts of a file\<close>

definition trim_final_terminator :: "str \<Rightarrow> span \<Rightarrow> span" where
  "trim_final_terminator s r = (if lo r < hi r \<and> s ! (hi r - 1) = lf then Span (lo r) (hi r - 1) else r)"

definition region_deltas :: "(str \<Rightarrow> str) \<Rightarrow> document \<Rightarrow> document \<Rightarrow> span \<times> span \<Rightarrow> node_delta list \<Rightarrow>
    node_delta list option" where
  "region_deltas hash before after ba out = do {
     let (b, a) = ba;
     out1 \<leftarrow> (if range_empty a then Some out else do {
         mint \<leftarrow> anchor_mint hash before after b a;
         let probe = trim_final_terminator (raw after) a;
         if range_empty probe then Some out
         else collect_touched hash before after probe mint (root after) out });
     if range_empty b then Some out1
     else collect_removed hash before after (trim_final_terminator (raw before) b) (root before) out1 }"

definition node_deltas :: "(str \<Rightarrow> str) \<Rightarrow> document \<Rightarrow> document \<Rightarrow> node_delta list option" where
  "node_deltas hash before after =
     pass (region_deltas hash before after) (changed_regions (raw before) (raw after)) []"

fun file_delta :: "(str \<Rightarrow> str) \<Rightarrow> document option \<Rightarrow> document option \<Rightarrow> file_fact option option" where
  "file_delta hash None None = Some None"
| "file_delta hash None (Some a) =
     Some (Some \<lparr>fd_change = Created, fd_before = None, fd_after = Some (node_rev (root a)), fd_nodes = []\<rparr>)"
| "file_delta hash (Some b) None =
     Some (Some \<lparr>fd_change = Deleted, fd_before = Some (node_rev (root b)), fd_after = None, fd_nodes = []\<rparr>)"
| "file_delta hash (Some b) (Some a) =
     (if node_rev (root b) = node_rev (root a) then Some None
      else do {
        ns \<leftarrow> node_deltas hash b a;
        Some (Some \<lparr>fd_change = Modified, fd_before = Some (node_rev (root b)),
          fd_after = Some (node_rev (root a)), fd_nodes = ns\<rparr>) })"

end
