(* ===== verification/Diff_Laws.thy ===== *)
theory Diff_Laws
  imports Diff Splice_Laws
begin

text \<open>
  Laws of the line diff: the lines tile the text; the kept chain of anchors is increasing on both
  sides and no increasing chain of anchors is longer; and the regions, applied as edits by the file
  writer, turn either text into the other.
\<close>

section \<open>Lines tile the text\<close>

fun tiles :: "nat \<Rightarrow> span list \<Rightarrow> nat \<Rightarrow> bool" where
  "tiles c [] e \<longleftrightarrow> c = e"
| "tiles c (r # rs) e \<longleftrightarrow> lo r = c \<and> c < hi r \<and> tiles (hi r) rs e"

definition line_at :: "str \<Rightarrow> span list \<Rightarrow> nat \<Rightarrow> nat" where
  "line_at s ls i = (if i < length ls then lo (ls ! i) else length s)"

lemma tiles_from: "start \<le> i \<Longrightarrow> tiles start (line_spans_from start i cs) (i + length cs)"
  by (induction start i cs rule: line_spans_from.induct) auto

lemma tiles_line_spans: "tiles 0 (line_spans s) (length s)"
  using tiles_from [of 0 0 s] by (simp add: line_spans_def)

lemma tiles_nth:
  "tiles c ls e \<Longrightarrow> i < length ls \<Longrightarrow>
    lo (ls ! i) < hi (ls ! i) \<and> c \<le> lo (ls ! i) \<and> hi (ls ! i) \<le> e \<and>
    hi (ls ! i) = (if Suc i < length ls then lo (ls ! Suc i) else e)"
proof (induction ls arbitrary: c i)
  case (Cons r rs)
  have le: "tiles d rs e \<Longrightarrow> d \<le> e" for d by (induction rs arbitrary: d) fastforce+
  show ?case
  proof (cases i)
    case 0
    have "hi r = (if rs = [] then e else lo (hd rs))" using Cons.prems(1) by (cases rs) auto
    with 0 Cons.prems le show ?thesis by (cases rs) auto
  next
    case (Suc j)
    with Cons.IH [of "hi r" j] Cons.prems show ?thesis by auto
  qed
qed simp

locale text_lines =
  fixes s :: str and ls :: "span list"
  assumes tiling: "tiles 0 ls (length s)"
begin

lemma line_next: "i < length ls \<Longrightarrow> hi (ls ! i) = line_at s ls (Suc i)"
  using tiles_nth [OF tiling] by (simp add: line_at_def)

lemma line_lo: "i < length ls \<Longrightarrow> lo (ls ! i) = line_at s ls i"
  by (simp add: line_at_def)

lemma line_at_step: "line_at s ls i \<le> line_at s ls (Suc i)"
  using tiles_nth [OF tiling, of i] by (auto simp: line_at_def)

lemma line_at_mono: "i \<le> j \<Longrightarrow> line_at s ls i \<le> line_at s ls j"
  by (rule lift_Suc_mono_le [of "line_at s ls"]) (rule line_at_step)

lemma line_at_le: "line_at s ls i \<le> length s"
  using tiles_nth [OF tiling, of i] by (auto simp: line_at_def)

lemma line_at_0: "line_at s ls 0 = 0"
  using tiling by (cases ls) (auto simp: line_at_def)

lemma line_at_end [simp]: "line_at s ls (length ls) = length s"
  by (simp add: line_at_def)

lemma bytes_of_range: "lo r \<le> hi r \<Longrightarrow> hi r \<le> length ls \<Longrightarrow>
    bytes_of s ls r = Span (line_at s ls (lo r)) (line_at s ls (hi r))"
  using line_next [of "hi r - 1"] by (auto simp: bytes_of_def range_empty_def Let_def line_at_def)

lemma line_text: "i < length ls \<Longrightarrow> text_of s (ls ! i) = sub s (line_at s ls i) (line_at s ls (Suc i))"
  by (simp add: text_of_def line_next line_lo)

end

interpretation doc_lines: text_lines s "line_spans s" for s
  by unfold_locales (rule tiles_line_spans)

lemma lines_from_boundary:
  assumes "utf8_valid s"
  shows "s = pre @ cs \<Longrightarrow> i = length pre \<Longrightarrow> is_char_boundary s start \<Longrightarrow> r \<in> set (line_spans_from start i cs) \<Longrightarrow>
    is_char_boundary s (lo r) \<and> is_char_boundary s (hi r)"
proof (induction start i cs arbitrary: pre rule: line_spans_from.induct)
  case (2 start i c cs)
  show ?case
  proof (cases "c = lf")
    case True
    have "i < length s" "s ! i = lf" using "2.prems" True by simp_all
    then have "is_char_boundary s (Suc i)" using ascii_boundary(2) [OF assms] by simp
    with "2.IH"(1) [OF True, of "pre @ [c]"] "2.prems" True show ?thesis by auto
  next
    case False
    with "2.IH"(2) [OF False, of "pre @ [c]"] "2.prems" show ?thesis by auto
  qed
qed (auto split: if_splits)

text \<open>No slice of a line panics.\<close>

lemma lines_good:
  assumes "utf8_valid s" and "r \<in> set (line_spans s)"
  shows "good_span s r"
proof -
  obtain i where i: "i < length (line_spans s)" "r = line_spans s ! i" using assms(2) by (auto simp: in_set_conv_nth)
  have "is_char_boundary s (lo r) \<and> is_char_boundary s (hi r)"
    by (rule lines_from_boundary [OF assms(1), of "[]" s 0 0]) (use assms(2) in \<open>simp_all add: line_spans_def\<close>)
  with tiles_nth [OF tiles_line_spans i(1)] i(2) show ?thesis by (simp add: good_span_def span_in_def)
qed

section \<open>Anchors\<close>

lemma singleton_list: "distinct ys \<Longrightarrow> ys = [i] \<longleftrightarrow> set ys = {i}"
  by (cases ys; cases "tl ys") auto

lemma seen_lines_Some:
  "seen_lines s ls r t = Some (Some i) \<longleftrightarrow>
    i \<in> {lo r ..< hi r} \<and> text_of s (ls ! i) = t \<and> (\<forall>j \<in> {lo r ..< hi r}. text_of s (ls ! j) = t \<longrightarrow> j = i)"
proof -
  have "fold (see s ls) is Map.empty t =
      (case filter (\<lambda>i. text_of s (ls ! i) = t) is of [] \<Rightarrow> None | [i] \<Rightarrow> Some (Some i) | _ \<Rightarrow> Some None)" for "is"
  proof (induction "is" rule: rev_induct)
    case (snoc i "is")
    let ?f = "filter (\<lambda>i. text_of s (ls ! i) = t) is"
    consider "?f = []" | k where "?f = [k]" | k l m where "?f = k # l # m" by (cases ?f; cases "tl ?f") auto
    then show ?case using snoc by cases (auto simp: see_def Let_def)
  qed simp
  then have "seen_lines s ls r t = Some (Some i) \<longleftrightarrow> filter (\<lambda>i. text_of s (ls ! i) = t) [lo r ..< hi r] = [i]"
    by (auto simp: seen_lines_def split: list.splits)
  also have "\<dots> \<longleftrightarrow> set (filter (\<lambda>i. text_of s (ls ! i) = t) [lo r ..< hi r]) = {i}"
    by (rule singleton_list) simp
  also have "\<dots> \<longleftrightarrow> i \<in> {lo r ..< hi r} \<and> text_of s (ls ! i) = t \<and>
      (\<forall>j \<in> {lo r ..< hi r}. text_of s (ls ! j) = t \<longrightarrow> j = i)"
    unfolding set_filter set_upt by blast
  finally show ?thesis .
qed

lemma map_filter_mem: "x \<in> set (List.map_filter f xs) \<longleftrightarrow> (\<exists>i \<in> set xs. f i = Some x)"
  by (force simp: List.map_filter_def)

lemma unique_pairs_iff:
  "(i, j) \<in> set (unique_pairs br ar bl al b a) \<longleftrightarrow>
     i \<in> {lo b ..< hi b} \<and> seen_lines br bl b (text_of br (bl ! i)) = Some (Some i) \<and>
     seen_lines ar al a (text_of br (bl ! i)) = Some (Some j)"
  by (auto simp: unique_pairs_def map_filter_mem pair_at_Some)

lemma unique_pairs_ascend: "sorted_wrt (\<lambda>x y. fst x < fst y) (unique_pairs br ar bl al b a)"
proof -
  have "sorted_wrt (\<lambda>x y. fst x < fst y) (List.map_filter (pair_at br bl bs as) is)"
    if "sorted_wrt (<) is" for bs as "is"
    using that
  proof (induction "is")
    case (Cons i "is")
    have "fst x \<in> set is" if x: "x \<in> set (List.map_filter (pair_at br bl bs as) is)" for x
    proof -
      obtain k where "k \<in> set is" "pair_at br bl bs as k = Some x"
        using x unfolding map_filter_mem by blast
      then show ?thesis using pair_at_Some [of br bl bs as k "fst x" "snd x"] by simp
    qed
    with Cons show ?case
      by (auto simp: List.map_filter_simps pair_at_Some split: option.splits)
  qed (simp add: List.map_filter_simps)
  then show ?thesis unfolding unique_pairs_def by simp
qed

section \<open>The longest chain\<close>

text \<open>Increasing index lists, by a height \<open>v\<close>; the piles carry the best of them.\<close>

definition rise :: "(nat \<Rightarrow> nat) \<Rightarrow> nat list \<Rightarrow> bool" where
  "rise v xs \<longleftrightarrow> sorted_wrt (\<lambda>i j. i < j \<and> v i < v j) xs"

definition pile_inv :: "(nat \<Rightarrow> nat) \<Rightarrow> nat \<Rightarrow> nat \<Rightarrow> nat list \<Rightarrow> nat option list \<Rightarrow> bool" where
  "pile_inv v m n tails links \<longleftrightarrow>
     length links = m \<and> (\<forall>t \<in> set tails. t < n) \<and> sorted_wrt (\<lambda>s t. v s < v t) tails \<and>
     (\<forall>p < length tails. rise v (rev (follow links (tails ! p))) \<and> length (follow links (tails ! p)) = Suc p) \<and>
     (\<forall>xs i. rise v (xs @ [i]) \<longrightarrow> i < n \<longrightarrow> length xs < length tails \<and> v (tails ! length xs) \<le> v i)"

lemma follow_hd: "\<exists>ks. follow links i = i # ks"
  by (subst follow.simps) auto

lemma follow_update: "i < n \<Longrightarrow> follow (links[n := x]) i = follow links i"
proof (induction links i rule: follow.induct)
  case (1 links i)
  show ?case
    by (subst (1 2) follow.simps) (use 1 in \<open>auto split: option.splits\<close>)
qed

lemma follow_new: "n < length links \<Longrightarrow> t < n \<Longrightarrow> follow (links[n := Some t]) n = n # follow links t"
  by (subst follow.simps) (simp add: follow_update)

lemma follow_first: "n < length links \<Longrightarrow> follow (links[n := None]) n = [n]"
  by (subst follow.simps) simp

lemma rise_snoc: "rise v (xs @ [j]) \<Longrightarrow> j < i \<Longrightarrow> v j < v i \<Longrightarrow> rise v (xs @ [j, i])"
  unfolding rise_def by (fastforce simp: sorted_wrt_append)

lemma pos_bounds:
  assumes "sorted_wrt (\<lambda>s t. v s < v t) tails" "pos = partition_point (\<lambda>t. v t < (x::nat)) tails"
  shows "pos \<le> length tails" "\<And>p. p < pos \<Longrightarrow> v (tails ! p) < x"
    "\<And>p. pos \<le> p \<Longrightarrow> p < length tails \<Longrightarrow> x \<le> v (tails ! p)"
proof -
  show "pos \<le> length tails" using assms(2) by (simp add: partition_point_def length_takeWhile_le)
  show "v (tails ! p) < x" if "p < pos" for p
    using that assms(2) by (metis partition_point_def nth_mem set_takeWhileD takeWhile_nth)
  show "x \<le> v (tails ! p)" if "pos \<le> p" "p < length tails" for p
  proof -
    have "x \<le> v (tails ! pos)"
      using that assms(2) nth_length_takeWhile [of "\<lambda>t. v t < x" tails]
      by (simp add: partition_point_def not_less)
    also have "v (tails ! pos) \<le> v (tails ! p)"
      using that sorted_wrt_nth_less [OF assms(1), of pos p] by (cases "pos = p") auto
    finally show ?thesis .
  qed
qed

lemma pile_step_inv:
  assumes inv: "pile_inv (\<lambda>i. snd (ps ! i)) m n tails links" and n: "n < m"
    and step: "pile_step ps n (tails, links) = (tails', links')"
  shows "pile_inv (\<lambda>i. snd (ps ! i)) m (Suc n) tails' links'"
proof -
  let ?v = "\<lambda>i. snd (ps ! i)"
  note i = inv [unfolded pile_inv_def]
  define pos where "pos = partition_point (\<lambda>t. ?v t < ?v n) tails"
  have sorted: "sorted_wrt (\<lambda>s t. ?v s < ?v t) tails" using i by blast
  note pos = pos_bounds [OF sorted pos_def]
  define prev where "prev = (if pos = 0 then None else Some (tails ! (pos - 1)))"
  have links': "links' = links[n := prev]" and len: "length links = m"
    using step i by (auto simp: pile_step_def Let_def pos_def prev_def split: if_splits)
  have tails': "tails' = (if pos = length tails then tails @ [n] else tails[pos := n])"
    using step by (auto simp: pile_step_def Let_def pos_def split: if_splits)
  have at: "tails' ! p = (if p = pos then n else tails ! p)" if "p < length tails'" for p
    using that pos(1) by (auto simp: tails' nth_append)
  have length': "length tails' = max (length tails) (Suc pos)" using pos(1) by (auto simp: tails')
  have below: "\<forall>t \<in> set tails. t < n" using i by blast
  then have below_nth: "tails ! p < n" if "p < length tails" for p using that by simp
  have old: "follow links' t = follow links t" if "t < n" for t unfolding links' by (rule follow_update [OF that])
  have fresh: "rise ?v (rev (follow links' n)) \<and> length (follow links' n) = Suc pos"
  proof (cases "pos = 0")
    case True
    then show ?thesis using n len by (simp add: links' prev_def follow_first rise_def)
  next
    case False
    let ?t = "tails ! (pos - 1)"
    have p: "pos - 1 < length tails" using False pos(1) by simp
    have "follow links' n = n # follow links ?t"
      using False n len below_nth [OF p] by (simp add: links' prev_def follow_new)
    moreover have "rise ?v (rev (follow links ?t))" "length (follow links ?t) = pos"
      using i p False by auto
    moreover obtain ks where "follow links ?t = ?t # ks" using follow_hd by blast
    moreover have "?v ?t < ?v n" "?t < n" using False pos(2) [of "pos - 1"] below_nth [OF p] by simp_all
    ultimately show ?thesis using rise_snoc [of ?v "rev ks" ?t n] by simp
  qed
  have chains: "rise ?v (rev (follow links' (tails' ! p))) \<and> length (follow links' (tails' ! p)) = Suc p"
    if "p < length tails'" for p
  proof (cases "p = pos")
    case False
    with that length' pos(1) have "p < length tails" by auto
    with False i old below_nth that at show ?thesis by auto
  qed (use fresh at that in simp)
  have ascend: "sorted_wrt (\<lambda>s t. ?v s < ?v t) tails'"
    unfolding sorted_wrt_iff_nth_less
  proof (intro allI impI)
    fix p q assume pq: "p < q" "q < length tails'"
    have "?v (tails ! p) < ?v (tails ! q)" if "q < length tails"
      using sorted_wrt_nth_less [OF sorted pq(1) that] .
    moreover have "p < length tails" "q = pos \<or> q < length tails" using pq length' pos(1) by auto
    moreover have "?v n < ?v (tails ! q)" if "p = pos" "q < length tails"
      using pos(3) [of pos] sorted_wrt_nth_less [OF sorted, of pos q] that pq by auto
    ultimately show "?v (tails' ! p) < ?v (tails' ! q)"
      using at [of p] at [of q] pq pos(2) [of p] by auto
  qed
  have best: "length xs < length tails' \<and> ?v (tails' ! length xs) \<le> ?v k"
    if xs: "rise ?v (xs @ [k])" "k < Suc n" for xs k
  proof (cases "k < n")
    case True
    then have "length xs < length tails" "?v (tails ! length xs) \<le> ?v k" using i xs by blast+
    then show ?thesis using at [of "length xs"] length' pos(3) [of pos] by fastforce
  next
    case False
    then have k: "k = n" using xs(2) by simp
    show ?thesis
    proof (cases xs rule: rev_cases)
      case Nil
      then show ?thesis using at [of 0] length' pos(2) [of 0] k by (cases "pos = 0") auto
    next
      case (snoc js j)
      with xs(1) k have j: "rise ?v (js @ [j])" "j < n" "?v j < ?v n" by (auto simp: rise_def sorted_wrt_append)
      then have l: "length js < length tails" "?v (tails ! length js) \<le> ?v j" using i by blast+
      with j(3) pos(3) [of "length js"] have "length js < pos" by (meson leD le_less_trans not_le)
      then show ?thesis using at [of "length xs"] length' pos(2) [of "length xs"] snoc k by fastforce
    qed
  qed
  show ?thesis
    unfolding pile_inv_def
  proof (intro conjI allI impI ballI)
    show "length links' = m" using len by (simp add: links')
    show "t < Suc n" if "t \<in> set tails'" for t using pile_step_below [OF step that] below by auto
  qed (use ascend chains best in blast)+
qed

lemma piles_inv:
  "n \<le> length ps \<Longrightarrow> fold (pile_step ps) [0 ..< n] ([], replicate (length ps) None) = (tails, links) \<Longrightarrow>
    pile_inv (\<lambda>i. snd (ps ! i)) (length ps) n tails links"
proof (induction n arbitrary: tails links)
  case (Suc n)
  obtain tails0 links0 where 0: "fold (pile_step ps) [0 ..< n] ([], replicate (length ps) None) = (tails0, links0)"
    by (cases "fold (pile_step ps) [0 ..< n] ([], replicate (length ps) None)")
  with Suc.prems(2) have "pile_step ps n (tails0, links0) = (tails, links)" by simp
  with pile_step_inv [OF Suc.IH [OF _ 0]] Suc.prems(1) show ?case by simp
qed (simp add: pile_inv_def)

lemma indices_of: "set ys \<subseteq> set ps \<Longrightarrow> \<exists>xs. ys = map ((!) ps) xs \<and> (\<forall>i \<in> set xs. i < length ps)"
proof (induction ys)
  case (Cons y ys)
  then obtain xs i where "ys = map ((!) ps) xs" "\<forall>i \<in> set xs. i < length ps" "i < length ps" "ps ! i = y"
    by (auto simp: in_set_conv_nth)
  then show ?case by (intro exI [of _ "i # xs"]) simp
qed simp

definition climbs :: "(nat \<times> nat) list \<Rightarrow> bool" where
  "climbs xs \<longleftrightarrow> sorted_wrt (\<lambda>x y. fst x < fst y \<and> snd x < snd y) xs"

lemma longest_chain_laws:
  assumes "sorted_wrt (\<lambda>x y. fst x < fst y) ps"
  shows "climbs (longest_chain ps)" and "climbs ys \<Longrightarrow> set ys \<subseteq> set ps \<Longrightarrow> length ys \<le> length (longest_chain ps)"
proof -
  let ?v = "\<lambda>i. snd (ps ! i)"
  obtain tails links where p: "piles ps = (tails, links)" by (cases "piles ps")
  then have inv: "pile_inv ?v (length ps) (length ps) tails links" by (intro piles_inv) (simp_all add: piles_def)
  note i = inv [unfolded pile_inv_def]
  have mono: "fst (ps ! i) < fst (ps ! j)" if "i < j" "j < length ps" for i j
    using sorted_wrt_nth_less [OF assms] that by simp
  have rise_climbs: "climbs (map ((!) ps) xs)" if "rise ?v xs" "\<forall>i \<in> set xs. i < length ps" for xs
    using that mono unfolding climbs_def rise_def sorted_wrt_map by (auto elim: sorted_wrt_mono_rel [rotated])
  have climbs_rise: "rise ?v xs" if "climbs (map ((!) ps) xs)" "\<forall>i \<in> set xs. i < length ps" for xs
  proof -
    have "i < j" if "fst (ps ! i) < fst (ps ! j)" "i < length ps" for i j
      using mono [of j i] that by (cases i j rule: linorder_cases) auto
    with that show ?thesis
      unfolding climbs_def rise_def sorted_wrt_map by (auto elim: sorted_wrt_mono_rel [rotated])
  qed
  have length: "length (longest_chain ps) = length tails"
  proof (cases "tails = []")
    case False
    with i have "length (follow links (tails ! (length tails - 1))) = length tails" by auto
    with False p show ?thesis by (simp add: longest_chain_def last_conv_nth)
  qed (simp add: longest_chain_def p)
  show "climbs (longest_chain ps)"
  proof (cases "tails = []")
    case True
    then show ?thesis by (simp add: longest_chain_def p climbs_def)
  next
    case False
    have "rise ?v (rev (follow links (last tails)))" using False i by (auto simp: last_conv_nth)
    moreover have "\<forall>i \<in> set (rev (follow links (last tails))). i < length ps"
      using False i follow_le [of _ links "last tails"] by (metis last_in_set le_less_trans set_rev)
    ultimately show ?thesis
      using rise_climbs False by (simp add: longest_chain_def p rev_map)
  qed
  show "length ys \<le> length (longest_chain ps)" if ys: "climbs ys" "set ys \<subseteq> set ps"
  proof -
    obtain xs where xs: "ys = map ((!) ps) xs" "\<forall>i \<in> set xs. i < length ps" using indices_of [OF ys(2)] by blast
    show ?thesis
    proof (cases xs rule: rev_cases)
      case (snoc js j)
      have "rise ?v (js @ [j])" using climbs_rise ys(1) xs snoc by metis
      then have "length js < length tails" using i xs(2) snoc by auto
      then show ?thesis by (simp add: length xs(1) snoc)
    qed (simp add: xs(1))
  qed
qed

section \<open>Edits between two places\<close>

fun rebuild :: "str \<Rightarrow> nat \<Rightarrow> nat \<Rightarrow> (span \<times> str) list \<Rightarrow> str" where
  "rebuild s c e [] = sub s c e"
| "rebuild s c e ((r, t) # es) = sub s c (lo r) @ t @ rebuild s (hi r) e es"

fun within :: "nat \<Rightarrow> nat \<Rightarrow> span list \<Rightarrow> bool" where
  "within c e [] \<longleftrightarrow> c \<le> e"
| "within c e (r # rs) \<longleftrightarrow> c \<le> lo r \<and> lo r \<le> hi r \<and> within (hi r) e rs"

lemma within_le: "within c e rs \<Longrightarrow> c \<le> e"
  by (induction rs arbitrary: c) fastforce+

lemma within_append: "within c m xs \<Longrightarrow> within m e ys \<Longrightarrow> within c e (xs @ ys)"
  by (induction xs arbitrary: c) (cases ys; auto)+

lemma rebuild_later:
  assumes "within m e (map fst ys)" "c \<le> m"
  shows "rebuild s c e ys = sub s c m @ rebuild s m e ys"
proof (cases ys)
  case Nil
  with assms show ?thesis using sub_append [of c m e s] by simp
next
  case (Cons y zs)
  obtain r t where y: "y = (r, t)" by (cases y)
  have "sub s c (lo r) = sub s c m @ sub s m (lo r)" using assms sub_append [of c m "lo r" s] by (simp add: Cons y)
  then show ?thesis by (simp add: Cons y)
qed

lemma rebuild_append:
  "within c m (map fst xs) \<Longrightarrow> within m e (map fst ys) \<Longrightarrow> rebuild s c e (xs @ ys) = rebuild s c m xs @ rebuild s m e ys"
proof (induction xs arbitrary: c)
  case Nil
  then have "rebuild s c e ys = sub s c m @ rebuild s m e ys" by (intro rebuild_later) simp_all
  then show ?case by simp
next
  case (Cons x xs)
  then show ?case by (cases x) auto
qed

section \<open>Regions carry one text into the other\<close>

definition carries :: "str \<Rightarrow> str \<Rightarrow> nat \<Rightarrow> nat \<Rightarrow> nat \<Rightarrow> nat \<Rightarrow> (span \<times> span) list \<Rightarrow> bool" where
  "carries s s' c e c' e' out \<longleftrightarrow>
     within c e (map fst out) \<and> within c' e' (map snd out) \<and>
     rebuild s c e (map (\<lambda>(r, q). (r, text_of s' q)) out) = sub s' c' e'"

lemma fst_edits [simp]: "fst \<circ> (\<lambda>(r, q). (r, g q)) = fst"
  by auto

lemma carries_append:
  assumes "carries s s' c m c' m' xs" "carries s s' m e m' e' ys"
  shows "carries s s' c e c' e' (xs @ ys)"
proof -
  have "c' \<le> m'" "m' \<le> e'" using assms within_le unfolding carries_def by blast+
  then show ?thesis
    using assms rebuild_append [of c m "map (\<lambda>(r, q). (r, text_of s' q)) xs" e "map (\<lambda>(r, q). (r, text_of s' q)) ys" s]
      within_append [of c m "map fst xs" e "map fst ys"] within_append [of c' m' "map snd xs" e' "map snd ys"]
      sub_append [of c' m' e' s']
    by (simp add: carries_def)
qed

lemma carries_same: "c \<le> e \<Longrightarrow> c' \<le> e' \<Longrightarrow> sub s c e = sub s' c' e' \<Longrightarrow> carries s s' c e c' e' []"
  by (simp add: carries_def)

lemma carries_one: "c \<le> e \<Longrightarrow> c' \<le> e' \<Longrightarrow> carries s s' c e c' e' [(Span c e, Span c' e')]"
  by (simp add: carries_def text_of_def)

text \<open>Both directions at once, between line numbers.\<close>

definition fits :: "span list \<Rightarrow> span list \<Rightarrow> span \<Rightarrow> span \<Rightarrow> bool" where
  "fits bl al b a \<longleftrightarrow> lo b \<le> hi b \<and> hi b \<le> length bl \<and> lo a \<le> hi a \<and> hi a \<le> length al"

text \<open>Every region is made of whole lines, and never empty on both sides.\<close>

definition of_lines :: "str \<Rightarrow> str \<Rightarrow> span list \<Rightarrow> span list \<Rightarrow> span \<times> span \<Rightarrow> bool" where
  "of_lines br ar bl al p \<longleftrightarrow>
     (\<exists>g h. fits bl al g h \<and> p = (bytes_of br bl g, bytes_of ar al h) \<and> \<not> (range_empty g \<and> range_empty h))"

definition bridges :: "str \<Rightarrow> str \<Rightarrow> span list \<Rightarrow> span list \<Rightarrow> span \<Rightarrow> span \<Rightarrow> (span \<times> span) list \<Rightarrow> bool" where
  "bridges br ar bl al b a out \<longleftrightarrow>
     carries br ar (line_at br bl (lo b)) (line_at br bl (hi b)) (line_at ar al (lo a)) (line_at ar al (hi a)) out \<and>
     carries ar br (line_at ar al (lo a)) (line_at ar al (hi a)) (line_at br bl (lo b)) (line_at br bl (hi b))
       (map prod.swap out) \<and>
     list_all (of_lines br ar bl al) out"

locale two_texts = B: text_lines br bl + A: text_lines ar al for br bl ar al
begin

lemma bridges_append:
  "bridges br ar bl al (Span b0 b1) (Span a0 a1) xs \<Longrightarrow> bridges br ar bl al (Span b1 b2) (Span a1 a2) ys \<Longrightarrow>
    bridges br ar bl al (Span b0 b2) (Span a0 a2) (xs @ ys)"
  unfolding bridges_def by (auto intro: carries_append)

lemma bridges_line:
  "i < length bl \<Longrightarrow> j < length al \<Longrightarrow> line_eq br ar (bl ! i) (al ! j) \<Longrightarrow>
    bridges br ar bl al (Span i (Suc i)) (Span j (Suc j)) []"
  unfolding bridges_def
  by (simp add: line_eq_def B.line_text A.line_text carries_same B.line_at_step A.line_at_step)

lemma bridges_pair: "fits bl al b a \<Longrightarrow> \<not> (range_empty b \<and> range_empty a) \<Longrightarrow> bridges br ar bl al b a [(bytes_of br bl b, bytes_of ar al a)]"
proof -
  assume f: "fits bl al b a" and "\<not> (range_empty b \<and> range_empty a)"
  then have "of_lines br ar bl al (bytes_of br bl b, bytes_of ar al a)" unfolding of_lines_def by blast
  with f show ?thesis
    by (simp add: bridges_def fits_def B.bytes_of_range A.bytes_of_range carries_one B.line_at_mono A.line_at_mono)
qed

lemma bridges_empty: "bridges br ar bl al (Span i i) (Span j j) []"
  by (simp add: bridges_def carries_same)

lemma trim_head_bridge:
  "fits bl al b a \<Longrightarrow> trim_head br ar bl al b a = (b', a') \<Longrightarrow>
    fits bl al b' a' \<and> bridges br ar bl al (Span (lo b) (lo b')) (Span (lo a) (lo a')) []"
proof (induction "hi b - lo b" arbitrary: b a rule: less_induct)
  case less
  show ?case
  proof (cases "\<not> range_empty b \<and> \<not> range_empty a \<and> line_eq br ar (bl ! lo b) (al ! lo a)")
    case True
    let ?b = "Span (Suc (lo b)) (hi b)" and ?a = "Span (Suc (lo a)) (hi a)"
    have shrink: "hi ?b - lo ?b < hi b - lo b" using True by (auto simp: range_empty_def)
    have fits: "fits bl al ?b ?a" using True less.prems(1) by (simp add: fits_def range_empty_def)
    have "trim_head br ar bl al ?b ?a = (b', a')" using less.prems(2) True by (simp add: trim_head.simps [of br ar bl al b a])
    note ih = less.hyps [OF shrink fits this]
    moreover have "bridges br ar bl al (Span (lo b) (Suc (lo b))) (Span (lo a) (Suc (lo a))) []"
      by (rule bridges_line) (use True less.prems(1) in \<open>auto simp: fits_def range_empty_def\<close>)
    ultimately show ?thesis
      using bridges_append [of "lo b" "Suc (lo b)" "lo a" "Suc (lo a)" "[]" "lo b'" "lo a'" "[]"] by simp
  next
    case False
    then have "b' = b" "a' = a" using less.prems(2) by (auto simp: trim_head.simps [of br ar bl al b a])
    with less.prems(1) show ?thesis by (simp add: bridges_empty)
  qed
qed

lemma trim_tail_bridge:
  "fits bl al b a \<Longrightarrow> trim_tail br ar bl al b a = (b', a') \<Longrightarrow>
    fits bl al b' a' \<and> bridges br ar bl al (Span (hi b') (hi b)) (Span (hi a') (hi a)) []"
proof (induction "hi b - lo b" arbitrary: b a rule: less_induct)
  case less
  show ?case
  proof (cases "\<not> range_empty b \<and> \<not> range_empty a \<and> line_eq br ar (bl ! (hi b - 1)) (al ! (hi a - 1))")
    case True
    let ?b = "Span (lo b) (hi b - 1)" and ?a = "Span (lo a) (hi a - 1)"
    have some: "0 < hi b" "0 < hi a" using True by (simp_all add: range_empty_def)
    have shrink: "hi ?b - lo ?b < hi b - lo b" using True by (auto simp: range_empty_def)
    have fits: "fits bl al ?b ?a" using True less.prems(1) by (auto simp: fits_def range_empty_def)
    have "trim_tail br ar bl al ?b ?a = (b', a')" using less.prems(2) True by (simp add: trim_tail.simps [of br ar bl al b a])
    note ih = less.hyps [OF shrink fits this]
    moreover have "bridges br ar bl al (Span (hi b - 1) (Suc (hi b - 1))) (Span (hi a - 1) (Suc (hi a - 1))) []"
      by (rule bridges_line) (use True less.prems(1) in \<open>auto simp: fits_def range_empty_def\<close>)
    ultimately show ?thesis
      using bridges_append [of "hi b'" "hi b - 1" "hi a'" "hi a - 1" "[]" "hi b" "hi a" "[]"] some by simp
  next
    case False
    then have "b' = b" "a' = a" using less.prems(2) by (auto simp: trim_tail.simps [of br ar bl al b a])
    with less.prems(1) show ?thesis by (simp add: bridges_empty)
  qed
qed

text \<open>Anchors that climb inside the two ranges, with equal lines.\<close>

lemma gaps_bridge:
  "climbs xs \<Longrightarrow> \<forall>(i, j) \<in> set xs. lo b \<le> i \<and> i < hi b \<and> lo a \<le> j \<and> j < hi a \<and> line_eq br ar (bl ! i) (al ! j) \<Longrightarrow>
    fits bl al b a \<Longrightarrow>
    (\<And>g h. (g, h) \<in> set (gaps b a xs) \<Longrightarrow> fits bl al g h \<Longrightarrow> bridges br ar bl al g h (f g h)) \<Longrightarrow>
    bridges br ar bl al b a (concat (map (\<lambda>(g, h). f g h) (gaps b a xs)))"
proof (induction xs arbitrary: b a)
  case Nil
  then show ?case by simp
next
  case (Cons x xs)
  obtain i j where x: "x = (i, j)" by (cases x)
  let ?g = "Span (lo b) i" and ?h = "Span (lo a) j" and ?b = "Span (Suc i) (hi b)" and ?a = "Span (Suc j) (hi a)"
  have at: "lo b \<le> i" "i < hi b" "lo a \<le> j" "j < hi a" "line_eq br ar (bl ! i) (al ! j)" using Cons.prems(2) x by auto
  have "climbs xs" "\<forall>(i', j') \<in> set xs. i < i' \<and> j < j'" using Cons.prems(1) by (auto simp: climbs_def x)
  moreover from this have
    "\<forall>(i, j) \<in> set xs. lo ?b \<le> i \<and> i < hi ?b \<and> lo ?a \<le> j \<and> j < hi ?a \<and> line_eq br ar (bl ! i) (al ! j)"
    using Cons.prems(2) by auto
  moreover have "fits bl al ?b ?a" using Cons.prems(3) at by (simp add: fits_def)
  ultimately have later: "bridges br ar bl al ?b ?a (concat (map (\<lambda>(g, h). f g h) (gaps ?b ?a xs)))"
    using Cons.IH [of ?b ?a] Cons.prems(4) by (auto simp: x)
  have first: "bridges br ar bl al ?g ?h (f ?g ?h)"
    using Cons.prems(3,4) at by (auto simp: x fits_def)
  have line: "bridges br ar bl al (Span i (Suc i)) (Span j (Suc j)) []"
    by (rule bridges_line) (use at Cons.prems(3) in \<open>auto simp: fits_def\<close>)
  have "bridges br ar bl al (Span (lo b) (Suc i)) (Span (lo a) (Suc j)) (f ?g ?h)"
    using bridges_append [OF first line] by simp
  from bridges_append [OF this later] show ?case by (simp add: x)
qed

lemma anchor_chain_climbs:
  "climbs (anchor_chain br ar bl al b a)"
  "(i, j) \<in> set (anchor_chain br ar bl al b a) \<Longrightarrow>
    lo b \<le> i \<and> i < hi b \<and> lo a \<le> j \<and> j < hi a \<and> line_eq br ar (bl ! i) (al ! j)"
proof -
  show "climbs (anchor_chain br ar bl al b a)"
    unfolding anchor_chain_def by (rule longest_chain_laws(1)) (rule unique_pairs_ascend)
  show "lo b \<le> i \<and> i < hi b \<and> lo a \<le> j \<and> j < hi a \<and> line_eq br ar (bl ! i) (al ! j)"
    if "(i, j) \<in> set (anchor_chain br ar bl al b a)"
    using that longest_chain_sub [of "unique_pairs br ar bl al b a"]
    by (auto simp: anchor_chain_def unique_pairs_iff seen_lines_Some line_eq_def)
qed

lemma partition_bridges:
  "fits bl al b a \<Longrightarrow> bridges br ar bl al b a (partition_lines br ar bl al b a)"
proof (induction "hi b - lo b" arbitrary: b a rule: less_induct)
  case less
  obtain b1 a1 where head: "trim_head br ar bl al b a = (b1, a1)" by (cases "trim_head br ar bl al b a")
  obtain b2 a2 where tail: "trim_tail br ar bl al b1 a1 = (b2, a2)" by (cases "trim_tail br ar bl al b1 a1")
  have t: "trimmed br ar bl al b a = (b2, a2)" by (simp add: trimmed_def head tail)
  note h = trim_head_bridge [OF less.prems head] trim_head_shrinks [OF head]
  note l = trim_tail_bridge [OF _ tail] trim_tail_shrinks [OF tail]
  have fits: "fits bl al b2 a2" using h l by blast
  have edges: "bridges br ar bl al (Span (lo b) (lo b2)) (Span (lo a) (lo a2)) []"
    "bridges br ar bl al (Span (hi b2) (hi b)) (Span (hi a2) (hi a)) []" using h l by auto
  have middle: "bridges br ar bl al b2 a2 (partition_lines br ar bl al b a)"
  proof -
    let ?xs = "anchor_chain br ar bl al b2 a2"
    consider (none) "range_empty b2" "range_empty a2" | (one) "range_empty b2 \<noteq> range_empty a2"
      | (plain) "\<not> range_empty b2" "\<not> range_empty a2" "?xs = []"
      | (chain) "\<not> range_empty b2" "\<not> range_empty a2" "?xs \<noteq> []" by blast
    then show ?thesis
    proof cases
      case none
      then have "lo b2 = hi b2" "lo a2 = hi a2" using fits by (simp_all add: fits_def range_empty_def)
      then have "bridges br ar bl al b2 a2 []" by (simp add: bridges_def carries_same)
      with none show ?thesis by (subst partition_lines.simps) (simp add: t)
    next
      case one
      with bridges_pair [OF fits] show ?thesis by (subst partition_lines.simps) (auto simp: t)
    next
      case plain
      with bridges_pair [OF fits] show ?thesis by (subst partition_lines.simps) (auto simp: t)
    next
      case chain
      have "bridges br ar bl al g h (partition_lines br ar bl al g h)" if "(g, h) \<in> set (gaps b2 a2 ?xs)" "fits bl al g h" for g h
      proof (rule less.hyps [OF _ that(2)])
        have "hi g - lo g < hi b2 - lo b2"
          by (rule gaps_shrink [OF that(1) chain(3)]) (use anchor_chain_in in fastforce)
        with h(2) l(2) show "hi g - lo g < hi b - lo b" by auto
      qed
      then have "bridges br ar bl al b2 a2 (concat (map (\<lambda>(g, h). partition_lines br ar bl al g h) (gaps b2 a2 ?xs)))"
        using anchor_chain_climbs(2) by (intro gaps_bridge [OF anchor_chain_climbs(1) _ fits]) blast+
      with chain show ?thesis by (subst partition_lines.simps) (simp add: t)
    qed
  qed
  have "bridges br ar bl al (Span (lo b) (hi b)) (Span (lo a) (hi a)) ([] @ partition_lines br ar bl al b a @ [])"
    by (rule bridges_append [OF edges(1)], rule bridges_append [OF _ edges(2)]) (use middle in simp)
  then show ?case by simp
qed

end

interpretation doc_texts: two_texts br "line_spans br" ar "line_spans ar" for br ar
  by unfold_locales

section \<open>The whole text\<close>

lemma apply_from_rebuild:
  "within c (length s) (map fst es) \<Longrightarrow> apply_from byte_slice s c es = Some (rebuild s c (length s) es)"
proof (induction es arbitrary: c)
  case (Cons e es)
  obtain r t where e: "e = (r, t)" by (cases e)
  have "hi r \<le> length s" using within_le Cons.prems by (fastforce simp: e)
  with Cons show ?case by (simp add: e byte_slice_in span_in_def)
qed (simp add: byte_slice_in span_in_def)

lemma regions_bridge:
  "before \<noteq> after \<Longrightarrow> bridges before after (line_spans before) (line_spans after)
    (Span 0 (length (line_spans before))) (Span 0 (length (line_spans after))) (changed_regions before after)"
  unfolding changed_regions_def Let_def by (simp, rule doc_texts.partition_bridges) (simp add: fits_def)

lemma regions_carry:
  "carries before after 0 (length before) 0 (length after) (changed_regions before after)"
  "carries after before 0 (length after) 0 (length before) (map prod.swap (changed_regions before after))"
proof -
  have "carries before after 0 (length before) 0 (length after) (changed_regions before after) \<and>
    carries after before 0 (length after) 0 (length before) (map prod.swap (changed_regions before after))"
  proof (cases "before = after")
    case True
    then show ?thesis by (simp add: changed_regions_def carries_same)
  next
    case False
    from regions_bridge [OF this] show ?thesis by (simp add: bridges_def doc_lines.line_at_0)
  qed
  then show "carries before after 0 (length before) 0 (length after) (changed_regions before after)"
    "carries after before 0 (length after) 0 (length before) (map prod.swap (changed_regions before after))" by auto
qed

lemma line_boundary:
  assumes "utf8_valid s"
  shows "is_char_boundary s (line_at s (line_spans s) i)"
  using lines_good [OF assms, of "line_spans s ! i"] by (auto simp: line_at_def good_span_def)

lemma regions_good:
  assumes "utf8_valid before" "utf8_valid after" "(b, a) \<in> set (changed_regions before after)"
  shows "good_span before b" "good_span after a" "lo b < hi b \<or> lo a < hi a"
proof -
  let ?bl = "line_spans before" and ?al = "line_spans after"
  have "before \<noteq> after" using assms(3) by (auto simp: changed_regions_def)
  from regions_bridge [OF this] assms(3) obtain g h where g: "fits ?bl ?al g h" "b = bytes_of before ?bl g"
      "a = bytes_of after ?al h" "\<not> (range_empty g \<and> range_empty h)"
    by (auto simp: bridges_def list_all_iff of_lines_def)
  then have b: "b = Span (line_at before ?bl (lo g)) (line_at before ?bl (hi g))"
    and a: "a = Span (line_at after ?al (lo h)) (line_at after ?al (hi h))"
    by (auto simp: fits_def doc_lines.bytes_of_range)
  show "good_span before b" "good_span after a"
    using g(1) line_boundary assms(1,2) doc_lines.line_at_mono doc_lines.line_at_le
    by (simp_all add: b a good_span_def span_in_def fits_def)
  have "line_at s (line_spans s) (lo r) < line_at s (line_spans s) (hi r)"
    if "lo r < hi r" "hi r \<le> length (line_spans s)" for s r
  proof -
    have "line_at s (line_spans s) (lo r) < line_at s (line_spans s) (Suc (lo r))"
      using tiles_nth [OF tiles_line_spans, of "lo r" s] that by (auto simp: line_at_def)
    also have "\<dots> \<le> line_at s (line_spans s) (hi r)" using that by (intro doc_lines.line_at_mono) simp
    finally show ?thesis .
  qed
  with g(1,4) show "lo b < hi b \<or> lo a < hi a" unfolding b a by (auto simp: fits_def range_empty_def not_le)
qed

end
