(* ===== verification/Delta_Laws.thy ===== *)
theory Delta_Laws
  imports Delta Diff_Laws Resolve_Laws
begin

text \<open>
  Laws of the change facts: the identity of a node resolves back to it, no step panics on
  well-formed documents, and every entry says what is true of the two documents.
\<close>

section \<open>The nodes of a tree\<close>

fun nodes :: "node \<Rightarrow> node list" where
  "nodes (Node k r v h cs) = Node k r v h cs # concat (map nodes cs)"

lemma nodes_self [simp]: "n \<in> set (nodes n)"
  by (cases n) simp

lemma nodes_child: "c \<in> set (children n) \<Longrightarrow> set (nodes c) \<subseteq> set (nodes n)"
  by (cases n) auto

lemma nodes_trans: "m \<in> set (nodes n) \<Longrightarrow> set (nodes m) \<subseteq> set (nodes n)"
  by (induction n rule: nodes.induct) auto

lemma nodes_facts: "m \<in> set (nodes n) \<Longrightarrow> facts_of m \<in> set (preorder n)"
  by (induction n rule: nodes.induct) (auto simp: facts_of_def)

lemma nodes_anchor: "m \<in> set (nodes n) \<Longrightarrow> kind m = Anchor i \<Longrightarrow> m \<in> set (collect_anchors i n)"
  by (induction n rule: nodes.induct) auto

section \<open>Identities\<close>

text \<open>Fewer siblings than a \<^verbatim>\<open>u32\<close> counts.\<close>

fun narrow :: "node \<Rightarrow> bool" where
  "narrow (Node k r v h cs) \<longleftrightarrow> length cs \<le> u32_max \<and> (\<forall>c \<in> set cs. narrow c)"

lemma narrow_children: "narrow n \<Longrightarrow> length (children n) \<le> u32_max \<and> (\<forall>c \<in> set (children n). narrow c)"
  by (cases n) simp

lemma same_headings:
  "filter (\<lambda>c. heading_of c = Some h) (section_children n) = filter (\<lambda>c. section_named h (kind c)) (children n)"
proof -
  have "is_section (kind c) \<and> heading_of c = Some h \<longleftrightarrow> section_named h (kind c)" for c
    by (cases "kind c") (auto simp: heading_of_def)
  then show ?thesis by (simp add: section_children_def)
qed

lemma pick_occurrence:
  assumes "n \<in> set same" "length same \<le> u32_max"
  shows "pick_match same (occurrence same n) = Inr n"
proof (cases "1 < length same")
  case True
  obtain p where p: "position (\<lambda>c. c = n) same = Some p"
    using assms(1) position_None [of "\<lambda>c. c = n" same] by (cases "position (\<lambda>c. c = n) same") auto
  then have "p < length same" "same ! p = n" by (simp_all add: position_Some)
  with p True assms(2) show ?thesis by (auto simp: occurrence_def pick_match_def)
next
  case False
  with assms(1) have "same = [n]" by (cases same; cases "tl same") auto
  then show ?thesis by (simp add: occurrence_def pick_match_def)
qed

lemma section_path_resolves:
  "section_path scope n = Some segs \<Longrightarrow> narrow scope \<Longrightarrow> resolve_hpath_node scope segs = Inr n"
proof (induction scope n arbitrary: segs rule: section_path.induct)
  case (1 scope n)
  obtain below h where below: "find (\<lambda>c. covers (span c) (span n) \<or> span c = span n) (section_children scope) = Some below"
      "heading_of below = Some h"
    using "1.prems"(1) by (subst (asm) section_path.simps) (auto split: option.splits)
  let ?same = "filter (\<lambda>c. heading_of c = Some h) (section_children scope)"
  have mem: "below \<in> set (section_children scope)" using below(1) by (auto simp: find_Some_iff)
  then have "below \<in> set ?same" using below(2) by simp
  moreover have "length ?same \<le> u32_max"
    using narrow_children [OF "1.prems"(2)] length_filter_le order_trans unfolding same_headings by blast
  ultimately have pick: "pick_match ?same (occurrence ?same below) = Inr below" by (rule pick_occurrence)
  have narrow: "narrow below" using mem narrow_children [OF "1.prems"(2)] by (auto simp: section_children_def)
  show ?case
  proof (cases "below = n")
    case True
    then have "segs = [\<lparr>seg_h = h, seg_n = occurrence ?same below\<rparr>]"
      using "1.prems"(1) below by (subst (asm) section_path.simps) (simp add: Let_def)
    with pick True show ?thesis by (simp add: same_headings)
  next
    case False
    then obtain segs' where s: "section_path below n = Some segs'"
        "segs = \<lparr>seg_h = h, seg_n = occurrence ?same below\<rparr> # segs'"
      using "1.prems"(1) below by (subst (asm) section_path.simps) (auto simp: Let_def)
    from "1.IH" [OF below refl refl False s(1) narrow] pick s(2) show ?thesis by (simp add: same_headings)
  qed
qed

lemma resolve_total: "doc_ok hash doc \<Longrightarrow> \<exists>x. resolve hash doc r = Some x"
proof -
  assume "doc_ok hash doc"
  from resolve_full_total [OF this, of r] obtain x where "resolve_full hash doc r = Some x" by blast
  then show ?thesis by (cases x) (simp_all add: resolve_def)
qed

lemma resolve_node:
  assumes "doc_ok hash doc" "facts_of n \<in> set (preorder (root doc))" "lift_resolved (Inr n) (raw doc) = resolve_full hash doc r"
  shows "resolve hash doc r = Some (Inr (target_of n))"
proof -
  obtain x where "resolved_of n (raw doc) = Some x" using resolved_of_ok [OF assms(1,2)] by blast
  then have "res_span x = span n" "res_rev x = node_rev n" "resolve_full hash doc r = Some (Inr x)"
    using assms(3) by (auto simp: resolved_of_def bind_eq_Some_conv lift_resolved_def)
  then show ?thesis by (simp add: resolve_def target_of_def)
qed

definition answers :: "(str \<Rightarrow> str) \<Rightarrow> document \<Rightarrow> ref \<Rightarrow> target \<Rightarrow> bool" where
  "answers hash doc r t \<longleftrightarrow>
     resolve hash doc r = Some (Inr t) \<or>
     (\<exists>i ts. r = AnchorRef i \<and> resolve hash doc r = Some (Inl (Ambiguous ts)) \<and> t \<in> set ts)"

lemma answers_found: "answers hash doc r t \<Longrightarrow> resolve hash doc r \<noteq> Some (Inl NotFound)"
  by (auto simp: answers_def)

lemma identity_answers:
  assumes ok: "doc_ok hash doc" "narrow (root doc)" and n: "n \<in> set (nodes (root doc))"
    and k: "frontmatter_keys (kind n) = None" and i: "identity_of hash doc n r = Some (Some t)"
  shows "answers hash doc t (target_of n)"
proof (cases "kind n")
  case (Section h l)
  with i obtain segs where s: "section_path (root doc) n = Some segs" "t = Hpath segs"
    by (auto simp: identity_of_def section_ref_of_def)
  have "resolve hash doc t = Some (Inr (target_of n))"
    using section_path_resolves [OF s(1) ok(2)] s(2) by (intro resolve_node [OF ok(1) nodes_facts [OF n]]) simp
  then show ?thesis by (simp add: answers_def)
next
  case (Anchor name)
  with i have t: "t = AnchorRef name" by (auto simp: identity_of_def anchor_ref_def split: if_splits)
  have mem: "n \<in> set (sort_key (\<lambda>n. lo (span n)) (collect_anchors name (root doc)))"
    using nodes_anchor [OF n Anchor] by simp
  then obtain x xs where xs: "sort_key (\<lambda>n. lo (span n)) (collect_anchors name (root doc)) = x # xs"
    by (cases "sort_key (\<lambda>n. lo (span n)) (collect_anchors name (root doc))") auto
  show ?thesis
  proof (cases xs)
    case Nil
    with xs mem have "resolve_anchor_node doc name = Inr n" by (auto simp: resolve_anchor_node_def)
    then have "resolve hash doc t = Some (Inr (target_of n))"
      by (intro resolve_node [OF ok(1) nodes_facts [OF n]]) (simp add: t)
    then show ?thesis by (simp add: answers_def)
  next
    case (Cons y ys)
    with xs have "resolve_anchor_node doc name = Inl (Ambiguous (map target_of (x # xs)))"
      by (simp add: resolve_anchor_node_def)
    then have "resolve hash doc t = Some (Inl (Ambiguous (map target_of (x # xs))))"
      by (simp add: t resolve_def lift_resolved_def)
    moreover have "target_of n \<in> set (map target_of (x # xs))"
      using mem unfolding xs by (metis image_eqI list.set_map)
    ultimately show ?thesis unfolding answers_def using t by blast
  qed
qed (use i k in \<open>auto simp: identity_of_def\<close>)

lemma key_holding_total: "doc_ok hash doc \<Longrightarrow> \<exists>x. key_holding hash doc r ks = Some x"
proof (induction ks)
  case (Cons key ks)
  obtain x where "resolve hash doc (FmKey key) = Some x" using resolve_total [OF Cons.prems] by blast
  with Cons show ?case by (cases x) auto
qed simp

lemma identity_total: "doc_ok hash doc \<Longrightarrow> \<exists>x. identity_of hash doc n r = Some x"
  by (cases "kind n") (simp_all add: identity_of_def key_holding_total)

section \<open>True entries\<close>

text \<open>What an entry says holds of the two documents.\<close>

definition shows_after :: "(str \<Rightarrow> str) \<Rightarrow> document \<Rightarrow> node_delta \<Rightarrow> bool" where
  "shows_after hash after d \<longleftrightarrow>
     (\<exists>t. answers hash after (nd_target d) t \<and> nd_after d = Some (tgt_rev t) \<and> nd_span d = Some (tgt_span t))"

definition entry_true :: "(str \<Rightarrow> str) \<Rightarrow> document \<Rightarrow> document \<Rightarrow> node_delta \<Rightarrow> bool" where
  "entry_true hash before after d \<longleftrightarrow>
     (case nd_change d of
        Added \<Rightarrow> resolve hash before (nd_target d) = Some (Inl NotFound) \<and> nd_before d = None \<and> shows_after hash after d
      | Removed \<Rightarrow> resolve hash after (nd_target d) = Some (Inl NotFound) \<and> nd_after d = None \<and> nd_span d = None \<and>
          (\<exists>t. answers hash before (nd_target d) t \<and> nd_before d = Some (tgt_rev t))
      | _ \<Rightarrow> shows_after hash after d \<and> nd_before d \<noteq> nd_after d \<and>
          (\<exists>t. resolve hash before (nd_target d) = Some (Inr t) \<and> nd_before d = Some (tgt_rev t)))"

definition entries_true :: "(str \<Rightarrow> str) \<Rightarrow> document \<Rightarrow> document \<Rightarrow> node_delta list \<Rightarrow> bool" where
  "entries_true hash before after out \<longleftrightarrow>
     distinct (map nd_target out) \<and> (\<forall>d \<in> set out. entry_true hash before after d)"

lemma entries_true_Nil [simp]: "entries_true hash before after []"
  by (simp add: entries_true_def)

lemma pass_total:
  "(\<And>x s. x \<in> set xs \<Longrightarrow> I s \<Longrightarrow> \<exists>s'. f x s = Some s' \<and> I s') \<Longrightarrow> I s \<Longrightarrow> \<exists>s'. pass f xs s = Some s' \<and> I s'"
proof (induction xs arbitrary: s)
  case (Cons x xs)
  obtain s' where "f x s = Some s'" "I s'" using Cons.prems by (meson list.set_intros(1))
  with Cons show ?case by simp
qed simp

lemma touch_again_None: "touch_again mint t ds = None \<longleftrightarrow> t \<notin> nd_target ` set ds"
  by (induction ds) auto

lemma touch_again_Some:
  "touch_again mint t ds = Some ds' \<Longrightarrow>
    list_all2 (\<lambda>d d'. d' = d \<or> nd_change d = Anchored \<and> d' = d\<lparr>nd_change := Edited\<rparr>) ds ds'"
proof (induction ds arbitrary: ds')
  case (Cons d ds)
  then show ?case by (auto split: if_splits intro: list.rel_refl)
qed simp

lemma entry_edited: "entry_true hash before after d \<Longrightarrow> nd_change d = Anchored \<Longrightarrow>
    entry_true hash before after (d\<lparr>nd_change := Edited\<rparr>)"
  by (simp add: entry_true_def shows_after_def)

lemma entries_touched_again:
  assumes "touch_again mint t ds = Some ds'" "entries_true hash before after ds"
  shows "entries_true hash before after ds'" "map nd_target ds' = map nd_target ds"
proof -
  note all = touch_again_Some [OF assms(1)]
  show targets: "map nd_target ds' = map nd_target ds"
    using all by (induction ds ds' rule: list_all2_induct) auto
  have "entry_true hash before after d'" if "d' \<in> set ds'" for d'
  proof -
    obtain i where i: "i < length ds'" "d' = ds' ! i" using \<open>d' \<in> set ds'\<close> by (auto simp: in_set_conv_nth)
    then have "i < length ds" "entry_true hash before after (ds ! i)"
      using all assms(2) by (auto simp: list_all2_lengthD entries_true_def)
    with list_all2_nthD2 [OF all i(1)] i(2) entry_edited show ?thesis by auto
  qed
  with targets assms(2) show "entries_true hash before after ds'" by (simp add: entries_true_def)
qed

lemma push_touched_true:
  assumes "doc_ok hash before" "answers hash after target t" "entries_true hash before after out"
  shows "\<exists>out'. push_touched hash before target (tgt_rev t) (tgt_span t) mint out = Some out' \<and>
    entries_true hash before after out'"
proof (cases "touch_again mint target out")
  case (Some out')
  with entries_touched_again assms(3) show ?thesis by (auto simp: push_touched_def)
next
  case None
  then have fresh: "target \<notin> nd_target ` set out" by (simp add: touch_again_None)
  obtain x where x: "resolve hash before target = Some x" using resolve_total [OF assms(1)] by blast
  have "shows_after hash after d" if "nd_target d = target" "nd_after d = Some (tgt_rev t)" "nd_span d = Some (tgt_span t)" for d
    using that assms(2) by (auto simp: shows_after_def)
  then show ?thesis
    using assms(3) fresh None x
    by (cases x rule: sum.exhaust; (cases "projl x")?)
      (auto simp: push_touched_def entries_true_def entry_true_def split: resolve_error.split)
qed

lemma touch_key_true:
  assumes "doc_ok hash before" "doc_ok hash after" "entries_true hash before after out"
  shows "\<exists>out'. touch_key hash before after reach mint key out = Some out' \<and> entries_true hash before after out'"
proof -
  obtain x where x: "resolve hash after (FmKey key) = Some x" using resolve_total [OF assms(2)] by blast
  show ?thesis
  proof (cases x)
    case (Inr t)
    then have "answers hash after (FmKey key) t" using x by (simp add: answers_def)
    with push_touched_true [OF assms(1) this assms(3)] x Inr assms(3) show ?thesis by (simp add: touch_key_def)
  qed (use x assms(3) in \<open>simp add: touch_key_def\<close>)
qed

lemma collect_touched_true:
  assumes ok: "doc_ok hash before" "doc_ok hash after" "narrow (root after)"
  shows "n \<in> set (nodes (root after)) \<Longrightarrow> entries_true hash before after out \<Longrightarrow>
    \<exists>out'. collect_touched hash before after reach mint n out = Some out' \<and> entries_true hash before after out'"
proof (induction "size n" arbitrary: n out rule: less_induct)
  case less
  show ?case
  proof (cases "meets (span n) reach")
    case False
    with less.prems(2) show ?thesis by (simp add: collect_touched.simps)
  next
    case meets: True
    show ?thesis
    proof (cases "frontmatter_keys (kind n)")
      case (Some ks)
      have "\<exists>out'. pass (touch_key hash before after reach mint) ks out = Some out' \<and> entries_true hash before after out'"
        by (rule pass_total) (use touch_key_true ok less.prems(2) in auto)
      with Some meets show ?thesis by (simp add: collect_touched.simps [of hash before after reach mint n])
    next
      case None
      show ?thesis
      proof (cases "touched_children reach n = []")
        case True
        obtain i where i: "identity_of hash after n reach = Some i" using identity_total [OF ok(2)] by blast
        have "\<exists>out'. touch_node hash before after reach mint n out = Some out' \<and> entries_true hash before after out'"
        proof (cases i)
          case (Some target)
          then have "answers hash after target (target_of n)"
            using identity_answers [OF ok(2,3) less.prems(1) None] i by simp
          from push_touched_true [OF ok(1) this less.prems(2)] i Some show ?thesis
            by (simp add: touch_node_def target_of_def)
        qed (use i less.prems(2) in \<open>simp add: touch_node_def\<close>)
        with None meets True show ?thesis by (simp add: collect_touched.simps [of hash before after reach mint n])
      next
        case False
        have "\<exists>out'. pass (\<lambda>c out. collect_touched hash before after reach mint c out) (touched_children reach n) out =
            Some out' \<and> entries_true hash before after out'"
        proof (rule pass_total)
          fix c out assume c: "c \<in> set (touched_children reach n)" "entries_true hash before after out"
          then have child: "c \<in> set (children n)" by (simp add: touched_children_def)
          then have "size c < size n" by (cases n) (auto dest: size_list_estimation' [where f = size, OF _ order_refl] simp: less_Suc_eq_le)
          moreover have "c \<in> set (nodes (root after))" using nodes_child [OF child] nodes_trans [OF less.prems(1)] nodes_self by blast
          ultimately show "\<exists>s'. collect_touched hash before after reach mint c out = Some s' \<and> entries_true hash before after s'"
            using c(2) by (rule less.hyps)
        qed (rule less.prems(2))
        with None meets False show ?thesis by (simp add: collect_touched.simps [of hash before after reach mint n])
      qed
    qed
  qed
qed

lemma push_removed_true:
  assumes "resolve hash after target = Some (Inl NotFound)" "answers hash before target t" "entries_true hash before after out"
  shows "entries_true hash before after (push_removed target (tgt_rev t) out)"
  using assms by (auto simp: push_removed_def entries_true_def entry_true_def)

lemma drop_key_true:
  assumes "doc_ok hash before" "doc_ok hash after" "entries_true hash before after out"
  shows "\<exists>out'. drop_key hash before after reach key out = Some out' \<and> entries_true hash before after out'"
proof -
  obtain x y where x: "resolve hash before (FmKey key) = Some x" and y: "resolve hash after (FmKey key) = Some y"
    using resolve_total assms(1,2) by metis
  show ?thesis
  proof (cases x)
    case (Inr t)
    then have "answers hash before (FmKey key) t" using x by (simp add: answers_def)
    with push_removed_true [OF _ this assms(3)] x y Inr assms(3) show ?thesis by (simp add: drop_key_def)
  qed (use x assms(3) in \<open>simp add: drop_key_def\<close>)
qed

lemma collect_removed_true:
  assumes ok: "doc_ok hash before" "doc_ok hash after" "narrow (root before)"
  shows "n \<in> set (nodes (root before)) \<Longrightarrow> entries_true hash before after out \<Longrightarrow>
    \<exists>out'. collect_removed hash before after reach n out = Some out' \<and> entries_true hash before after out'"
proof (induction "size n" arbitrary: n out rule: less_induct)
  case less
  show ?case
  proof (cases "\<not> meets (span n) reach \<and> \<not> range_empty reach")
    case True
    with less.prems(2) show ?thesis by (simp add: collect_removed.simps)
  next
    case on: False
    show ?thesis
    proof (cases "frontmatter_keys (kind n)")
      case (Some ks)
      have "\<exists>out'. pass (drop_key hash before after reach) ks out = Some out' \<and> entries_true hash before after out'"
        by (rule pass_total) (use drop_key_true ok less.prems(2) in auto)
      with Some on show ?thesis by (auto simp: collect_removed.simps [of hash before after reach n])
    next
      case None
      obtain i where i: "identity_of hash before n reach = Some i" using identity_total [OF ok(1)] by blast
      have "\<exists>g. gone hash before after reach n = Some g \<and>
          (\<forall>t. g = Some t \<longrightarrow> i = Some t \<and> resolve hash after t = Some (Inl NotFound))"
      proof (cases i)
        case (Some t)
        obtain y where "resolve hash after t = Some y" using resolve_total [OF ok(2)] by blast
        with i Some show ?thesis by (simp add: gone_def)
      qed (simp add: gone_def i)
      then obtain g where g: "gone hash before after reach n = Some g"
        "\<And>t. g = Some t \<Longrightarrow> i = Some t \<and> resolve hash after t = Some (Inl NotFound)" by blast
      show ?thesis
      proof (cases g)
        case (Some t)
        then have "answers hash before t (target_of n)" "resolve hash after t = Some (Inl NotFound)"
          using identity_answers [OF ok(1,3) less.prems(1) None] i g(2) by auto
        from push_removed_true [OF this(2,1) less.prems(2)] None on g(1) Some show ?thesis
          by (auto simp: collect_removed.simps [of hash before after reach n] target_of_def)
      next
        case open_: None
        have "\<exists>out'. pass (\<lambda>c out. collect_removed hash before after reach c out) (children n) out = Some out' \<and>
            entries_true hash before after out'"
        proof (rule pass_total)
          fix c out assume c: "c \<in> set (children n)" "entries_true hash before after out"
          then have "size c < size n" by (cases n) (auto dest: size_list_estimation' [where f = size, OF _ order_refl] simp: less_Suc_eq_le)
          moreover have "c \<in> set (nodes (root before))" using nodes_child [OF c(1)] nodes_trans [OF less.prems(1)] nodes_self by blast
          ultimately show "\<exists>s'. collect_removed hash before after reach c out = Some s' \<and> entries_true hash before after s'"
            using c(2) by (rule less.hyps)
        qed (rule less.prems(2))
        with None on g(1) open_ show ?thesis by (auto simp: collect_removed.simps [of hash before after reach n])
      qed
    qed
  qed
qed

section \<open>Anchor mints do not panic\<close>

lemma id_char_ascii: "block_id_char c \<Longrightarrow> byte c < 128"
  by (auto simp: block_id_char_def ascii_lower_def ascii_digit_def byte_def)

lemma markers_from_at:
  "(r, name) \<in> set (markers_from i s) \<Longrightarrow> \<exists>u v. s = u @ CHR ''^'' # name @ v \<and> name \<noteq> [] \<and>
    list_all block_id_char name \<and> lo r = i + length u \<and> hi r = Suc (lo r + length name)"
proof (induction s arbitrary: i)
  case (Cons c cs)
  let ?name = "takeWhile block_id_char cs"
  from Cons.prems consider (here) "c = CHR ''^''" "?name \<noteq> []" "name = ?name" "r = Span i (Suc (i + length ?name))"
    | (later) "(r, name) \<in> set (markers_from (Suc i) cs)" by (auto simp: Let_def split: if_splits)
  then show ?case
  proof cases
    case here
    have "list_all block_id_char name" using here(3) by (auto simp: list_all_iff dest: set_takeWhileD)
    with here show ?thesis
      by (intro exI [of _ "[]"] exI [of _ "dropWhile block_id_char cs"]) (simp add: takeWhile_dropWhile_id)
  next
    case later
    from Cons.IH [OF this] obtain u v where "cs = u @ CHR ''^'' # name @ v" "name \<noteq> []" "list_all block_id_char name"
      "lo r = Suc i + length u" "hi r = Suc (lo r + length name)" by blast
    then show ?thesis by (intro exI [of _ "c # u"] exI [of _ v]) simp
  qed
qed simp

lemma marker_boundaries:
  assumes "utf8_valid s" "(r, name) \<in> set (markers s)"
  shows "is_char_boundary s (lo r)" "is_char_boundary s (hi r)" "lo r < hi r" "hi r \<le> length s"
proof -
  obtain u v where s: "s = u @ CHR ''^'' # name @ v" "name \<noteq> []" "list_all block_id_char name" "lo r = length u"
      "hi r = Suc (lo r + length name)"
    using markers_from_at assms(2) unfolding markers_def by fastforce
  show "is_char_boundary s (lo r)"
    using ascii_boundary(1) [OF assms(1), of "lo r"] s by (simp add: byte_def)
  have "s ! (length u + length name) = last name"
  proof -
    have "(u @ CHR ''^'' # name @ v) ! (length u + length name) = (CHR ''^'' # name @ v) ! length name"
      by (simp add: nth_append)
    then show ?thesis using s(1,2) by (simp add: nth_append last_conv_nth nth_Cons')
  qed
  moreover have "byte (last name) < 128" using s(2,3) id_char_ascii by (simp add: list_all_iff)
  ultimately show "is_char_boundary s (hi r)"
    using ascii_boundary(2) [OF assms(1), of "length u + length name"] s by simp
  show "lo r < hi r" "hi r \<le> length s" using s by simp_all
qed

lemma position_rev_start:
  assumes "utf8_valid s" "i \<le> length s" "position (\<lambda>c. c = lf) (rev (take i s)) = Some k"
  shows "is_char_boundary s (i - k)" "i - k \<le> i"
proof -
  have k: "k < i" "rev (take i s) ! k = lf" using assms(2,3) by (auto simp: position_Some)
  then have "s ! (i - Suc k) = lf" using assms(2) by (simp add: rev_nth)
  with k assms ascii_boundary(2) [OF assms(1), of "i - Suc k"] show "is_char_boundary s (i - k)"
    by (simp add: Suc_diff_Suc)
qed simp

lemma space_ascii: "ascii_space c \<Longrightarrow> byte c < 128"
  by (auto simp: ascii_space_def byte_def)

lemma marker_cut_good:
  assumes "utf8_valid s" "(r, name) \<in> set (markers s)"
  shows "is_char_boundary s (lo (marker_cut s r))" "is_char_boundary s (hi (marker_cut s r))"
    "lo (marker_cut s r) \<le> hi (marker_cut s r)"
proof -
  note m = marker_boundaries [OF assms]
  define start where "start = (case position (\<lambda>c. c = lf) (rev (take (lo r) s)) of None \<Rightarrow> 0 | Some k \<Rightarrow> lo r - k)"
  define stop where "stop = (case position (\<lambda>c. c = lf) (drop (hi r) s) of None \<Rightarrow> length s | Some k \<Rightarrow> Suc (hi r + k))"
  have start: "is_char_boundary s start" "start \<le> lo r"
    using position_rev_start [OF assms(1), of "lo r"] m(3,4) by (auto simp: start_def split: option.splits)
  have stop: "is_char_boundary s stop" "hi r \<le> stop"
  proof -
    have "is_char_boundary s (Suc (hi r + k))" if "position (\<lambda>c. c = lf) (drop (hi r) s) = Some k" for k
    proof -
      have "hi r + k < length s" "s ! (hi r + k) = lf" using that m(4) by (auto simp: position_Some)
      then show ?thesis using ascii_boundary(2) [OF assms(1)] by simp
    qed
    then show "is_char_boundary s stop" "hi r \<le> stop" using m(4) by (auto simp: stop_def split: option.splits)
  qed
  have tail: "is_char_boundary s (tail_start s start (lo r))" "tail_start s start (lo r) \<le> lo r"
  proof -
    let ?w = "takeWhile ascii_space (rev (sub s start (lo r)))"
    show "tail_start s start (lo r) \<le> lo r" by (simp add: tail_start_def)
    show "is_char_boundary s (tail_start s start (lo r))"
    proof (cases "?w = []")
      case True
      with m(1) show ?thesis by (simp add: tail_start_def)
    next
      case False
      define n where "n = length ?w"
      have len: "length (sub s start (lo r)) = lo r - start" using m(3,4) by (simp add: length_sub)
      have n: "0 < n" "n \<le> lo r - start"
        using False length_takeWhile_le [of ascii_space "rev (sub s start (lo r))"] m(3,4) by (auto simp: n_def len)
      have "ascii_space (?w ! (n - 1))" using False by (metis last_conv_nth last_in_set n_def set_takeWhileD)
      then have "ascii_space (rev (sub s start (lo r)) ! (n - 1))" using n(1) by (simp add: n_def takeWhile_nth)
      also have "rev (sub s start (lo r)) ! (n - 1) = sub s start (lo r) ! (lo r - start - n)"
        using rev_nth [of "n - 1" "sub s start (lo r)"] n unfolding len by simp
      also have "\<dots> = s ! (lo r - n)" using n m(3,4) by (simp add: nth_sub)
      finally have "byte (s ! (lo r - n)) < 128" by (rule space_ascii)
      then show ?thesis using ascii_boundary(1) [OF assms(1), of "lo r - n"] n m(3,4) by (simp add: tail_start_def n_def)
    qed
  qed
  have cut: "marker_cut s r = (if list_all ascii_space (sub s start (lo r)) \<and> list_all ascii_space (sub s (hi r) stop)
      then Span start stop else Span (tail_start s start (lo r)) (hi r))"
    unfolding marker_cut_def Let_def start_def stop_def ..
  show "is_char_boundary s (lo (marker_cut s r))" "is_char_boundary s (hi (marker_cut s r))"
    "lo (marker_cut s r) \<le> hi (marker_cut s r)"
    using start stop tail m by (simp_all add: cut)
qed

lemma strip_marker_total:
  assumes "utf8_valid s" "(r, name) \<in> set (markers s)"
  shows "strip_marker s r \<noteq> None"
proof -
  note m = marker_boundaries [OF assms] and c = marker_cut_good [OF assms]
  have slice: "str_slice s (Span 0 i) = Some (sub s 0 i)" "str_slice s (Span i (length s)) = Some (sub s i (length s))"
    if "is_char_boundary s i" for i
    using that char_boundary_le [OF that] by (simp_all add: str_slice_def span_in_def)
  show ?thesis by (simp add: strip_marker_def slice m c)
qed

lemma any_mint_total:
  "doc_ok hash before \<Longrightarrow> doc_ok hash after \<Longrightarrow> utf8_valid s \<Longrightarrow> set ms \<subseteq> set (markers s) \<Longrightarrow>
    \<exists>m. any_mint hash before after bt s ms = Some m"
proof (induction ms)
  case (Cons x ms)
  obtain r name where x: "x = (r, name)" by (cases x)
  obtain t where t: "strip_marker s r = Some t"
    using strip_marker_total [OF Cons.prems(3), of r name] Cons.prems(4) x by auto
  obtain m where m: "any_mint hash before after bt s ms = Some m" using Cons by auto
  show ?case
  proof (cases "anchor_ref name")
    case (Inr a)
    obtain n where n: "resolve hash after a = Some n" using resolve_total [OF Cons.prems(2)] by blast
    obtain old where "resolve hash before a = Some old" using resolve_total [OF Cons.prems(1)] by blast
    with x t m n Inr show ?thesis by (cases n) auto
  qed (use x t m in auto)
qed auto

lemma anchor_mint_total:
  assumes "doc_ok hash before" "doc_ok hash after" "good_span (raw before) b" "good_span (raw after) a"
  shows "\<exists>m. anchor_mint hash before after b a = Some m"
proof -
  have "utf8_valid (sub (raw after) (lo a) (hi a))"
    using assms(2,4) by (intro utf8_sub) (auto simp: doc_ok_def good_span_def span_in_def)
  from any_mint_total [OF assms(1,2) this order_refl] show ?thesis
    using assms(3,4) by (simp add: anchor_mint_def str_slice_good)
qed

lemma region_deltas_true:
  assumes ok: "doc_ok hash before" "doc_ok hash after" "narrow (root before)" "narrow (root after)"
    and "(b, a) \<in> set (changed_regions (raw before) (raw after))" and out: "entries_true hash before after out"
  shows "\<exists>out'. region_deltas hash before after (b, a) out = Some out' \<and> entries_true hash before after out'"
proof -
  have utf8: "utf8_valid (raw before)" "utf8_valid (raw after)" using ok(1,2) by (simp_all add: doc_ok_def)
  obtain mint where mint: "anchor_mint hash before after b a = Some mint"
    using anchor_mint_total [OF ok(1,2)] regions_good(1,2) [OF utf8 assms(5)] by blast
  let ?m = "if range_empty a then Some out
    else do { mint \<leftarrow> anchor_mint hash before after b a;
      let probe = trim_final_terminator (raw after) a;
      if range_empty probe then Some out else collect_touched hash before after probe mint (root after) out }"
  have "\<exists>out1. ?m = Some out1 \<and> entries_true hash before after out1"
  proof (cases "range_empty a \<or> range_empty (trim_final_terminator (raw after) a)")
    case True
    with out mint show ?thesis by auto
  next
    case False
    with collect_touched_true [OF ok(1,2,4) nodes_self out, of "trim_final_terminator (raw after) a" mint] mint
    show ?thesis by simp
  qed
  then obtain out1 where out1: "?m = Some out1" "entries_true hash before after out1" by blast
  obtain out2 where "collect_removed hash before after (trim_final_terminator (raw before) b) (root before) out1 = Some out2"
      "entries_true hash before after out2"
    using collect_removed_true [OF ok(1,2,3) nodes_self out1(2)] by blast
  with out1 show ?thesis by (simp add: region_deltas_def)
qed

end
