(* ===== verification/Delta_Reach.thy ===== *)
theory Delta_Reach
  imports Delta_Laws
begin

text \<open>
  Entries are never taken back, and the walk of the old state comes by every node that meets a
  region: what is gone is reported.
\<close>

section \<open>Entries stay\<close>

definition targets :: "node_delta list \<Rightarrow> ref set" where
  "targets out = nd_target ` set out"

definition keeps :: "node_delta list \<Rightarrow> node_delta list \<Rightarrow> bool" where
  "keeps out out' \<longleftrightarrow> targets out \<subseteq> targets out'"

lemma keeps_refl [simp]: "keeps out out"
  by (simp add: keeps_def)

lemma keeps_trans: "keeps s t \<Longrightarrow> keeps t u \<Longrightarrow> keeps s u"
  unfolding keeps_def by (rule subset_trans)

lemma pass_keeps:
  "(\<And>x s s'. x \<in> set xs \<Longrightarrow> f x s = Some s' \<Longrightarrow> keeps s s') \<Longrightarrow> pass f xs s = Some s' \<Longrightarrow> keeps s s'"
proof (induction xs arbitrary: s)
  case (Cons x xs)
  obtain s1 where s1: "f x s = Some s1" "pass f xs s1 = Some s'" using Cons.prems(2) by (auto simp: bind_eq_Some_conv)
  have "keeps s s1" by (rule Cons.prems(1) [OF _ s1(1)]) simp
  moreover have "keeps s1 s'" by (rule Cons.IH [OF _ s1(2)], rule Cons.prems(1)) simp_all
  ultimately show ?case by (rule keeps_trans)
qed simp

text \<open>One step of the loop enters what is asked for.\<close>

lemma pass_enters:
  assumes "\<And>x s s'. x \<in> set xs \<Longrightarrow> f x s = Some s' \<Longrightarrow> keeps s s'" "pass f xs s = Some s'" "y \<in> set xs"
    and "\<And>s s'. f y s = Some s' \<Longrightarrow> P (targets s')" "\<And>A B. P A \<Longrightarrow> A \<subseteq> B \<Longrightarrow> P B"
  shows "P (targets s')"
  using assms(1-3)
proof (induction xs arbitrary: s)
  case (Cons x xs)
  obtain s1 where s1: "f x s = Some s1" "pass f xs s1 = Some s'" using Cons.prems(2) by (auto simp: bind_eq_Some_conv)
  have later: "\<And>z s s'. z \<in> set xs \<Longrightarrow> f z s = Some s' \<Longrightarrow> keeps s s'" by (rule Cons.prems(1)) simp_all
  show ?case
  proof (cases "y = x")
    case True
    have "targets s1 \<subseteq> targets s'" using pass_keeps [OF later s1(2)] by (simp add: keeps_def)
    with True s1(1) assms(4,5) show ?thesis by blast
  next
    case False
    with Cons.prems(3) have "y \<in> set xs" by simp
    from Cons.IH [OF later s1(2) this] show ?thesis .
  qed
qed simp

lemma touch_again_targets: "touch_again mint t ds = Some ds' \<Longrightarrow> targets ds' = targets ds"
proof -
  assume "touch_again mint t ds = Some ds'"
  from touch_again_Some [OF this] show ?thesis
    unfolding targets_def by (induction ds ds' rule: list_all2_induct) auto
qed

lemma push_touched_keeps: "push_touched hash before t v s mint out = Some out' \<Longrightarrow> keeps out out'"
proof (cases "touch_again mint t out")
  case None
  assume "push_touched hash before t v s mint out = Some out'"
  with None obtain x where x: "resolve hash before t = Some x" "push_touched hash before t v s mint out = Some out'"
    by (auto simp: push_touched_def bind_eq_Some_conv)
  have "\<exists>xs. out' = out @ xs"
  proof (cases x)
    case (Inl e)
    with x None show ?thesis by (cases e) (auto simp: push_touched_def)
  qed (use x None in \<open>auto simp: push_touched_def split: if_splits\<close>)
  then show ?thesis by (auto simp: keeps_def targets_def)
qed (simp add: push_touched_def keeps_def touch_again_targets)

lemma push_touched_enters:
  assumes "push_touched hash before t v s mint out = Some out'"
    and "resolve hash before t = Some (Inl NotFound) \<or> (\<exists>old. resolve hash before t = Some (Inr old) \<and> tgt_rev old \<noteq> v)"
  shows "t \<in> targets out'"
proof (cases "touch_again mint t out")
  case (Some ds)
  then have "t \<in> targets out" using touch_again_None [of mint t out] by (auto simp: targets_def)
  with push_touched_keeps [OF assms(1)] show ?thesis by (auto simp: keeps_def)
next
  case None
  with assms show ?thesis by (auto simp: push_touched_def targets_def)
qed

lemma touch_key_keeps: "touch_key hash before after reach mint key out = Some out' \<Longrightarrow> keeps out out'"
  by (cases "resolve hash after (FmKey key)"; cases "the (resolve hash after (FmKey key))")
    (auto simp: touch_key_def split: if_splits dest: push_touched_keeps)

lemma touch_node_keeps: "touch_node hash before after reach mint n out = Some out' \<Longrightarrow> keeps out out'"
  by (auto simp: touch_node_def bind_eq_Some_conv split: option.splits dest: push_touched_keeps)

lemma size_child: "c \<in> set (children n) \<Longrightarrow> size c < size n"
  by (cases n) (auto dest: size_list_estimation' [where f = size, OF _ order_refl] simp: less_Suc_eq_le)

lemma touched_child: "c \<in> set (touched_children reach n) \<Longrightarrow> c \<in> set (children n)"
  by (simp add: touched_children_def)

lemma collect_touched_keeps: "collect_touched hash before after reach mint n out = Some out' \<Longrightarrow> keeps out out'"
proof (induction "size n" arbitrary: n out out' rule: less_induct)
  case less
  have eq: "collect_touched hash before after reach mint n out = Some out'" by (rule less.prems)
  show ?case
  proof (cases "frontmatter_keys (kind n)")
    case (Some ks)
    have "keeps out out'" if "pass (touch_key hash before after reach mint) ks out = Some out'"
      using touch_key_keeps that by (rule pass_keeps)
    with Some eq show ?thesis by (simp add: collect_touched.simps [of hash before after reach mint n] split: if_splits)
  next
    case None
    have "keeps out out'"
      if "pass (\<lambda>c out. collect_touched hash before after reach mint c out) (touched_children reach n) out = Some out'"
      by (rule pass_keeps [OF _ that], rule less.hyps [OF size_child]) (erule touched_child)
    with None eq touch_node_keeps show ?thesis
      by (auto simp: collect_touched.simps [of hash before after reach mint n] split: if_splits)
  qed
qed

lemma push_removed_targets: "targets (push_removed t v out) = insert t (targets out)"
  by (auto simp: push_removed_def targets_def)

lemma drop_key_keeps: "drop_key hash before after reach key out = Some out' \<Longrightarrow> keeps out out'"
  by (cases "resolve hash before (FmKey key)"; cases "the (resolve hash before (FmKey key))";
      cases "resolve hash after (FmKey key)")
    (auto simp: drop_key_def push_removed_targets keeps_def split: if_splits)

lemma collect_removed_keeps: "collect_removed hash before after reach n out = Some out' \<Longrightarrow> keeps out out'"
proof (induction "size n" arbitrary: n out out' rule: less_induct)
  case less
  have eq: "collect_removed hash before after reach n out = Some out'" by (rule less.prems)
  show ?case
  proof (cases "frontmatter_keys (kind n)")
    case (Some ks)
    have "keeps out out'" if "pass (drop_key hash before after reach) ks out = Some out'"
      using drop_key_keeps that by (rule pass_keeps)
    with Some eq show ?thesis by (simp add: collect_removed.simps [of hash before after reach n] split: if_splits)
  next
    case None
    have "keeps out out'"
      if "pass (\<lambda>c out. collect_removed hash before after reach c out) (children n) out = Some out'"
      by (rule pass_keeps [OF _ that], rule less.hyps [OF size_child]) assumption
    moreover have "keeps out (push_removed t (node_rev n) out)" for t by (auto simp: keeps_def push_removed_targets)
    ultimately show ?thesis
      using None eq
      by (auto simp: collect_removed.simps [of hash before after reach n] bind_eq_Some_conv split: if_splits option.splits)
  qed
qed

section \<open>The walks come by\<close>

text \<open>The nodes not below a frontmatter block, where keys are the grain.\<close>

fun open_nodes :: "node \<Rightarrow> node list" where
  "open_nodes (Node k r v h cs) =
     Node k r v h cs # (if frontmatter_keys k = None then concat (map open_nodes cs) else [])"

lemma open_nodes_cases:
  "n \<in> set (open_nodes m) \<Longrightarrow> n = m \<or>
    frontmatter_keys (kind m) = None \<and> (\<exists>c \<in> set (children m). n \<in> set (open_nodes c))"
  by (cases m) (auto split: if_splits)

lemma open_nodes_nodes: "n \<in> set (open_nodes m) \<Longrightarrow> n \<in> set (nodes m)"
  by (induction m rule: open_nodes.induct) (auto split: if_splits)

lemma nodes_covered: "nested m \<Longrightarrow> n \<in> set (nodes m) \<Longrightarrow> covers (span m) (span n)"
  using nested_facts nodes_facts by (fastforce simp: facts_of_def)

lemma meets_covered: "covers a b \<Longrightarrow> meets b r \<Longrightarrow> meets a r"
  by (auto simp: covers_def meets_def)

lemma addressable_above: "n \<in> set (nodes m) \<Longrightarrow> addressable (kind n) \<Longrightarrow> addressable_subtree m"
  by (induction m rule: nodes.induct) auto

lemma nested_child: "nested m \<Longrightarrow> c \<in> set (children m) \<Longrightarrow> nested c"
  by (cases m) auto

definition grain :: "node \<Rightarrow> bool" where
  "grain n \<longleftrightarrow> addressable (kind n) \<and> frontmatter_keys (kind n) = None"

text \<open>A node whose identity is gone has an entry for itself or for a node around it.\<close>

definition gone_around :: "(str \<Rightarrow> str) \<Rightarrow> document \<Rightarrow> document \<Rightarrow> span \<Rightarrow> node \<Rightarrow> ref set \<Rightarrow> bool" where
  "gone_around hash before after reach n A \<longleftrightarrow>
     (\<exists>m u. m \<in> set (nodes (root before)) \<and> n \<in> set (nodes m) \<and> u \<in> A \<and>
        identity_of hash before m reach = Some (Some u) \<and> resolve hash after u = Some (Inl NotFound))"

lemma collect_removed_enters:
  assumes n: "grain n" "meets (span n) reach"
    and i: "identity_of hash before n reach = Some (Some t)" "resolve hash after t = Some (Inl NotFound)"
  shows "nested m \<Longrightarrow> n \<in> set (open_nodes m) \<Longrightarrow> m \<in> set (nodes (root before)) \<Longrightarrow>
    collect_removed hash before after reach m out = Some out' \<Longrightarrow> gone_around hash before after reach n (targets out')"
proof (induction "size m" arbitrary: m out out' rule: less_induct)
  case less
  have meets: "meets (span m) reach"
    using nodes_covered [OF less.prems(1) open_nodes_nodes [OF less.prems(2)]] meets_covered n(2) by blast
  have k: "frontmatter_keys (kind m) = None" using open_nodes_cases [OF less.prems(2)] n(1) by (auto simp: grain_def)
  obtain g where g: "gone hash before after reach m = Some g"
    "(case g of Some u \<Rightarrow> Some (push_removed u (node_rev m) out)
      | None \<Rightarrow> pass (\<lambda>c out. collect_removed hash before after reach c out) (children m) out) = Some out'"
    using less.prems(4) meets k by (subst (asm) collect_removed.simps) (auto simp: bind_eq_Some_conv)
  show ?case
  proof (cases g)
    case (Some u)
    then have "identity_of hash before m reach = Some (Some u)" "resolve hash after u = Some (Inl NotFound)"
      using g(1) by (auto simp: gone_def bind_eq_Some_conv split: option.splits if_splits)
    with less.prems(2,3) Some g(2) open_nodes_nodes show ?thesis
      unfolding gone_around_def by (auto simp: push_removed_targets intro!: exI [of _ m] exI [of _ u])
  next
    case None
    have "n \<noteq> m" using None g(1) i by (auto simp: gone_def)
    then obtain c where c: "c \<in> set (children m)" "n \<in> set (open_nodes c)" using open_nodes_cases [OF less.prems(2)] by auto
    have "nested c" using nested_child less.prems(1) c(1) by blast
    moreover have "c \<in> set (nodes (root before))"
      using nodes_child [OF c(1)] nodes_trans [OF less.prems(3)] nodes_self by blast
    moreover have walk: "pass (\<lambda>c out. collect_removed hash before after reach c out) (children m) out = Some out'"
      using g(2) None by simp
    ultimately have hit: "collect_removed hash before after reach c s = Some s' \<Longrightarrow>
        gone_around hash before after reach n (targets s')" for s s'
      using less.hyps [OF size_child [OF c(1)] _ c(2)] by blast
    have mono: "gone_around hash before after reach n A \<Longrightarrow> A \<subseteq> B \<Longrightarrow> gone_around hash before after reach n B" for A B
      unfolding gone_around_def by blast
    show ?thesis
      by (rule pass_enters [where P = "gone_around hash before after reach n", OF _ walk c(1) hit mono])
        (rule collect_removed_keeps)
  qed
qed

section \<open>Region by region\<close>

definition gone_reported :: "(str \<Rightarrow> str) \<Rightarrow> document \<Rightarrow> document \<Rightarrow> span \<Rightarrow> ref set \<Rightarrow> bool" where
  "gone_reported hash before after reach A \<longleftrightarrow>
     (\<forall>n \<in> set (open_nodes (root before)). \<forall>t.
        grain n \<longrightarrow> meets (span n) reach \<longrightarrow> identity_of hash before n reach = Some (Some t) \<longrightarrow>
        resolve hash after t = Some (Inl NotFound) \<longrightarrow> gone_around hash before after reach n A)"

definition region_reported :: "(str \<Rightarrow> str) \<Rightarrow> document \<Rightarrow> document \<Rightarrow> span \<times> span \<Rightarrow> ref set \<Rightarrow> bool" where
  "region_reported hash before after ba A \<longleftrightarrow>
     (\<not> range_empty (fst ba) \<longrightarrow>
        gone_reported hash before after (trim_final_terminator (raw before) (fst ba)) A)"

lemma region_reported_mono: "region_reported hash before after ba A \<Longrightarrow> A \<subseteq> B \<Longrightarrow> region_reported hash before after ba B"
proof -
  assume a: "region_reported hash before after ba A" "A \<subseteq> B"
  have "gone_around hash before after r n A \<Longrightarrow> gone_around hash before after r n B" for r n
    using a(2) unfolding gone_around_def by blast
  with a show ?thesis unfolding region_reported_def gone_reported_def by blast
qed

lemma trim_empty: "range_empty r \<Longrightarrow> range_empty (trim_final_terminator s r)"
  by (simp add: trim_final_terminator_def range_empty_def)

lemma region_deltas_Some:
  assumes "region_deltas hash before after (b, a) out = Some out'"
  obtains out1 where
    "range_empty (trim_final_terminator (raw after) a) \<and> out1 = out \<or>
      (\<exists>mint. collect_touched hash before after (trim_final_terminator (raw after) a) mint (root after) out = Some out1)"
    "range_empty b \<and> out' = out1 \<or>
      collect_removed hash before after (trim_final_terminator (raw before) b) (root before) out1 = Some out'"
  using assms trim_empty [of a "raw after"]
  by (auto simp: region_deltas_def bind_eq_Some_conv Let_def split: if_splits)

lemma region_deltas_reports:
  assumes ok: "nested (root before)"
    and r: "region_deltas hash before after ba out = Some out'"
  shows "keeps out out'" "region_reported hash before after ba (targets out')"
proof -
  obtain b a where ba: "ba = (b, a)" by (cases ba)
  from r [unfolded ba] obtain out1 where
    o1: "range_empty (trim_final_terminator (raw after) a) \<and> out1 = out \<or>
      (\<exists>mint. collect_touched hash before after (trim_final_terminator (raw after) a) mint (root after) out = Some out1)"
    and o2: "range_empty b \<and> out' = out1 \<or>
      collect_removed hash before after (trim_final_terminator (raw before) b) (root before) out1 = Some out'"
    by (rule region_deltas_Some)
  have k1: "keeps out out1" using o1 collect_touched_keeps by auto
  have k2: "keeps out1 out'" using o2 collect_removed_keeps by auto
  show "keeps out out'" using k1 k2 by (rule keeps_trans)
  have "gone_reported hash before after (trim_final_terminator (raw before) b) (targets out')"
    if some: "\<not> range_empty b"
    unfolding gone_reported_def
  proof (intro ballI allI impI)
    fix n t
    assume n: "n \<in> set (open_nodes (root before))" "grain n" "meets (span n) (trim_final_terminator (raw before) b)"
      "identity_of hash before n (trim_final_terminator (raw before) b) = Some (Some t)"
      "resolve hash after t = Some (Inl NotFound)"
    have m: "collect_removed hash before after (trim_final_terminator (raw before) b) (root before) out1 = Some out'"
      using o2 some by blast
    show "gone_around hash before after (trim_final_terminator (raw before) b) n (targets out')"
      by (rule collect_removed_enters [OF n(2-5) ok(1) n(1) nodes_self m])
  qed
  then show "region_reported hash before after ba (targets out')"
    by (simp add: region_reported_def ba)
qed

lemma node_deltas_report:
  assumes "nested (root before)" "node_deltas hash before after = Some ds"
    and "ba \<in> set (changed_regions (raw before) (raw after))"
  shows "region_reported hash before after ba (targets ds)"
proof -
  have walk: "pass (region_deltas hash before after) (changed_regions (raw before) (raw after)) [] = Some ds"
    using assms(2) by (simp add: node_deltas_def)
  show ?thesis
    by (rule pass_enters [where P = "region_reported hash before after ba", OF _ walk assms(3)])
      (auto intro: region_deltas_reports [OF assms(1)] region_reported_mono)
qed

end
