(* ===== verification/Delta_Events.thy ===== *)
theory Delta_Events
  imports Delta_Reach
begin

text \<open>
  Which nodes a region of the diff touches, stated over the spans alone; the walk of the new state
  pushes just those, and what the entries then say of the regions behind them.
\<close>

section \<open>Touched nodes\<close>

text \<open>
  A deepest node of a region: it meets the region, and no child of it that meets the region holds a
  section, an anchor or a frontmatter block.
\<close>

definition deepest :: "span \<Rightarrow> node \<Rightarrow> bool" where
  "deepest reach n \<longleftrightarrow> meets (span n) reach \<and>
     (\<forall>c \<in> set (children n). meets (span c) reach \<longrightarrow> (\<forall>m \<in> set (nodes c). \<not> addressable (kind m)))"

definition touches_node :: "(str \<Rightarrow> str) \<Rightarrow> document \<Rightarrow> span \<Rightarrow> node \<Rightarrow> ref \<Rightarrow> target \<Rightarrow> bool" where
  "touches_node hash after reach m t x \<longleftrightarrow>
     (\<exists>n \<in> set (open_nodes m). frontmatter_keys (kind n) = None \<and> deepest reach n \<and>
        identity_of hash after n reach = Some (Some t) \<and> x = target_of n)"

definition touches_line :: "(str \<Rightarrow> str) \<Rightarrow> document \<Rightarrow> span \<Rightarrow> node \<Rightarrow> ref \<Rightarrow> target \<Rightarrow> bool" where
  "touches_line hash after reach m t x \<longleftrightarrow>
     (\<exists>n \<in> set (open_nodes m). \<exists>ks. frontmatter_keys (kind n) = Some ks \<and> meets (span n) reach \<and>
        (\<exists>key \<in> set ks. t = FmKey key \<and> resolve hash after t = Some (Inr x) \<and> meets (tgt_span x) reach))"

text \<open>A region touches its deepest sections and anchors, and the frontmatter lines it meets.\<close>

definition touches :: "(str \<Rightarrow> str) \<Rightarrow> document \<Rightarrow> span \<Rightarrow> node \<Rightarrow> ref \<Rightarrow> target \<Rightarrow> bool" where
  "touches hash after reach m t x \<longleftrightarrow> touches_node hash after reach m t x \<or> touches_line hash after reach m t x"

lemma addressable_subtree_nodes: "addressable_subtree n \<longleftrightarrow> (\<exists>m \<in> set (nodes n). addressable (kind m))"
  by (induction n rule: nodes.induct) auto

lemma deepest_iff: "deepest reach n \<longleftrightarrow> meets (span n) reach \<and> touched_children reach n = []"
  by (auto simp: deepest_def touched_children_def addressable_subtree_nodes filter_empty_conv)

lemma identity_addressable: "identity_of hash doc n r = Some (Some t) \<Longrightarrow> addressable (kind n)"
  by (cases "kind n") (auto simp: identity_of_def)

lemma frontmatter_addressable: "frontmatter_keys (kind n) = Some ks \<Longrightarrow> addressable (kind n)"
  by (cases "kind n") auto

lemma open_nodes_here: "frontmatter_keys (kind m) = Some ks \<Longrightarrow> open_nodes m = [m]"
  by (cases m) simp

lemma open_nodes_below: "frontmatter_keys (kind m) = None \<Longrightarrow> open_nodes m = m # concat (map open_nodes (children m))"
  by (cases m) simp

lemma touches_away: "nested m \<Longrightarrow> \<not> meets (span m) reach \<Longrightarrow> \<not> touches hash after reach m t x"
  using nodes_covered open_nodes_nodes meets_covered
  unfolding touches_def touches_node_def touches_line_def deepest_def by blast

lemma touches_bare: "\<not> addressable_subtree m \<Longrightarrow> \<not> touches hash after reach m t x"
  using addressable_above open_nodes_nodes identity_addressable frontmatter_addressable
  unfolding touches_def touches_node_def touches_line_def by metis

lemma touches_key:
  assumes "frontmatter_keys (kind m) = Some ks" "meets (span m) reach"
  shows "touches hash after reach m t x \<longleftrightarrow>
    (\<exists>key \<in> set ks. t = FmKey key \<and> resolve hash after t = Some (Inr x) \<and> meets (tgt_span x) reach)"
  using assms by (simp add: touches_def touches_node_def touches_line_def open_nodes_here)

lemma touches_below:
  assumes "frontmatter_keys (kind m) = None"
  shows "touches hash after reach m t x \<longleftrightarrow>
    deepest reach m \<and> identity_of hash after m reach = Some (Some t) \<and> x = target_of m \<or>
    (\<exists>c \<in> set (children m). touches hash after reach c t x)"
proof -
  have "touches_node hash after reach m t x \<longleftrightarrow>
    deepest reach m \<and> identity_of hash after m reach = Some (Some t) \<and> x = target_of m \<or>
    (\<exists>c \<in> set (children m). touches_node hash after reach c t x)"
    unfolding touches_node_def open_nodes_below [OF assms] using assms by simp
  moreover have "touches_line hash after reach m t x \<longleftrightarrow> (\<exists>c \<in> set (children m). touches_line hash after reach c t x)"
    unfolding touches_line_def open_nodes_below [OF assms] using assms by simp
  ultimately show ?thesis unfolding touches_def by blast
qed

lemma touches_here:
  assumes "nested m" "frontmatter_keys (kind m) = None" "deepest reach m"
  shows "touches hash after reach m t x \<longleftrightarrow> identity_of hash after m reach = Some (Some t) \<and> x = target_of m"
proof -
  have "\<not> touches hash after reach c t x" if "c \<in> set (children m)" for c
  proof (cases "meets (span c) reach")
    case True
    with assms(3) that have "\<not> addressable_subtree c" by (simp add: deepest_def addressable_subtree_nodes)
    then show ?thesis by (rule touches_bare)
  next
    case False
    with nested_child assms(1) that touches_away show ?thesis by blast
  qed
  with assms(3) touches_below [OF assms(2)] show ?thesis by blast
qed

lemma touches_deeper:
  assumes "nested m" "frontmatter_keys (kind m) = None" "touched_children reach m \<noteq> []"
  shows "touches hash after reach m t x \<longleftrightarrow> (\<exists>c \<in> set (touched_children reach m). touches hash after reach c t x)"
proof -
  have "c \<in> set (touched_children reach m)" if "c \<in> set (children m)" "touches hash after reach c t x" for c
  proof -
    have "meets (span c) reach" using touches_away nested_child [OF assms(1) that(1)] that(2) by blast
    moreover have "addressable_subtree c" using touches_bare that(2) by blast
    ultimately show ?thesis using that(1) by (simp add: touched_children_def)
  qed
  moreover have "\<not> deepest reach m" using assms(3) by (simp add: deepest_iff)
  ultimately show ?thesis using touched_child touches_below [OF assms(2)] by blast
qed

section \<open>The walk pushes what a region touches\<close>

definition push_target :: "(str \<Rightarrow> str) \<Rightarrow> document \<Rightarrow> bool \<Rightarrow> ref \<times> target \<Rightarrow> node_delta list \<Rightarrow> node_delta list option" where
  "push_target hash before mint p out = push_touched hash before (fst p) (tgt_rev (snd p)) (tgt_span (snd p)) mint out"

definition walks :: "(str \<Rightarrow> str) \<Rightarrow> document \<Rightarrow> bool \<Rightarrow> (ref \<Rightarrow> target \<Rightarrow> bool) \<Rightarrow> node_delta list \<Rightarrow> node_delta list \<Rightarrow> bool" where
  "walks hash before mint T out out' \<longleftrightarrow>
     (\<exists>ps. pass (push_target hash before mint) ps out = Some out' \<and> set ps = {(t, x). T t x})"

lemma pass_append: "pass f (xs @ ys) s = do { s' \<leftarrow> pass f xs s; pass f ys s' }"
proof (induction xs arbitrary: s)
  case (Cons x xs)
  then show ?case by (cases "f x s") simp_all
qed simp

lemma walks_cong: "walks hash before mint T out out' \<Longrightarrow> (\<And>t x. T t x \<longleftrightarrow> U t x) \<Longrightarrow> walks hash before mint U out out'"
  by (simp add: walks_def)

lemma walks_none: "(\<And>t x. \<not> T t x) \<Longrightarrow> walks hash before mint T out out"
  by (auto simp: walks_def intro!: exI [of _ "[]"])

lemma walks_one:
  "(\<And>t' x'. T t' x' \<longleftrightarrow> t' = t \<and> x' = x) \<Longrightarrow> push_touched hash before t (tgt_rev x) (tgt_span x) mint out = Some out' \<Longrightarrow>
    walks hash before mint T out out'"
  by (auto simp: walks_def push_target_def intro!: exI [of _ "[(t, x)]"])

lemma pass_walks:
  assumes "\<And>c s s'. c \<in> set cs \<Longrightarrow> f c s = Some s' \<Longrightarrow> walks hash before mint (T c) s s'" "pass f cs out = Some out'"
  shows "walks hash before mint (\<lambda>t x. \<exists>c \<in> set cs. T c t x) out out'"
  using assms
proof (induction cs arbitrary: out)
  case Nil
  then show ?case by (simp add: walks_none)
next
  case (Cons c cs)
  obtain s where s: "f c out = Some s" "pass f cs s = Some out'" using Cons.prems(2) by (auto simp: bind_eq_Some_conv)
  have "walks hash before mint (T c) out s" by (rule Cons.prems(1) [OF _ s(1)]) simp
  then obtain ps where ps: "pass (push_target hash before mint) ps out = Some s" "set ps = {(t, x). T c t x}"
    by (auto simp: walks_def)
  have "walks hash before mint (\<lambda>t x. \<exists>c \<in> set cs. T c t x) s out'"
    by (rule Cons.IH [OF _ s(2)], rule Cons.prems(1)) simp_all
  then obtain qs where qs: "pass (push_target hash before mint) qs s = Some out'" "set qs = {(t, x). \<exists>c \<in> set cs. T c t x}"
    by (auto simp: walks_def)
  have "pass (push_target hash before mint) (ps @ qs) out = Some out'" using ps(1) qs(1) by (simp add: pass_append)
  moreover have "set (ps @ qs) = {(t, x). \<exists>c \<in> set (c # cs). T c t x}" using ps(2) qs(2) by auto
  ultimately show ?case unfolding walks_def by blast
qed

lemma touch_key_walks:
  assumes "touch_key hash before after reach mint key out = Some out'"
  shows "walks hash before mint (\<lambda>t x. t = FmKey key \<and> resolve hash after t = Some (Inr x) \<and> meets (tgt_span x) reach) out out'"
proof -
  obtain y where y: "resolve hash after (FmKey key) = Some y" using assms by (auto simp: touch_key_def bind_eq_Some_conv)
  show ?thesis
  proof (cases "\<exists>x. y = Inr x \<and> meets (tgt_span x) reach")
    case True
    then obtain x where x: "y = Inr x" "meets (tgt_span x) reach" by blast
    with assms y have "push_touched hash before (FmKey key) (tgt_rev x) (tgt_span x) mint out = Some out'"
      by (simp add: touch_key_def)
    with x y show ?thesis by (intro walks_one) auto
  next
    case False
    with assms y have "out' = out" by (cases y) (auto simp: touch_key_def)
    moreover have "walks hash before mint (\<lambda>t x. t = FmKey key \<and> resolve hash after t = Some (Inr x) \<and> meets (tgt_span x) reach) out out"
      by (rule walks_none) (use False y in auto)
    ultimately show ?thesis by simp
  qed
qed

lemma collect_touched_walks:
  "nested m \<Longrightarrow> collect_touched hash before after reach mint m out = Some out' \<Longrightarrow>
    walks hash before mint (touches hash after reach m) out out'"
proof (induction "size m" arbitrary: m out out' rule: less_induct)
  case less
  have eq: "collect_touched hash before after reach mint m out = Some out'" by (rule less.prems)
  show ?case
  proof (cases "meets (span m) reach")
    case False
    with eq touches_away [OF less.prems(1)] show ?thesis
      by (simp add: collect_touched.simps [of hash before after reach mint m] walks_none)
  next
    case meets: True
    show ?thesis
    proof (cases "frontmatter_keys (kind m)")
      case (Some ks)
      with eq meets have walk: "pass (touch_key hash before after reach mint) ks out = Some out'"
        by (simp add: collect_touched.simps [of hash before after reach mint m])
      from pass_walks [where f = "touch_key hash before after reach mint"
          and T = "\<lambda>key t x. t = FmKey key \<and> resolve hash after t = Some (Inr x) \<and> meets (tgt_span x) reach",
          OF touch_key_walks walk] show ?thesis
        by (rule walks_cong) (assumption, rule touches_key [OF Some meets, symmetric])
    next
      case None
      show ?thesis
      proof (cases "touched_children reach m = []")
        case True
        with meets have deepest: "deepest reach m" by (simp add: deepest_iff)
        note here = touches_here [OF less.prems(1) None this, of hash after]
        from eq None meets True have touch: "touch_node hash before after reach mint m out = Some out'"
          by (simp add: collect_touched.simps [of hash before after reach mint m])
        then obtain i where i: "identity_of hash after m reach = Some i" by (auto simp: touch_node_def bind_eq_Some_conv)
        show ?thesis
        proof (cases i)
          case (Some t)
          with touch i have "push_touched hash before t (tgt_rev (target_of m)) (tgt_span (target_of m)) mint out = Some out'"
            by (simp add: touch_node_def target_of_def)
          with here i Some show ?thesis by (intro walks_one) auto
        next
          case None
          with touch i have "out' = out" by (simp add: touch_node_def)
          with here i None show ?thesis by (auto intro: walks_none)
        qed
      next
        case False
        with eq None meets have
          walk: "pass (\<lambda>c out. collect_touched hash before after reach mint c out) (touched_children reach m) out = Some out'"
          by (simp add: collect_touched.simps [of hash before after reach mint m])
        have "walks hash before mint (touches hash after reach c) s s'"
          if "c \<in> set (touched_children reach m)" "collect_touched hash before after reach mint c s = Some s'" for c s s'
          using less.hyps [OF size_child nested_child [OF less.prems(1)] that(2)] touched_child [OF that(1)] by blast
        from pass_walks [where T = "\<lambda>c. touches hash after reach c", OF this walk] show ?thesis
          by (rule walks_cong) (assumption | rule touches_deeper [OF less.prems(1) None False, symmetric])+
      qed
    qed
  qed
qed

section \<open>What the entries say of the regions\<close>

text \<open>One push: a region that mints or does not, and what it touches.\<close>

type_synonym touch_event = "bool \<times> ref \<times> target"

definition moved :: "(str \<Rightarrow> str) \<Rightarrow> document \<Rightarrow> ref \<Rightarrow> target \<Rightarrow> bool" where
  "moved hash before t x \<longleftrightarrow> resolve hash before t = Some (Inl NotFound) \<or>
     (\<exists>old. resolve hash before t = Some (Inr old) \<and> tgt_rev old \<noteq> tgt_rev x)"

definition accounts :: "(str \<Rightarrow> str) \<Rightarrow> document \<Rightarrow> touch_event set \<Rightarrow> node_delta list \<Rightarrow> bool" where
  "accounts hash before E out \<longleftrightarrow>
     (\<forall>(m, t, x) \<in> E. moved hash before t x \<longrightarrow> t \<in> targets out) \<and>
     (\<forall>d \<in> set out. nd_change d = Anchored \<longrightarrow>
        (\<exists>x. (True, nd_target d, x) \<in> E) \<and>
        (\<forall>x. moved hash before (nd_target d) x \<longrightarrow> (False, nd_target d, x) \<notin> E)) \<and>
     (\<forall>d \<in> set out. nd_change d = Edited \<longrightarrow> (\<exists>x. (False, nd_target d, x) \<in> E))"

lemma accounts_Nil [simp]: "accounts hash before {} []"
  by (simp add: accounts_def)

lemma accounts_moved: "accounts hash before E out \<Longrightarrow> (m, t, x) \<in> E \<Longrightarrow> moved hash before t x \<Longrightarrow> t \<in> targets out"
  by (auto simp: accounts_def)

text \<open>Entries are only added at the end, an anchored one turned into an edited one at most.\<close>

lemma touch_again_entry:
  assumes "touch_again mint t ds = Some ds'" "distinct (map nd_target ds)" "d' \<in> set ds'"
  shows "d' \<in> set ds \<and> \<not> (nd_target d' = t \<and> \<not> mint \<and> nd_change d' = Anchored) \<or>
    nd_target d' = t \<and> \<not> mint \<and> nd_change d' = Edited"
  using assms
proof (induction ds arbitrary: ds')
  case (Cons d ds)
  then show ?case by (auto split: if_splits simp: rev_image_eqI)
qed simp

lemma push_touched_distinct:
  assumes "push_touched hash before t v s mint out = Some out'" "distinct (map nd_target out)"
  shows "distinct (map nd_target out')"
proof (cases "touch_again mint t out")
  case (Some ds)
  from touch_again_Some [OF this] have "map nd_target ds = map nd_target out"
    by (induction out ds rule: list_all2_induct) auto
  with Some assms show ?thesis by (simp add: push_touched_def)
next
  case None
  then have fresh: "t \<notin> nd_target ` set out" by (simp add: touch_again_None)
  obtain y where y: "resolve hash before t = Some y"
    using assms(1) None by (auto simp: push_touched_def bind_eq_Some_conv)
  show ?thesis
  proof (cases y)
    case (Inl e)
    with y None assms fresh show ?thesis by (cases e) (auto simp: push_touched_def)
  qed (use y None assms fresh in \<open>auto simp: push_touched_def split: if_splits\<close>)
qed

lemma push_target_accounts:
  assumes "push_target hash before mint (t, x) out = Some out'" "accounts hash before E out" "distinct (map nd_target out)"
  shows "accounts hash before (insert (mint, t, x) E) out'"
proof (cases "touch_again mint t out")
  case (Some ds)
  with assms(1) have ds: "touch_again mint t out = Some out'" by (simp add: push_target_def push_touched_def)
  note entry = touch_again_entry [OF this assms(3)] and targets = touch_again_targets [OF ds]
  have "t \<in> targets out" using touch_again_None [of mint t out] Some by (auto simp: targets_def)
  moreover have "(\<exists>y. (True, nd_target d, y) \<in> insert (mint, t, x) E) \<and>
      (\<forall>y. moved hash before (nd_target d) y \<longrightarrow> (False, nd_target d, y) \<notin> insert (mint, t, x) E)"
    if d: "d \<in> set out'" "nd_change d = Anchored" for d
    using entry [OF d(1)] d(2) assms(2) unfolding accounts_def by auto
  moreover have "\<exists>y. (False, nd_target d, y) \<in> insert (mint, t, x) E"
    if d: "d \<in> set out'" "nd_change d = Edited" for d
    using entry [OF d(1)] d(2) assms(2) unfolding accounts_def by auto
  ultimately show ?thesis using assms(2) targets unfolding accounts_def by auto
next
  case None
  then have fresh: "t \<notin> targets out" by (simp add: touch_again_None targets_def)
  obtain y where y: "resolve hash before t = Some y"
    using assms(1) None by (auto simp: push_target_def push_touched_def bind_eq_Some_conv)
  consider (stay) "out' = out" "\<not> moved hash before t x"
    | (new) d where "out' = out @ [d]" "nd_target d = t" "nd_change d = (if mint then Anchored else Edited) \<or> nd_change d = Added"
  proof (cases y)
    case (Inl e)
    with y None assms(1) that show thesis by (cases e) (auto simp: push_target_def push_touched_def moved_def)
  next
    case (Inr old)
    with y None assms(1) that show thesis by (auto simp: push_target_def push_touched_def moved_def split: if_splits)
  qed
  then show ?thesis
  proof cases
    case stay
    with assms(2) show ?thesis unfolding accounts_def by auto
  next
    case new
    have "\<not> moved hash before t z" if "(m, t, z) \<in> E" for m z
      using assms(2) that fresh unfolding accounts_def by auto
    moreover have "targets out' = insert t (targets out)" using new(1,2) by (auto simp: targets_def)
    moreover have "nd_target e \<noteq> t" if "e \<in> set out" for e using that fresh by (auto simp: targets_def)
    ultimately show ?thesis using assms(2) new unfolding accounts_def by (auto split: if_splits)
  qed
qed

text \<open>A whole walk, and the removals after it.\<close>

lemma pass_accounts:
  assumes "doc_ok hash before" "pass (push_target hash before mint) ps out = Some out'" "accounts hash before E out"
    "distinct (map nd_target out)"
  shows "accounts hash before (E \<union> Pair mint ` set ps) out' \<and> distinct (map nd_target out')"
  using assms(2-)
proof (induction ps arbitrary: out E)
  case (Cons p ps)
  obtain t x where p: "p = (t, x)" by (cases p)
  obtain s where s: "push_target hash before mint (t, x) out = Some s" "pass (push_target hash before mint) ps s = Some out'"
    using Cons.prems(1) p by (auto simp: bind_eq_Some_conv)
  have "accounts hash before (insert (mint, t, x) E) s" by (rule push_target_accounts [OF s(1) Cons.prems(2,3)])
  moreover have "distinct (map nd_target s)" using push_touched_distinct s(1) Cons.prems(3) by (simp add: push_target_def)
  ultimately have "accounts hash before (insert (mint, t, x) E \<union> Pair mint ` set ps) out' \<and> distinct (map nd_target out')"
    by (rule Cons.IH [OF s(2)])
  moreover have "insert (mint, t, x) E \<union> Pair mint ` set ps = E \<union> Pair mint ` set (p # ps)" using p by auto
  ultimately show ?case by simp
qed simp

lemma pass_inv:
  "pass f xs s = Some s' \<Longrightarrow> I s \<Longrightarrow> (\<And>x s s'. x \<in> set xs \<Longrightarrow> f x s = Some s' \<Longrightarrow> I s \<Longrightarrow> I s') \<Longrightarrow> I s'"
proof (induction xs arbitrary: s)
  case (Cons x xs)
  obtain s1 where s1: "f x s = Some s1" "pass f xs s1 = Some s'" using Cons.prems(1) by (auto simp: bind_eq_Some_conv)
  have "I s1" by (rule Cons.prems(3) [OF _ s1(1) Cons.prems(2)]) simp
  with s1(2) show ?case by (rule Cons.IH) (rule Cons.prems(3), simp_all)
qed simp

definition settled :: "(str \<Rightarrow> str) \<Rightarrow> document \<Rightarrow> touch_event set \<Rightarrow> node_delta list \<Rightarrow> bool" where
  "settled hash before E out \<longleftrightarrow> accounts hash before E out \<and> distinct (map nd_target out)"

lemma push_removed_settled: "settled hash before E out \<Longrightarrow> settled hash before E (push_removed t v out)"
  by (auto simp: settled_def accounts_def push_removed_def targets_def)

lemma drop_key_settled:
  "drop_key hash before after reach key out = Some out' \<Longrightarrow> settled hash before E out \<Longrightarrow> settled hash before E out'"
  by (cases "resolve hash before (FmKey key)"; cases "the (resolve hash before (FmKey key))";
      cases "resolve hash after (FmKey key)")
    (auto simp: drop_key_def push_removed_settled split: if_splits)

lemma collect_removed_settled:
  "collect_removed hash before after reach n out = Some out' \<Longrightarrow> settled hash before E out \<Longrightarrow> settled hash before E out'"
proof (induction "size n" arbitrary: n out out' rule: less_induct)
  case less
  note eq = less.prems(1)
  show ?case
  proof (cases "frontmatter_keys (kind n)")
    case (Some ks)
    have "settled hash before E out'" if "pass (drop_key hash before after reach) ks out = Some out'"
      using that less.prems(2) drop_key_settled by (rule pass_inv)
    with Some eq less.prems(2) show ?thesis by (simp add: collect_removed.simps [of hash before after reach n] split: if_splits)
  next
    case None
    have "settled hash before E out'"
      if "pass (\<lambda>c out. collect_removed hash before after reach c out) (children n) out = Some out'"
      using that less.prems(2) by (rule pass_inv) (rule less.hyps [OF size_child])
    with None eq less.prems(2) push_removed_settled show ?thesis
      by (auto simp: collect_removed.simps [of hash before after reach n] bind_eq_Some_conv split: if_splits option.splits)
  qed
qed

text \<open>What a region pushes, and whether as a mint.\<close>

definition region_events :: "(str \<Rightarrow> str) \<Rightarrow> document \<Rightarrow> document \<Rightarrow> span \<times> span \<Rightarrow> touch_event set" where
  "region_events hash before after ba =
     (let reach = trim_final_terminator (raw after) (snd ba) in
      {(m, t, x). \<not> range_empty reach \<and> anchor_mint hash before after (fst ba) (snd ba) = Some m \<and>
         touches hash after reach (root after) t x})"

lemma region_settled:
  assumes "doc_ok hash before" "nested (root after)" "region_deltas hash before after ba out = Some out'" "settled hash before E out"
  shows "settled hash before (E \<union> region_events hash before after ba) out'"
proof -
  obtain b a where ba: "ba = (b, a)" by (cases ba)
  let ?reach = "trim_final_terminator (raw after) a"
  obtain out1 where
    o1: "(if range_empty a then Some out else do { mint \<leftarrow> anchor_mint hash before after b a;
        let probe = ?reach;
        if range_empty probe then Some out else collect_touched hash before after probe mint (root after) out }) = Some out1"
    and o2: "(if range_empty b then Some out1
        else collect_removed hash before after (trim_final_terminator (raw before) b) (root before) out1) = Some out'"
    using assms(3) by (auto simp: ba region_deltas_def bind_eq_Some_conv)
  have "settled hash before (E \<union> region_events hash before after ba) out1"
  proof (cases "range_empty ?reach")
    case True
    with o1 have "out1 = out" by (auto simp: bind_eq_Some_conv Let_def split: if_splits)
    with True assms(4) show ?thesis by (simp add: region_events_def ba Let_def)
  next
    case False
    with trim_empty have "\<not> range_empty a" by blast
    with o1 False obtain mint where mint: "anchor_mint hash before after b a = Some mint"
      "collect_touched hash before after ?reach mint (root after) out = Some out1"
      by (auto simp: bind_eq_Some_conv Let_def)
    obtain ps where ps: "pass (push_target hash before mint) ps out = Some out1"
      "set ps = {(t, x). touches hash after ?reach (root after) t x}"
      using collect_touched_walks [OF assms(2) mint(2)] by (auto simp: walks_def)
    have "region_events hash before after ba = Pair mint ` set ps"
      using False mint(1) ps(2) by (auto simp: region_events_def ba Let_def)
    moreover have "accounts hash before E out" "distinct (map nd_target out)" using assms(4) by (simp_all add: settled_def)
    note pass_accounts [OF assms(1) ps(1) this]
    ultimately show ?thesis by (simp add: settled_def)
  qed
  with o2 collect_removed_settled show ?thesis by (auto split: if_splits)
qed

lemma node_deltas_settled:
  assumes "doc_ok hash before" "nested (root after)" "node_deltas hash before after = Some ds"
  shows "settled hash before (\<Union> (region_events hash before after ` set (changed_regions (raw before) (raw after)))) ds"
proof -
  have "settled hash before (E \<union> \<Union> (region_events hash before after ` set rs)) out'"
    if "pass (region_deltas hash before after) rs out = Some out'" "settled hash before E out" for rs E out out'
    using that
  proof (induction rs arbitrary: out E)
    case (Cons r rs)
    obtain s where s: "region_deltas hash before after r out = Some s" "pass (region_deltas hash before after) rs s = Some out'"
      using Cons.prems(1) by (auto simp: bind_eq_Some_conv)
    from Cons.IH [OF s(2) region_settled [OF assms(1,2) s(1) Cons.prems(2)]] show ?case by (simp add: Un_assoc)
  qed simp
  from this [of "changed_regions (raw before) (raw after)" "[]" ds "{}"] assms(3) show ?thesis
    by (simp add: node_deltas_def settled_def)
qed

section \<open>Mints, byte by byte\<close>

text \<open>The identifier is an anchor of the new state and none of the old one.\<close>

definition fresh_anchor :: "(str \<Rightarrow> str) \<Rightarrow> document \<Rightarrow> document \<Rightarrow> str \<Rightarrow> bool" where
  "fresh_anchor hash before after name \<longleftrightarrow> name \<noteq> [] \<and> list_all block_id_char name \<and>
     (\<exists>x. resolve hash after (AnchorRef name) = Some (Inr x)) \<and>
     resolve hash before (AnchorRef name) = Some (Inl NotFound)"

text \<open>The region gained one marker, with the blanks around it, and nothing else.\<close>

definition gains_only_marker :: "(str \<Rightarrow> str) \<Rightarrow> document \<Rightarrow> document \<Rightarrow> span \<times> span \<Rightarrow> bool" where
  "gains_only_marker hash before after ba \<longleftrightarrow>
     (\<exists>u w name w' v. fresh_anchor hash before after name \<and> list_all ascii_space w \<and> list_all ascii_space w' \<and>
        text_of (raw before) (fst ba) = u @ v \<and>
        text_of (raw after) (snd ba) = u @ w @ CHR ''^'' # name @ w' @ v)"

text \<open>The two spellings of a mint: a line of its own, and the tail of a line.\<close>

definition mints_line :: "(str \<Rightarrow> str) \<Rightarrow> document \<Rightarrow> document \<Rightarrow> span \<times> span \<Rightarrow> bool" where
  "mints_line hash before after ba \<longleftrightarrow>
     (\<exists>u name v. fresh_anchor hash before after name \<and> (u = [] \<or> last u = lf) \<and>
        text_of (raw before) (fst ba) = u @ v \<and>
        text_of (raw after) (snd ba) = u @ CHR ''^'' # name @ lf # v)"

definition mints_tail :: "(str \<Rightarrow> str) \<Rightarrow> document \<Rightarrow> document \<Rightarrow> span \<times> span \<Rightarrow> bool" where
  "mints_tail hash before after ba \<longleftrightarrow>
     (\<exists>u name v. fresh_anchor hash before after name \<and> u \<noteq> [] \<and> \<not> ascii_space (last u) \<and>
        text_of (raw before) (fst ba) = u @ lf # v \<and>
        text_of (raw after) (snd ba) = u @ CHR '' '' # CHR ''^'' # name @ lf # v)"

lemma any_mint_True:
  "any_mint hash before after bt s ms = Some True \<Longrightarrow>
    \<exists>r name. (r, name) \<in> set ms \<and> strip_marker s r = Some bt \<and> fresh_anchor hash before after name"
proof (induction ms)
  case (Cons x ms)
  obtain r name where x: "x = (r, name)" by (cases x)
  show ?case
  proof (cases "any_mint hash before after bt s ms = Some True")
    case True
    with Cons.IH show ?thesis by auto
  next
    case False
    from Cons.prems x obtain t where t: "strip_marker s r = Some t" by (auto simp: bind_eq_Some_conv)
    with Cons.prems x False have "t = bt" by (auto split: if_splits)
    have "fresh_anchor hash before after name"
    proof (cases "anchor_ref name")
      case (Inl e)
      with Cons.prems x False t show ?thesis by (auto split: if_splits)
    next
      case (Inr a)
      then have a: "name \<noteq> []" "list_all block_id_char name" "a = AnchorRef name"
        by (auto simp: anchor_ref_def list_all_iff split: if_splits)
      from Cons.prems x t \<open>t = bt\<close> Inr obtain y where y: "resolve hash after a = Some y" by (auto simp: bind_eq_Some_conv)
      with Cons.prems x t \<open>t = bt\<close> Inr a False show ?thesis
        by (cases y) (auto simp: bind_eq_Some_conv fresh_anchor_def split: if_splits)
    qed
    with x t \<open>t = bt\<close> show ?thesis by auto
  qed
qed simp

lemma any_mint_False:
  "any_mint hash before after bt s ms = Some False \<Longrightarrow> (r, name) \<in> set ms \<Longrightarrow> strip_marker s r = Some bt \<Longrightarrow>
    \<not> fresh_anchor hash before after name"
proof (induction ms)
  case (Cons x ms)
  obtain r' name' where x: "x = (r', name')" by (cases x)
  from Cons.prems(1) x have rest: "any_mint hash before after bt s ms = Some False"
    by (auto simp: bind_eq_Some_conv split: if_splits)
  show ?case
  proof (cases "(r, name) \<in> set ms")
    case True
    with Cons.IH rest Cons.prems(3) show ?thesis by blast
  next
    case False
    with Cons.prems(2) x have same: "r' = r" "name' = name" by simp_all
    show ?thesis
    proof
      assume f: "fresh_anchor hash before after name"
      then have "anchor_ref name = Inr (AnchorRef name)" by (simp add: anchor_ref_def fresh_anchor_def list_all_iff)
      with f Cons.prems(1,3) x same show False by (auto simp: fresh_anchor_def)
    qed
  qed
qed simp

lemma takeWhile_all: "list_all P (takeWhile P xs)"
  by (induction xs) simp_all

text \<open>What a marker is cut out with is blank.\<close>

lemma marker_cut_blank:
  assumes "hi r \<le> length s" "lo r \<le> hi r"
  shows "lo (marker_cut s r) \<le> lo r" "hi r \<le> hi (marker_cut s r)"
    "list_all ascii_space (sub s (lo (marker_cut s r)) (lo r))" "list_all ascii_space (sub s (hi r) (hi (marker_cut s r)))"
proof -
  define start where "start = (case position (\<lambda>c. c = lf) (rev (take (lo r) s)) of None \<Rightarrow> 0 | Some k \<Rightarrow> lo r - k)"
  define stop where "stop = (case position (\<lambda>c. c = lf) (drop (hi r) s) of None \<Rightarrow> length s | Some k \<Rightarrow> Suc (hi r + k))"
  have cut: "marker_cut s r = (if list_all ascii_space (sub s start (lo r)) \<and> list_all ascii_space (sub s (hi r) stop)
      then Span start stop else Span (tail_start s start (lo r)) (hi r))"
    unfolding marker_cut_def Let_def start_def stop_def ..
  have bounds: "start \<le> lo r" "hi r \<le> stop" using assms by (auto simp: start_def stop_def split: option.splits)
  let ?w = "takeWhile ascii_space (rev (sub s start (lo r)))"
  have n: "length ?w \<le> lo r - start"
    using length_takeWhile_le [of ascii_space "rev (sub s start (lo r))"] assms by (simp add: length_sub)
  have "sub s (lo r - length ?w) (lo r) = rev ?w"
  proof -
    have "sub s (lo r - length ?w) (lo r) = drop (lo r - start - length ?w) (sub s start (lo r))"
      using n bounds by (simp add: sub_def drop_take)
    also have "\<dots> = rev (take (length ?w) (rev (sub s start (lo r))))"
      using n assms bounds by (simp add: take_rev length_sub)
    finally show ?thesis by (simp add: takeWhile_eq_take [symmetric])
  qed
  then have blank: "list_all ascii_space (sub s (tail_start s start (lo r)) (lo r))"
    using takeWhile_all [of ascii_space] by (simp add: tail_start_def)
  show "lo (marker_cut s r) \<le> lo r" "hi r \<le> hi (marker_cut s r)" using bounds by (auto simp: cut tail_start_def)
  show "list_all ascii_space (sub s (lo (marker_cut s r)) (lo r))" "list_all ascii_space (sub s (hi r) (hi (marker_cut s r)))"
    using blank by (auto simp: cut sub_def)
qed

lemma strip_marker_Some:
  assumes "utf8_valid s" "(r, name) \<in> set (markers s)" "strip_marker s r = Some t"
  shows "\<exists>u w w' v. list_all ascii_space w \<and> list_all ascii_space w' \<and> t = u @ v \<and> s = u @ w @ CHR ''^'' # name @ w' @ v"
proof -
  note m = marker_boundaries [OF assms(1,2)] and good = marker_cut_good [OF assms(1,2)]
  define c where "c = marker_cut s r"
  have hi: "hi c \<le> length s" using good(2) char_boundary_le by (simp add: c_def)
  have t: "t = sub s 0 (lo c) @ sub s (hi c) (length s)"
    using assms(3) by (auto simp: strip_marker_def bind_eq_Some_conv str_slice_def c_def split: if_splits)
  note blank = marker_cut_blank [OF m(4) less_imp_le [OF m(3)], folded c_def]
  have mark: "sub s (lo r) (hi r) = CHR ''^'' # name"
  proof -
    obtain u v where "s = u @ CHR ''^'' # name @ v" "lo r = length u" "hi r = Suc (lo r + length name)"
      using markers_from_at assms(2) unfolding markers_def by fastforce
    then show ?thesis by (simp add: sub_def)
  qed
  have "s = sub s 0 (lo c) @ sub s (lo c) (lo r) @ sub s (lo r) (hi r) @ sub s (hi r) (hi c) @ sub s (hi c) (length s)"
    using blank(1,2) m(3) hi by (simp add: sub_append sub_def [of s 0 "length s"])
  with mark have "s = sub s 0 (lo c) @ sub s (lo c) (lo r) @ CHR ''^'' # name @ sub s (hi r) (hi c) @ sub s (hi c) (length s)"
    by simp
  with t blank(3,4) show ?thesis by blast
qed

lemma region_good:
  assumes "doc_ok hash before" "doc_ok hash after" "(b, a) \<in> set (changed_regions (raw before) (raw after))"
  shows "good_span (raw before) b" "good_span (raw after) a" "utf8_valid (text_of (raw after) a)"
    "str_slice (raw after) a = Some (text_of (raw after) a)" "str_slice (raw before) b = Some (text_of (raw before) b)"
proof -
  have utf8: "utf8_valid (raw before)" "utf8_valid (raw after)" using assms(1,2) by (simp_all add: doc_ok_def)
  note g = regions_good(1,2) [OF utf8 assms(3)]
  show "good_span (raw before) b" "good_span (raw after) a" by (rule g)+
  show "utf8_valid (text_of (raw after) a)"
    unfolding text_of_def using utf8(2) g(2) by (intro utf8_sub) (auto simp: good_span_def span_in_def)
  show "str_slice (raw after) a = Some (text_of (raw after) a)" "str_slice (raw before) b = Some (text_of (raw before) b)"
    using g by (simp_all add: str_slice_good text_of_def)
qed

lemma mint_gains:
  assumes "doc_ok hash before" "doc_ok hash after" "(b, a) \<in> set (changed_regions (raw before) (raw after))"
    and "anchor_mint hash before after b a = Some True"
  shows "gains_only_marker hash before after (b, a)"
proof -
  note g = region_good [OF assms(1-3)]
  have "any_mint hash before after (text_of (raw before) b) (text_of (raw after) a) (markers (text_of (raw after) a)) = Some True"
    using assms(4) g(4,5) by (simp add: anchor_mint_def)
  from any_mint_True [OF this] obtain r name where r: "(r, name) \<in> set (markers (text_of (raw after) a))"
      "strip_marker (text_of (raw after) a) r = Some (text_of (raw before) b)" "fresh_anchor hash before after name" by blast
  from strip_marker_Some [OF g(3) r(1,2)] r(3) show ?thesis unfolding gains_only_marker_def fst_conv snd_conv by blast
qed

lemma markers_from_mem:
  "list_all block_id_char name \<Longrightarrow> name \<noteq> [] \<Longrightarrow> v = [] \<or> \<not> block_id_char (hd v) \<Longrightarrow>
    (Span (i + length u) (Suc (i + length u + length name)), name) \<in> set (markers_from i (u @ CHR ''^'' # name @ v))"
proof (induction u arbitrary: i)
  case Nil
  then have "takeWhile block_id_char (name @ v) = name"
    by (cases v) (auto simp: list_all_iff takeWhile_append2)
  with Nil show ?case by (simp add: Let_def)
next
  case (Cons c u)
  from Cons.IH [OF Cons.prems, of "Suc i"] show ?case by (simp add: Let_def)
qed

lemma lf_no_id [simp]: "\<not> block_id_char lf"
  by (simp add: block_id_char_def ascii_lower_def ascii_digit_def lf_def byte_def)

lemma id_no_lf: "list_all block_id_char name \<Longrightarrow> position (\<lambda>c. c = lf) (name @ lf # v) = Some (length name)"
  by (induction name) auto

lemma lf_space [simp]: "ascii_space lf"
  by (simp add: ascii_space_def lf_def byte_def)

text \<open>A marker of the first spelling is stripped with its line, one of the second with its blank.\<close>

lemma strip_cut:
  assumes "strip_marker s r \<noteq> None" "marker_cut s r = c"
  shows "strip_marker s r = Some (take (lo c) s @ drop (hi c) s)"
  using assms by (auto simp: strip_marker_def str_slice_def bind_eq_Some_conv sub_def split: if_splits)

lemma strip_line:
  fixes u name v defines "s \<equiv> u @ CHR ''^'' # name @ lf # v" and "r \<equiv> Span (length u) (Suc (length u + length name))"
  assumes "u = [] \<or> last u = lf" "strip_marker s r \<noteq> None"
  shows "strip_marker s r = Some (u @ v)"
proof -
  have start: "(case position (\<lambda>c. c = lf) (rev (take (lo r) s)) of None \<Rightarrow> 0 | Some k \<Rightarrow> lo r - k) = length u"
    using assms(3) by (cases u rule: rev_cases) (auto simp: s_def r_def)
  have stop: "(case position (\<lambda>c. c = lf) (drop (hi r) s) of None \<Rightarrow> length s | Some k \<Rightarrow> Suc (hi r + k)) = Suc (hi r)"
    by (simp add: s_def r_def)
  have "marker_cut s r = Span (length u) (Suc (hi r))"
    unfolding marker_cut_def Let_def start stop by (simp add: s_def r_def sub_def)
  from strip_cut [OF assms(4) this] show ?thesis by (simp add: s_def r_def)
qed

lemma strip_tail:
  fixes u name v defines "s \<equiv> u @ CHR '' '' # CHR ''^'' # name @ v"
    and "r \<equiv> Span (Suc (length u)) (Suc (Suc (length u + length name)))"
  assumes "u \<noteq> []" "\<not> ascii_space (last u)" "strip_marker s r \<noteq> None"
  shows "strip_marker s r = Some (u @ v)"
proof -
  obtain u' x where u: "u = u' @ [x]" "\<not> ascii_space x" using assms(3,4) by (cases u rule: rev_cases) auto
  then have "x \<noteq> lf" by auto
  define start where "start = (case position (\<lambda>c. c = lf) (rev (take (lo r) s)) of None \<Rightarrow> 0 | Some k \<Rightarrow> lo r - k)"
  have start: "start \<le> length u'"
    using \<open>x \<noteq> lf\<close> by (auto simp: start_def s_def r_def u lf_def split: option.split)
  have sub: "sub s start (lo r) = drop start u' @ [x, CHR '' '']"
    using start by (simp add: s_def r_def u sub_def)
  have "marker_cut s r = Span (length u) (hi r)"
  proof -
    have "tail_start s start (lo r) = length u"
      using u(2) by (simp add: tail_start_def sub) (simp add: r_def ascii_space_def byte_def)
    moreover have "\<not> list_all ascii_space (sub s start (lo r))" using u(2) by (simp add: sub)
    ultimately show ?thesis unfolding marker_cut_def Let_def start_def [symmetric] by simp
  qed
  from strip_cut [OF assms(5) this] show ?thesis by (simp add: s_def r_def)
qed

text \<open>Each spelling of a mint is taken for one.\<close>

lemma spelled_mint:
  assumes ok: "doc_ok hash before" "doc_ok hash after" "(b, a) \<in> set (changed_regions (raw before) (raw after))"
    and "mints_line hash before after (b, a) \<or> mints_tail hash before after (b, a)"
  shows "anchor_mint hash before after b a \<noteq> Some False"
proof
  assume no: "anchor_mint hash before after b a = Some False"
  let ?a = "text_of (raw after) a" and ?b = "text_of (raw before) b"
  note g = region_good [OF ok]
  have any: "any_mint hash before after ?b ?a (markers ?a) = Some False"
    using no g(4,5) by (simp add: anchor_mint_def)
  have cut: "strip_marker ?a r \<noteq> None" if "(r, name) \<in> set (markers ?a)" for r name
    by (rule strip_marker_total [OF g(3) that])
  from assms(4) show False
  proof
    assume "mints_line hash before after (b, a)"
    then obtain u name v where m: "fresh_anchor hash before after name" "u = [] \<or> last u = lf" "?b = u @ v"
        "?a = u @ CHR ''^'' # name @ lf # v" by (auto simp: mints_line_def)
    let ?r = "Span (length u) (Suc (length u + length name))"
    have mem: "(?r, name) \<in> set (markers ?a)"
      using markers_from_mem [of name "lf # v" 0 u] m(1) by (simp add: markers_def m(4) fresh_anchor_def)
    have "strip_marker ?a ?r = Some ?b" using strip_line [OF m(2)] cut [OF mem] unfolding m(3,4) by blast
    from any_mint_False [OF any mem this] m(1) show False by blast
  next
    assume "mints_tail hash before after (b, a)"
    then obtain u name v where m: "fresh_anchor hash before after name" "u \<noteq> []" "\<not> ascii_space (last u)" "?b = u @ lf # v"
        "?a = u @ CHR '' '' # CHR ''^'' # name @ lf # v" by (auto simp: mints_tail_def)
    let ?r = "Span (Suc (length u)) (Suc (Suc (length u + length name)))"
    have mem: "(?r, name) \<in> set (markers ?a)"
      using markers_from_mem [of name "lf # v" 0 "u @ [CHR '' '']"] m(1) by (simp add: markers_def m(5) fresh_anchor_def)
    have "strip_marker ?a ?r = Some ?b" using strip_tail [OF m(2,3)] cut [OF mem] unfolding m(4,5) by blast
    from any_mint_False [OF any mem this] m(1) show False by blast
  qed
qed

section \<open>Verdicts\<close>

definition region_touches :: "(str \<Rightarrow> str) \<Rightarrow> document \<Rightarrow> span \<times> span \<Rightarrow> ref \<Rightarrow> target \<Rightarrow> bool" where
  "region_touches hash after ba t x \<longleftrightarrow>
     (let reach = trim_final_terminator (raw after) (snd ba) in
      \<not> range_empty reach \<and> touches hash after reach (root after) t x)"

text \<open>
  An anchored entry is behind a region that gained a marker alone, and no region that touches its
  node did anything else; an edited one is behind a region that is no mint in either spelling.
\<close>

definition verdict_true :: "(str \<Rightarrow> str) \<Rightarrow> document \<Rightarrow> document \<Rightarrow> node_delta \<Rightarrow> bool" where
  "verdict_true hash before after d \<longleftrightarrow>
     (let regions = set (changed_regions (raw before) (raw after)) in
      (nd_change d = Anchored \<longrightarrow>
        (\<exists>ba \<in> regions. \<exists>x. region_touches hash after ba (nd_target d) x) \<and>
        (\<forall>ba \<in> regions. \<forall>x. region_touches hash after ba (nd_target d) x \<and> moved hash before (nd_target d) x \<longrightarrow>
           gains_only_marker hash before after ba)) \<and>
      (nd_change d = Edited \<longrightarrow>
        (\<exists>ba \<in> regions. (\<exists>x. region_touches hash after ba (nd_target d) x) \<and>
           \<not> mints_line hash before after ba \<and> \<not> mints_tail hash before after ba)))"

lemma region_events_iff:
  "(m, t, x) \<in> region_events hash before after (b, a) \<longleftrightarrow>
    anchor_mint hash before after b a = Some m \<and> region_touches hash after (b, a) t x"
  by (auto simp: region_events_def region_touches_def Let_def)

lemma verdicts_true:
  assumes ok: "doc_ok hash before" "doc_ok hash after" and ds: "node_deltas hash before after = Some ds" "d \<in> set ds"
  shows "verdict_true hash before after d"
proof -
  define regions where "regions = set (changed_regions (raw before) (raw after))"
  define E where "E = \<Union> (region_events hash before after ` regions)"
  have "nested (root after)" using ok(2) by (simp add: doc_ok_def)
  from node_deltas_settled [OF ok(1) this ds(1)] have acc: "accounts hash before E ds"
    by (simp add: settled_def E_def regions_def)
  have some: "\<exists>m. anchor_mint hash before after b a = Some m" if "(b, a) \<in> regions" for b a
    using anchor_mint_total [OF ok] region_good(1,2) [OF ok that [unfolded regions_def]] by blast
  have E: "(m, t, x) \<in> E \<longleftrightarrow> (\<exists>b a. (b, a) \<in> regions \<and> anchor_mint hash before after b a = Some m \<and>
      region_touches hash after (b, a) t x)" for m t x
    using region_events_iff unfolding E_def by fastforce
  have anchored: "gains_only_marker hash before after (b, a)"
    if r: "nd_change d = Anchored" "(b, a) \<in> regions" "region_touches hash after (b, a) (nd_target d) x"
      "moved hash before (nd_target d) x" for b a x
  proof -
    obtain m where m: "anchor_mint hash before after b a = Some m" using some r(2) by blast
    have "(False, nd_target d, x) \<notin> E" using acc ds(2) r(1,4) unfolding accounts_def by blast
    with E m r(2,3) have "m = True" by (cases m) auto
    with m have "anchor_mint hash before after b a = Some True" by simp
    then show ?thesis using mint_gains [OF ok] r(2) by (simp add: regions_def)
  qed
  have edited: "\<exists>ba \<in> regions. (\<exists>x. region_touches hash after ba (nd_target d) x) \<and>
      \<not> mints_line hash before after ba \<and> \<not> mints_tail hash before after ba" if e: "nd_change d = Edited"
  proof -
    obtain x where "(False, nd_target d, x) \<in> E" using acc ds(2) e unfolding accounts_def by blast
    then obtain b a where r: "(b, a) \<in> regions" "anchor_mint hash before after b a = Some False"
        "region_touches hash after (b, a) (nd_target d) x" using E by blast
    with spelled_mint [OF ok, of b a] show ?thesis by (auto simp: regions_def intro!: bexI [of _ "(b, a)"])
  qed
  have "\<exists>ba \<in> regions. \<exists>x. region_touches hash after ba (nd_target d) x" if "nd_change d = Anchored"
    using acc ds(2) that E unfolding accounts_def by blast
  moreover have "\<forall>ba \<in> regions. \<forall>x. region_touches hash after ba (nd_target d) x \<and> moved hash before (nd_target d) x \<longrightarrow>
      gains_only_marker hash before after ba" if "nd_change d = Anchored"
    using anchored that by auto
  ultimately show ?thesis using edited unfolding verdict_true_def regions_def [symmetric] Let_def by blast
qed

text \<open>What a region touches and what moved has an entry.\<close>

lemma touched_entered:
  assumes ok: "doc_ok hash before" "doc_ok hash after" and ds: "node_deltas hash before after = Some ds"
    and r: "(b, a) \<in> set (changed_regions (raw before) (raw after))" "region_touches hash after (b, a) t x" "moved hash before t x"
  shows "t \<in> targets ds"
proof -
  obtain m where "anchor_mint hash before after b a = Some m"
    using anchor_mint_total [OF ok] region_good(1,2) [OF ok r(1)] by blast
  with r(2) have "(m, t, x) \<in> region_events hash before after (b, a)" by (simp add: region_events_iff)
  with r(1) have mem: "(m, t, x) \<in> \<Union> (region_events hash before after ` set (changed_regions (raw before) (raw after)))"
    by (rule UN_I)
  have "nested (root after)" using ok(2) by (simp add: doc_ok_def)
  note acc = conjunct1 [OF node_deltas_settled [OF ok(1) this ds, unfolded settled_def]]
  show ?thesis by (rule accounts_moved [OF acc mem r(3)])
qed

lemma touches_answers:
  assumes "doc_ok hash after" "narrow (root after)" "touches hash after reach (root after) t x"
  shows "answers hash after t x"
proof -
  from assms(3) consider "touches_node hash after reach (root after) t x" | "touches_line hash after reach (root after) t x"
    unfolding touches_def by blast
  then show ?thesis
  proof cases
    case 1
    then obtain n where n: "n \<in> set (open_nodes (root after))" "frontmatter_keys (kind n) = None"
        "identity_of hash after n reach = Some (Some t)" "x = target_of n"
      unfolding touches_node_def by blast
    from identity_answers [OF assms(1,2) open_nodes_nodes [OF n(1)] n(2,3)] n(4) show ?thesis by simp
  next
    case 2
    then have "resolve hash after t = Some (Inr x)" unfolding touches_line_def by blast
    then show ?thesis by (simp add: answers_def)
  qed
qed

end
