(* ===== verification/Delta_Props.thy ===== *)
theory Delta_Props
  imports Delta_Events Sample
begin

text \<open>
  What the change facts of a file promise: the line diff is right and as fine as its anchors allow,
  what an entry says is true of the two states, and the regions of the diff leave entries for the
  deepest nodes they touch. Three computed examples show where the code says less than its contract.
\<close>

section \<open>The diff\<close>

text \<open>
  Claim C35. The line diff is sound: applying its regions as edits with the file writer turns the
  old text into the new one and, the other way round, the new one into the old; the regions are in
  order and none is empty on both sides, so there is none exactly when the texts are equal.
\<close>

theorem diff_turns_one_into_the_other:
  "apply_spans before (map (\<lambda>(b, a). (b, text_of after a)) (changed_regions before after)) = Some after \<and>
   apply_spans after (map (\<lambda>(b, a). (a, text_of before b)) (changed_regions before after)) = Some before \<and>
   within 0 (length before) (map fst (changed_regions before after)) \<and>
   within 0 (length after) (map snd (changed_regions before after)) \<and>
   (changed_regions before after = [] \<longleftrightarrow> before = after)"
proof -
  have swap: "map (\<lambda>(r, q). (r, g q)) (map prod.swap xs) = map (\<lambda>(b, a). (a, g b)) xs" for g :: "span \<Rightarrow> str" and xs
    by (induction xs) auto
  note c = regions_carry(1) [of before after] regions_carry(2) [of after before]
  have 1: "apply_spans before (map (\<lambda>(b, a). (b, text_of after a)) (changed_regions before after)) = Some after"
    using c(1) by (simp add: apply_spans_def carries_def apply_from_rebuild)
  have 2: "apply_spans after (map (\<lambda>(b, a). (a, text_of before b)) (changed_regions before after)) = Some before"
  proof -
    let ?es = "map (\<lambda>(r, q). (r, text_of before q)) (map prod.swap (changed_regions before after))"
    have "map fst ?es = map fst (map prod.swap (changed_regions before after))"
      unfolding map_map by (rule map_cong) auto
    then have "within 0 (length after) (map fst ?es)" using c(2) by (simp only: carries_def)
    from apply_from_rebuild [OF this] c(2) have "apply_spans after ?es = Some before"
      by (simp only: apply_spans_def carries_def sub_whole)
    then show ?thesis unfolding swap .
  qed
  have "before = after" if "changed_regions before after = []"
    using 1 that by (simp add: apply_spans_def byte_slice_in span_in_def)
  moreover have "changed_regions before before = []" by (simp add: changed_regions_def)
  moreover have "within 0 (length before) (map fst (changed_regions before after))"
    "within 0 (length after) (map snd (changed_regions before after))" using c(1) by (simp_all add: carries_def)
  ultimately show ?thesis using 1 2 by blast
qed

text \<open>The anchors a step may choose from: a line number on each side, the same line, once on each.\<close>

definition anchors_of :: "str \<Rightarrow> str \<Rightarrow> span \<Rightarrow> span \<Rightarrow> (nat \<times> nat) set" where
  "anchors_of before after b a =
     {(i, j). i \<in> {lo b ..< hi b} \<and> j \<in> {lo a ..< hi a} \<and>
        (let line = text_of before (line_spans before ! i) in
         text_of after (line_spans after ! j) = line \<and>
         (\<forall>k \<in> {lo b ..< hi b}. text_of before (line_spans before ! k) = line \<longrightarrow> k = i) \<and>
         (\<forall>k \<in> {lo a ..< hi a}. text_of after (line_spans after ! k) = line \<longrightarrow> k = j))}"

lemma anchors_of_pairs:
  "set (unique_pairs before after (line_spans before) (line_spans after) b a) = anchors_of before after b a"
proof (rule set_eqI)
  fix x :: "nat \<times> nat"
  obtain i j where x: "x = (i, j)" by (cases x)
  show "x \<in> set (unique_pairs before after (line_spans before) (line_spans after) b a) \<longleftrightarrow> x \<in> anchors_of before after b a"
    unfolding x unique_pairs_iff seen_lines_Some anchors_of_def Let_def mem_Collect_eq prod.case by blast
qed

text \<open>
  Claim C36. The anchors a step keeps are a longest chain: they are lines that occur once on each
  side of the two ranges, in order on both sides, and no list of such lines that is in order on
  both sides is longer.
\<close>

theorem anchor_chain_longest:
  "set (anchor_chain before after (line_spans before) (line_spans after) b a) \<subseteq> anchors_of before after b a \<and>
   climbs (anchor_chain before after (line_spans before) (line_spans after) b a) \<and>
   (\<forall>ys. climbs ys \<and> set ys \<subseteq> anchors_of before after b a \<longrightarrow>
      length ys \<le> length (anchor_chain before after (line_spans before) (line_spans after) b a))"
  unfolding anchors_of_pairs [symmetric] anchor_chain_def
  using longest_chain_sub longest_chain_laws [OF unique_pairs_ascend] by blast

theorem anchor_chain_longest_witness:
  "climbs [(2::nat, 0::nat)] \<and>
   set [(2, 0)] \<subseteq> anchors_of (nl_join [''a'', ''b'', ''c'']) (nl_join [''c'', ''a'', ''b'']) (Span 0 3) (Span 0 3) \<and>
   length [(2::nat, 0::nat)] \<le> length (anchor_chain (nl_join [''a'', ''b'', ''c'']) (nl_join [''c'', ''a'', ''b''])
      (line_spans (nl_join [''a'', ''b'', ''c''])) (line_spans (nl_join [''c'', ''a'', ''b''])) (Span 0 3) (Span 0 3))"
proof -
  have 1: "climbs [(2::nat, 0::nat)]" by (simp add: climbs_def)
  have "(2, 0) \<in> set (unique_pairs (nl_join [''a'', ''b'', ''c'']) (nl_join [''c'', ''a'', ''b''])
      (line_spans (nl_join [''a'', ''b'', ''c''])) (line_spans (nl_join [''c'', ''a'', ''b''])) (Span 0 3) (Span 0 3))"
    by code_simp
  then have 2: "set [(2, 0)] \<subseteq> anchors_of (nl_join [''a'', ''b'', ''c'']) (nl_join [''c'', ''a'', ''b'']) (Span 0 3) (Span 0 3)"
    by (simp add: anchors_of_pairs)
  show ?thesis
    using 1 2 anchor_chain_longest [of "nl_join [''a'', ''b'', ''c'']" "nl_join [''c'', ''a'', ''b'']" "Span 0 3" "Span 0 3"]
    by blast
qed


definition note_text :: str where
  "note_text = nl_join [''# A'', ''x'']"

definition note_items :: "node list" where
  "note_items = [Node (Section ''A'' 1) (Span 0 6) (rev_of sample_hash note_text) None []]"

definition note_doc :: document where
  "note_doc = \<lparr>raw = note_text, root = assign_hpath (sort_tree
     (Node (DocumentNode [] 2) (Span 0 6) (rev_of sample_hash note_text) None (nest_by_containment note_items)))\<rparr>"


definition grown_text :: str where
  "grown_text = nl_join [''# A'', ''yy'', ''# B'', ''z'']"

definition grown_items :: "node list" where
  "grown_items =
     [Node (Section ''A'' 1) (Span 0 7) (rev_of sample_hash (sub grown_text 0 7)) None [],
      Node (Section ''B'' 1) (Span 7 13) (rev_of sample_hash (sub grown_text 7 13)) None []]"

definition grown_doc :: document where
  "grown_doc = \<lparr>raw = grown_text, root = assign_hpath (sort_tree
     (Node (DocumentNode [] 4) (Span 0 13) (rev_of sample_hash grown_text) None (nest_by_containment grown_items)))\<rparr>"



section \<open>The entries\<close>



lemma note_grows:
  "map_option (map (\<lambda>d. (nd_target d, nd_change d))) (node_deltas sample_hash note_doc grown_doc) =
    Some [(Hpath [seg_of ''A''], Edited), (Hpath [seg_of ''B''], Added)]"
  by code_simp



section \<open>Where the facts say less than the contract\<close>

text \<open>A text, its parse and the document built of them.\<close>

definition shown :: "str \<Rightarrow> dialect_node list \<Rightarrow> document" where
  "shown s ds = \<lparr>raw = s, root = assign_hpath (sort_tree
     (Node (DocumentNode [] (length (lines s))) (Span 0 (length s)) (rev_of sample_hash s) None
       (nest_by_containment (case build_items sample_hash s ds of Some ns \<Rightarrow> ns | None \<Rightarrow> []))))\<rparr>"

lemma shown_build:
  "build_items sample_hash s ds \<noteq> None \<Longrightarrow> length (lines s) \<le> u32_max \<Longrightarrow> build sample_hash s ds = Some (shown s ds)"
  by (auto simp: shown_def simp del: sort_tree.simps intro!: build_from_items)

definition reported :: "document \<Rightarrow> document \<Rightarrow> (ref \<times> node_change_kind) list option" where
  "reported b a = map_option (map (\<lambda>d. (nd_target d, nd_change d))) (node_deltas sample_hash b a)"

text \<open>
  An appended section that is set off by a blank line is reported together with the section before
  it: the blank line is the older section's, and nothing trims it from the region.
\<close>

definition spaced_doc :: document where
  "spaced_doc = shown (nl_join [''# A'', ''x'', [], ''# B'', ''z''])
     [Dialect (DHeading 1 ''A'') (Span 0 3), Dialect (DHeading 1 ''B'') (Span 7 10)]"

lemma append_reports_host:
  "reported note_doc spaced_doc = Some [(Hpath [seg_of ''A''], Edited), (Hpath [seg_of ''B''], Added)]"
  by code_simp

text \<open>A mint is reported as one; a deleted line of the same section does not change that.\<close>

definition plain_doc :: document where
  "plain_doc = shown (nl_join [''# A'', ''p'', [], ''z'', ''r'']) [Dialect (DHeading 1 ''A'') (Span 0 3)]"

definition minted_doc :: document where
  "minted_doc = shown (nl_join [''# A'', ''p'', [], ''^i'', ''z'', ''r''])
     [Dialect (DHeading 1 ''A'') (Span 0 3), Dialect (DAnchor ''i'') (Span 7 9)]"

definition cut_doc :: document where
  "cut_doc = shown (nl_join [''# A'', ''p'', [], ''^i'', ''z''])
     [Dialect (DHeading 1 ''A'') (Span 0 3), Dialect (DAnchor ''i'') (Span 7 9)]"

lemma mint_and_loss_anchored:
  "reported plain_doc minted_doc = Some [(Hpath [seg_of ''A''], Anchored)]"
  "reported plain_doc cut_doc = Some [(Hpath [seg_of ''A''], Anchored)]"
  by code_simp+

text \<open>A section that only loses a line has no entry at all.\<close>

definition short_doc :: document where
  "short_doc = shown (nl_join [''# A'', ''p'', [], ''z'']) [Dialect (DHeading 1 ''A'') (Span 0 3)]"

lemma deletion_unreported:
  "reported plain_doc short_doc = Some [] \<and> node_rev (root plain_doc) \<noteq> node_rev (root short_doc)"
  by (rule conjI) code_simp+

text \<open>
  Nor has one that is edited within a block that holds a section on other lines: the block counts
  as the node to go down to, and has no identity itself.
\<close>

definition box_doc :: "str \<Rightarrow> document" where
  "box_doc l = (let e = 12 + length l in shown (nl_join [''# S'', ''> [!n]'', l, ''> ## A'', ''> ## B''])
     [Dialect (DHeading 1 ''S'') (Span 0 3), Dialect (DCallout ''n'' []) (Span 4 (e + 13)),
      Dialect (DHeading 2 ''A'') (Span (e + 2) (e + 6)), Dialect (DHeading 2 ''B'') (Span (e + 9) (e + 13))])"

lemma wrapped_edit_unreported:
  "reported (box_doc ''> x'') (box_doc ''> yy'') = Some [] \<and>
   resolve sample_hash (box_doc ''> x'') (Hpath [seg_of ''S'']) \<noteq> resolve sample_hash (box_doc ''> yy'') (Hpath [seg_of ''S''])"
  by (rule conjI) code_simp+

end
