(* ===== verification/Glob.thy ===== *)
theory Glob
  imports Rust_Slice
begin

text \<open>
  The glob grammar of \<^verbatim>\<open>crates/policy/src/declaration.rs\<close>: \<^verbatim>\<open>**\<close> as a segment stands for any run of
  segments, \<^verbatim>\<open>*\<close> inside a segment for any run of characters, all else for itself. A rule's scope, a
  capability's scope and the patterns of \<^verbatim>\<open>files[]\<close> are read by it.

  Rust compares characters and this model bytes. A literal of the pattern starts with the first
  byte of a character, so a run it follows ends where a character ends, and the verdicts agree.
\<close>

section \<open>Matching\<close>

definition star :: char where "star = CHR ''*''"
definition slash :: char where "slash = CHR ''/''"

fun star_match :: "str \<Rightarrow> str \<Rightarrow> bool" where
  "star_match [] t = (t = [])"
| "star_match (c # ps) t =
     (if c = star then star_match ps t \<or> (case t of [] \<Rightarrow> False | _ # t' \<Rightarrow> star_match (c # ps) t')
      else (case t of [] \<Rightarrow> False | h # t' \<Rightarrow> h = c \<and> star_match ps t'))"

definition segment_match :: "str \<Rightarrow> str \<Rightarrow> bool" where
  "segment_match pat t = star_match pat t"

definition any_depth :: str where "any_depth = ''**''"

fun seg_match :: "str list \<Rightarrow> str list \<Rightarrow> bool" where
  "seg_match [] t = (t = [])"
| "seg_match (s # ps) t =
     (if s = any_depth then seg_match ps t \<or> (case t of [] \<Rightarrow> False | _ # t' \<Rightarrow> seg_match (s # ps) t')
      else (case t of [] \<Rightarrow> False | h # t' \<Rightarrow> segment_match s h \<and> seg_match ps t'))"

definition glob_match :: "str \<Rightarrow> str \<Rightarrow> bool" where
  "glob_match pat path = seg_match (split_chr slash pat) (split_chr slash path)"

definition path_in_scope :: "str list \<Rightarrow> str \<Rightarrow> bool" where
  "path_in_scope scope path = (\<exists>g \<in> set scope. glob_match g path)"

section \<open>Subsumption\<close>

fun star_subsumes :: "str \<Rightarrow> str \<Rightarrow> bool" where
  "star_subsumes [] s = (s = [])"
| "star_subsumes (c # ps) s =
     (if c = star then star_subsumes ps s \<or> (case s of [] \<Rightarrow> False | _ # s' \<Rightarrow> star_subsumes (c # ps) s')
      else (case s of [] \<Rightarrow> False | h # s' \<Rightarrow> h = c \<and> h \<noteq> star \<and> star_subsumes ps s'))"

definition segment_subsumes :: "str \<Rightarrow> str \<Rightarrow> bool" where
  "segment_subsumes pat s = star_subsumes pat s"

fun seg_subsumes :: "str list \<Rightarrow> str list \<Rightarrow> bool" where
  "seg_subsumes [] s = (s = [])"
| "seg_subsumes (p # ps) s =
     (if p = any_depth then seg_subsumes ps s \<or> (case s of [] \<Rightarrow> False | _ # s' \<Rightarrow> seg_subsumes (p # ps) s')
      else (case s of [] \<Rightarrow> False | h # s' \<Rightarrow> h \<noteq> any_depth \<and> segment_subsumes p h \<and> seg_subsumes ps s'))"

definition glob_subsumes :: "str \<Rightarrow> str \<Rightarrow> bool" where
  "glob_subsumes outer inner = seg_subsumes (split_chr slash outer) (split_chr slash inner)"

section \<open>The members of \<^verbatim>\<open>files[]\<close>\<close>

definition is_glob_pattern :: "str \<Rightarrow> bool" where
  "is_glob_pattern m = (star \<in> set m)"

definition first_member_order_fault :: "str list \<Rightarrow> (nat \<times> nat) option" where
  "first_member_order_fault members =
     (case position is_glob_pattern members of
        None \<Rightarrow> None
      | Some pat \<Rightarrow>
          (case position (\<lambda>m. \<not> is_glob_pattern m) (drop (Suc pat) members) of
             None \<Rightarrow> None
           | Some lit \<Rightarrow> Some (pat, Suc pat + lit)))"

definition matched :: "str list \<Rightarrow> str \<Rightarrow> str list" where
  "matched corpus m = sort (filter (glob_match m) corpus)"

text \<open>\<^verbatim>\<open>retain\<close> with a set of what was seen: the first occurrence of each path stays.\<close>

fun retain_new :: "str set \<Rightarrow> str list \<Rightarrow> str list" where
  "retain_new seen [] = []"
| "retain_new seen (x # xs) =
     (if x \<in> seen then retain_new seen xs else x # retain_new (insert x seen) xs)"

fun expand_members :: "str list \<Rightarrow> str list \<Rightarrow> str list \<times> (str \<times> str list) list" where
  "expand_members [] corpus = ([], [])"
| "expand_members (m # ms) corpus =
     (case expand_members ms corpus of (paths, rows) \<Rightarrow>
        if is_glob_pattern m then (matched corpus m @ paths, (m, matched corpus m) # rows)
        else (m # paths, rows))"

definition expand_globs :: "str list \<Rightarrow> str list \<Rightarrow> str list \<times> (str \<times> str list) list" where
  "expand_globs members corpus =
     (case expand_members members corpus of (paths, rows) \<Rightarrow> (retain_new {} paths, rows))"

text \<open>
  The binding of a script's \<^verbatim>\<open>files[]\<close> in \<^verbatim>\<open>crates/registry/src/script_op.rs\<close>: a list out of
  order is refused, one without a pattern is taken as it is.
\<close>

definition bind_files :: "str list \<Rightarrow> str list \<Rightarrow> (nat \<times> nat) + (str list \<times> (str \<times> str list) list)" where
  "bind_files members corpus =
     (case first_member_order_fault members of
        Some fault \<Rightarrow> Inl fault
      | None \<Rightarrow> if \<exists>m \<in> set members. is_glob_pattern m then Inr (expand_globs members corpus) else Inr (members, []))"

end
