(* ===== verification/Glob_Laws.thy ===== *)
theory Glob_Laws
  imports Glob
begin

text \<open>
  The laws of the glob grammar. Characters in a segment and segments in a path are matched by the
  same scan, so both rest on one contract: \<open>wildcard\<close> for the matcher, \<open>wildcard_order\<close> for the
  subsumption check over it.
\<close>

section \<open>What a pattern spells\<close>

text \<open>
  The specification: the text falls into one block per item of the pattern, any block for a wild
  item and one fitting item for a plain one.
\<close>

definition spells :: "('p \<Rightarrow> bool) \<Rightarrow> ('p \<Rightarrow> 't \<Rightarrow> bool) \<Rightarrow> 'p list \<Rightarrow> 't list \<Rightarrow> bool" where
  "spells wild fits ps t \<longleftrightarrow>
     (\<exists>blocks. t = concat blocks \<and> list_all2 (\<lambda>p b. wild p \<or> (\<exists>x. b = [x] \<and> fits p x)) ps blocks)"

lemma spells_Nil: "spells wild fits [] t \<longleftrightarrow> t = []"
  by (auto simp: spells_def)

lemma spells_Cons:
  "spells wild fits (p # ps) t \<longleftrightarrow>
     (\<exists>b u. t = b @ u \<and> (wild p \<or> (\<exists>x. b = [x] \<and> fits p x)) \<and> spells wild fits ps u)"
proof
  show "\<exists>b u. t = b @ u \<and> (wild p \<or> (\<exists>x. b = [x] \<and> fits p x)) \<and> spells wild fits ps u"
    if x: "spells wild fits (p # ps) t"
  proof -
    from x obtain b bs where "t = concat (b # bs)" "wild p \<or> (\<exists>x. b = [x] \<and> fits p x)"
      "list_all2 (\<lambda>p b. wild p \<or> (\<exists>x. b = [x] \<and> fits p x)) ps bs"
      unfolding spells_def list_all2_Cons1 by blast
    moreover from this(3) have "spells wild fits ps (concat bs)" unfolding spells_def by blast
    ultimately show ?thesis by (intro exI [of _ b] exI [of _ "concat bs"]) simp
  qed
  assume "\<exists>b u. t = b @ u \<and> (wild p \<or> (\<exists>x. b = [x] \<and> fits p x)) \<and> spells wild fits ps u"
  then obtain b u where b: "t = b @ u" "wild p \<or> (\<exists>x. b = [x] \<and> fits p x)" "spells wild fits ps u" by blast
  then obtain blocks where "u = concat blocks"
    "list_all2 (\<lambda>p b. wild p \<or> (\<exists>x. b = [x] \<and> fits p x)) ps blocks" unfolding spells_def by blast
  with b have "t = concat (b # blocks)"
    "list_all2 (\<lambda>p b. wild p \<or> (\<exists>x. b = [x] \<and> fits p x)) (p # ps) (b # blocks)" by simp_all
  then show "spells wild fits (p # ps) t" unfolding spells_def by blast
qed

locale wildcard =
  fixes wild :: "'p \<Rightarrow> bool" and fits :: "'p \<Rightarrow> 't \<Rightarrow> bool" and accepts :: "'p list \<Rightarrow> 't list \<Rightarrow> bool"
  assumes accepts_Nil: "accepts [] t \<longleftrightarrow> t = []"
    and accepts_wild: "wild p \<Longrightarrow> accepts (p # ps) t \<longleftrightarrow> accepts ps t \<or> (\<exists>h t'. t = h # t' \<and> accepts (p # ps) t')"
    and accepts_plain: "\<not> wild p \<Longrightarrow> accepts (p # ps) t \<longleftrightarrow> (\<exists>h t'. t = h # t' \<and> fits p h \<and> accepts ps t')"
begin

lemma wild_skip: "wild p \<Longrightarrow> accepts ps t \<Longrightarrow> accepts (p # ps) t"
  by (subst accepts_wild) blast+

lemma wild_take: "wild p \<Longrightarrow> accepts (p # ps) t \<Longrightarrow> accepts (p # ps) (h # t)"
  by (subst accepts_wild) blast+

lemma wild_absorbs: "wild p \<Longrightarrow> accepts (p # ps) u \<Longrightarrow> accepts (p # ps) (b @ u)"
  by (induction b) (auto intro: wild_take)

lemma accepts_rest: "wild p \<Longrightarrow> accepts (p # ps) t \<longleftrightarrow> (\<exists>b u. t = b @ u \<and> accepts ps u)"
proof
  show "\<exists>b u. t = b @ u \<and> accepts ps u" if w: "wild p" and a: "accepts (p # ps) t"
    using a
  proof (induction t)
    case Nil
    then show ?case using accepts_wild [OF w, of ps "[]"] by simp
  next
    case (Cons h t)
    from Cons.prems consider "accepts ps (h # t)" | "accepts (p # ps) t"
      using accepts_wild [OF w, of ps "h # t"] by blast
    then show ?case
    proof cases
      case 1
      then show ?thesis by (intro exI [of _ "[]"] exI [of _ "h # t"]) simp
    next
      case 2
      from Cons.IH [OF this] obtain b u where "t = b @ u" "accepts ps u" by blast
      then show ?thesis by (intro exI [of _ "h # b"] exI [of _ u]) simp
    qed
  qed
  show "accepts (p # ps) t" if w: "wild p" and "\<exists>b u. t = b @ u \<and> accepts ps u"
    using that(2) wild_absorbs [OF w] wild_skip [OF w] by blast
qed

theorem accepts_spells: "accepts ps t \<longleftrightarrow> spells wild fits ps t"
proof (induction ps arbitrary: t)
  case (Cons p ps)
  show ?case
  proof (cases "wild p")
    case True
    then show ?thesis by (simp add: accepts_rest spells_Cons Cons)
  next
    case False
    have "(\<exists>h t'. t = h # t' \<and> fits p h \<and> spells wild fits ps t') \<longleftrightarrow>
        (\<exists>h t'. t = [h] @ t' \<and> fits p h \<and> spells wild fits ps t')" by simp
    also have "\<dots> \<longleftrightarrow> (\<exists>b u. t = b @ u \<and> (\<exists>x. b = [x] \<and> fits p x) \<and> spells wild fits ps u)" by blast
    finally have "(\<exists>h t'. t = h # t' \<and> fits p h \<and> spells wild fits ps t') \<longleftrightarrow>
        (\<exists>b u. t = b @ u \<and> (\<exists>x. b = [x] \<and> fits p x) \<and> spells wild fits ps u)" .
    with False show ?thesis by (simp only: accepts_plain spells_Cons Cons.IH simp_thms)
  qed
qed (simp add: accepts_Nil spells_Nil)

end

section \<open>Subsumption\<close>

locale wildcard_order = wildcard +
  fixes covers :: "'p \<Rightarrow> 'p \<Rightarrow> bool" and subsumes :: "'p list \<Rightarrow> 'p list \<Rightarrow> bool"
  assumes subsumes_Nil: "subsumes [] s \<longleftrightarrow> s = []"
    and subsumes_wild: "wild p \<Longrightarrow> subsumes (p # ps) s \<longleftrightarrow> subsumes ps s \<or> (\<exists>h s'. s = h # s' \<and> subsumes (p # ps) s')"
    and subsumes_plain: "\<not> wild p \<Longrightarrow>
      subsumes (p # ps) s \<longleftrightarrow> (\<exists>h s'. s = h # s' \<and> \<not> wild h \<and> covers p h \<and> subsumes ps s')"
    and covers_fits: "\<not> wild p \<Longrightarrow> \<not> wild q \<Longrightarrow> covers p q \<Longrightarrow> fits q x \<Longrightarrow> fits p x"
    and covers_self: "\<not> wild p \<Longrightarrow> covers p p"
begin

lemma over_skip: "wild p \<Longrightarrow> subsumes ps s \<Longrightarrow> subsumes (p # ps) s"
  by (subst subsumes_wild) blast+

lemma over_take: "wild p \<Longrightarrow> subsumes (p # ps) s \<Longrightarrow> subsumes (p # ps) (h # s)"
  by (subst subsumes_wild) blast+

lemma plain_covers: "\<not> wild p \<Longrightarrow> \<not> wild q \<Longrightarrow> covers p q \<Longrightarrow> subsumes ps qs \<Longrightarrow> subsumes (p # ps) (q # qs)"
  by (subst subsumes_plain) blast+

lemma plain_fits: "\<not> wild p \<Longrightarrow> fits p x \<Longrightarrow> accepts ps t \<Longrightarrow> accepts (p # ps) (x # t)"
  by (subst accepts_plain) blast+

theorem subsumes_sound: "subsumes ps qs \<Longrightarrow> accepts qs t \<Longrightarrow> accepts ps t"
proof (induction "length ps + length qs" arbitrary: ps qs t rule: less_induct)
  case less
  show ?case
  proof (cases ps)
    case Nil
    then show ?thesis using less.prems by (simp add: subsumes_Nil)
  next
    case (Cons p ps')
    show ?thesis
    proof (cases "wild p")
      case plain: False
      from less.prems(1) obtain q qs' where q: "qs = q # qs'" "\<not> wild q" "covers p q" "subsumes ps' qs'"
        using subsumes_plain [OF plain] Cons by blast
      from less.prems(2) obtain x t' where t: "t = x # t'" "fits q x" "accepts qs' t'"
        using accepts_plain [OF q(2)] q(1) by blast
      from less.hyps [OF _ q(4) t(3)] have "accepts ps' t'" using Cons q by simp
      then show ?thesis using plain_fits [OF plain covers_fits [OF plain q(2,3) t(2)]] Cons t(1) by simp
    next
      case wild: True
      then consider "subsumes ps' qs" | q qs' where "qs = q # qs'" "subsumes ps qs'"
        using less.prems(1) subsumes_wild [OF wild, of ps' qs] Cons by blast
      then show ?thesis
      proof cases
        case 1
        then have "accepts ps' t" using less.hyps [OF _ 1 less.prems(2)] Cons by simp
        then show ?thesis using wild_skip [OF wild] Cons by simp
      next
        case 2
        obtain b u where u: "t = b @ u" "accepts qs' u"
        proof (cases "wild q")
          case True
          show ?thesis using less.prems(2) that accepts_rest [OF True, of qs' t] 2(1) by blast
        next
          case False
          obtain h t' where "t = h # t'" "accepts qs' t'"
            using less.prems(2) accepts_plain [OF False, of qs' t] 2(1) by blast
          then show ?thesis using that [of "[h]" t'] by simp
        qed
        then have "accepts ps u" using less.hyps [OF _ 2(2) u(2)] 2(1) by simp
        then show ?thesis using wild_absorbs [OF wild] Cons u(1) by simp
      qed
    qed
  qed
qed

lemma subsumes_refl: "subsumes ps ps"
proof (induction ps)
  case (Cons p ps)
  then show ?case
    by (cases "wild p") (auto intro: over_take over_skip plain_covers covers_self)
qed (simp add: subsumes_Nil)

text \<open>
  A text that tells patterns apart: it takes for each item of the inner pattern one that is fit only
  for what covers the item, and for a wild item one that fits no plain item of the outer pattern.
\<close>

theorem subsumes_complete:
  assumes "\<And>p q. p \<in> set ps \<Longrightarrow> q \<in> set qs \<Longrightarrow> \<not> wild p \<Longrightarrow> fits p (pick q) \<Longrightarrow> \<not> wild q \<and> covers p q"
    and "accepts ps (map pick qs)"
  shows "subsumes ps qs"
  using assms
proof (induction "length ps + length qs" arbitrary: ps qs rule: less_induct)
  case less
  note tell = less.prems(1)
  show ?case
  proof (cases ps)
    case Nil
    then show ?thesis using less.prems by (simp add: accepts_Nil subsumes_Nil)
  next
    case (Cons p ps')
    show ?thesis
    proof (cases "wild p")
      case plain: False
      then obtain q qs' where q: "qs = q # qs'" "fits p (pick q)" "accepts ps' (map pick qs')"
        using less.prems(2) accepts_plain [OF plain, of ps' "map pick qs"] Cons by (auto simp: map_eq_Cons_conv)
      have "subsumes ps' qs'" by (rule less.hyps) (use tell q Cons in auto)
      then show ?thesis using tell [of p q] q plain Cons by (auto intro: plain_covers)
    next
      case wild: True
      then consider "accepts ps' (map pick qs)" | q qs' where "qs = q # qs'" "accepts ps (map pick qs')"
        using less.prems(2) accepts_wild [OF wild, of ps' "map pick qs"] Cons by (auto simp: map_eq_Cons_conv)
      then show ?thesis
      proof cases
        case 1
        have "subsumes ps' qs" by (rule less.hyps) (use 1 tell Cons in auto)
        then show ?thesis using over_skip [OF wild] Cons by simp
      next
        case 2
        have "subsumes ps qs'" by (rule less.hyps) (use 2 tell in auto)
        then show ?thesis using over_take [OF wild] Cons 2(1) by simp
      qed
    qed
  qed
qed

lemma accepts_pick: "(\<And>q. q \<in> set qs \<Longrightarrow> \<not> wild q \<Longrightarrow> fits q (pick q)) \<Longrightarrow> accepts qs (map pick qs)"
proof (induction qs)
  case (Cons q qs)
  then show ?case
    by (cases "wild q") (auto intro: wild_take wild_skip plain_fits)
qed (simp add: accepts_Nil)

end

section \<open>Characters and segments\<close>

interpretation segment: wildcard_order "\<lambda>c. c = star" "\<lambda>c h. h = c" star_match "\<lambda>p q. q = p" star_subsumes
  by unfold_locales (auto split: list.splits)

interpretation path: wildcard_order "\<lambda>s. s = any_depth" segment_match seg_match segment_subsumes seg_subsumes
proof
  show "segment_match p x" if "segment_subsumes p q" "segment_match q x" for p q x
    using that segment.subsumes_sound by (simp add: segment_match_def segment_subsumes_def)
qed (auto split: list.splits simp: segment_subsumes_def segment.subsumes_refl)

end
