(* ===== verification/Glob_Props.thy ===== *)
theory Glob_Props
  imports Glob_Laws
begin

text \<open>What the glob grammar promises its callers: scopes, capabilities and the members of a script.\<close>

section \<open>Matching\<close>

text \<open>
  A glob matches exactly the paths it spells: the segments of the path fall into one block
  per segment of the glob, any block for \<open>**\<close> and a single segment otherwise, whose characters in
  turn fall into one block per character, any block for \<open>*\<close> and that character otherwise.
\<close>

theorem glob_match_spells:
  "glob_match pat path \<longleftrightarrow>
     spells (\<lambda>s. s = any_depth) (spells (\<lambda>c. c = star) (\<lambda>c h. h = c)) (split_chr slash pat) (split_chr slash path)"
proof -
  have "spells (\<lambda>c. c = star) (\<lambda>c h. h = c) = segment_match"
    by (intro ext) (simp add: segment.accepts_spells [symmetric] segment_match_def)
  then show ?thesis by (simp add: glob_match_def path.accepts_spells)
qed

section \<open>Subsumption\<close>

lemma stars_empty: "star_match p [] \<Longrightarrow> set p \<subseteq> {star}"
  by (induction p) (auto split: if_splits)

lemma stars_only: "star_match p [f] \<Longrightarrow> f \<notin> set p \<Longrightarrow> p \<noteq> [] \<and> set p \<subseteq> {star}"
proof (induction p)
  case (Cons c p)
  have c: "c = star"
    using Cons.prems by (simp split: if_splits)
  from Cons.prems(1) consider "star_match p [f]" | "star_match (star # p) []"
    unfolding c by auto
  then show ?case
  proof cases
    case 1
    then show ?thesis using Cons.IH Cons.prems(2) c by simp
  next
    case 2
    then show ?thesis using stars_empty [OF 2] c by simp
  qed
qed simp

text \<open>The inner segment with each wildcard replaced by a character the outer glob does not name.\<close>

definition sample_segment :: "char \<Rightarrow> str \<Rightarrow> str" where
  "sample_segment f q = (if q = any_depth then [f] else map (\<lambda>c. if c = star then f else c) q)"

definition bare_star :: "str \<Rightarrow> bool" where
  "bare_star s \<longleftrightarrow> s \<noteq> [] \<and> s \<noteq> any_depth \<and> set s \<subseteq> {star}"

lemma sample_tells:
  assumes "f \<notin> set p" "\<not> bare_star p" "p \<noteq> any_depth" "segment_match p (sample_segment f q)"
  shows "q \<noteq> any_depth \<and> segment_subsumes p q"
proof
  show q: "q \<noteq> any_depth"
    using assms stars_only [of p f] by (auto simp: sample_segment_def segment_match_def bare_star_def)
  show "segment_subsumes p q"
    unfolding segment_subsumes_def
  proof (rule segment.subsumes_complete)
    show "star_match p (map (\<lambda>c. if c = star then f else c) q)"
      using assms(4) q by (simp add: segment_match_def sample_segment_def)
    show "d \<noteq> star \<and> d = c" if "c \<in> set p" "(if d = star then f else d) = c" for c d
      using that assms(1) by (auto split: if_splits)
  qed
qed

lemma sample_fits: "q \<noteq> any_depth \<Longrightarrow> segment_match q (sample_segment f q)"
  using segment.accepts_pick [of q "\<lambda>c. if c = star then f else c"]
  by (simp add: segment_match_def sample_segment_def)

lemma sample_no_slash: "f \<noteq> slash \<Longrightarrow> slash \<notin> set q \<Longrightarrow> slash \<notin> set (sample_segment f q)"
  by (auto simp: sample_segment_def)

lemma in_set_join: "p \<in> set ps \<Longrightarrow> c \<in> set p \<Longrightarrow> c \<in> set (join sep ps)"
  by (induction sep ps rule: join.induct) auto

text \<open>
  Subsumption is sound: a glob that subsumes another matches every path the other
  matches. It is also complete, unless a segment of the outer glob is made of single stars only
  (\<open>*/**\<close> over \<open>**/x\<close> is the case the code gives up on).
\<close>

theorem glob_subsumes_exact:
  assumes "f \<notin> set outer" "f \<noteq> slash" "f \<noteq> star"
  shows "(glob_subsumes outer inner \<longrightarrow> (\<forall>path. glob_match inner path \<longrightarrow> glob_match outer path)) \<and>
    ((\<forall>s \<in> set (split_chr slash outer). \<not> bare_star s) \<and>
       (\<forall>path. glob_match inner path \<longrightarrow> glob_match outer path) \<longrightarrow> glob_subsumes outer inner)"
proof (intro conjI impI)
  let ?out = "split_chr slash outer" and ?inn = "split_chr slash inner"
  assume "glob_subsumes outer inner"
  then show "\<forall>path. glob_match inner path \<longrightarrow> glob_match outer path"
    using path.subsumes_sound by (auto simp: glob_subsumes_def glob_match_def)
next
  let ?out = "split_chr slash outer" and ?inn = "split_chr slash inner"
  let ?path = "join [slash] (map (sample_segment f) ?inn)"
  assume all: "(\<forall>s \<in> set ?out. \<not> bare_star s) \<and> (\<forall>path. glob_match inner path \<longrightarrow> glob_match outer path)"
  have parts: "split_chr slash ?path = map (sample_segment f) ?inn"
    by (rule split_chr_join) (use sample_no_slash [OF assms(2)] split_chr_parts in fastforce)+
  have "seg_match ?inn (map (sample_segment f) ?inn)"
    by (rule path.accepts_pick) (rule sample_fits)
  then have "glob_match inner ?path" using parts by (simp add: glob_match_def)
  then have "glob_match outer ?path" using all by blast
  then have out: "seg_match ?out (map (sample_segment f) ?inn)" using parts by (simp add: glob_match_def)
  have fresh: "f \<notin> set p" if "p \<in> set ?out" for p
  proof
    assume "f \<in> set p"
    with that have "f \<in> set (join [slash] ?out)" by (rule in_set_join)
    then show False using assms(1) by (simp add: join_split_chr)
  qed
  show "glob_subsumes outer inner"
    unfolding glob_subsumes_def
    by (rule path.subsumes_complete [OF _ out]) (use sample_tells fresh all in blast)
qed

theorem glob_subsumes_exact_witness:
  "(glob_subsumes ''a/**'' ''a/*/b'' \<longrightarrow> (\<forall>path. glob_match ''a/*/b'' path \<longrightarrow> glob_match ''a/**'' path)) \<and>
    ((\<forall>s \<in> set (split_chr slash ''a/**''). \<not> bare_star s) \<and>
       (\<forall>path. glob_match ''a/*/b'' path \<longrightarrow> glob_match ''a/**'' path) \<longrightarrow> glob_subsumes ''a/**'' ''a/*/b'')"
  by (rule glob_subsumes_exact [of "CHR ''z''"]) (simp_all add: slash_def star_def)

lemma single_star_gives_up:
  "\<not> glob_subsumes ''*/**'' ''**/x''" "glob_match ''*/**'' path"
proof -
  show "\<not> glob_subsumes ''*/**'' ''**/x''" by code_simp
  have any: "star_match [star] t" for t by (induction t) auto
  have deep: "seg_match [any_depth] t" for t by (induction t) auto
  have "split_chr slash ''*/**'' = [[star], any_depth]" by code_simp
  then show "glob_match ''*/**'' path"
    using any deep by (cases "split_chr slash path") (simp_all add: glob_match_def segment_match_def star_def any_depth_def)
qed

section \<open>The members of a script\<close>

lemma retain_new_append: "retain_new seen (xs @ ys) = retain_new seen xs @ retain_new (seen \<union> set xs) ys"
  by (induction xs arbitrary: seen) (auto simp: insert_absorb)

lemma retain_new_laws: "set (retain_new seen xs) = set xs - seen" "distinct (retain_new seen xs)"
proof -
  show 1: "set (retain_new seen xs) = set xs - seen" for seen xs
    by (induction xs arbitrary: seen) auto
  show "distinct (retain_new seen xs)"
    by (induction xs arbitrary: seen) (auto simp: 1)
qed

lemma retain_new_id: "distinct xs \<Longrightarrow> set xs \<inter> seen = {} \<Longrightarrow> retain_new seen xs = xs"
  by (induction xs arbitrary: seen) auto

lemma expand_members_eq:
  "expand_members ms corpus =
     (concat (map (\<lambda>m. if is_glob_pattern m then matched corpus m else [m]) ms),
      map (\<lambda>m. (m, matched corpus m)) (filter is_glob_pattern ms))"
  by (induction ms) auto

lemma position_split:
  "position p xs = Some i \<longleftrightarrow> i < length xs \<and> p (xs ! i) \<and> (\<forall>x \<in> set (take i xs). \<not> p x)"
  "position p xs = None \<longleftrightarrow> (\<forall>x \<in> set xs. \<not> p x)"
proof -
  show "position p xs = Some i \<longleftrightarrow> i < length xs \<and> p (xs ! i) \<and> (\<forall>x \<in> set (take i xs). \<not> p x)"
  proof (induction xs arbitrary: i)
    case (Cons x xs)
    then show ?case by (cases i) auto
  qed simp
  show "position p xs = None \<longleftrightarrow> (\<forall>x \<in> set xs. \<not> p x)" by (induction xs) auto
qed

text \<open>A list in order is its literals, then its patterns.\<close>

lemma literals_first:
  assumes "first_member_order_fault ms = None"
  obtains lits pats where "ms = lits @ pats" "\<forall>m \<in> set lits. \<not> is_glob_pattern m" "\<forall>m \<in> set pats. is_glob_pattern m"
proof (cases "position is_glob_pattern ms")
  case None
  then show ?thesis using that [of ms "[]"] by (auto simp: position_split)
next
  case (Some i)
  then have i: "i < length ms" "is_glob_pattern (ms ! i)" "\<forall>m \<in> set (take i ms). \<not> is_glob_pattern m"
    by (simp_all add: position_split)
  have "\<forall>m \<in> set (drop (Suc i) ms). is_glob_pattern m"
    using assms Some by (auto simp: first_member_order_fault_def position_split split: option.splits)
  then have "\<forall>m \<in> set (drop i ms). is_glob_pattern m"
    using i by (simp flip: Cons_nth_drop_Suc)
  then show ?thesis using that [of "take i ms" "drop i ms"] i(3) by simp
qed

text \<open>
  The list a script's members bind to. A list with a pattern before a literal is refused,
  and the refusal names two such members. Otherwise, when no literal is repeated, every literal keeps
  its own index, no path occurs twice, the paths are the literals and what the patterns match in the
  corpus, and there is one row per pattern, in order, with its matches sorted.
\<close>

theorem files_bind_literals_in_place:
  assumes "distinct (filter (\<lambda>m. \<not> is_glob_pattern m) members)"
  shows "case bind_files members corpus of
      Inl (p, l) \<Rightarrow> p < l \<and> l < length members \<and> is_glob_pattern (members ! p) \<and> \<not> is_glob_pattern (members ! l)
    | Inr (files, rows) \<Rightarrow>
        (\<forall>i < length members. is_glob_pattern (members ! i) \<or> i < length files \<and> files ! i = members ! i) \<and>
        distinct files \<and>
        set files = {m \<in> set members. \<not> is_glob_pattern m} \<union>
          {path \<in> set corpus. \<exists>m \<in> set members. is_glob_pattern m \<and> glob_match m path} \<and>
        rows = map (\<lambda>m. (m, sort (filter (glob_match m) corpus))) (filter is_glob_pattern members)"
proof (cases "first_member_order_fault members")
  case (Some pl)
  then show ?thesis
    by (auto simp: bind_files_def first_member_order_fault_def position_split split: option.splits)
next
  case None
  from literals_first [OF None] obtain lits pats where ms: "members = lits @ pats"
    "\<forall>m \<in> set lits. \<not> is_glob_pattern m" "\<forall>m \<in> set pats. is_glob_pattern m" by blast
  have dis: "distinct lits" using assms ms by (simp add: filter_True filter_False)
  show ?thesis
  proof (cases "pats = []")
    case True
    then show ?thesis using ms dis None by (auto simp: bind_files_def)
  next
    case False
    then have some: "\<exists>m \<in> set members. is_glob_pattern m" using ms by (cases pats) auto
    let ?g = "\<lambda>m. if is_glob_pattern m then matched corpus m else [m]"
    have lits: "concat (map ?g lits) = lits" using ms(2) by (induction lits) auto
    have pats: "set (concat (map ?g pats)) = {path \<in> set corpus. \<exists>m \<in> set pats. glob_match m path}"
      using ms(3) by (auto simp: matched_def)
    have files: "bind_files members corpus =
        Inr (lits @ retain_new (set lits) (concat (map ?g pats)),
          map (\<lambda>m. (m, matched corpus m)) (filter is_glob_pattern members))"
      using None some dis lits ms(1)
      by (simp add: bind_files_def expand_globs_def expand_members_eq retain_new_append retain_new_id)
    have at: "lits ! i = members ! i \<and> i < length lits" if "i < length members" "\<not> is_glob_pattern (members ! i)" for i
    proof (cases "i < length lits")
      case False
      then have "pats ! (i - length lits) \<in> set pats" using that ms(1) by (simp add: nth_append)
      then show ?thesis using False that ms by (simp add: nth_append)
    qed (use ms(1) in \<open>simp add: nth_append\<close>)
    have 1: "\<forall>i < length members. is_glob_pattern (members ! i) \<or>
        i < length (lits @ retain_new (set lits) (concat (map ?g pats))) \<and>
        (lits @ retain_new (set lits) (concat (map ?g pats))) ! i = members ! i"
    proof (intro allI impI)
      fix i assume i: "i < length members"
      show "is_glob_pattern (members ! i) \<or>
          i < length (lits @ retain_new (set lits) (concat (map ?g pats))) \<and>
          (lits @ retain_new (set lits) (concat (map ?g pats))) ! i = members ! i"
      proof (cases "is_glob_pattern (members ! i)")
        case False
        from at [OF i False] show ?thesis by (simp add: nth_append trans_less_add1)
      qed simp
    qed
    have 2: "distinct (lits @ retain_new (set lits) (concat (map ?g pats)))"
      using dis by (simp add: retain_new_laws)
    have 3: "set (lits @ retain_new (set lits) (concat (map ?g pats))) = {m \<in> set members. \<not> is_glob_pattern m} \<union>
          {path \<in> set corpus. \<exists>m \<in> set members. is_glob_pattern m \<and> glob_match m path}"
      unfolding set_append retain_new_laws pats using ms by auto
    show ?thesis unfolding files using 1 2 3 by (simp only: sum.case prod.case matched_def)
  qed
qed

theorem files_bind_literals_in_place_witness:
  "case bind_files [''b'', ''a'', ''n/*''] [''n/2'', ''n/1'', ''a''] of
      Inl (p, l) \<Rightarrow> p < l \<and> l < length [''b'', ''a'', ''n/*''] \<and> is_glob_pattern ([''b'', ''a'', ''n/*''] ! p) \<and>
        \<not> is_glob_pattern ([''b'', ''a'', ''n/*''] ! l)
    | Inr (files, rows) \<Rightarrow>
        (\<forall>i < length [''b'', ''a'', ''n/*'']. is_glob_pattern ([''b'', ''a'', ''n/*''] ! i) \<or>
           i < length files \<and> files ! i = [''b'', ''a'', ''n/*''] ! i) \<and>
        distinct files \<and>
        set files = {m \<in> set [''b'', ''a'', ''n/*'']. \<not> is_glob_pattern m} \<union>
          {path \<in> set [''n/2'', ''n/1'', ''a'']. \<exists>m \<in> set [''b'', ''a'', ''n/*'']. is_glob_pattern m \<and> glob_match m path} \<and>
        rows = map (\<lambda>m. (m, sort (filter (glob_match m) [''n/2'', ''n/1'', ''a'']))) (filter is_glob_pattern [''b'', ''a'', ''n/*''])"
  by (rule files_bind_literals_in_place) (simp add: is_glob_pattern_def star_def)

text \<open>
  A literal named twice moves the literals after it, and \<^verbatim>\<open>files[2]\<close> below is a path the caller did
  not name; without a pattern the same members keep their indexes.
\<close>

lemma repeated_literal_shifts:
  "bind_files [''a'', ''a'', ''b'', ''n/*''] [''n/1''] = Inr ([''a'', ''b'', ''n/1''], [(''n/*'', [''n/1''])])"
  "bind_files [''a'', ''a'', ''b''] [''n/1''] = Inr ([''a'', ''a'', ''b''], [])"
  by code_simp+

end
