(* ===== verification/Spec2Isabelle.thy ===== *)
theory Spec2Isabelle
  imports Mounts Stored Lock_Props Loss_Props Radix_Props Ring_Props Merkle_Props Group_Props Set_Props Delta_Props Glob_Props
begin

text \<open>
  A verification development for Meridian, an engine that governs a workspace of Markdown files:
  it gives every file, section, line anchor and frontmatter key an address and a revision, lets
  clients change them by compare and swap, folds the workspace into one root token, and pushes
  what changed to its subscribers. The program is the Rust workspace under
  \<^verbatim>\<open>src/crates\<close>; names of files below are relative to it.

  \<^bold>\<open>The parts and how they interact.\<close> A request names its target by an address of the agent
  plane (\<^verbatim>\<open>addr\<close>), resolved against the mounted roots; a link in a document is the stored form
  of the same address. A document is read into a tree of nodes with spans and revisions
  (\<^verbatim>\<open>model\<close>); a selector is resolved in that tree to a byte range; a batch of edits is validated
  against it, sealed, and its bytes are written by \<^verbatim>\<open>fs\<close>, one batch with its receipt, a set of
  files, or a transaction whose record on disk makes it recoverable. A lock block in a document
  (\<^verbatim>\<open>lock\<close>) records revisions. The digests of all files fold into the corpus root, flat
  (\<^verbatim>\<open>model\<close>) or by directory tries (\<^verbatim>\<open>fs\<close>), named by a versioned token; each advance of the
  root is a frame in the ring of \<^verbatim>\<open>wire-serve\<close>, from which the daemon of \<^verbatim>\<open>registry\<close> pushes to
  subscribers and answers a client that resumes.

  \<^bold>\<open>The theories.\<close>

  \<^descr> \<open>Rust_Str\<close>, \<open>Rust_Slice\<close>, \<open>Keyed\<close>: the prelude. Texts as character lists, the operations of
    \<^verbatim>\<open>str\<close> the crates use, results as sums, byte ranges with the panic of a slice that cuts a
    character, ordered maps as sorted association lists, and the locales \<open>keyed_table\<close> and
    \<open>erasable_table\<close>: the contract of a table written by "replace the record of that key", which
    the mount set, the lock's pins and the trie each discharge by an interpretation.

  \<^descr> \<open>Addr\<close>, \<open>Mounts\<close>, \<open>Stored\<close>: \<^verbatim>\<open>addr/src/lib.rs\<close> (\<open>Addr\<close>, \<open>MountName\<close>, \<open>MountSet\<close>) and
    \<^verbatim>\<open>addr/src/stored.rs\<close> (the percent codec, \<open>encode\<close>, \<open>decode\<close>). Reading and printing are
    inverse; the refusals are the colon law's, rule by rule; the mount lookups agree for every
    sequence of builders; a stored address is accepted in the writer's spelling only, with one
    exception that is proved.

  \<^descr> \<open>Lock\<close>, \<open>Lock_Round\<close>, \<open>Lock_Props\<close>: \<^verbatim>\<open>lock/src/lib.rs\<close>, the canonical text of a lock
    value and its reader: round trips in both directions, and where the reader is laxer than
    its contract.

  \<^descr> \<open>Doc_Tree\<close>, \<open>Build\<close>, \<open>Tree_Laws\<close>, \<open>Build_Laws\<close>, \<open>Build_Total\<close>: \<^verbatim>\<open>model/src/lib.rs\<close>,
    \<open>build\<close>: from the list of syntax nodes to the tree. Every node lies in its parent, carries the
    revision of its own bytes, and a section carries the heading path that leads to it. The build
    does not panic when the spans of the list cut the text at characters, in the order of their
    starts, and the lines of its frontmatter block are indented by ASCII blanks.

  \<^descr> \<open>Frontmatter\<close>, \<open>Resolve\<close>, \<open>Resolve_Laws\<close>, \<open>Resolve_Props\<close>: the frontmatter reader and the
    lookup of heading paths, anchors and keys. A path without occurrence numbers is read up to the
    first step that does not lead to exactly one section: it resolves when there is none, else it is
    not found or ambiguous by what that step finds, whatever follows. Occurrence numbers reach each
    section.

  \<^descr> \<open>Splice\<close>, \<open>Plan_Laws\<close>, \<open>Splice_Laws\<close>, \<open>Splice_Props\<close>, \<open>Batch_Props\<close>, \<open>Loss_Props\<close>,
    with the document of \<open>Sample\<close> for witnesses: \<open>validate_batch\<close>, every rung in the order of
    the code, and the three writers of a sealed batch (\<open>candidate_of_batch\<close>, \<open>apply_spans\<close>,
    and the file writer of \<^verbatim>\<open>fs/src/lib.rs\<close>). A batch that validates saw the root and the
    revisions it was guarded by, its edits are disjoint, the writers agree, the heading path of a
    section it does not touch is still found. Validation itself returns under the two conditions on
    the parse that the build needs. \<open>Loss_Props\<close> holds the inputs on which a guard refuses or passes
    wrongly, or a reader panics.

  \<^descr> \<open>Diff\<close>, \<open>Diff_Laws\<close>, \<open>Delta\<close>, \<open>Delta_Laws\<close>, \<open>Delta_Reach\<close>, \<open>Delta_Events\<close>, \<open>Delta_Props\<close>:
    \<^verbatim>\<open>model/src/delta.rs\<close>, the change facts of a file. The line diff turns each text into the other
    and keeps a longest chain of anchors. What an entry says of the two documents is so, the verdict
    "anchored" being about the regions of the diff that have a place in the new state; each of these
    leaves an entry for the deepest nodes it touches. What is not reported is shown by examples: a
    line that is only deleted, and an edit in a block that holds a section on other lines. The locales
    \<open>text_lines\<close> and \<open>two_texts\<close> hold what the diff needs of a cutting of a text into lines.

  \<^descr> \<open>Uleb\<close>, \<open>Radix\<close>, \<open>Radix_Laws\<close>, \<open>Radix_Canon\<close>, \<open>Radix_Props\<close>: \<^verbatim>\<open>fs/src/radix.rs\<close>, the hashed
    trie of a directory's entries. It refines a map; its shape and hashes forget the history;
    its hash identifies its contents; an operation hashes a bounded number of vertices.

  \<^descr> \<open>Merkle\<close>, \<open>Merkle_Props\<close>, \<open>Root_Token\<close>, \<open>Root_Props\<close>: the flat corpus root, the base
    members' fold and the versioned root tokens of \<^verbatim>\<open>model/src/lib.rs\<close>: the root is independent
    of the listing order and identifies the leaves; a token is read back exactly, and a held
    token is classified by what moved since it was minted.

  \<^descr> \<open>Ring\<close>, \<open>Ring_Props\<close>: \<^verbatim>\<open>wire-serve/src/ring.rs\<close> and the turn of \<open>push_loop\<close> of
    \<^verbatim>\<open>registry/src/server.rs\<close>. The allocator is a step relation over any number of threads, one
    step per atomic access; sequence numbers are not reissued under any interleaving that stays below
    the \<open>2 ^ 64\<close> at which the counter wraps, and one is beyond it. A resumed subscriber misses nothing
    while its backlog fits the window, and does otherwise. A frozen session is sent frames of its own
    vocabulary only.

  \<^descr> \<open>Crash_Io\<close>, \<open>Atomic_Write\<close>: a disk whose every system call may go through, fail after part of
    its effect, or be the last one of the process, as a schedule says; a state and error monad over
    it with Hoare triples that have one postcondition per outcome; and the locale \<open>atomic_writer\<close>,
    the contract of a writer that goes through a temporary file, which the record writer of
    \<open>Intent_Laws\<close> and the staging writer of \<open>Commit_Laws\<close> both discharge.

  \<^descr> \<open>Commit\<close>, \<open>Commit_Laws\<close>, \<open>Batch_Commit\<close>, \<open>Set_Commit\<close>, \<open>Set_Rollback\<close>, \<open>Set_Rules\<close>,
    \<open>Set_Apply\<close>, \<open>Set_Whole\<close>, \<open>Commit_Props\<close>, \<open>Set_Props\<close>: the writers of \<^verbatim>\<open>fs/src/lib.rs\<close>:
    one file, the two-file commit \<open>apply_batch\<close>, the set commit \<open>apply_set\<close> with its rollback from
    memory. No file is torn, the receipt changes last, an error names what it leaves behind; and
    the promises that a failing directory sync and a failing lookup before a birth break.

  \<^descr> \<open>Regions\<close>, \<open>Intent\<close>, \<open>Intent_Laws\<close>: \<^verbatim>\<open>fs/src/intent.rs\<close>, the checksummed record of a
    transaction and of a group, and the reservation table and state owner of
    \<^verbatim>\<open>wire-serve/src/publish.rs\<close>. A record reads back as it was written, a torn one does not read;
    no two admitted transactions share a path that one of them writes, for regions other than the
    folder spelled with the empty prefix, which claims nothing.

  \<^descr> \<open>Glob\<close>, \<open>Glob_Laws\<close>, \<open>Glob_Props\<close>: the glob grammar of \<^verbatim>\<open>policy/src/declaration.rs\<close> and the
    binding of a script's files in \<^verbatim>\<open>registry/src/script_op.rs\<close>. The locales \<open>wildcard\<close> and
    \<open>wildcard_order\<close> hold the one argument that segments and characters share: matching is the
    language of the pattern, subsumption is sound and, but for a named shape, complete. Literals keep
    their place among the files unless one is repeated.

  \<^descr> \<open>Publish\<close>, \<open>Publish_Laws\<close>, \<open>Recovery_Laws\<close>, \<open>Publish_Steps\<close>, \<open>Crash_Laws\<close>,
    \<open>Crash_Props\<close>, \<open>Group_Props\<close>: the publish path (reserve, verify, decide, rename, finalize) and
    recovery. Whatever fails and however often recovery itself is cut off, one recovery that runs
    through leaves every transaction complete or untouched; a group settles member by member.

  \<^bold>\<open>Conventions.\<close> A panic is \<^const>\<open>None\<close>, an error the left of a sum. Integers have their width
  where the code's arithmetic can wrap (the ladder of root tokens, the ring's counter, taken
  modulo \<open>2 ^ 64\<close>); spans are natural numbers, since they index a text in memory. The hash
  (BLAKE3) and the Markdown parser are parameters of the definitions that call them: \<open>hash\<close> and
  \<open>parse\<close>. What is said under the hypothesis that the hash does not collide names the finite
  set of inputs it has to be injective on, and has a witness with a concrete function. On the disk
  a panic halts the run as a crash does. Recursion is structural or has a measure; no definition
  uses fuel.

  \<^bold>\<open>Not modelled.\<close> The Markdown parser (third party); the corpus index and the walk plane of
  \<^verbatim>\<open>model\<close>; reading, watching and hydration in \<^verbatim>\<open>fs\<close>; the loss of written data when the
  power fails, the clock readings of a receipt and path names that are not text; Starlark rules and the run plane
  (third-party interpreter, subprocesses); the SQL view (third-party database); the request arms
  of \<^verbatim>\<open>wire-serve\<close> and the threads, sockets and timers of \<^verbatim>\<open>registry\<close>; rendering, the command
  line, and the byte accounting of heap use that many types carry.
\<close>

end
